(* ===== verification/Prelude.thy ===== *)
theory Prelude
  imports Main "HOL-Library.Word"
begin

text \<open>
  Shared vocabulary of the development: the fact collections, generic facts on lists and
  options, ranges, and the ordered map (\<^verbatim>\<open>BTreeMap\<close>/\<^verbatim>\<open>BTreeSet\<close>) of the Rust standard
  library as a strictly sorted association list, with the interface \<open>ordered_map\<close> that its
  clients rely on.
\<close>

named_theorems btree_simps "lookup and key facts of the ordered map"
named_theorems range_simps "length and membership facts of half-open ranges"

unbundle bit_operations_syntax

section \<open>Results\<close>

text \<open>
  A \<^verbatim>\<open>Result<T>\<close> is a sum, the error on the left. \<open>bindE\<close> is the \<^verbatim>\<open>?\<close> operator and
  \<open>ensureE\<close> the \<^verbatim>\<open>ensure!\<close> macro.
\<close>

definition bindE :: "'e + 'a \<Rightarrow> ('a \<Rightarrow> 'e + 'b) \<Rightarrow> 'e + 'b" where
  "bindE r f = (case r of Inl e \<Rightarrow> Inl e | Inr x \<Rightarrow> f x)"

definition ensureE :: "bool \<Rightarrow> 'e \<Rightarrow> 'e + 'a \<Rightarrow> 'e + 'a" where
  "ensureE c e r = (if c then r else Inl e)"

lemma bindE_simps [simp]: "bindE (Inl e) f = Inl e" "bindE (Inr x) f = f x"
  by (simp_all add: bindE_def)

lemma bindE_cong [fundef_cong]:
  "r = r' \<Longrightarrow> (\<And>x. r' = Inr x \<Longrightarrow> f x = f' x) \<Longrightarrow> bindE r f = bindE r' f'"
  by (cases r') (auto simp: bindE_def)

lemma bindE_Inr_iff: "bindE r f = Inr y \<longleftrightarrow> (\<exists>x. r = Inr x \<and> f x = Inr y)"
  by (cases r) auto

lemma bindE_Inr_elim [elim!]:
  assumes "bindE r f = Inr y"
  obtains x where "r = Inr x" "f x = Inr y"
  using assms by (cases r) auto

lemma ensureE_simps [simp]: "ensureE True e r = r" "ensureE False e r = Inl e"
  by (simp_all add: ensureE_def)

lemma ensureE_cong [fundef_cong]:
  "c = c' \<Longrightarrow> e = e' \<Longrightarrow> (c' \<Longrightarrow> r = r') \<Longrightarrow> ensureE c e r = ensureE c' e' r'"
  by (simp add: ensureE_def)

lemma ensureE_Inr_iff [simp]: "ensureE c e r = Inr y \<longleftrightarrow> c \<and> r = Inr y"
  by (simp add: ensureE_def)

text \<open>Loops that stop at the first error.\<close>

fun foldE :: "('a \<Rightarrow> 'b \<Rightarrow> 'e + 'b) \<Rightarrow> 'a list \<Rightarrow> 'b \<Rightarrow> 'e + 'b" where
  "foldE f [] s = Inr s"
| "foldE f (x # xs) s = bindE (f x s) (\<lambda>s. foldE f xs s)"

fun mapE :: "('a \<Rightarrow> 'e + 'b) \<Rightarrow> 'a list \<Rightarrow> 'e + 'b list" where
  "mapE f [] = Inr []"
| "mapE f (x # xs) = bindE (f x) (\<lambda>y. bindE (mapE f xs) (\<lambda>ys. Inr (y # ys)))"

lemma foldE_append: "foldE f (xs @ ys) s = bindE (foldE f xs s) (foldE f ys)"
  by (induction xs arbitrary: s) (simp_all add: bindE_def split: sum.split)

lemma foldE_invariant:
  "foldE f xs s = Inr s' \<Longrightarrow> P s \<Longrightarrow> (\<And>x s s'. x \<in> set xs \<Longrightarrow> P s \<Longrightarrow> f x s = Inr s' \<Longrightarrow> P s') \<Longrightarrow> P s'"
  by (induction xs arbitrary: s) auto

lemma foldE_cong:
  "xs = ys \<Longrightarrow> s = s' \<Longrightarrow> (\<And>x s. x \<in> set ys \<Longrightarrow> f x s = g x s) \<Longrightarrow> foldE f xs s = foldE g ys s'"
  by (induction xs arbitrary: ys s s') (auto intro!: bindE_cong)

section \<open>Half-open ranges\<close>

text \<open>A \<^verbatim>\<open>Range<usize>\<close>: start (inclusive) and end (exclusive).\<close>

type_synonym range = "nat \<times> nat"

definition range_len :: "range \<Rightarrow> nat" where
  "range_len r = snd r - fst r"

definition range_empty :: "range \<Rightarrow> bool" where
  "range_empty r \<longleftrightarrow> \<not> fst r < snd r"

definition slice :: "'a list \<Rightarrow> range \<Rightarrow> 'a list" where
  "slice xs r = take (snd r - fst r) (drop (fst r) xs)"

lemma range_len_pair [range_simps, simp]: "range_len (a, b) = b - a"
  by (simp add: range_len_def)

lemma range_empty_pair [range_simps, simp]: "range_empty (a, b) \<longleftrightarrow> b \<le> a"
  by (auto simp: range_empty_def)

lemma length_slice [simp]: "b \<le> length xs \<Longrightarrow> length (slice xs (a, b)) = b - a"
  by (simp add: slice_def)

lemma slice_same [simp]: "slice xs (a, a) = []"
  by (simp add: slice_def)

lemma slice_all [simp]: "slice xs (0, length xs) = xs"
  by (simp add: slice_def)

lemma slice_append_slice:
  assumes "a \<le> b" "b \<le> c" "c \<le> length xs"
  shows "slice xs (a, b) @ slice xs (b, c) = slice xs (a, c)"
proof -
  have "take (b - a) (drop a xs) @ take (c - b) (drop b xs) = take ((b - a) + (c - b)) (drop a xs)"
    using assms by (simp only: take_add drop_drop) simp
  moreover have "(b - a) + (c - b) = c - a" using assms by simp
  ultimately show ?thesis unfolding slice_def by simp
qed

lemma slice_Suc:
  assumes "a < length xs"
  shows "slice xs (a, Suc a) = [xs ! a]"
  using assms by (simp add: slice_def take_Suc_conv_app_nth)

lemma slice_to_end: "slice xs (a, length xs) = drop a xs"
  by (simp add: slice_def)

section \<open>Machine arithmetic on \<^verbatim>\<open>usize\<close> and \<^verbatim>\<open>u64\<close> (64 bits)\<close>

definition u64_max :: nat where
  "u64_max = 2 ^ 64 - 1"

definition saturating_mul :: "nat \<Rightarrow> nat \<Rightarrow> nat" where
  "saturating_mul a b = min (a * b) u64_max"

definition saturating_add :: "nat \<Rightarrow> nat \<Rightarrow> nat" where
  "saturating_add a b = min (a + b) u64_max"

definition checked_add :: "nat \<Rightarrow> nat \<Rightarrow> nat option" where
  "checked_add a b = (if a + b \<le> u64_max then Some (a + b) else None)"

definition checked_sub :: "nat \<Rightarrow> nat \<Rightarrow> nat option" where
  "checked_sub a b = (if b \<le> a then Some (a - b) else None)"

lemma saturating_mul_le [simp]: "saturating_mul a b \<le> u64_max"
  by (simp add: saturating_mul_def)

lemma saturating_mul_le_small: "c < u64_max \<Longrightarrow> saturating_mul a b \<le> c \<longleftrightarrow> a * b \<le> c"
  by (auto simp: saturating_mul_def)

section \<open>List facts\<close>

text \<open>
  \<^verbatim>\<open>slice::partition_point\<close> returns the number of leading elements that satisfy the predicate
  (the standard library requires that they precede all others).
\<close>

definition partition_point :: "('a \<Rightarrow> bool) \<Rightarrow> 'a list \<Rightarrow> nat" where
  "partition_point p xs = length (takeWhile p xs)"

lemma partition_point_le [simp]: "partition_point p xs \<le> length xs"
  by (simp add: partition_point_def length_takeWhile_le)

lemma partition_point_Nil [simp]: "partition_point p [] = 0"
  by (simp add: partition_point_def)

lemma partition_point_nth: "i < partition_point p xs \<Longrightarrow> p (xs ! i)"
  by (metis nth_mem partition_point_def set_takeWhileD takeWhile_nth)

lemma partition_point_not_nth:
  "partition_point p xs < length xs \<Longrightarrow> \<not> p (xs ! partition_point p xs)"
  unfolding partition_point_def by (metis nth_length_takeWhile)

text \<open>\<^verbatim>\<open>sort_unstable\<close> on a totally ordered type of values agrees with \<open>sort\<close>.\<close>

lemma strict_sorted_sort: "distinct xs \<Longrightarrow> sorted_wrt (<) (sort xs)"
  by (simp add: strict_sorted_iff)

lemma distinct_map_sort: "distinct (map f (sort xs)) \<longleftrightarrow> distinct (map f xs)"
  by (simp add: distinct_map)

lemma set_list_update_subset: "x \<in> set (xs[i := v]) \<Longrightarrow> x = v \<or> x \<in> set xs"
  using set_update_subset_insert [of xs i v] by auto

lemma remdups_adj_snoc:
  "remdups_adj (xs @ [x]) = (if xs \<noteq> [] \<and> last xs = x then remdups_adj xs else remdups_adj xs @ [x])"
  by (induction xs rule: remdups_adj.induct) auto

lemma distinct_remdups_adj_sorted: "sorted xs \<Longrightarrow> distinct (remdups_adj xs)"
proof (induction xs rule: rev_induct)
  case (snoc x xs)
  have "x \<notin> set xs" if "xs = [] \<or> last xs \<noteq> x"
  proof
    assume "x \<in> set xs"
    with that have "xs \<noteq> []" "last xs \<noteq> x" by auto
    moreover have "x \<le> last xs" using \<open>x \<in> set xs\<close> snoc.prems by (cases xs rule: rev_cases) (auto simp: sorted_append)
    moreover have "last xs \<le> x" using snoc.prems calculation(1) by (simp add: sorted_append)
    ultimately show False by simp
  qed
  with snoc show ?case by (auto simp: remdups_adj_snoc sorted_append)
qed simp

lemma foldr_max_le: "foldr max (ns :: nat list) 0 \<le> d \<longleftrightarrow> (\<forall>n\<in>set ns. n \<le> d)"
  by (induction ns) auto

lemma map_filter_iff: "y \<in> set (List.map_filter f xs) \<longleftrightarrow> (\<exists>x \<in> set xs. f x = Some y)"
  by (force simp: List.map_filter_def)

section \<open>The ordered map\<close>

type_synonym ('k, 'v) btree = "('k \<times> 'v) list"

definition bt_ok :: "('k::linorder, 'v) btree \<Rightarrow> bool" where
  "bt_ok m \<longleftrightarrow> sorted_wrt (<) (map fst m)"

fun bt_insert :: "'k::linorder \<Rightarrow> 'v \<Rightarrow> ('k, 'v) btree \<Rightarrow> ('k, 'v) btree" where
  "bt_insert k v [] = [(k, v)]"
| "bt_insert k v ((k', v') # m) =
     (if k < k' then (k, v) # (k', v') # m
      else if k = k' then (k, v) # m
      else (k', v') # bt_insert k v m)"

definition bt_get :: "('k, 'v) btree \<Rightarrow> 'k \<Rightarrow> 'v option" where
  "bt_get m k = map_of m k"

definition bt_keys :: "('k, 'v) btree \<Rightarrow> 'k list" where
  "bt_keys m = map fst m"

definition bt_contains :: "('k, 'v) btree \<Rightarrow> 'k \<Rightarrow> bool" where
  "bt_contains m k \<longleftrightarrow> k \<in> set (bt_keys m)"

text \<open>\<^verbatim>\<open>entry(k).or_default()\<close> followed by an in-place change of the value.\<close>

definition bt_upsert :: "'k::linorder \<Rightarrow> 'v \<Rightarrow> ('v \<Rightarrow> 'v) \<Rightarrow> ('k, 'v) btree \<Rightarrow> ('k, 'v) btree" where
  "bt_upsert k d f m = bt_insert k (f (case bt_get m k of None \<Rightarrow> d | Some v \<Rightarrow> v)) m"

definition bt_last :: "('k, 'v) btree \<Rightarrow> ('k \<times> 'v) option" where
  "bt_last m = (if m = [] then None else Some (last m))"

definition bt_pop_last :: "('k, 'v) btree \<Rightarrow> ('k, 'v) btree" where
  "bt_pop_last m = butlast m"

lemma bt_get_Nil [btree_simps, simp]: "bt_get [] k = None"
  by (simp add: bt_get_def)

lemma bt_get_insert [btree_simps, simp]:
  "bt_get (bt_insert k v m) k' = (if k' = k then Some v else bt_get m k')"
  by (induction m) (auto simp: bt_get_def)

lemma set_bt_keys_insert [btree_simps, simp]:
  "set (bt_keys (bt_insert k v m)) = insert k (set (bt_keys m))"
  by (induction k v m rule: bt_insert.induct) (simp_all add: bt_keys_def insert_commute)

lemma bt_get_eq_None_iff [btree_simps]: "bt_get m k = None \<longleftrightarrow> k \<notin> set (bt_keys m)"
  by (auto simp: bt_get_def bt_keys_def map_of_eq_None_iff)

lemma bt_ok_Nil [simp]: "bt_ok []"
  by (simp add: bt_ok_def)

lemma bt_ok_keys_sorted: "bt_ok m \<Longrightarrow> sorted (bt_keys m) \<and> distinct (bt_keys m)"
  by (simp add: bt_ok_def bt_keys_def strict_sorted_iff)

lemma bt_ok_insert [intro, simp]: "bt_ok m \<Longrightarrow> bt_ok (bt_insert k v m)"
proof (induction m)
  case Nil
  then show ?case by (simp add: bt_ok_def)
next
  case (Cons a m)
  obtain k' v' where a: "a = (k', v')" by force
  have "set (map fst (bt_insert k v m)) = insert k (set (map fst m))"
    using set_bt_keys_insert [of k v m] by (simp add: bt_keys_def)
  with Cons a show ?case by (fastforce simp: bt_ok_def)
qed

lemma bt_get_upsert [btree_simps, simp]:
  "bt_get (bt_upsert k d f m) k' =
     (if k' = k then Some (f (case bt_get m k of None \<Rightarrow> d | Some v \<Rightarrow> v)) else bt_get m k')"
  by (simp add: bt_upsert_def)

lemma bt_ok_upsert [intro, simp]: "bt_ok m \<Longrightarrow> bt_ok (bt_upsert k d f m)"
  by (simp add: bt_upsert_def)

lemma set_bt_keys_upsert [btree_simps, simp]:
  "set (bt_keys (bt_upsert k d f m)) = insert k (set (bt_keys m))"
  by (simp add: bt_upsert_def)

lemma bt_get_Some_mem: "bt_ok m \<Longrightarrow> bt_get m k = Some v \<longleftrightarrow> (k, v) \<in> set m"
  unfolding bt_get_def
  by (rule map_of_eq_Some_iff) (use bt_ok_keys_sorted [of m] in \<open>simp add: bt_keys_def\<close>)

section \<open>The interface of an ordered map\<close>

text \<open>
  What the clients of \<^verbatim>\<open>BTreeMap\<close> rely on: lookup after insertion, and that the keys come out
  strictly ascending.
\<close>

locale ordered_map =
  fixes ok :: "'m \<Rightarrow> bool"
    and get :: "'m \<Rightarrow> 'k::linorder \<Rightarrow> 'v option"
    and ins :: "'k \<Rightarrow> 'v \<Rightarrow> 'm \<Rightarrow> 'm"
    and keys :: "'m \<Rightarrow> 'k list"
  assumes get_ins: "get (ins k v m) k' = (if k' = k then Some v else get m k')"
    and ok_ins: "ok m \<Longrightarrow> ok (ins k v m)"
    and keys_get: "get m k = None \<longleftrightarrow> k \<notin> set (keys m)"
    and keys_sorted: "ok m \<Longrightarrow> sorted_wrt (<) (keys m)"
begin

lemma set_keys_ins: "set (keys (ins k v m)) = insert k (set (keys m))"
proof (rule set_eqI)
  fix x
  have "x \<in> set (keys (ins k v m)) \<longleftrightarrow> get (ins k v m) x \<noteq> None"
    using keys_get by metis
  also have "\<dots> \<longleftrightarrow> x = k \<or> get m x \<noteq> None" by (simp add: get_ins)
  finally show "x \<in> set (keys (ins k v m)) \<longleftrightarrow> x \<in> insert k (set (keys m))"
    using keys_get by (metis insert_iff)
qed

lemma keys_ins_present: "ok m \<Longrightarrow> k \<in> set (keys m) \<Longrightarrow> keys (ins k v m) = keys m"
  by (intro strict_sorted_equal) (auto intro: keys_sorted ok_ins simp: set_keys_ins)

text \<open>Inserting a whole list of pairs: the keys are exactly those seen, in ascending order.\<close>

lemma fold_ins:
  assumes "ok m"
  shows "ok (fold (\<lambda>(k, v). ins k v) kvs m) \<and>
         set (keys (fold (\<lambda>(k, v). ins k v) kvs m)) = set (keys m) \<union> fst ` set kvs"
  using assms by (induction kvs arbitrary: m) (simp_all add: ok_ins set_keys_ins split_beta)

lemma keys_fold_ins:
  assumes "ok m"
  shows "keys (fold (\<lambda>(k, v). ins k v) kvs m) = sorted_list_of_set (set (keys m) \<union> fst ` set kvs)"
proof (rule strict_sorted_equal)
  show "sorted_wrt (<) (keys (fold (\<lambda>(k, v). ins k v) kvs m))"
    using fold_ins [OF assms] keys_sorted by blast
qed (simp_all add: fold_ins [OF assms] strict_sorted_list_of_set)

end

interpretation bt: ordered_map bt_ok bt_get bt_insert bt_keys
proof unfold_locales
  show "\<And>m. bt_ok m \<Longrightarrow> sorted_wrt (<) (bt_keys m)"
    by (simp add: bt_ok_def bt_keys_def)
qed (auto simp: bt_get_eq_None_iff)

end
