(* ===== verification/Alignment.thy ===== *)
theory Alignment
  imports Prelude "HOL-Library.Product_Lexorder"
begin

text \<open>
  The sequence alignment of \<^verbatim>\<open>src/src/history/sequence.rs\<close>: patience alignment on the elements
  that are unique on both sides, with an exact longest-common-subsequence fallback for blocks of
  at most 262144 cells. \<open>matches\<close> returns the aligned index pairs and \<open>edits\<close> the
  replacements between them. A \<^verbatim>\<open>Vec\<close> used as a stack is a list whose head is its top; a
  \<^verbatim>\<open>Vec\<close> that only grows is a list extended at its end.
\<close>

record edit =
  ed_old :: range
  ed_new :: range

section \<open>Definitions\<close>

text \<open>The two trimming loops; each returns the new bounds and the pairs it pushed.\<close>

function trim_front ::
  "'a list \<Rightarrow> 'a list \<Rightarrow> nat \<Rightarrow> nat \<Rightarrow> nat \<Rightarrow> nat \<Rightarrow> nat \<times> nat \<times> (nat \<times> nat) list" where
  "trim_front a b x xe y ye =
     (if x < xe \<and> y < ye \<and> a ! x = b ! y
      then let (x', y', out) = trim_front a b (x + 1) xe (y + 1) ye in (x', y', (x, y) # out)
      else (x, y, []))"
  by pat_completeness auto
termination
  by (relation "measure (\<lambda>(a, b, x, xe, y, ye). xe - x)") auto

function trim_back ::
  "'a list \<Rightarrow> 'a list \<Rightarrow> nat \<Rightarrow> nat \<Rightarrow> nat \<Rightarrow> nat \<Rightarrow> nat \<times> nat \<times> (nat \<times> nat) list" where
  "trim_back a b x xe y ye =
     (if x < xe \<and> y < ye \<and> a ! (xe - 1) = b ! (ye - 1)
      then let (xe', ye', out) = trim_back a b x (xe - 1) y (ye - 1)
           in (xe', ye', (xe - 1, ye - 1) # out)
      else (xe, ye, []))"
  by pat_completeness auto
termination
  by (relation "measure (\<lambda>(a, b, x, xe, y, ye). xe)") auto

declare trim_front.simps [simp del] trim_back.simps [simp del]

text \<open>
  \<^verbatim>\<open>positions\<close>: for each element, how often and where (last) it occurs on either side.
\<close>

type_synonym occurrence_count = "nat \<times> nat \<times> nat \<times> nat"

definition count_old :: "nat \<Rightarrow> occurrence_count \<Rightarrow> occurrence_count" where
  "count_old i p = (case p of (n, _, m, j) \<Rightarrow> (n + 1, i, m, j))"

definition count_new :: "nat \<Rightarrow> occurrence_count \<Rightarrow> occurrence_count" where
  "count_new j p = (case p of (n, i, m, _) \<Rightarrow> (n, i, m + 1, j))"

definition positions ::
  "'a::linorder list \<Rightarrow> 'a list \<Rightarrow> range \<Rightarrow> range \<Rightarrow> ('a, occurrence_count) btree" where
  "positions a b ar br =
     fold (\<lambda>j m. bt_upsert (b ! j) (0, 0, 0, 0) (count_new j) m) [fst br..<snd br]
       (fold (\<lambda>i m. bt_upsert (a ! i) (0, 0, 0, 0) (count_old i) m) [fst ar..<snd ar] [])"

definition unique_pairs :: "'a::linorder list \<Rightarrow> 'a list \<Rightarrow> range \<Rightarrow> range \<Rightarrow> (nat \<times> nat) list" where
  "unique_pairs a b ar br =
     sort (map (\<lambda>(k, n, i, m, j). (i, j))
       (filter (\<lambda>(k, n, i, m, j). n = 1 \<and> m = 1) (positions a b ar br)))"

text \<open>The dynamic programme: a table of \<open>(n + 1) * (m + 1)\<close> cells filled from its end.\<close>

definition dp_cell ::
  "'a list \<Rightarrow> 'a list \<Rightarrow> nat \<Rightarrow> nat \<Rightarrow> nat \<Rightarrow> nat list \<Rightarrow> nat \<Rightarrow> nat \<Rightarrow> nat" where
  "dp_cell a b x y width dp i j =
     (if a ! (x + i) = b ! (y + j) then 1 + dp ! ((i + 1) * width + j + 1)
      else max (dp ! ((i + 1) * width + j)) (dp ! (i * width + j + 1)))"

definition dp_row ::
  "'a list \<Rightarrow> 'a list \<Rightarrow> nat \<Rightarrow> nat \<Rightarrow> nat \<Rightarrow> nat \<Rightarrow> nat list \<Rightarrow> nat list" where
  "dp_row a b x y m i dp =
     fold (\<lambda>j dp. dp[i * (m + 1) + j := dp_cell a b x y (m + 1) dp i j]) (rev [0..<m]) dp"

definition dp_table :: "'a list \<Rightarrow> 'a list \<Rightarrow> nat \<Rightarrow> nat \<Rightarrow> nat \<Rightarrow> nat \<Rightarrow> nat list" where
  "dp_table a b x y n m =
     fold (dp_row a b x y m) (rev [0..<n]) (replicate ((n + 1) * (m + 1)) 0)"

function lcs_walk ::
  "'a list \<Rightarrow> 'a list \<Rightarrow> nat \<Rightarrow> nat \<Rightarrow> nat \<Rightarrow> nat \<Rightarrow> nat list \<Rightarrow> nat \<Rightarrow> nat \<Rightarrow> (nat \<times> nat) list" where
  "lcs_walk a b x y n m dp i j =
     (if i < n \<and> j < m
      then if a ! (x + i) = b ! (y + j)
           then (x + i, y + j) # lcs_walk a b x y n m dp (i + 1) (j + 1)
           else if dp ! (i * (m + 1) + j + 1) \<le> dp ! ((i + 1) * (m + 1) + j)
           then lcs_walk a b x y n m dp (i + 1) j
           else lcs_walk a b x y n m dp i (j + 1)
      else [])"
  by pat_completeness auto
termination
  by (relation "measure (\<lambda>(a, b, x, y, n, m, dp, i, j). (n - i) + (m - j))") auto

declare lcs_walk.simps [simp del]

definition exact_pairs :: "'a list \<Rightarrow> 'a list \<Rightarrow> range \<Rightarrow> range \<Rightarrow> (nat \<times> nat) list" where
  "exact_pairs a b ar br =
     (if saturating_mul (range_len ar) (range_len br) \<le> 262144
      then lcs_walk a b (fst ar) (fst br) (range_len ar) (range_len br)
             (dp_table a b (fst ar) (fst br) (range_len ar) (range_len br)) 0 0
      else [])"

text \<open>The patience piles: \<open>tails\<close> holds the top index of each pile, \<open>previous\<close> the back links.\<close>

definition pile_step ::
  "(nat \<times> nat) list \<Rightarrow> nat \<Rightarrow> nat list \<times> nat option list \<Rightarrow> nat list \<times> nat option list" where
  "pile_step u i st = (case st of (tails, previous) \<Rightarrow>
     let k = partition_point (\<lambda>index. snd (u ! index) < snd (u ! i)) tails;
         previous' = (if 0 < k then previous[i := Some (tails ! (k - 1))] else previous);
         tails' = (if k = length tails then tails @ [i] else tails[k := i])
     in (tails', previous'))"

definition piles :: "(nat \<times> nat) list \<Rightarrow> nat list \<times> nat option list" where
  "piles u = fold (pile_step u) [0..<length u] ([], replicate (length u) None)"

text \<open>
  Following the back links visits strictly smaller indices, so \<open>length u\<close> steps are enough
  (lemma \<open>chain_back_enough\<close>).
\<close>

fun chain_back :: "nat \<Rightarrow> (nat \<times> nat) list \<Rightarrow> nat option list \<Rightarrow> nat option \<Rightarrow> (nat \<times> nat) list" where
  "chain_back 0 u previous index = []"
| "chain_back (Suc fuel) u previous None = []"
| "chain_back (Suc fuel) u previous (Some i) = u ! i # chain_back fuel u previous (previous ! i)"

definition patience_chain :: "(nat \<times> nat) list \<Rightarrow> (nat \<times> nat) list" where
  "patience_chain u = (case piles u of (tails, previous) \<Rightarrow>
     rev (chain_back (length u) u previous (if tails = [] then None else Some (last tails))))"

text \<open>The walk along the chain (with the end of the block as its last element): the blocks
  between neighbours are pushed, the chain itself is emitted.\<close>

fun gap_walk ::
  "nat \<Rightarrow> nat \<Rightarrow> nat \<Rightarrow> (nat \<times> nat) list \<Rightarrow> (range \<times> range) list \<times> (nat \<times> nat) list" where
  "gap_walk xe x y [] = ([], [])"
| "gap_walk xe x y ((i, j) # chain) =
     (case gap_walk xe (i + 1) (j + 1) chain of (blocks, out) \<Rightarrow>
       ((if x < i \<and> y < j then ((x, i), (y, j)) # blocks else blocks),
        (if i < xe then (i, j) # out else out)))"

text \<open>One iteration of the main loop: the blocks it pushes (in push order) and the pairs it emits.\<close>

definition align_block ::
  "'a::linorder list \<Rightarrow> 'a list \<Rightarrow> range \<times> range \<Rightarrow> (range \<times> range) list \<times> (nat \<times> nat) list" where
  "align_block a b block = (case block of ((x0, xe0), (y0, ye0)) \<Rightarrow>
     (case trim_front a b x0 xe0 y0 ye0 of (x, y, front) \<Rightarrow>
     (case trim_back a b x xe0 y ye0 of (xe, ye, rear) \<Rightarrow>
       if range_empty (x, xe) \<or> range_empty (y, ye) then ([], front @ rear)
       else let u = unique_pairs a b (x, xe) (y, ye) in
         if u = [] then ([], front @ rear @ exact_pairs a b (x, xe) (y, ye))
         else (case gap_walk xe x y (patience_chain u @ [(xe, ye)]) of (blocks, out) \<Rightarrow>
           (blocks, front @ rear @ out)))))"

section \<open>Boxes: the geometry of the recursion\<close>

text \<open>
  An aligned pair is a box of one cell, a pending block a larger one. Two boxes are separated
  when one lies before the other on both sides; the loop keeps all its boxes separated.
\<close>

type_synonym box = "range \<times> range"

definition cell :: "nat \<times> nat \<Rightarrow> box" where
  "cell p = ((fst p, fst p + 1), (snd p, snd p + 1))"

definition box_ok :: "box \<Rightarrow> bool" where
  "box_ok r \<longleftrightarrow> fst (fst r) \<le> snd (fst r) \<and> fst (snd r) \<le> snd (snd r)"

definition inside :: "box \<Rightarrow> box \<Rightarrow> bool" where
  "inside r q \<longleftrightarrow> box_ok r \<and> fst (fst q) \<le> fst (fst r) \<and> snd (fst r) \<le> snd (fst q) \<and>
     fst (snd q) \<le> fst (snd r) \<and> snd (snd r) \<le> snd (snd q)"

definition before :: "box \<Rightarrow> box \<Rightarrow> bool" where
  "before r q \<longleftrightarrow> snd (fst r) \<le> fst (fst q) \<and> snd (snd r) \<le> fst (snd q)"

definition separated :: "box \<Rightarrow> box \<Rightarrow> bool" where
  "separated r q \<longleftrightarrow> before r q \<or> before q r"

lemmas box_defs = cell_def box_ok_def inside_def before_def separated_def

definition box_weight :: "box \<Rightarrow> nat" where
  "box_weight r = range_len (fst r) + range_len (snd r) + 1"

definition agree :: "'a list \<Rightarrow> 'a list \<Rightarrow> (nat \<times> nat) list \<Rightarrow> bool" where
  "agree a b ps \<longleftrightarrow> (\<forall>(i, j) \<in> set ps. a ! i = b ! j)"

lemma agree_simps [simp]:
  "agree a b []" "agree a b (p # ps) \<longleftrightarrow> a ! fst p = b ! snd p \<and> agree a b ps"
  "agree a b (ps @ qs) \<longleftrightarrow> agree a b ps \<and> agree a b qs"
  "agree a b (rev ps) \<longleftrightarrow> agree a b ps"
  by (auto simp: agree_def)

lemma separated_sym: "separated r q \<Longrightarrow> separated q r"
  by (auto simp: separated_def)

lemma separated_inside: "inside r r' \<Longrightarrow> separated r' q \<Longrightarrow> separated r q"
  by (auto simp: box_defs)

lemma before_inside: "inside r r' \<Longrightarrow> inside q q' \<Longrightarrow> before r' q' \<Longrightarrow> before r q"
  by (auto simp: box_defs)

lemma inside_trans: "inside r q \<Longrightarrow> inside q s \<Longrightarrow> inside r s"
  by (auto simp: box_defs)

lemma before_trans: "box_ok q \<Longrightarrow> before r q \<Longrightarrow> before q s \<Longrightarrow> before r s"
  by (auto simp: box_defs)

text \<open>
  A list of boxes that lies in \<open>q\<close> in ascending order.
\<close>

definition ladder :: "box \<Rightarrow> box list \<Rightarrow> bool" where
  "ladder q rs \<longleftrightarrow> sorted_wrt before rs \<and> (\<forall>r\<in>set rs. inside r q)"

lemma ladder_Nil [simp]: "ladder q []"
  by (simp add: ladder_def)

lemma ladder_append:
  assumes "ladder q rs" "ladder q' rs'" "inside q s" "inside q' s" "before q q'"
  shows "ladder s (rs @ rs')"
  using assms unfolding ladder_def
  by (auto simp: sorted_wrt_append intro: inside_trans before_inside)

lemma ladder_inside: "ladder q rs \<Longrightarrow> inside q s \<Longrightarrow> ladder s rs"
  unfolding ladder_def by (auto intro: inside_trans)

lemma ladder_single: "inside r q \<Longrightarrow> ladder q [r]"
  by (simp add: ladder_def)

lemma ladder_Cons:
  assumes "inside r s" "ladder q' rs" "inside q' s" "before r q'"
  shows "ladder s (r # rs)"
proof -
  have "inside r r" using assms(1) by (auto simp: box_defs)
  from ladder_append [OF ladder_single [OF this] assms(2,1,3,4)] show ?thesis by simp
qed

text \<open>A ladder weighs no more than its box, and strictly less once it has a cell.\<close>

lemma ladder_weight:
  assumes "ladder q rs" "box_ok q"
  shows "sum_list (map (\<lambda>r. range_len (fst r)) rs) \<le> range_len (fst q) \<and>
         sum_list (map (\<lambda>r. range_len (snd r)) rs) \<le> range_len (snd q)"
  using assms
proof (induction rs arbitrary: q)
  case Nil
  then show ?case by simp
next
  case (Cons r rs)
  let ?q = "((snd (fst r), snd (fst q)), (snd (snd r), snd (snd q)))"
  from Cons.prems have r: "inside r q" by (simp add: ladder_def)
  from Cons.prems have "ladder ?q rs"
    by (auto simp: ladder_def box_defs)
  moreover have "box_ok ?q" using r by (auto simp: box_defs)
  ultimately have "sum_list (map (\<lambda>r. range_len (fst r)) rs) \<le> range_len (fst ?q)"
      "sum_list (map (\<lambda>r. range_len (snd r)) rs) \<le> range_len (snd ?q)"
    using Cons.IH by blast+
  with r show ?case by (auto simp: box_defs range_len_def)
qed

section \<open>The pieces of one iteration\<close>

lemma trim_front_ladder:
  assumes "trim_front a b x xe y ye = (x', y', out)" "x \<le> xe" "y \<le> ye"
  shows "x \<le> x' \<and> x' \<le> xe \<and> y \<le> y' \<and> y' \<le> ye \<and> agree a b out \<and>
         ladder ((x, x'), (y, y')) (map cell out)"
  using assms
proof (induction a b x xe y ye arbitrary: out rule: trim_front.induct)
  case (1 a b x xe y ye)
  show ?case
  proof (cases "x < xe \<and> y < ye \<and> a ! x = b ! y")
    case True
    with "1.prems" obtain out' where
      out: "trim_front a b (x + 1) xe (y + 1) ye = (x', y', out')" "out = (x, y) # out'"
      by (auto simp: trim_front.simps [of a b x xe y ye] split: prod.splits)
    with "1.IH" True have IH: "x + 1 \<le> x'" "x' \<le> xe" "y + 1 \<le> y'" "y' \<le> ye" "agree a b out'"
      "ladder ((x + 1, x'), (y + 1, y')) (map cell out')" by auto
    have "ladder ((x, x'), (y, y')) (cell (x, y) # map cell out')"
      by (rule ladder_Cons [OF _ IH(6)]) (use IH in \<open>auto simp: box_defs\<close>)
    with IH out True show ?thesis by auto
  next
    case False
    with "1.prems" show ?thesis by (auto simp: trim_front.simps [of a b x xe y ye])
  qed
qed

lemma trim_back_ladder:
  assumes "trim_back a b x xe y ye = (xe', ye', out)" "x \<le> xe" "y \<le> ye"
  shows "x \<le> xe' \<and> xe' \<le> xe \<and> y \<le> ye' \<and> ye' \<le> ye \<and> agree a b out \<and>
         ladder ((xe', xe), (ye', ye)) (map cell (rev out))"
  using assms
proof (induction a b x xe y ye arbitrary: out rule: trim_back.induct)
  case (1 a b x xe y ye)
  show ?case
  proof (cases "x < xe \<and> y < ye \<and> a ! (xe - 1) = b ! (ye - 1)")
    case True
    with "1.prems" obtain out' where
      out: "trim_back a b x (xe - 1) y (ye - 1) = (xe', ye', out')" "out = (xe - 1, ye - 1) # out'"
      by (auto simp: trim_back.simps [of a b x xe y ye] split: prod.splits)
    with "1.IH" True have IH: "x \<le> xe'" "xe' \<le> xe - 1" "y \<le> ye'" "ye' \<le> ye - 1" "agree a b out'"
      "ladder ((xe', xe - 1), (ye', ye - 1)) (map cell (rev out'))" by auto
    have "ladder ((xe', xe), (ye', ye)) (map cell (rev out') @ [cell (xe - 1, ye - 1)])"
      by (rule ladder_append [OF IH(6) ladder_single [of _ "((xe - 1, xe), (ye - 1, ye))"]])
        (use IH True in \<open>auto simp: box_defs\<close>)
    with IH out True show ?thesis by auto
  next
    case False
    with "1.prems" show ?thesis by (auto simp: trim_back.simps [of a b x xe y ye])
  qed
qed

lemma lcs_walk_ladder:
  assumes "i \<le> n" "j \<le> m"
  shows "ladder ((x + i, x + n), (y + j, y + m)) (map cell (lcs_walk a b x y n m dp i j)) \<and>
         agree a b (lcs_walk a b x y n m dp i j)"
  using assms
proof (induction a b x y n m dp i j rule: lcs_walk.induct)
  case (1 a b x y n m dp i j)
  let ?w = "lcs_walk a b x y n m dp"
  show ?case
  proof (cases "i < n \<and> j < m")
    case False
    then have "?w i j = []" by (subst lcs_walk.simps) auto
    then show ?thesis by simp
  next
    case lt: True
    show ?thesis
    proof (cases "a ! (x + i) = b ! (y + j)")
      case True
      with "1.IH"(1) lt have IH: "ladder ((x + (i + 1), x + n), (y + (j + 1), y + m)) (map cell (?w (i + 1) (j + 1)))"
        "agree a b (?w (i + 1) (j + 1))" by auto
      have "ladder ((x + i, x + n), (y + j, y + m)) (cell (x + i, y + j) # map cell (?w (i + 1) (j + 1)))"
        by (rule ladder_Cons [OF _ IH(1)]) (use lt in \<open>auto simp: box_defs\<close>)
      with lt True IH show ?thesis by (simp add: lcs_walk.simps [of a b x y n m dp i j])
    next
      case False
      let ?s = "((x + i, x + n), (y + j, y + m))"
      have "inside ((x + (i + 1), x + n), (y + j, y + m)) ?s" "inside ((x + i, x + n), (y + (j + 1), y + m)) ?s"
        using lt by (auto simp: box_defs)
      with "1.IH"(2,3) False lt show ?thesis
        by (auto simp: lcs_walk.simps [of a b x y n m dp i j] intro: ladder_inside)
    qed
  qed
qed

lemma exact_pairs_ladder:
  assumes "x \<le> xe" "y \<le> ye"
  shows "ladder ((x, xe), (y, ye)) (map cell (exact_pairs a b (x, xe) (y, ye))) \<and>
         agree a b (exact_pairs a b (x, xe) (y, ye))"
  using lcs_walk_ladder [of 0 "xe - x" 0 "ye - y" x y] assms
  by (auto simp: exact_pairs_def)

text \<open>Unique elements: one occurrence on either side, and the pair records where.\<close>

definition counts_ok :: "'a::linorder list \<Rightarrow> 'a list \<Rightarrow> nat set \<Rightarrow> nat set \<Rightarrow> ('a, occurrence_count) btree \<Rightarrow> bool" where
  "counts_ok a b I J m \<longleftrightarrow> bt_ok m \<and>
     (\<forall>k n i c j. bt_get m k = Some (n, i, c, j) \<longrightarrow>
        (0 < n \<longrightarrow> i \<in> I \<and> a ! i = k) \<and> (0 < c \<longrightarrow> j \<in> J \<and> b ! j = k))"

lemma counts_ok_old:
  "counts_ok a b I J m \<Longrightarrow> i \<in> I \<Longrightarrow> counts_ok a b I J (bt_upsert (a ! i) (0, 0, 0, 0) (count_old i) m)"
  unfolding counts_ok_def count_old_def by (fastforce split: option.splits prod.splits if_splits)

lemma counts_ok_new:
  "counts_ok a b I J m \<Longrightarrow> j \<in> J \<Longrightarrow> counts_ok a b I J (bt_upsert (b ! j) (0, 0, 0, 0) (count_new j) m)"
  unfolding counts_ok_def count_new_def by (fastforce split: option.splits prod.splits if_splits)

lemma counts_ok_fold_old:
  "counts_ok a b I J m \<Longrightarrow> set xs \<subseteq> I \<Longrightarrow>
   counts_ok a b I J (fold (\<lambda>i m. bt_upsert (a ! i) (0, 0, 0, 0) (count_old i) m) xs m)"
  by (induction xs arbitrary: m) (auto intro: counts_ok_old)

lemma counts_ok_fold_new:
  "counts_ok a b I J m \<Longrightarrow> set xs \<subseteq> J \<Longrightarrow>
   counts_ok a b I J (fold (\<lambda>j m. bt_upsert (b ! j) (0, 0, 0, 0) (count_new j) m) xs m)"
  by (induction xs arbitrary: m) (auto intro: counts_ok_new)

lemma positions_ok: "counts_ok a b {x..<xe} {y..<ye} (positions a b (x, xe) (y, ye))"
proof -
  have "counts_ok a b {x..<xe} {y..<ye} []" by (simp add: counts_ok_def)
  then show ?thesis
    unfolding positions_def by (auto intro!: counts_ok_fold_new counts_ok_fold_old)
qed

lemma unique_pairs_mem:
  assumes "(i, j) \<in> set (unique_pairs a b (x, xe) (y, ye))"
  shows "x \<le> i \<and> i < xe \<and> y \<le> j \<and> j < ye \<and> a ! i = b ! j"
proof -
  let ?m = "positions a b (x, xe) (y, ye)"
  from assms obtain k where "(k, 1, i, 1, j) \<in> set ?m"
    by (auto simp: unique_pairs_def)
  moreover have ok: "counts_ok a b {x..<xe} {y..<ye} ?m" by (rule positions_ok)
  ultimately have "bt_get ?m k = Some (1, i, 1, j)"
    by (auto simp: counts_ok_def bt_get_Some_mem)
  with ok show ?thesis unfolding counts_ok_def by fastforce
qed

lemma unique_pairs_fst_strict: "sorted_wrt (\<lambda>p q. fst p < fst q) (unique_pairs a b (x, xe) (y, ye))"
proof -
  let ?m = "positions a b (x, xe) (y, ye)"
  let ?f = "filter (\<lambda>(k, n, i, m, j). n = 1 \<and> m = 1) ?m"
  let ?u = "map (\<lambda>(k, n, i, m, j). (i, j)) ?f"
  have ok: "counts_ok a b {x..<xe} {y..<ye} ?m" by (rule positions_ok)
  then have m: "distinct (map fst ?m)"
    using bt_ok_keys_sorted [of ?m] by (simp add: counts_ok_def bt_keys_def)
  have key: "a ! i = k" if "(k, n, i, c, j) \<in> set ?f" for k n i c j
  proof -
    from that ok have "bt_get ?m k = Some (1, i, 1, j)" by (auto simp: counts_ok_def bt_get_Some_mem)
    with ok show ?thesis unfolding counts_ok_def by fastforce
  qed
  have "distinct (map fst ?f)" using m by (rule distinct_map_filter)
  moreover have "map fst ?f = map (\<lambda>i. a ! i) (map fst ?u)"
    using key by (auto simp: split_def comp_def)
  ultimately have "distinct (map (\<lambda>i. a ! i) (map fst ?u))" by metis
  then have "distinct (map fst ?u)" unfolding distinct_map by blast
  then have d: "distinct (map fst (unique_pairs a b (x, xe) (y, ye)))"
    by (simp only: unique_pairs_def distinct_map_sort)
  have "sorted (unique_pairs a b (x, xe) (y, ye))" by (simp add: unique_pairs_def)
  then have "sorted_wrt (\<lambda>p q. fst p \<le> fst q) (unique_pairs a b (x, xe) (y, ye))"
    by (rule sorted_wrt_mono_rel [rotated]) (auto simp: less_eq_prod_def)
  then have "sorted (map fst (unique_pairs a b (x, xe) (y, ye)))" by (simp add: sorted_map)
  with d have "sorted_wrt (<) (map fst (unique_pairs a b (x, xe) (y, ye)))"
    by (simp add: strict_sorted_iff)
  then show ?thesis unfolding sorted_wrt_map .
qed

text \<open>The chain: back links go to smaller indices, so the chain ascends on both sides.\<close>

definition piles_ok :: "(nat \<times> nat) list \<Rightarrow> nat \<Rightarrow> nat list \<times> nat option list \<Rightarrow> bool" where
  "piles_ok u n st \<longleftrightarrow> (\<forall>t\<in>set (fst st). t < n) \<and> length (snd st) = length u \<and>
     (0 < n \<longrightarrow> fst st \<noteq> []) \<and>
     (\<forall>i<length u. \<forall>k. snd st ! i = Some k \<longrightarrow> k < i \<and> snd (u ! k) < snd (u ! i))"

lemma pile_step_ok:
  assumes "piles_ok u i st" "i < length u"
  shows "piles_ok u (Suc i) (pile_step u i st)"
proof -
  obtain tails previous where st: "st = (tails, previous)" by force
  let ?k = "partition_point (\<lambda>index. snd (u ! index) < snd (u ! i)) tails"
  have len: "?k \<le> length tails" by simp
  note ok = assms(1) [unfolded st piles_ok_def, simplified]
  define tails' where "tails' = (if ?k = length tails then tails @ [i] else tails[?k := i])"
  define previous' where
    "previous' = (if 0 < ?k then previous[i := Some (tails ! (?k - 1))] else previous)"
  have step: "pile_step u i st = (tails', previous')"
    by (simp add: pile_step_def st tails'_def previous'_def Let_def)
  have link: "tails ! (?k - 1) < i \<and> snd (u ! (tails ! (?k - 1))) < snd (u ! i)" if "0 < ?k"
  proof
    from that len have "?k - 1 < length tails" by arith
    then have "tails ! (?k - 1) \<in> set tails" by (rule nth_mem)
    then show "tails ! (?k - 1) < i" using ok by blast
    have "?k - 1 < ?k" using that by arith
    then show "snd (u ! (tails ! (?k - 1))) < snd (u ! i)"
      by (rule partition_point_nth)
  qed
  have "\<forall>t\<in>set tails'. t < Suc i"
    using ok unfolding tails'_def by (auto dest!: set_list_update_subset intro: less_SucI)
  moreover have "tails' \<noteq> []" by (auto simp: tails'_def)
  moreover have "length previous' = length u" using ok by (simp add: previous'_def)
  moreover have "k < t \<and> snd (u ! k) < snd (u ! t)"
    if "t < length u" "previous' ! t = Some k" for t k
    using that ok link assms(2) by (cases "t = i") (auto simp: previous'_def split: if_splits)
  ultimately show ?thesis by (simp add: piles_ok_def step)
qed

lemma piles_ok_fold:
  "n \<le> length u \<Longrightarrow> piles_ok u n (fold (pile_step u) [0..<n] ([], replicate (length u) None))"
proof (induction n)
  case 0
  then show ?case by (simp add: piles_ok_def)
next
  case (Suc n)
  then show ?case by (auto intro: pile_step_ok)
qed

lemma piles_ok_piles: "piles_ok u (length u) (piles u)"
  unfolding piles_def by (rule piles_ok_fold) simp

definition ascending :: "(nat \<times> nat) list \<Rightarrow> bool" where
  "ascending ps \<longleftrightarrow> sorted_wrt (\<lambda>p q. fst p < fst q \<and> snd p < snd q) ps"

lemma chain_back_sound:
  assumes "piles_ok u n (tails, previous)" "sorted_wrt (\<lambda>p q. fst p < fst q) u"
    and "\<And>i. index = Some i \<Longrightarrow> i < length u"
  shows "ascending (rev (chain_back fuel u previous index)) \<and>
         set (chain_back fuel u previous index) \<subseteq> set u \<and>
         (\<forall>i. index = Some i \<longrightarrow> (\<forall>q\<in>set (chain_back fuel u previous index). fst q \<le> fst (u ! i) \<and> snd q \<le> snd (u ! i)))"
  using assms(3)
proof (induction fuel arbitrary: index)
  case 0
  then show ?case by (simp add: ascending_def)
next
  case (Suc fuel)
  show ?case
  proof (cases index)
    case None
    then show ?thesis by (simp add: ascending_def)
  next
    case (Some i)
    with Suc.prems have i: "i < length u" by simp
    have prev: "k < i \<and> snd (u ! k) < snd (u ! i)" if "previous ! i = Some k" for k
      using that assms(1) i by (auto simp: piles_ok_def)
    then have fst: "fst (u ! k) < fst (u ! i)" if "previous ! i = Some k" for k
      using that assms(2) i by (auto simp: sorted_wrt_iff_nth_less)
    have IH: "ascending (rev (chain_back fuel u previous (previous ! i)))"
      "set (chain_back fuel u previous (previous ! i)) \<subseteq> set u"
      "\<And>k q. previous ! i = Some k \<Longrightarrow> q \<in> set (chain_back fuel u previous (previous ! i)) \<Longrightarrow>
         fst q \<le> fst (u ! k) \<and> snd q \<le> snd (u ! k)"
      using Suc.IH [of "previous ! i"] prev i by (fastforce dest: order.strict_trans)+
    have less: "fst q < fst (u ! i) \<and> snd q < snd (u ! i)"
      if q: "q \<in> set (chain_back fuel u previous (previous ! i))" for q
    proof (cases "previous ! i")
      case None
      with q show ?thesis by (cases fuel) auto
    next
      case (Some k)
      from IH(3) [OF this q] prev [OF this] fst [OF this] show ?thesis by linarith
    qed
    show ?thesis
      using Some IH(1,2) i less by (auto simp: ascending_def sorted_wrt_append intro: less_imp_le)
  qed
qed

text \<open>More fuel than the index leaves the chain unchanged, so the bound never truncates it.\<close>

lemma chain_back_enough:
  assumes "piles_ok u n (tails, previous)" "i < fuel" "i < length u"
  shows "chain_back (Suc fuel) u previous (Some i) = chain_back fuel u previous (Some i)"
  using assms(2,3)
proof (induction fuel arbitrary: i)
  case 0
  then show ?case by simp
next
  case (Suc fuel)
  show ?case
  proof (cases "previous ! i")
    case None
    then show ?thesis by (cases fuel) simp_all
  next
    case (Some k)
    with assms(1) Suc.prems have "k < i" by (auto simp: piles_ok_def)
    with Suc Some show ?thesis by simp
  qed
qed

lemma patience_chain_sound:
  assumes "sorted_wrt (\<lambda>p q. fst p < fst q) u"
  shows "ascending (patience_chain u) \<and> set (patience_chain u) \<subseteq> set u \<and>
         (u \<noteq> [] \<longrightarrow> patience_chain u \<noteq> [])"
proof -
  obtain tails previous where p: "piles u = (tails, previous)" by force
  then have ok: "piles_ok u (length u) (tails, previous)" using piles_ok_piles [of u] by simp
  let ?ix = "if tails = [] then None else Some (last tails)"
  have "i < length u" if "?ix = Some i" for i
    using that ok by (auto simp: piles_ok_def split: if_splits)
  note sound = chain_back_sound [OF ok assms this]
  moreover have "chain_back (length u) u previous ?ix \<noteq> []" if "u \<noteq> []"
    using that ok by (cases "length u") (auto simp: piles_ok_def)
  ultimately show ?thesis by (simp add: patience_chain_def p)
qed

text \<open>The walk along the chain: blocks and chain elements alternate in ascending order.\<close>

lemma ascending_cells:
  assumes "ascending ps" "\<forall>p\<in>set ps. inside (cell p) q"
  shows "ladder q (map cell ps)"
proof -
  have "sorted_wrt (\<lambda>p q. before (cell p) (cell q)) ps"
    using assms(1) unfolding ascending_def
    by (rule sorted_wrt_mono_rel [rotated]) (auto simp: box_defs)
  with assms(2) show ?thesis by (auto simp: ladder_def sorted_wrt_map)
qed

definition disjoint_boxes :: "box list \<Rightarrow> bool" where
  "disjoint_boxes rs \<longleftrightarrow> sorted_wrt separated rs"

lemma ladder_disjoint: "ladder q rs \<Longrightarrow> disjoint_boxes rs"
  unfolding ladder_def disjoint_boxes_def
  by (auto intro: sorted_wrt_mono_rel [rotated] simp: separated_def)

lemma disjoint_append:
  "disjoint_boxes (rs @ qs) \<longleftrightarrow>
     disjoint_boxes rs \<and> disjoint_boxes qs \<and> (\<forall>r\<in>set rs. \<forall>q\<in>set qs. separated r q)"
  by (simp add: disjoint_boxes_def sorted_wrt_append)

lemma disjoint_rev: "disjoint_boxes (rev rs) \<longleftrightarrow> disjoint_boxes rs"
  unfolding disjoint_boxes_def sorted_wrt_rev
  by (auto intro: sorted_wrt_mono_rel [rotated] separated_sym)

lemma gap_walk_split:
  assumes "ascending chain" "\<forall>p\<in>set chain. inside (cell p) ((x, xe), (y, ye))"
    "x \<le> xe" "y \<le> ye" "gap_walk xe x y (chain @ [(xe, ye)]) = (blocks, out)"
  shows "out = chain \<and> disjoint_boxes (blocks @ map cell chain) \<and>
    (\<forall>r\<in>set blocks. inside r ((x, xe), (y, ye))) \<and>
    sum_list (map box_weight blocks) + length chain \<le> box_weight ((x, xe), (y, ye))"
  using assms
proof (induction chain arbitrary: x y blocks out)
  case Nil
  then show ?case
    by (auto simp: disjoint_boxes_def box_defs box_weight_def split: if_splits)
next
  case (Cons p chain)
  obtain i j where p: "p = (i, j)" by force
  with Cons.prems have i: "x \<le> i" "i < xe" "y \<le> j" "j < ye" by (auto simp: box_defs)
  have asc: "ascending chain" and above: "\<forall>q\<in>set chain. i < fst q \<and> j < snd q"
    using Cons.prems(1) p by (auto simp: ascending_def)
  have ins: "\<forall>q\<in>set chain. inside (cell q) ((i + 1, xe), (j + 1, ye))"
    using Cons.prems(2) above by (auto simp: box_defs)
  obtain blocks' out' where g: "gap_walk xe (i + 1) (j + 1) (chain @ [(xe, ye)]) = (blocks', out')"
    by force
  from Cons.IH [OF asc ins _ _ g] i have IH: "out' = chain" "disjoint_boxes (blocks' @ map cell chain)"
    "\<forall>r\<in>set blocks'. inside r ((i + 1, xe), (j + 1, ye))"
    "sum_list (map box_weight blocks') + length chain \<le> box_weight ((i + 1, xe), (j + 1, ye))"
    by auto
  have blocks: "blocks = (if x < i \<and> y < j then ((x, i), (y, j)) # blocks' else blocks')"
    and out: "out = (i, j) # out'"
    using Cons.prems(5) g p i by auto
  have cells: "disjoint_boxes (map cell ((i, j) # chain))"
    using ladder_disjoint [OF ascending_cells [OF Cons.prems(1,2)]] p by simp
  have b': "\<forall>r\<in>set blocks'. separated (cell (i, j)) r \<and> separated ((x, i), (y, j)) r"
    using IH(3) by (auto simp: box_defs)
  have c': "\<forall>q\<in>set ((i, j) # chain). separated ((x, i), (y, j)) (cell q)"
    using above by (auto simp: box_defs)
  have "disjoint_boxes (blocks @ map cell ((i, j) # chain))"
    using IH(2) cells b' c' unfolding blocks
    by (auto simp: disjoint_boxes_def sorted_wrt_append intro: separated_sym)
  moreover have "\<forall>r\<in>set blocks. inside r ((x, xe), (y, ye))"
    using IH(3) i unfolding blocks by (auto simp: box_defs)
  moreover have "sum_list (map box_weight blocks) + length ((i, j) # chain) \<le> box_weight ((x, xe), (y, ye))"
    using IH(4) i unfolding blocks by (auto simp: box_weight_def)
  ultimately show ?case using out IH(1) p by blast
qed

text \<open>One iteration: its pieces are separated, lie in the block, agree, and weigh less than it.\<close>

lemma separated_regions:
  "inside r q \<Longrightarrow> inside r' q' \<Longrightarrow> before q q' \<Longrightarrow> separated r r' \<and> separated r' r"
  by (auto simp: box_defs)

lemma align_block_sound:
  assumes "align_block a b blk = (blocks, out)" "box_ok blk"
  shows "disjoint_boxes (blocks @ map cell out)" and "\<forall>r\<in>set (blocks @ map cell out). inside r blk"
    and "agree a b out" and "sum_list (map box_weight blocks) < box_weight blk"
proof -
  obtain x0 xe0 y0 ye0 where blk: "blk = ((x0, xe0), (y0, ye0))" by (metis surj_pair)
  obtain x y front where f: "trim_front a b x0 xe0 y0 ye0 = (x, y, front)" by (metis surj_pair)
  obtain xe ye rear where k: "trim_back a b x xe0 y ye0 = (xe, ye, rear)" by (metis surj_pair)
  have le0: "x0 \<le> xe0" "y0 \<le> ye0" using assms(2) blk by (auto simp: box_defs)
  note F = trim_front_ladder [OF f le0]
  with F have K: "x \<le> xe \<and> xe \<le> xe0 \<and> y \<le> ye \<and> ye \<le> ye0 \<and> agree a b rear \<and>
      ladder ((xe, xe0), (ye, ye0)) (map cell (rev rear))"
    using trim_back_ladder [OF k] by blast
  let ?M = "((x, xe), (y, ye))"
  have middle: "disjoint_boxes (blocks @ map cell mid) \<and> (\<forall>r\<in>set (blocks @ map cell mid). inside r ?M) \<and>
      agree a b mid \<and> (sum_list (map box_weight blocks) < box_weight ?M) \<and> out = front @ rear @ mid"
    if "mid = drop (length front + length rear) out" for mid
  proof (cases "range_empty (x, xe) \<or> range_empty (y, ye)")
    case True
    with assms(1) have "blocks = [] \<and> out = front @ rear" by (simp add: align_block_def blk f k)
    with that show ?thesis by (simp add: disjoint_boxes_def box_weight_def)
  next
    case False
    let ?u = "unique_pairs a b (x, xe) (y, ye)"
    show ?thesis
    proof (cases "?u = []")
      case True
      with assms(1) False have "blocks = []" "out = front @ rear @ exact_pairs a b (x, xe) (y, ye)"
        by (auto simp: align_block_def blk f k)
      moreover have "disjoint_boxes (map cell (exact_pairs a b (x, xe) (y, ye)))"
        using exact_pairs_ladder [of x xe y ye a b] K ladder_disjoint by blast
      ultimately show ?thesis
        using exact_pairs_ladder [of x xe y ye a b] K that by (auto simp: box_weight_def ladder_def)
    next
      case u: False
      obtain bl mid' where g: "gap_walk xe x y (patience_chain ?u @ [(xe, ye)]) = (bl, mid')" by force
      note P = patience_chain_sound [OF unique_pairs_fst_strict [of a b x xe y ye]]
      have cells: "\<forall>p\<in>set (patience_chain ?u). inside (cell p) ?M"
        using P by (auto simp: box_defs dest!: subsetD unique_pairs_mem)
      have ag: "agree a b (patience_chain ?u)"
        using P by (auto simp: agree_def dest!: subsetD unique_pairs_mem)
      from gap_walk_split [OF _ cells _ _ g] P K
      have G: "mid' = patience_chain ?u" "disjoint_boxes (bl @ map cell (patience_chain ?u))"
        "\<forall>r\<in>set bl. inside r ?M"
        "sum_list (map box_weight bl) + length (patience_chain ?u) \<le> box_weight ?M" by auto
      have "0 < length (patience_chain ?u)" using P u by simp
      with G(4) have "sum_list (map box_weight bl) < box_weight ?M" by linarith
      with G cells ag that assms(1) False u g show ?thesis
        by (auto simp: align_block_def blk f k Let_def)
    qed
  qed
  let ?mid = "drop (length front + length rear) out"
  note M = middle [OF refl]
  from M have out: "out = front @ rear @ ?mid" by blast
  have ff: "\<forall>r\<in>set (map cell front). inside r ((x0, x), (y0, y))" "disjoint_boxes (map cell front)"
    using F ladder_disjoint unfolding ladder_def by blast+
  have kk: "\<forall>r\<in>set (map cell rear). inside r ((xe, xe0), (ye, ye0))"
    using K by (auto simp: ladder_def)
  have kd: "disjoint_boxes (map cell rear)"
    using K ladder_disjoint by (metis disjoint_rev rev_map)
  have sep: "before ((x0, x), (y0, y)) ?M" "before ?M ((xe, xe0), (ye, ye0))"
      "before ((x0, x), (y0, y)) ((xe, xe0), (ye, ye0))"
    using K by (auto simp: box_defs)
  let ?fs = "map cell front" and ?rs = "map cell rear" and ?ms = "map cell ?mid"
  have "disjoint_boxes (blocks @ ?ms)" and mm: "\<forall>r\<in>set (blocks @ ?ms). inside r ?M"
    using M by blast+
  then have "disjoint_boxes (blocks @ ?fs @ ?rs @ ?ms)"
    using ff kk kd separated_regions [OF _ _ sep(1)] separated_regions [OF _ _ sep(2)]
      separated_regions [OF _ _ sep(3)]
    unfolding disjoint_append set_append by blast
  then show "disjoint_boxes (blocks @ map cell out)" by (subst out) simp
  have "inside ((x0, x), (y0, y)) blk" "inside ?M blk" "inside ((xe, xe0), (ye, ye0)) blk"
    using F K le0 by (auto simp: blk box_defs)
  then have "\<forall>r\<in>set (blocks @ ?fs @ ?rs @ ?ms). inside r blk"
    using ff(1) kk mm inside_trans unfolding set_append by blast
  then show "\<forall>r\<in>set (blocks @ map cell out). inside r blk" by (subst out) simp
  have "agree a b (front @ rear @ ?mid)" unfolding agree_simps using F K M by blast
  then show "agree a b out" by (subst out)
  have "box_weight ?M \<le> box_weight blk" using F K by (auto simp: blk box_weight_def)
  with M show "sum_list (map box_weight blocks) < box_weight blk" by linarith
qed

section \<open>The main loop\<close>

text \<open>
  The weight of the pending stack falls with every iteration, so the loop ends.
\<close>

lemma align_block_weight: "sum_list (map box_weight (fst (align_block a b blk))) < box_weight blk"
proof (cases "box_ok blk")
  case True
  obtain blocks out where r: "align_block a b blk = (blocks, out)" by force
  from align_block_sound(4) [OF r True] r show ?thesis by simp
next
  case False
  obtain x xe y ye where blk: "blk = ((x, xe), (y, ye))" by (metis surj_pair)
  with False have "trim_front a b x xe y ye = (x, y, [])" "trim_back a b x xe y ye = (xe, ye, [])"
    by (auto simp: box_ok_def trim_front.simps [of a b x xe y ye] trim_back.simps [of a b x xe y ye])
  with blk False show ?thesis by (auto simp: align_block_def box_weight_def box_ok_def)
qed

function align_loop ::
  "'a::linorder list \<Rightarrow> 'a list \<Rightarrow> box list \<Rightarrow> (nat \<times> nat) list \<Rightarrow> (nat \<times> nat) list" where
  "align_loop a b [] out = out"
| "align_loop a b (blk # pending) out =
     align_loop a b (rev (fst (align_block a b blk)) @ pending) (out @ snd (align_block a b blk))"
  by pat_completeness auto
termination
  by (relation "measure (\<lambda>(a, b, pending, out). sum_list (map box_weight pending))")
    (auto simp: rev_map [symmetric] align_block_weight)

definition aligned_pairs :: "'a::linorder list \<Rightarrow> 'a list \<Rightarrow> (nat \<times> nat) list" where
  "aligned_pairs a b = sort (align_loop a b [((0, length a), (0, length b))] [])"

fun edit_walk :: "nat \<Rightarrow> nat \<Rightarrow> (nat \<times> nat) list \<Rightarrow> edit list" where
  "edit_walk x y [] = []"
| "edit_walk x y ((i, j) # pairs) =
     (if x < i \<or> y < j
      then \<lparr>ed_old = (x, i), ed_new = (y, j)\<rparr> # edit_walk (i + 1) (j + 1) pairs
      else edit_walk (i + 1) (j + 1) pairs)"

definition edits :: "'a::linorder list \<Rightarrow> 'a list \<Rightarrow> edit list" where
  "edits a b = edit_walk 0 0 (aligned_pairs a b @ [(length a, length b)])"

text \<open>How a caller rebuilds the new sequence from the old one and the edits.\<close>

fun rebuild :: "'a list \<Rightarrow> 'a list \<Rightarrow> edit list \<Rightarrow> nat \<Rightarrow> 'a list" where
  "rebuild a b [] cursor = drop cursor a"
| "rebuild a b (e # es) cursor =
     slice a (cursor, fst (ed_old e)) @ slice b (ed_new e) @ rebuild a b es (snd (ed_old e))"

section \<open>Correctness\<close>

lemma align_loop_sound:
  assumes "disjoint_boxes (pending @ map cell out)"
    and "\<forall>r\<in>set (pending @ map cell out). inside r q" and "agree a b out"
  shows "disjoint_boxes (map cell (align_loop a b pending out)) \<and>
    (\<forall>r\<in>set (map cell (align_loop a b pending out)). inside r q) \<and> agree a b (align_loop a b pending out)"
  using assms
proof (induction a b pending out rule: align_loop.induct)
  case (1 a b out)
  then show ?case by simp
next
  case (2 a b blk pending out)
  have ok: "box_ok blk" using "2.prems"(2) by (simp add: inside_def)
  obtain blocks out' where r: "align_block a b blk = (blocks, out')" by force
  note S = align_block_sound [OF r ok]
  have sub: "\<forall>t\<in>set (blocks @ map cell out'). inside t blk" by (rule S(2))
  have rest: "\<forall>t\<in>set (pending @ map cell out). separated blk t" "disjoint_boxes (pending @ map cell out)"
    using "2.prems"(1) by (auto simp: disjoint_boxes_def)
  have sep: "separated t t' \<and> separated t' t"
    if "t \<in> set (blocks @ map cell out')" "t' \<in> set (pending @ map cell out)" for t t'
    using that sub rest(1) separated_inside separated_sym by blast
  have "disjoint_boxes ((rev blocks @ pending) @ map cell (out @ out'))"
    using S(1) rest(2) sep unfolding map_append disjoint_append set_append disjoint_rev set_rev
    by (blast intro: separated_sym)
  moreover have "\<forall>t\<in>set ((rev blocks @ pending) @ map cell (out @ out')). inside t q"
    using sub "2.prems"(2) inside_trans [of _ blk q]
    unfolding map_append set_append set_rev list.set by blast
  moreover have "agree a b (out @ out')" using "2.prems"(3) S(3) by simp
  ultimately show ?case using "2.IH" r by simp
qed

text \<open>What callers rely on: an ascending list of pairs of equal elements.\<close>

definition alignment :: "'a list \<Rightarrow> 'a list \<Rightarrow> (nat \<times> nat) list \<Rightarrow> bool" where
  "alignment a b ps \<longleftrightarrow> ascending ps \<and> (\<forall>(i, j)\<in>set ps. i < length a \<and> j < length b \<and> a ! i = b ! j)"

lemma disjoint_sorted_ascending:
  assumes "disjoint_boxes (map cell ps)"
  shows "ascending (sort ps)"
proof -
  have "sorted_wrt (\<lambda>p q. separated (cell p) (cell q)) ps"
    using assms by (simp add: disjoint_boxes_def sorted_wrt_map)
  then have "pairwise (\<lambda>p q. separated (cell p) (cell q)) (set ps) \<and> distinct ps"
    by (induction ps) (auto simp: pairwise_insert separated_sym box_defs)
  then have "pairwise (\<lambda>p q. separated (cell p) (cell q)) (set (sort ps))" "sorted_wrt (<) (sort ps)"
    by (auto simp: strict_sorted_sort)
  then show ?thesis
    unfolding ascending_def
    by (elim sorted_wrt_mono_rel [rotated]) (fastforce simp: pairwise_def box_defs less_prod_def)
qed

lemma aligned_pairs_inside:
  "disjoint_boxes (map cell (align_loop a b [((0, length a), (0, length b))] [])) \<and>
   (\<forall>p\<in>set (align_loop a b [((0, length a), (0, length b))] []). inside (cell p) ((0, length a), (0, length b))) \<and>
   agree a b (align_loop a b [((0, length a), (0, length b))] [])"
  using align_loop_sound [of "[((0, length a), (0, length b))]" "[]" "((0, length a), (0, length b))" a b]
  by (auto simp: disjoint_boxes_def box_defs)

lemma aligned_pairs_alignment: "alignment a b (aligned_pairs a b)"
  unfolding alignment_def aligned_pairs_def
  using aligned_pairs_inside [of a b] disjoint_sorted_ascending
  by (auto simp: agree_def box_defs)

text \<open>The walk over an alignment, from a pair of positions it has not passed yet.\<close>

lemma rebuild_edit_walk:
  assumes "ascending (ps @ [(length a, length b)])" "\<forall>(i, j)\<in>set ps. i < length a \<and> j < length b \<and> a ! i = b ! j"
    and "\<forall>(i, j)\<in>set (ps @ [(length a, length b)]). x \<le> i \<and> y \<le> j" and "c \<le> x"
  shows "rebuild a b (edit_walk x y (ps @ [(length a, length b)])) c = slice a (c, x) @ drop y b"
  using assms
proof (induction ps arbitrary: x y c)
  case Nil
  then show ?case by (auto simp: slice_to_end)
next
  case (Cons p ps)
  obtain i j where p: "p = (i, j)" by force
  let ?ps = "ps @ [(length a, length b)]"
  from Cons.prems p have ij: "x \<le> i" "y \<le> j" "i < length a" "j < length b" "a ! i = b ! j" by auto
  have up: "ascending ?ps" "\<forall>(i', j')\<in>set ?ps. i + 1 \<le> i' \<and> j + 1 \<le> j'"
    using Cons.prems(1) p by (auto simp: ascending_def)
  have IH: "rebuild a b (edit_walk (i + 1) (j + 1) ?ps) c' = slice a (c', i + 1) @ drop (j + 1) b"
    if "c' \<le> i + 1" for c'
    using Cons.IH [OF up(1) _ up(2) that] Cons.prems(2) by simp
  have d: "slice b (y, j) @ b ! j # drop (Suc j) b = drop y b"
    using ij slice_append_slice [of y j "length b" b] by (simp add: slice_to_end Cons_nth_drop_Suc)
  show ?case
  proof (cases "x < i \<or> y < j")
    case True
    have "rebuild a b (edit_walk x y (p # ?ps)) c =
        slice a (c, x) @ slice b (y, j) @ slice a (i, i + 1) @ drop (j + 1) b"
      using True p IH [of i] by simp
    then show ?thesis using d ij by (simp add: slice_Suc p)
  next
    case False
    with ij have eq: "x = i" "y = j" by auto
    have "slice a (c, i + 1) = slice a (c, i) @ [a ! i]"
      using slice_append_slice [of c i "i + 1" a] Cons.prems(4) ij eq by (simp add: slice_Suc)
    with IH [of c] Cons.prems(4) False eq ij p show ?thesis by (simp add: Cons_nth_drop_Suc)
  qed
qed

lemma rebuild_edits: "rebuild a b (edits a b) 0 = b"
proof -
  let ?ps = "aligned_pairs a b"
  have al: "ascending ?ps" "\<forall>(i, j)\<in>set ?ps. i < length a \<and> j < length b \<and> a ! i = b ! j"
    using aligned_pairs_alignment [of a b] by (auto simp: alignment_def)
  then have "ascending (?ps @ [(length a, length b)])"
    by (auto simp: ascending_def sorted_wrt_append)
  from rebuild_edit_walk [OF this al(2), of 0 0 0] show ?thesis by (simp add: edits_def)
qed

text \<open>Ascending, disjoint, in range and never empty on both sides.\<close>

definition edit_before :: "edit \<Rightarrow> edit \<Rightarrow> bool" where
  "edit_before e f \<longleftrightarrow> snd (ed_old e) < fst (ed_old f) \<and> snd (ed_new e) < fst (ed_new f)"

definition edit_ok :: "nat \<Rightarrow> nat \<Rightarrow> nat \<Rightarrow> nat \<Rightarrow> edit \<Rightarrow> bool" where
  "edit_ok x y n m e \<longleftrightarrow> x \<le> fst (ed_old e) \<and> y \<le> fst (ed_new e) \<and>
     fst (ed_old e) \<le> snd (ed_old e) \<and> fst (ed_new e) \<le> snd (ed_new e) \<and>
     snd (ed_old e) \<le> n \<and> snd (ed_new e) \<le> m \<and>
     \<not> (range_empty (ed_old e) \<and> range_empty (ed_new e))"

lemma edit_walk_ok:
  assumes "ascending ps" "\<forall>(i, j)\<in>set ps. x \<le> i \<and> y \<le> j \<and> i \<le> n \<and> j \<le> m"
  shows "sorted_wrt edit_before (edit_walk x y ps) \<and> (\<forall>e\<in>set (edit_walk x y ps). edit_ok x y n m e)"
  using assms
proof (induction x y ps rule: edit_walk.induct)
  case (1 x y)
  then show ?case by simp
next
  case (2 x y i j pairs)
  have up: "ascending pairs" "\<forall>(i', j')\<in>set pairs. i + 1 \<le> i' \<and> j + 1 \<le> j' \<and> i' \<le> n \<and> j' \<le> m"
    using "2.prems" by (auto simp: ascending_def)
  have IH: "sorted_wrt edit_before (edit_walk (i + 1) (j + 1) pairs)"
    "\<forall>e\<in>set (edit_walk (i + 1) (j + 1) pairs). edit_ok (i + 1) (j + 1) n m e"
    using "2.IH" [OF _ up] "2.IH"(2) [OF _ up] by blast+
  have ij: "x \<le> i" "y \<le> j" "i \<le> n" "j \<le> m" using "2.prems"(2) by auto
  have weak: "\<forall>e\<in>set (edit_walk (i + 1) (j + 1) pairs). edit_ok x y n m e"
    using IH(2) ij by (auto simp: edit_ok_def)
  have late: "\<forall>e\<in>set (edit_walk (i + 1) (j + 1) pairs). i < fst (ed_old e) \<and> j < fst (ed_new e)"
    using IH(2) by (auto simp: edit_ok_def)
  let ?e = "\<lparr>ed_old = (x, i), ed_new = (y, j)\<rparr>"
  have "\<forall>e\<in>set (edit_walk (i + 1) (j + 1) pairs). edit_before ?e e"
    using late by (auto simp: edit_before_def)
  moreover have "x < i \<or> y < j \<Longrightarrow> edit_ok x y n m ?e" using ij by (auto simp: edit_ok_def)
  ultimately show ?case using IH(1) weak by simp
qed

text \<open>
  The edits ascend and are separated by at least one kept element on either side, they lie
  inside the two sequences, and no edit is empty on both sides.
\<close>

lemma edits_ordered:
  "sorted_wrt edit_before (edits a b) \<and> list_all (edit_ok 0 0 (length a) (length b)) (edits a b)"
proof -
  let ?ps = "aligned_pairs a b"
  have "ascending (?ps @ [(length a, length b)])"
    and "\<forall>(i, j)\<in>set (?ps @ [(length a, length b)]). 0 \<le> i \<and> 0 \<le> j \<and> i \<le> length a \<and> j \<le> length b"
    using aligned_pairs_alignment [of a b]
    by (auto simp: alignment_def ascending_def sorted_wrt_append)
  from edit_walk_ok [OF this] show ?thesis by (simp add: edits_def list_all_iff)
qed

text \<open>Equal sequences, and only those, need no edit.\<close>

lemma trim_front_same:
  "x \<le> n \<Longrightarrow> trim_front a a x n x n = (n, n, map (\<lambda>i. (i, i)) [x..<n])"
proof (induction "n - x" arbitrary: x)
  case 0
  then show ?case by (subst trim_front.simps) simp
next
  case (Suc d)
  then have "trim_front a a (x + 1) n (x + 1) n = (n, n, map (\<lambda>i. (i, i)) [x + 1..<n])" by simp
  with Suc.hyps(2) show ?case by (subst trim_front.simps) (simp add: upt_conv_Cons)
qed

lemma edit_walk_diagonal:
  "x \<le> n \<Longrightarrow> edit_walk x x (map (\<lambda>i. (i, i)) [x..<n] @ [(n, n)]) = []"
proof (induction "n - x" arbitrary: x)
  case (Suc d)
  then show ?case by (simp add: upt_conv_Cons)
qed simp

lemma edits_Nil_iff: "edits a b = [] \<longleftrightarrow> a = b"
proof
  assume "edits a b = []"
  with rebuild_edits [of a b] show "a = b" by simp
next
  assume "a = b"
  moreover have "align_block a a ((0, length a), (0, length a)) = ([], map (\<lambda>i. (i, i)) [0..<length a])"
    by (simp add: align_block_def trim_front_same trim_back.simps)
  moreover have "sort (map (\<lambda>i. (i, i)) [0..<length a]) = map (\<lambda>i. (i, i)) [0..<length a]"
    by (rule sort_key_id_if_sorted [where f = "\<lambda>x. x", simplified])
      (auto simp: sorted_wrt_map less_eq_prod_def sorted_wrt_iff_nth_less)
  ultimately show "edits a b = []" by (simp add: edits_def aligned_pairs_def edit_walk_diagonal)
qed

text \<open>
  C17: the edits between two sequences are an exact patch: copying the untouched parts of the old
  sequence and the new side of every edit gives the new sequence, and there is nothing to patch
  exactly when the sequences are equal.
\<close>

theorem edits_rebuild: "rebuild a b (edits a b) 0 = b \<and> (edits a b = [] \<longleftrightarrow> a = b)"
  by (simp add: rebuild_edits edits_Nil_iff)

end
