(* ===== verification/Alignment_Exact.thy ===== *)
theory Alignment_Exact
  imports Alignment "HOL-Library.Sublist"
begin

text \<open>
  The exact fallback of the alignment is optimal: for a block of at most 262144 cells the pairs
  it returns are as many as the longest common subsequence of the two sides has elements.
\<close>

fun lcs_len :: "'a list \<Rightarrow> 'a list \<Rightarrow> nat" where
  "lcs_len [] ys = 0"
| "lcs_len xs [] = 0"
| "lcs_len (x # xs) (y # ys) =
     (if x = y then 1 + lcs_len xs ys else max (lcs_len xs (y # ys)) (lcs_len (x # xs) ys))"

lemma lcs_len_Nil2 [simp]: "lcs_len xs [] = 0"
  by (cases xs) simp_all

lemma lcs_len_upper: "subseq zs xs \<Longrightarrow> subseq zs ys \<Longrightarrow> length zs \<le> lcs_len xs ys"
proof (induction xs ys arbitrary: zs rule: lcs_len.induct)
  case (3 x xs y ys)
  show ?case
  proof (cases zs)
    case Nil
    then show ?thesis by simp
  next
    case (Cons z zs')
    show ?thesis
    proof (cases "x = y")
      case True
      have "subseq (tl zs) xs" "subseq (tl zs) ys"
        using "3.prems" Cons by (auto simp: subseq_Cons2_iff dest: subseq_Cons' split: if_splits)
      with "3.IH"(1) [OF True] have "length (tl zs) \<le> lcs_len xs ys" by blast
      with True Cons show ?thesis by simp
    next
      case False
      show ?thesis
      proof (cases "z = x")
        case True
        then have "subseq zs ys" using "3.prems"(2) False Cons by (simp add: subseq_Cons2_iff)
        with "3.IH"(3) [OF False] "3.prems"(1) False show ?thesis by fastforce
      next
        case z: False
        then have "subseq zs xs" using "3.prems"(1) Cons by (simp add: subseq_Cons2_iff)
        with "3.IH"(2) [OF False] "3.prems"(2) False show ?thesis by fastforce
      qed
    qed
  qed
qed simp_all

lemma lcs_len_bound: "lcs_len xs ys \<le> length xs"
  by (induction xs ys rule: lcs_len.induct) auto

text \<open>The table cell \<open>(i, j)\<close> holds the length for the suffixes from \<open>i\<close> and \<open>j\<close>.\<close>

definition suffix_len :: "'a list \<Rightarrow> 'a list \<Rightarrow> nat \<Rightarrow> nat \<Rightarrow> nat \<Rightarrow> nat \<Rightarrow> nat \<Rightarrow> nat \<Rightarrow> nat" where
  "suffix_len a b x y n m i j =
     lcs_len (drop i (slice a (x, x + n))) (drop j (slice b (y, y + m)))"

lemma drop_slice:
  assumes "i < n" "x + n \<le> length a"
  shows "drop i (slice a (x, x + n)) = a ! (x + i) # drop (i + 1) (slice a (x, x + n))"
proof -
  have "i < length (slice a (x, x + n))" using assms by simp
  moreover have "slice a (x, x + n) ! i = a ! (x + i)" using assms by (simp add: slice_def)
  ultimately show ?thesis by (simp add: Cons_nth_drop_Suc [symmetric])
qed

lemma suffix_len_step:
  assumes "i < n" "j < m" "x + n \<le> length a" "y + m \<le> length b"
  shows "suffix_len a b x y n m i j =
    (if a ! (x + i) = b ! (y + j) then 1 + suffix_len a b x y n m (i + 1) (j + 1)
     else max (suffix_len a b x y n m (i + 1) j) (suffix_len a b x y n m i (j + 1)))"
  using assms by (simp add: suffix_len_def drop_slice [of i n x a] drop_slice [of j m y b])

lemma suffix_len_edge:
  assumes "x + n \<le> length a" "y + m \<le> length b" "n \<le> i \<or> m \<le> j"
  shows "suffix_len a b x y n m i j = 0"
  using assms by (auto simp: suffix_len_def)

definition filled :: "'a list \<Rightarrow> 'a list \<Rightarrow> nat \<Rightarrow> nat \<Rightarrow> nat \<Rightarrow> nat \<Rightarrow> nat \<Rightarrow> nat \<Rightarrow> nat list \<Rightarrow> bool" where
  "filled a b x y n m i j dp \<longleftrightarrow> length dp = (n + 1) * (m + 1) \<and>
     (\<forall>i' j'. i' \<le> n \<longrightarrow> j' \<le> m \<longrightarrow> i < i' \<or> i = i' \<and> j \<le> j' \<or> i' = n \<or> j' = m \<longrightarrow>
        dp ! (i' * (m + 1) + j') = suffix_len a b x y n m i' j')"

lemma filledD:
  "filled a b x y n m i j dp \<Longrightarrow> i' \<le> n \<Longrightarrow> j' \<le> m \<Longrightarrow> i < i' \<or> i = i' \<and> j \<le> j' \<or> i' = n \<or> j' = m \<Longrightarrow>
   dp ! (i' * (m + 1) + j') = suffix_len a b x y n m i' j'"
  unfolding filled_def by blast

lemma filled_all:
  "filled a b x y n m 0 0 dp \<Longrightarrow> i \<le> n \<Longrightarrow> j \<le> m \<Longrightarrow>
   dp ! (i * (m + 1) + j) = suffix_len a b x y n m i j"
  by (rule filledD) auto

lemma cell_index_less:
  assumes "i \<le> n" "j \<le> m"
  shows "i * (m + 1) + j < (n + 1) * (m + (1::nat))"
proof -
  have "i * (m + 1) + j < i * (m + 1) + (m + 1)" using assms by simp
  also have "\<dots> = (i + 1) * (m + 1)" by simp
  also have "\<dots> \<le> (n + 1) * (m + 1)" using assms by (intro mult_le_mono1) simp
  finally show ?thesis .
qed

lemma cell_index_inj:
  assumes "i * (m + 1) + j = i' * (m + 1) + (j' :: nat)" "j \<le> m" "j' \<le> m"
  shows "i = i' \<and> j = j'"
proof -
  have "(i * (m + 1) + j) div (m + 1) = i" "(i' * (m + 1) + j') div (m + 1) = i'"
    using assms(2,3) by (subst div_mult_self3, simp, simp)+
  with assms show ?thesis by simp
qed

lemma dp_cell_filled:
  assumes "filled a b x y n m i (Suc j) dp" "i < n" "j < m" "x + n \<le> length a" "y + m \<le> length b"
  shows "filled a b x y n m i j (dp[i * (m + 1) + j := dp_cell a b x y (m + 1) dp i j])"
proof -
  have v: "dp_cell a b x y (m + 1) dp i j = suffix_len a b x y n m i j"
    using filledD [OF assms(1), of "i + 1" "j + 1"] filledD [OF assms(1), of "i + 1" j]
      filledD [OF assms(1), of i "j + 1"] suffix_len_step [OF assms(2-5)] assms(2,3)
    by (simp add: dp_cell_def add.assoc)
  have len: "i * (m + 1) + j < length dp"
    using assms(1-3) cell_index_less [of i n j m] by (simp add: filled_def)
  show ?thesis
    unfolding filled_def v
  proof (intro conjI allI impI)
    show "length (dp[i * (m + 1) + j := suffix_len a b x y n m i j]) = (n + 1) * (m + 1)"
      using assms(1) by (simp add: filled_def)
    fix i' j'
    assume ij: "i' \<le> n" "j' \<le> m" "i < i' \<or> i = i' \<and> j \<le> j' \<or> i' = n \<or> j' = m"
    show "dp[i * (m + 1) + j := suffix_len a b x y n m i j] ! (i' * (m + 1) + j') = suffix_len a b x y n m i' j'"
    proof (cases "i' = i \<and> j' = j")
      case True
      with len show ?thesis by simp
    next
      case False
      with cell_index_inj [of i m j i' j'] assms(3) ij have ne: "i * (m + 1) + j \<noteq> i' * (m + 1) + j'"
        by auto
      have "i < i' \<or> i = i' \<and> Suc j \<le> j' \<or> i' = n \<or> j' = m" using False ij(3) by auto
      with filledD [OF assms(1) ij(1,2)] ne show ?thesis by simp
    qed
  qed
qed

lemma dp_row_filled:
  assumes "filled a b x y n m i m dp" "i < n" "x + n \<le> length a" "y + m \<le> length b"
  shows "filled a b x y n m i 0 (dp_row a b x y m i dp)"
proof -
  have "filled a b x y n m i 0
      (fold (\<lambda>j dp. dp[i * (m + 1) + j := dp_cell a b x y (m + 1) dp i j]) (rev [0..<k]) dp')"
    if "k \<le> m" "filled a b x y n m i k dp'" for k dp'
    using that
  proof (induction k arbitrary: dp')
    case 0
    then show ?case by simp
  next
    case (Suc k)
    have "filled a b x y n m i k (dp'[i * (m + 1) + k := dp_cell a b x y (m + 1) dp' i k])"
      using Suc.prems assms by (intro dp_cell_filled) auto
    with Suc.IH Suc.prems(1) show ?case by simp
  qed
  with assms(1) show ?thesis by (simp add: dp_row_def)
qed

lemma filled_next_row: "filled a b x y n m (Suc i) 0 dp \<Longrightarrow> filled a b x y n m i m dp"
  unfolding filled_def by (metis Suc_lessI le_antisym zero_le)

lemma dp_table_filled:
  assumes "x + n \<le> length a" "y + m \<le> length b"
  shows "filled a b x y n m 0 0 (dp_table a b x y n m)"
proof -
  have "filled a b x y n m 0 0 (fold (dp_row a b x y m) (rev [0..<k]) dp)"
    if "k \<le> n" "filled a b x y n m k 0 dp" for k dp
    using that
  proof (induction k arbitrary: dp)
    case 0
    then show ?case by simp
  next
    case (Suc k)
    have "filled a b x y n m k 0 (dp_row a b x y m k dp)"
      using Suc.prems assms by (intro dp_row_filled filled_next_row) auto
    with Suc.IH Suc.prems(1) show ?case by simp
  qed
  moreover have "filled a b x y n m n 0 (replicate ((n + 1) * (m + 1)) 0)"
    using assms cell_index_less [of _ n _ m]
    by (auto simp: filled_def suffix_len_edge simp del: One_nat_def intro!: nth_replicate)
  ultimately show ?thesis by (simp add: dp_table_def)
qed

lemma lcs_walk_length:
  assumes "filled a b x y n m 0 0 dp" "x + n \<le> length a" "y + m \<le> length b" "i \<le> n" "j \<le> m"
  shows "length (lcs_walk a b x y n m dp i j) = suffix_len a b x y n m i j"
  using assms
proof (induction a b x y n m dp i j rule: lcs_walk.induct)
  case (1 a b x y n m dp i j)
  show ?case
  proof (cases "i < n \<and> j < m")
    case False
    then have "lcs_walk a b x y n m dp i j = []" by (subst lcs_walk.simps) auto
    with False "1.prems" show ?thesis by (auto simp: suffix_len_edge)
  next
    case lt: True
    note step = suffix_len_step [OF conjunct1 [OF lt] conjunct2 [OF lt] "1.prems"(2,3)]
    have d: "dp ! ((i + 1) * (m + 1) + j) = suffix_len a b x y n m (i + 1) j"
      "dp ! (i * (m + 1) + j + 1) = suffix_len a b x y n m i (j + 1)"
      using filled_all [OF "1.prems"(1), of "i + 1" j] filled_all [OF "1.prems"(1), of i "j + 1"] lt
      by (auto simp: add.assoc)
    show ?thesis
    proof (cases "a ! (x + i) = b ! (y + j)")
      case True
      have "lcs_walk a b x y n m dp i j = (x + i, y + j) # lcs_walk a b x y n m dp (i + 1) (j + 1)"
        using lt True by (subst lcs_walk.simps) simp
      with "1.IH"(1) [OF lt True] "1.prems" lt step True show ?thesis by simp
    next
      case neq: False
      show ?thesis
      proof (cases "dp ! (i * (m + 1) + j + 1) \<le> dp ! ((i + 1) * (m + 1) + j)")
        case True
        have "lcs_walk a b x y n m dp i j = lcs_walk a b x y n m dp (i + 1) j"
          using lt neq True by (subst lcs_walk.simps) simp
        with "1.IH"(2) [OF lt neq True] "1.prems" lt step neq True d show ?thesis by simp
      next
        case False
        have "lcs_walk a b x y n m dp i j = lcs_walk a b x y n m dp i (j + 1)"
          using lt neq False by (subst lcs_walk.simps) simp
        with "1.IH"(3) [OF lt neq False] "1.prems" lt step neq False d show ?thesis by simp
      qed
    qed
  qed
qed

text \<open>
  Inside a block of at most 262144 cells the fallback emits as many pairs as a longest common
  subsequence of the two slices has elements.
\<close>

lemma exact_pairs_length:
  assumes "x \<le> xe" "xe \<le> length a" "y \<le> ye" "ye \<le> length b" "(xe - x) * (ye - y) \<le> 262144"
  shows "length (exact_pairs a b (x, xe) (y, ye)) = lcs_len (slice a (x, xe)) (slice b (y, ye))"
proof -
  have e: "x + (xe - x) = xe" "y + (ye - y) = ye" using assms by simp_all
  have "saturating_mul (xe - x) (ye - y) \<le> 262144"
    using assms(5) by (subst saturating_mul_le_small) (simp_all add: u64_max_def)
  then show ?thesis
    using lcs_walk_length [OF dp_table_filled [of x "xe - x" a y "ye - y" b], of 0 0] assms e
    by (simp add: exact_pairs_def suffix_len_def)
qed

text \<open>The values of the table stay far below \<open>2 ^ 32\<close>, so the \<^verbatim>\<open>u32\<close> cells never wrap.\<close>

lemma dp_table_fits:
  assumes "x + n \<le> length a" "y + m \<le> length b" "n * m \<le> 262144" "0 < m" "i \<le> n" "j \<le> m"
  shows "dp_table a b x y n m ! (i * (m + 1) + j) < 2 ^ 32"
proof -
  have "dp_table a b x y n m ! (i * (m + 1) + j) = suffix_len a b x y n m i j"
    by (rule filled_all [OF dp_table_filled [OF assms(1,2)] assms(5,6)])
  also have "\<dots> \<le> n"
    using lcs_len_bound [of "drop i (slice a (x, x + n))" "drop j (slice b (y, y + m))"] assms(1)
    by (simp add: suffix_len_def)
  also have "n \<le> n * m" using assms(4) by simp
  finally show ?thesis using assms(3) by simp
qed

theorem exact_pairs_length_witness:
  "length (exact_pairs [1, 2, 1 :: nat] [2, 1, 2, 1] (0, 3) (0, 4)) =
    lcs_len (slice [1, 2, 1] (0, 3)) (slice [2, 1, 2, 1 :: nat] (0, 4))"
  by (rule exact_pairs_length) simp_all

end
