(* ===== verification/Selection.thy ===== *)
theory Selection
  imports Prelude
begin

text \<open>
  The bounded selection of \<^verbatim>\<open>src/src/selection.rs\<close>: it keeps the \<open>limit\<close> smallest keys with
  the value each key was first inserted with, and counts every distinct key it was offered. The
  specification keeps everything; the code's state is its prefix of length \<open>limit\<close>.
\<close>

record ('k, 'v) selection =
  sel_entries :: "('k, 'v) btree"
  sel_seen :: "('k, unit) btree"
  sel_limit :: nat

section \<open>Operations\<close>

definition sel_new :: "nat \<Rightarrow> ('k, 'v) selection" where
  "sel_new limit = \<lparr>sel_entries = [], sel_seen = [], sel_limit = limit\<rparr>"

definition sel_accepts :: "'k::linorder \<Rightarrow> ('k, 'v) selection \<Rightarrow> bool \<times> ('k, 'v) selection" where
  "sel_accepts key s =
     (let s' = s\<lparr>sel_seen := bt_insert key () (sel_seen s)\<rparr> in
      if bt_contains (sel_entries s) key then (False, s')
      else if sel_limit s \<le> length (sel_entries s) \<and>
              (case bt_last (sel_entries s) of None \<Rightarrow> False | Some (largest, _) \<Rightarrow> largest < key)
      then (False, s')
      else (True, s'))"

definition sel_update :: "'k::linorder \<Rightarrow> ('v \<Rightarrow> 'v) \<Rightarrow> ('k, 'v) selection \<Rightarrow> ('k, 'v) selection option" where
  "sel_update key f s = (case bt_get (sel_entries s) key of
     None \<Rightarrow> None
   | Some v \<Rightarrow> Some (s\<lparr>sel_entries := bt_insert key (f v) (sel_entries s)\<rparr>))"

definition sel_insert :: "'k::linorder \<Rightarrow> 'v \<Rightarrow> ('k, 'v) selection \<Rightarrow> ('k, 'v) selection" where
  "sel_insert key unit s =
     (case sel_accepts key s of
        (False, s') \<Rightarrow> s'
      | (True, s') \<Rightarrow>
          let entries = bt_insert key unit (sel_entries s')
          in s'\<lparr>sel_entries := (if sel_limit s' < length entries then bt_pop_last entries else entries)\<rparr>)"

definition sel_into_parts :: "('k, 'v) selection \<Rightarrow> ('k, 'v) btree \<times> nat" where
  "sel_into_parts s = (sel_entries s, length (sel_seen s))"

section \<open>Specification: keep everything, first value wins\<close>

definition keep_first :: "'k::linorder \<Rightarrow> 'v \<Rightarrow> ('k, 'v) btree \<Rightarrow> ('k, 'v) btree" where
  "keep_first k v m = (if bt_contains m k then m else bt_insert k v m)"

definition sel_spec :: "nat \<Rightarrow> ('k::linorder \<times> 'v) list \<Rightarrow> ('k, 'v) btree \<times> nat" where
  "sel_spec limit kvs =
     (take limit (fold (\<lambda>(k, v). keep_first k v) kvs []), card (fst ` set kvs))"

definition sel_run :: "nat \<Rightarrow> ('k::linorder \<times> 'v) list \<Rightarrow> ('k, 'v) selection" where
  "sel_run limit kvs = fold (\<lambda>(k, v). sel_insert k v) kvs (sel_new limit)"

section \<open>Insertion and prefixes\<close>

lemma take_bt_insert: "take n (bt_insert k v m) = take n (bt_insert k v (take n m))"
proof (induction k v m arbitrary: n rule: bt_insert.induct)
  case (1 k v)
  then show ?case by simp
next
  case (2 k v k' v' m)
  then show ?case by (cases n) (simp_all add: take_Cons')
qed

lemma length_bt_insert_new: "\<not> bt_contains m k \<Longrightarrow> length (bt_insert k v m) = Suc (length m)"
  by (induction k v m rule: bt_insert.induct) (auto simp: bt_contains_def bt_keys_def)

lemma bt_insert_beyond:
  "bt_ok m \<Longrightarrow> m \<noteq> [] \<Longrightarrow> fst (last m) < k \<Longrightarrow> bt_insert k v m = m @ [(k, v)]"
proof (induction k v m rule: bt_insert.induct)
  case (2 k v k' v' m)
  show ?case
  proof (cases "m = []")
    case True
    with 2 show ?thesis by auto
  next
    case False
    then have "last m \<in> set m" by simp
    with "2.prems"(1) have "k' < fst (last m)" by (auto simp: bt_ok_def)
    with "2.prems"(3) False have "k' < k" by auto
    with 2 False show ?thesis by (auto simp: bt_ok_def)
  qed
qed simp

lemma bt_ok_take: "bt_ok m \<Longrightarrow> bt_ok (take n m)"
  unfolding bt_ok_def by (metis sorted_wrt_take take_map)

lemma contains_take: "bt_contains (take n m) k \<Longrightarrow> bt_contains m k"
  unfolding bt_contains_def bt_keys_def by (metis in_set_takeD take_map)

lemma bt_ok_last_drop:
  assumes "bt_ok m" "bt_contains m k" "\<not> bt_contains (take n m) k" "take n m \<noteq> []"
  shows "fst (last (take n m)) < k \<and> length (take n m) = n"
proof -
  have m: "map fst m = map fst (take n m) @ map fst (drop n m)" by (metis append_take_drop_id map_append)
  with assms(2,3) have "k \<in> set (map fst (drop n m))"
    unfolding bt_contains_def bt_keys_def by (metis Un_iff set_append)
  moreover have "fst (last (take n m)) \<in> set (map fst (take n m))" using assms(4) by simp
  moreover have "sorted_wrt (<) (map fst (take n m) @ map fst (drop n m))"
    using assms(1) m by (simp add: bt_ok_def)
  ultimately have "fst (last (take n m)) < k" unfolding sorted_wrt_append by blast
  moreover have "drop n m \<noteq> []" using \<open>k \<in> set (map fst (drop n m))\<close> by auto
  then have "length (take n m) = n" by simp
  ultimately show ?thesis by blast
qed

section \<open>Refinement\<close>

text \<open>One insertion on the prefix is the prefix of one insertion.\<close>

lemma sel_insert_entries:
  assumes "bt_ok m" "sel_entries s = take (sel_limit s) m"
  shows "sel_entries (sel_insert k v s) = take (sel_limit s) (keep_first k v m)"
proof -
  let ?n = "sel_limit s" let ?e = "take ?n m"
  have ok: "bt_ok ?e" using assms(1) by (rule bt_ok_take)
  consider (present) "bt_contains ?e k"
    | (reject) "\<not> bt_contains ?e k" "?n \<le> length ?e" "?e \<noteq> []" "fst (last ?e) < k"
    | (accept) "\<not> bt_contains ?e k" "\<not> (?n \<le> length ?e \<and> ?e \<noteq> [] \<and> fst (last ?e) < k)"
    by blast
  then show ?thesis
  proof cases
    case present
    with assms(2) contains_take [OF present] show ?thesis
      by (simp add: sel_insert_def sel_accepts_def keep_first_def Let_def)
  next
    case reject
    have "take ?n (bt_insert k v m) = ?e"
      using bt_insert_beyond [OF ok reject(3,4)] reject(2) by (simp add: take_bt_insert [of ?n k v m])
    moreover have "sel_entries (sel_insert k v s) = ?e"
      using reject assms(2) by (simp add: sel_insert_def sel_accepts_def bt_last_def split_beta Let_def)
    ultimately show ?thesis by (simp add: keep_first_def)
  next
    case accept
    let ?i = "bt_insert k v ?e"
    have len: "length ?i = Suc (length ?e)" using accept(1) by (rule length_bt_insert_new)
    have "sel_entries (sel_insert k v s) = (if ?n < length ?i then butlast ?i else ?i)"
      using accept assms(2)
      by (auto simp: sel_insert_def sel_accepts_def bt_last_def bt_pop_last_def split_beta Let_def)
    also have "\<dots> = take ?n ?i" using len by (auto simp: butlast_conv_take)
    also have "\<dots> = take ?n (bt_insert k v m)" by (rule take_bt_insert [symmetric])
    also have "\<dots> = take ?n (keep_first k v m)"
    proof (cases "bt_contains m k")
      case True
      have "?n = 0"
        using accept bt_ok_last_drop [OF assms(1) True accept(1)] True
        by (cases "?e = []") (auto simp: bt_contains_def bt_keys_def)
      then show ?thesis by simp
    qed (simp add: keep_first_def)
    finally show ?thesis .
  qed
qed

lemma sel_insert_frame [simp]:
  "sel_limit (sel_insert k v s) = sel_limit s"
  "sel_seen (sel_insert k v s) = bt_insert k () (sel_seen s)"
  by (auto simp: sel_insert_def sel_accepts_def Let_def split: prod.splits bool.splits)

lemma bt_ok_keep_first: "bt_ok m \<Longrightarrow> bt_ok (keep_first k v m)"
  by (simp add: keep_first_def)

lemma sel_fold:
  assumes "bt_ok m" "sel_entries s = take (sel_limit s) m"
  shows "sel_entries (fold (\<lambda>(k, v). sel_insert k v) kvs s) =
           take (sel_limit s) (fold (\<lambda>(k, v). keep_first k v) kvs m) \<and>
         sel_seen (fold (\<lambda>(k, v). sel_insert k v) kvs s) =
           fold (\<lambda>(k, v). bt_insert k ()) kvs (sel_seen s)"
  using assms
proof (induction kvs arbitrary: s m)
  case (Cons kv kvs)
  obtain k v where kv: "kv = (k, v)" by force
  from Cons.IH [OF bt_ok_keep_first [OF Cons.prems(1), of k v], of "sel_insert k v s"]
    sel_insert_entries [OF Cons.prems, of k v] kv
  show ?case by simp
qed simp

lemma length_seen:
  fixes kvs :: "('k::linorder \<times> 'v) list"
  shows "length (fold (\<lambda>(k, v). bt_insert k ()) kvs []) = card (fst ` set kvs)"
proof -
  let ?us = "map (\<lambda>(k, v). (k, ())) kvs"
  have "fold (\<lambda>(k, v). bt_insert k ()) kvs ([] :: ('k, unit) btree) = fold (\<lambda>(k, v). bt_insert k v) ?us []"
    by (induction kvs rule: rev_induct) (auto simp: split_beta)
  moreover have "bt_keys (fold (\<lambda>(k, v). bt_insert k v) ?us []) = sorted_list_of_set (fst ` set ?us)"
    using bt.keys_fold_ins [of "[]" ?us] by (simp add: bt_keys_def)
  ultimately have "length (fold (\<lambda>(k, v). bt_insert k ()) kvs ([] :: ('k, unit) btree)) =
      length (sorted_list_of_set (fst ` set ?us))"
    by (metis bt_keys_def length_map)
  then show ?thesis by (simp add: split_beta image_image)
qed

lemma sel_run_refines: "sel_into_parts (sel_run limit kvs) = sel_spec limit kvs"
proof -
  have "sel_entries (sel_new limit) = take (sel_limit (sel_new limit)) []" by (simp add: sel_new_def)
  from sel_fold [OF bt_ok_Nil this, of kvs]
  show ?thesis by (simp add: sel_into_parts_def sel_run_def sel_spec_def sel_new_def length_seen)
qed

text \<open>Hence the result does not depend on the order in which the keys arrive.\<close>

lemma keep_first_keys:
  "bt_ok m \<Longrightarrow> bt_ok (fold (\<lambda>(k, v). keep_first k v) kvs m) \<and>
   set (bt_keys (fold (\<lambda>(k, v). keep_first k v) kvs m)) = set (bt_keys m) \<union> fst ` set kvs"
proof (induction kvs arbitrary: m)
  case (Cons kv kvs)
  have "set (bt_keys (keep_first (fst kv) (snd kv) m)) = insert (fst kv) (set (bt_keys m))"
    by (auto simp: keep_first_def bt_contains_def)
  with Cons.IH [OF bt_ok_keep_first [OF Cons.prems]] show ?case by (simp add: split_beta)
qed simp

text \<open>
  After any sequence of insertions the selection holds exactly the smallest distinct keys
  offered, at most \<open>limit\<close> of them, in ascending order, and counts every distinct key.
\<close>

lemma sel_keys_smallest:
  "bt_keys (sel_entries (sel_run limit kvs)) = take limit (sorted_list_of_set (fst ` set kvs)) \<and>
   snd (sel_into_parts (sel_run limit kvs)) = card (fst ` set kvs)"
proof -
  let ?m = "fold (\<lambda>(k, v). keep_first k v) kvs []"
  have m: "bt_ok ?m" "set (bt_keys ?m) = fst ` set kvs"
    using keep_first_keys [of "[]" kvs] by (simp_all add: bt_keys_def)
  then have "sorted_list_of_set (set (bt_keys ?m)) = bt_keys ?m"
    using bt_ok_keys_sorted [of ?m] sorted_list_of_set.idem_if_sorted_distinct by blast
  with m(2) have "bt_keys ?m = sorted_list_of_set (fst ` set kvs)" by simp
  moreover have "sel_entries (sel_run limit kvs) = take limit ?m"
    using sel_run_refines [of limit kvs] by (simp add: sel_into_parts_def sel_spec_def)
  ultimately have "bt_keys (sel_entries (sel_run limit kvs)) = take limit (sorted_list_of_set (fst ` set kvs))"
    by (metis bt_keys_def take_map)
  moreover have "snd (sel_into_parts (sel_run limit kvs)) = card (fst ` set kvs)"
    using sel_run_refines [of limit kvs] by (simp add: sel_spec_def)
  ultimately show ?thesis by simp
qed

text \<open>An in-place update changes one value and no key.\<close>

lemma sel_update_spec:
  assumes "bt_ok (sel_entries s)"
  shows "(case sel_update key f s of
      None \<Rightarrow> bt_get (sel_entries s) key = None
    | Some s' \<Rightarrow> \<exists>v. bt_get (sel_entries s) key = Some v \<and>
        bt_get (sel_entries s') = (bt_get (sel_entries s))(key \<mapsto> f v) \<and>
        bt_keys (sel_entries s') = bt_keys (sel_entries s) \<and> sel_seen s' = sel_seen s)"
proof (cases "bt_get (sel_entries s) key")
  case None
  then show ?thesis by (simp add: sel_update_def)
next
  case (Some v)
  then have "key \<in> set (bt_keys (sel_entries s))" using bt_get_eq_None_iff [of "sel_entries s" key] by auto
  from bt.keys_ins_present [OF assms this] Some show ?thesis by (auto simp: sel_update_def fun_eq_iff)
qed

end
