(* ===== verification/Signature.thy ===== *)
theory Signature
  imports Prelude
begin

text \<open>
  The CLI signature decoder of \<^verbatim>\<open>src/src/signature.rs\<close> (ECMA-335 II.23.2). The decoder is a
  byte list and a position; every method takes the position and returns an error or the value
  with the next position. Integers are words of the code's widths.
\<close>

type_synonym u8 = "8 word"
type_synonym u32 = "32 word"

datatype sig_error =
    Truncated | Bad_compressed_integer | Bad_type_token | Bad_type_row | Count_exceeds_input
  | Nesting_exceeds_64 | Bad_array_rank | Size_count_exceeds_rank | Bound_count_exceeds_rank
  | Generic_needs_class | Unsupported_element u8 | Bad_calling_convention | Too_many_generics
  | Sentinel_needs_varargs | Duplicate_sentinel | Trailing_bytes | Bad_field_prefix
  | Bad_property_prefix

datatype type_signature =
    Primitive string
  | Named u32
  | GenericType u32
  | GenericMethod u32
  | Pointer type_signature
  | ByRef type_signature
  | Vector type_signature
  | ArrayT type_signature u32 "u32 list" "u32 list"
  | Generic type_signature "type_signature list"
  | Function signature_method
  | Modified bool u32 type_signature
  | Pinned type_signature
and signature_method =
    Method (flags: u8) (generics: u32) (return_type: type_signature)
      (params: "type_signature list") (sentinel: "nat option")

type_synonym 'a step = "sig_error + 'a \<times> nat"

section \<open>The decoder\<close>

definition dec_byte :: "u8 list \<Rightarrow> nat \<Rightarrow> u8 step" where
  "dec_byte bs p = (if p < length bs then Inr (bs ! p, p + 1) else Inl Truncated)"

definition dec_unsigned_with_width :: "u8 list \<Rightarrow> nat \<Rightarrow> (u32 \<times> nat) step" where
  "dec_unsigned_with_width bs p =
     bindE (dec_byte bs p) (\<lambda>(b, p).
       if b AND 0x80 = 0 then Inr ((ucast b, 7), p)
       else if b AND 0xc0 = 0x80 then
         bindE (dec_byte bs p) (\<lambda>(c, p).
           Inr ((push_bit 8 (ucast (b AND 0x3f)) OR ucast c, 14), p))
       else if b AND 0xe0 = 0xc0 then
         bindE (dec_byte bs p) (\<lambda>(c, p).
         bindE (dec_byte bs p) (\<lambda>(d, p).
         bindE (dec_byte bs p) (\<lambda>(e, p).
           Inr ((push_bit 24 (ucast (b AND 0x1f)) OR push_bit 16 (ucast c) OR
                 push_bit 8 (ucast d) OR ucast e, 29), p))))
       else Inl Bad_compressed_integer)"

definition dec_unsigned :: "u8 list \<Rightarrow> nat \<Rightarrow> u32 step" where
  "dec_unsigned bs p = bindE (dec_unsigned_with_width bs p) (\<lambda>((n, _), p). Inr (n, p))"

text \<open>An \<^verbatim>\<open>i32\<close> is a 32-bit word read with \<open>sint\<close>.\<close>

definition dec_signed :: "u8 list \<Rightarrow> nat \<Rightarrow> u32 step" where
  "dec_signed bs p = bindE (dec_unsigned_with_width bs p) (\<lambda>((n, width), p).
     Inr (drop_bit 1 n - (if n AND 1 \<noteq> 0 then push_bit (width - 1) 1 else 0), p))"

definition dec_token :: "u8 list \<Rightarrow> nat \<Rightarrow> u32 step" where
  "dec_token bs p = bindE (dec_unsigned bs p) (\<lambda>(coded, p).
     bindE (if coded AND 3 = 0 then Inr (0x02 :: u32) else if coded AND 3 = 1 then Inr 0x01
            else if coded AND 3 = 2 then Inr 0x1b else Inl Bad_type_token) (\<lambda>table.
       let row = drop_bit 2 coded in
       ensureE (0 < row \<and> row \<le> 0x00ffffff) Bad_type_row
         (Inr (push_bit 24 table OR row, p))))"

definition dec_count :: "u8 list \<Rightarrow> nat \<Rightarrow> nat step" where
  "dec_count bs p = bindE (dec_unsigned bs p) (\<lambda>(n, p).
     ensureE (unat n \<le> length bs - p) Count_exceeds_input (Inr (unat n, p)))"

text \<open>\<^verbatim>\<open>(0..count).map(|_| f()).collect()\<close>, stopping at the first error.\<close>

fun dec_repeat :: "(nat \<Rightarrow> 'a step) \<Rightarrow> nat \<Rightarrow> nat \<Rightarrow> 'a list step" where
  "dec_repeat f 0 p = Inr ([], p)"
| "dec_repeat f (Suc n) p =
     bindE (f p) (\<lambda>(x, p). bindE (dec_repeat f n p) (\<lambda>(xs, p). Inr (x # xs, p)))"

lemma dec_repeat_cong [fundef_cong]:
  "n = n' \<Longrightarrow> p = p' \<Longrightarrow> (\<And>q. f q = f' q) \<Longrightarrow> dec_repeat f n p = dec_repeat f' n' p'"
  by (metis ext)

definition primitive :: "u8 \<Rightarrow> string option" where
  "primitive code = map_of
     [(0x01, ''void''), (0x02, ''bool''), (0x03, ''char''), (0x04, ''sbyte''), (0x05, ''byte''),
      (0x06, ''short''), (0x07, ''ushort''), (0x08, ''int''), (0x09, ''uint''), (0x0a, ''long''),
      (0x0b, ''ulong''), (0x0c, ''float''), (0x0d, ''double''), (0x0e, ''string''),
      (0x16, ''System.TypedReference''), (0x18, ''nint''), (0x19, ''nuint''), (0x1c, ''object'')]
     code"

text \<open>
  \<^verbatim>\<open>ty\<close>, \<^verbatim>\<open>method\<close> and the parameter loop of \<^verbatim>\<open>method\<close>, which counts the parameters it has
  pushed. The recursion ends because the depth check refuses depths above 64; the loop runs
  after the check of \<^verbatim>\<open>method\<close> and repeats it only so that its own recursion ends.
\<close>

function (sequential) dec_ty :: "u8 list \<Rightarrow> nat \<Rightarrow> nat \<Rightarrow> type_signature step"
  and dec_method :: "u8 list \<Rightarrow> nat \<Rightarrow> nat \<Rightarrow> signature_method step"
  and dec_params :: "u8 list \<Rightarrow> nat \<Rightarrow> u8 \<Rightarrow> nat \<Rightarrow> nat \<Rightarrow> nat option \<Rightarrow> nat \<Rightarrow>
    (type_signature list \<times> nat option) step"
where
  "dec_ty bs depth p =
     ensureE (depth \<le> 64) Nesting_exceeds_64
     (bindE (dec_byte bs p) (\<lambda>(code, p).
      case primitive code of Some name \<Rightarrow> Inr (Primitive name, p) | None \<Rightarrow>
      if code = 0x0f then bindE (dec_ty bs (depth + 1) p) (\<lambda>(t, p). Inr (Pointer t, p))
      else if code = 0x10 then bindE (dec_ty bs (depth + 1) p) (\<lambda>(t, p). Inr (ByRef t, p))
      else if code = 0x11 \<or> code = 0x12 then bindE (dec_token bs p) (\<lambda>(t, p). Inr (Named t, p))
      else if code = 0x13 then bindE (dec_unsigned bs p) (\<lambda>(n, p). Inr (GenericType n, p))
      else if code = 0x14 then
        bindE (dec_ty bs (depth + 1) p) (\<lambda>(element, p).
        bindE (dec_unsigned bs p) (\<lambda>(rank, p).
        ensureE (0 < rank \<and> rank \<le> 32) Bad_array_rank
        (bindE (dec_count bs p) (\<lambda>(count, p).
        ensureE (count \<le> unat rank) Size_count_exceeds_rank
        (bindE (dec_repeat (dec_unsigned bs) count p) (\<lambda>(sizes, p).
        bindE (dec_count bs p) (\<lambda>(count, p).
        ensureE (count \<le> unat rank) Bound_count_exceeds_rank
        (bindE (dec_repeat (dec_signed bs) count p) (\<lambda>(lower_bounds, p).
          Inr (ArrayT element rank sizes lower_bounds, p)))))))))) 
      else if code = 0x15 then
        bindE (dec_byte bs p) (\<lambda>(kind, p).
        ensureE (kind = 0x11 \<or> kind = 0x12) Generic_needs_class
        (bindE (dec_token bs p) (\<lambda>(base, p).
         bindE (dec_count bs p) (\<lambda>(count, p).
         bindE (dec_repeat (dec_ty bs (depth + 1)) count p) (\<lambda>(arguments, p).
           Inr (Generic (Named base) arguments, p))))))
      else if code = 0x1b then bindE (dec_method bs (depth + 1) p) (\<lambda>(m, p). Inr (Function m, p))
      else if code = 0x1d then bindE (dec_ty bs (depth + 1) p) (\<lambda>(t, p). Inr (Vector t, p))
      else if code = 0x1e then bindE (dec_unsigned bs p) (\<lambda>(n, p). Inr (GenericMethod n, p))
      else if code = 0x1f \<or> code = 0x20 then
        bindE (dec_token bs p) (\<lambda>(modifier, p).
        bindE (dec_ty bs (depth + 1) p) (\<lambda>(element, p).
          Inr (Modified (code = 0x1f) modifier element, p)))
      else if code = 0x45 then bindE (dec_ty bs (depth + 1) p) (\<lambda>(t, p). Inr (Pinned t, p))
      else Inl (Unsupported_element code)))"
| "dec_method bs depth p =
     ensureE (depth \<le> 64) Nesting_exceeds_64
     (bindE (dec_byte bs p) (\<lambda>(fl, p).
      ensureE (fl AND 0x80 = 0 \<and> (fl AND 0x0f \<le> 5 \<or> fl AND 0x0f = 9 \<or> fl AND 0x0f = 11))
        Bad_calling_convention
      (bindE (if fl AND 0x10 \<noteq> 0 then dec_unsigned bs p else Inr (0, p)) (\<lambda>(generic, p).
       ensureE (generic \<le> 65535) Too_many_generics
       (bindE (dec_count bs p) (\<lambda>(count, p).
        bindE (dec_ty bs (depth + 1) p) (\<lambda>(ret, p).
        bindE (dec_params bs depth fl count 0 None p) (\<lambda>((ps, sen), p).
          Inr (Method fl generic ret ps sen, p)))))))))"
| "dec_params bs depth fl 0 done sen p = Inr (([], sen), p)"
| "dec_params bs depth fl (Suc n) done sen p =
     (if depth \<le> 64 then
       bindE (if p < length bs \<and> bs ! p = 0x41
              then ensureE (fl AND 0x0f = 5 \<or> fl AND 0x0f = 11) Sentinel_needs_varargs
                   (ensureE (sen = None) Duplicate_sentinel (Inr (Some done, p + 1)))
              else Inr (sen, p)) (\<lambda>(sen, p).
       bindE (dec_ty bs (depth + 1) p) (\<lambda>(t, p).
       bindE (dec_params bs depth fl n (done + 1) sen p) (\<lambda>((ts, sen), p).
         Inr ((t # ts, sen), p))))
      else Inl Nesting_exceeds_64)"
  by pat_completeness auto
termination
  by (relation "measures [\<lambda>x. case x of Inl (bs, d, p) \<Rightarrow> 130 - 2 * d
        | Inr (Inl (bs, d, p)) \<Rightarrow> 131 - 2 * d - 1
        | Inr (Inr (bs, d, fl, n, k, s, p)) \<Rightarrow> 130 - 2 * d,
      \<lambda>x. case x of Inl _ \<Rightarrow> 0 | Inr (Inl _) \<Rightarrow> 1 | Inr (Inr (bs, d, fl, n, k, s, p)) \<Rightarrow> 0,
      \<lambda>x. case x of Inr (Inr (bs, d, fl, n, k, s, p)) \<Rightarrow> n | _ \<Rightarrow> 0]") auto

declare dec_ty.simps [simp del] dec_method.simps [simp del] dec_params.simps [simp del]

definition dec_finish :: "u8 list \<Rightarrow> nat \<Rightarrow> 'a \<Rightarrow> sig_error + 'a" where
  "dec_finish bs p x = ensureE (p = length bs) Trailing_bytes (Inr x)"

definition parse_method_signature :: "u8 list \<Rightarrow> sig_error + signature_method" where
  "parse_method_signature bs = bindE (dec_method bs 0 0) (\<lambda>(m, p). dec_finish bs p m)"

definition parse_field_signature :: "u8 list \<Rightarrow> sig_error + type_signature" where
  "parse_field_signature bs =
     bindE (dec_byte bs 0) (\<lambda>(b, p).
     ensureE (b = 0x06) Bad_field_prefix
       (bindE (dec_ty bs 0 p) (\<lambda>(t, p). dec_finish bs p t)))"

definition parse_type_spec_signature :: "u8 list \<Rightarrow> sig_error + type_signature" where
  "parse_type_spec_signature bs = bindE (dec_ty bs 0 0) (\<lambda>(t, p). dec_finish bs p t)"

definition parse_property_signature :: "u8 list \<Rightarrow> sig_error + signature_method" where
  "parse_property_signature bs =
     bindE (dec_byte bs 0) (\<lambda>(fl, p).
     ensureE (fl AND 0xdf = 8) Bad_property_prefix
       (bindE (dec_count bs p) (\<lambda>(count, p).
        bindE (dec_ty bs 0 p) (\<lambda>(ret, p).
        bindE (dec_repeat (dec_ty bs 0) count p) (\<lambda>(ps, p).
          dec_finish bs p (Method fl 0 ret ps None))))))"

section \<open>The interface of a decoding step\<close>

text \<open>
  What every step of the decoder promises: it moves forward inside the input, and the result
  does not change when the input goes on after it.
\<close>

locale decoder =
  fixes f :: "u8 list \<Rightarrow> nat \<Rightarrow> 'a step"
  assumes bounds: "f bs p = Inr (x, q) \<Longrightarrow> p < q \<and> q \<le> length bs"
    and extend: "f bs p = Inr (x, q) \<Longrightarrow> f (bs @ cs) p = Inr (x, q)"
begin

lemma repeat_bounds:
  "dec_repeat (f bs) n p = Inr (xs, q) \<Longrightarrow> p \<le> length bs \<Longrightarrow> p + n \<le> q \<and> q \<le> length bs \<and> length xs = n"
proof (induction n arbitrary: p xs)
  case (Suc n)
  then obtain x p' xs' where s: "f bs p = Inr (x, p')" "dec_repeat (f bs) n p' = Inr (xs', q)" "xs = x # xs'"
    by auto
  with Suc.IH [OF s(2)] bounds [OF s(1)] show ?case by simp
qed simp

lemma repeat_extend:
  "dec_repeat (f bs) n p = Inr (xs, q) \<Longrightarrow> dec_repeat (f (bs @ cs)) n p = Inr (xs, q)"
proof (induction n arbitrary: p xs)
  case (Suc n)
  then obtain x p' xs' where s: "f bs p = Inr (x, p')" "dec_repeat (f bs) n p' = Inr (xs', q)" "xs = x # xs'"
    by auto
  with Suc.IH [OF s(2)] extend [OF s(1), of cs] show ?case by simp
qed simp

text \<open>Complete inputs are prefix-free: no proper prefix of an accepted input is accepted.\<close>

lemma prefix_free:
  assumes "f bs p = Inr (x, length bs)" "k < length bs"
  shows "f (take k bs) p \<noteq> Inr (y, k)"
proof
  assume "f (take k bs) p = Inr (y, k)"
  from extend [OF this, of "drop k bs"] assms show False by simp
qed

end

text \<open>
  Steps are built by sequencing; \<open>steady\<close> is the part of the interface that sequencing keeps,
  a step that has read at least one byte is a decoder.
\<close>

definition steady :: "(u8 list \<Rightarrow> nat \<Rightarrow> 'a step) \<Rightarrow> bool" where
  "steady f \<longleftrightarrow> (\<forall>bs p x q. f bs p = Inr (x, q) \<longrightarrow>
     p \<le> q \<and> (p \<le> length bs \<longrightarrow> q \<le> length bs) \<and> (\<forall>cs. f (bs @ cs) p = Inr (x, q)))"

lemma steadyD:
  assumes "steady f" "f bs p = Inr (x, q)"
  shows "p \<le> q" "p \<le> length bs \<Longrightarrow> q \<le> length bs" "f (bs @ cs) p = Inr (x, q)"
  using assms unfolding steady_def by blast+

lemma steady_return: "steady (\<lambda>bs p. Inr (x, p))"
  by (simp add: steady_def)

lemma steady_error: "steady (\<lambda>bs p. Inl e)"
  by (simp add: steady_def)

lemma steady_ensure: "(c \<Longrightarrow> steady f) \<Longrightarrow> steady (\<lambda>bs p. ensureE c e (f bs p))"
  by (cases c) (simp_all add: steady_error)

lemma steady_if: "(c \<Longrightarrow> steady f) \<Longrightarrow> (\<not> c \<Longrightarrow> steady g) \<Longrightarrow> steady (\<lambda>bs p. if c then f bs p else g bs p)"
  by (cases c) simp_all

lemma steady_option:
  "(\<And>v. w = Some v \<Longrightarrow> steady (f v)) \<Longrightarrow> (w = None \<Longrightarrow> steady g) \<Longrightarrow>
   steady (\<lambda>bs p. case w of Some v \<Rightarrow> f v bs p | None \<Rightarrow> g bs p)"
  by (cases w) simp_all

lemma steady_bind:
  assumes "steady f" "\<And>x. steady (g x)"
  shows "steady (\<lambda>bs p. bindE (f bs p) (\<lambda>(x, p). g x bs p))"
  unfolding steady_def
proof (intro allI impI)
  fix bs p y q
  assume "bindE (f bs p) (\<lambda>(x, p). g x bs p) = Inr (y, q)"
  then obtain x p' where s: "f bs p = Inr (x, p')" "g x bs p' = Inr (y, q)" by auto
  note A = steadyD [OF assms(1) s(1)] and B = steadyD [OF assms(2) s(2)]
  show "p \<le> q \<and> (p \<le> length bs \<longrightarrow> q \<le> length bs) \<and>
      (\<forall>cs. bindE (f (bs @ cs) p) (\<lambda>(x, p). g x (bs @ cs) p) = Inr (y, q))"
    using A(1,2) B(1,2) by (auto simp: A(3) B(3))
qed

lemma steady_repeat: "steady f \<Longrightarrow> steady (\<lambda>bs p. dec_repeat (f bs) n p)"
proof (induction n)
  case 0
  then show ?case by (simp add: steady_return)
next
  case (Suc n)
  from Suc.IH [OF Suc.prems] Suc.prems show ?case
    by (simp only: dec_repeat.simps) (intro steady_bind steady_return)
qed

lemmas steady_intros = steady_bind steady_return steady_error steady_ensure steady_if steady_option
  steady_repeat

lemma decoder_bind:
  assumes "decoder f" "\<And>x. steady (g x)"
  shows "decoder (\<lambda>bs p. bindE (f bs p) (\<lambda>(x, p). g x bs p))"
proof
  fix bs cs p y q
  assume "bindE (f bs p) (\<lambda>(x, p). g x bs p) = Inr (y, q)"
  then obtain x p' where s: "f bs p = Inr (x, p')" "g x bs p' = Inr (y, q)" by auto
  show "p < q \<and> q \<le> length bs"
    using decoder.bounds [OF assms(1) s(1)] steadyD(1,2) [OF assms(2) s(2)] by auto
  show "bindE (f (bs @ cs) p) (\<lambda>(x, p). g x (bs @ cs) p) = Inr (y, q)"
    by (simp add: decoder.extend [OF assms(1) s(1)] steadyD(3) [OF assms(2) s(2)])
qed

lemma decoder_steady: "decoder f \<Longrightarrow> steady f"
  unfolding steady_def by (meson decoder.bounds decoder.extend less_imp_le)

lemma decoder_ensure: "decoder f \<Longrightarrow> decoder (\<lambda>bs p. ensureE c e (f bs p))"
  by (auto simp: decoder_def)

interpretation byte: decoder dec_byte
  by unfold_locales (auto simp: dec_byte_def nth_append split: if_splits)

lemma byte_steady: "steady dec_byte"
  by (rule decoder_steady) (rule byte.decoder_axioms)

interpretation width: decoder dec_unsigned_with_width
  unfolding dec_unsigned_with_width_def [abs_def]
  by (intro decoder_bind byte.decoder_axioms steady_intros byte_steady)

interpretation unsigned: decoder dec_unsigned
  unfolding dec_unsigned_def [abs_def]
  by (intro decoder_bind width.decoder_axioms) (auto simp: split_beta intro: steady_return)

interpretation signed: decoder dec_signed
  unfolding dec_signed_def [abs_def]
  by (intro decoder_bind width.decoder_axioms) (auto simp: split_beta intro: steady_return)

interpretation token: decoder dec_token
  unfolding dec_token_def [abs_def] Let_def
  by (intro decoder_bind unsigned.decoder_axioms)
    (auto simp: bindE_def intro!: steady_intros split: sum.split)

interpretation count: decoder dec_count
proof
  fix bs cs :: "u8 list" and p x q
  assume r: "dec_count bs p = Inr (x, q)"
  then obtain c where c: "dec_unsigned bs p = Inr (c, q)" and n: "x = unat c" "unat c \<le> length bs - q"
    by (auto simp: dec_count_def)
  show "p < q \<and> q \<le> length bs" using unsigned.bounds [OF c] .
  show "dec_count (bs @ cs) p = Inr (x, q)"
    using n unsigned.extend [OF c, of cs] unsigned.bounds [OF c] by (simp add: dec_count_def)
qed

lemmas steps_steady =
  byte.decoder_axioms [THEN decoder_steady] unsigned.decoder_axioms [THEN decoder_steady]
  signed.decoder_axioms [THEN decoder_steady] token.decoder_axioms [THEN decoder_steady]
  count.decoder_axioms [THEN decoder_steady]

text \<open>The recursive steps, from the deepest level up.\<close>

text \<open>
  The sentinel is only peeked at, but the parameter after it must be there, so the peeked
  position lies inside the input.
\<close>

definition param_start :: "u8 \<Rightarrow> nat \<Rightarrow> nat option \<Rightarrow> u8 list \<Rightarrow> nat \<Rightarrow> nat option step" where
  "param_start fl k sen bs p =
     (if p < length bs \<and> bs ! p = 0x41
      then ensureE (fl AND 0x0f = 5 \<or> fl AND 0x0f = 11) Sentinel_needs_varargs
           (ensureE (sen = None) Duplicate_sentinel (Inr (Some k, p + 1)))
      else Inr (sen, p))"

lemma param_start_le: "param_start fl k sen bs p = Inr (s, q) \<Longrightarrow> p \<le> q"
  by (auto simp: param_start_def split: if_splits)

lemma param_start_extend:
  "param_start fl k sen bs p = Inr (s, q) \<Longrightarrow> p < length bs \<Longrightarrow> param_start fl k sen (bs @ cs) p = Inr (s, q)"
  by (auto simp: param_start_def nth_append split: if_splits)

lemma dec_params_Suc:
  "depth \<le> 64 \<Longrightarrow> dec_params bs depth fl (Suc n) k sen p =
     bindE (param_start fl k sen bs p) (\<lambda>(sen, p).
     bindE (dec_ty bs (depth + 1) p) (\<lambda>(t, p).
     bindE (dec_params bs depth fl n (k + 1) sen p) (\<lambda>((ts, sen), p). Inr ((t # ts, sen), p))))"
  by (simp add: dec_params.simps param_start_def)

lemma dec_params_steady:
  assumes "decoder (\<lambda>bs. dec_ty bs (depth + 1))" "depth \<le> 64"
  shows "steady (\<lambda>bs. dec_params bs depth fl n k sen)"
proof (induction n arbitrary: k sen)
  case 0
  then show ?case by (simp add: dec_params.simps steady_return)
next
  case (Suc n)
  let ?rest = "\<lambda>sen bs p. bindE (dec_ty bs (depth + 1) p) (\<lambda>(t, p).
     bindE (dec_params bs depth fl n (k + 1) sen p) (\<lambda>((ts, sen), p). Inr ((t # ts, sen), p)))"
  have rest: "decoder (?rest sen')" for sen'
    using Suc by (intro decoder_bind assms(1)) (auto simp: split_beta intro!: steady_intros)
  show ?case
    unfolding steady_def dec_params_Suc [OF assms(2)]
  proof (intro allI impI)
    fix bs p x q
    assume "bindE (param_start fl k sen bs p) (\<lambda>(sen, p). ?rest sen bs p) = Inr (x, q)"
    then obtain s p' where s: "param_start fl k sen bs p = Inr (s, p')" "?rest s bs p' = Inr (x, q)" by auto
    note B = decoder.bounds [OF rest s(2)] and L = param_start_le [OF s(1)]
    have "param_start fl k sen (bs @ cs) p = Inr (s, p')" for cs
      using B L by (intro param_start_extend [OF s(1)]) auto
    with B L show "p \<le> q \<and> (p \<le> length bs \<longrightarrow> q \<le> length bs) \<and>
        (\<forall>cs. bindE (param_start fl k sen (bs @ cs) p) (\<lambda>(sen, p). ?rest sen (bs @ cs) p) = Inr (x, q))"
      using decoder.extend [OF rest s(2)] by auto
  qed
qed

lemma dec_method_decoder:
  assumes "decoder (\<lambda>bs. dec_ty bs (depth + 1))"
  shows "decoder (\<lambda>bs. dec_method bs depth)"
proof (cases "depth \<le> 64")
  case True
  have "steady (\<lambda>bs p. if c then dec_unsigned bs p else Inr (0, p))" for c
    by (intro steady_intros steps_steady)
  with True dec_params_steady [OF assms True] show ?thesis
    unfolding ext [OF dec_method.simps [of _ depth]]
    by (intro decoder_ensure decoder_bind byte.decoder_axioms steady_intros steps_steady
        decoder_steady [OF assms]) (auto simp: split_beta intro: steady_return)
next
  case False
  then show ?thesis by unfold_locales (simp_all add: dec_method.simps)
qed

lemma dec_ty_decoder_step:
  assumes "decoder (\<lambda>bs. dec_ty bs (depth + 1))" "decoder (\<lambda>bs. dec_method bs (depth + 1))"
  shows "decoder (\<lambda>bs. dec_ty bs depth)"
  unfolding ext [OF dec_ty.simps [of _ depth]]
  by (intro decoder_ensure decoder_bind byte.decoder_axioms steady_intros steps_steady
      decoder_steady [OF assms(1)] decoder_steady [OF assms(2)])

lemma dec_decoder: "decoder (\<lambda>bs. dec_ty bs depth) \<and> decoder (\<lambda>bs. dec_method bs depth)"
proof (induction "65 - depth" arbitrary: depth)
  case 0
  then show ?case by (auto intro!: decoder.intro simp: dec_ty.simps dec_method.simps)
next
  case (Suc d)
  then have IH: "decoder (\<lambda>bs. dec_ty bs (depth + 1))" "decoder (\<lambda>bs. dec_method bs (depth + 1))"
    by simp_all
  from dec_ty_decoder_step [OF IH] dec_method_decoder [OF IH(1)] show ?case by blast
qed

interpretation ty: decoder "\<lambda>bs. dec_ty bs depth"
  using dec_decoder by blast

interpretation sig_method: decoder "\<lambda>bs. dec_method bs depth"
  using dec_decoder by blast

text \<open>
  A blob that decodes as a type specification has no decodable proper prefix: a truncated
  blob is always an error.
\<close>

lemma type_spec_prefix_free:
  assumes "parse_type_spec_signature bs = Inr t" "k < length bs"
  shows "\<exists>e. parse_type_spec_signature (take k bs) = Inl e"
proof (rule ccontr)
  assume "\<not> ?thesis"
  then obtain u where "parse_type_spec_signature (take k bs) = Inr u"
    by (cases "parse_type_spec_signature (take k bs)") auto
  with assms ty.prefix_free [of bs 0 0 t k u] show False
    by (auto simp: parse_type_spec_signature_def dec_finish_def)
qed

theorem type_spec_prefix_free_witness:
  "\<exists>e. parse_type_spec_signature (take 2 [0x1d, 0x0f, 0x08]) = Inl e"
  by (rule type_spec_prefix_free [of _ "Vector (Pointer (Primitive ''int''))"]) (code_simp, simp)

text \<open>The same for method signatures.\<close>

lemma method_prefix_free:
  assumes "parse_method_signature bs = Inr m" "k < length bs"
  shows "\<exists>e. parse_method_signature (take k bs) = Inl e"
proof (rule ccontr)
  assume "\<not> ?thesis"
  then obtain u where "parse_method_signature (take k bs) = Inr u"
    by (cases "parse_method_signature (take k bs)") auto
  with assms sig_method.prefix_free [of bs 0 0 m k u] show False
    by (auto simp: parse_method_signature_def dec_finish_def)
qed

theorem method_prefix_free_witness:
  "\<exists>e. parse_method_signature (take 3 [0x00, 0x01, 0x01, 0x08]) = Inl e"
  by (rule method_prefix_free [of _ "Method 0 0 (Primitive ''void'') [Primitive ''int''] None"])
    (code_simp, simp)

end
