(* ===== verification/Signature_Roundtrip.thy ===== *)
theory Signature_Roundtrip
  imports Signature
begin

text \<open>
  A reference encoder for CLI signatures (ECMA-335 II.23.2), and the proof that the decoder of
  \<^verbatim>\<open>src/src/signature.rs\<close> inverts it on every well-formed signature that nests at most 64
  levels deep.
\<close>

section \<open>Bits of compressed integers\<close>

lemma bit_small:
  assumes "(n::u32) < 2 ^ k" "k \<le> j"
  shows "\<not> bit n j"
proof (cases "j < 32")
  case True
  have "unat n < unat ((2::u32) ^ k)" using assms(1) by (simp add: word_less_nat_alt)
  also have "\<dots> = 2 ^ k"
  proof -
    have "(2::nat) ^ k < 2 ^ 32" using assms(2) True by (intro power_strict_increasing) auto
    then show ?thesis using unat_of_nat [where 'a = 32, of "2 ^ k"] by simp
  qed
  also have "\<dots> \<le> 2 ^ j" using assms(2) by simp
  finally have "\<not> bit (unat n) j" by (simp add: bit_nat_def)
  then show ?thesis using True by (simp add: bit_unsigned_iff)
next
  case False
  then show ?thesis using bit_imp_le_length [of n j] by auto
qed

lemma upt8: "[0..<8] = [0, 1, 2, 3, 4, 5, 6, 7::nat]"
  by (simp add: upt_rec)

lemma upt32:
  "[0..<32] = [0, 1, 2, 3, 4, 5, 6, 7, 8, 9, 10, 11, 12, 13, 14, 15, 16, 17, 18, 19, 20, 21, 22, 23,
     24, 25, 26, 27, 28, 29, 30, 31::nat]"
  by (simp add: upt_rec)

lemma u8_eqI: "\<forall>j\<in>set [0..<8]. bit (a::u8) j = bit b j \<Longrightarrow> a = b"
  by (intro bit_word_eqI) auto

lemma u32_eqI: "\<forall>j\<in>set [0..<32]. bit (a::u32) j = bit b j \<Longrightarrow> a = b"
  by (intro bit_word_eqI) auto

section \<open>Encoding numbers\<close>

definition enc7 :: "u32 \<Rightarrow> u8 list" where
  "enc7 n = [ucast n]"

definition enc14 :: "u32 \<Rightarrow> u8 list" where
  "enc14 n = [ucast (drop_bit 8 n) OR 0x80, ucast n]"

definition enc29 :: "u32 \<Rightarrow> u8 list" where
  "enc29 n = [ucast (drop_bit 24 n) OR 0xc0, ucast (drop_bit 16 n), ucast (drop_bit 8 n), ucast n]"

definition enc_unsigned :: "u32 \<Rightarrow> u8 list" where
  "enc_unsigned n = (if n < 0x80 then enc7 n else if n < 0x4000 then enc14 n else enc29 n)"

text \<open>A signed value has its sign in bit 0 and the rest, offset by the width, above it.\<close>

definition enc_signed :: "u32 \<Rightarrow> u8 list" where
  "enc_signed v =
     (if v < 0x40 then enc7 (v * 2)
      else if v + 0x40 < 0x40 then enc7 ((v + 0x40) * 2 + 1)
      else if v < 0x2000 then enc14 (v * 2)
      else if v + 0x2000 < 0x2000 then enc14 ((v + 0x2000) * 2 + 1)
      else if v < 0x10000000 then enc29 (v * 2)
      else enc29 ((v + 0x10000000) * 2 + 1))"

definition enc_token :: "u32 \<Rightarrow> u8 list" where
  "enc_token t =
     (let table = drop_bit 24 t; row = t AND 0x00ffffff
      in enc_unsigned (push_bit 2 row OR (if table = 0x02 then 0 else if table = 0x01 then 1 else 2)))"

definition token_ok :: "u32 \<Rightarrow> bool" where
  "token_ok t \<longleftrightarrow> drop_bit 24 t \<in> {0x02, 0x01, 0x1b} \<and> t AND 0x00ffffff \<noteq> 0"

definition small :: "u32 \<Rightarrow> bool" where
  "small n \<longleftrightarrow> n < 0x20000000"

definition signed_ok :: "u32 \<Rightarrow> bool" where
  "signed_ok v \<longleftrightarrow> v < 0x10000000 \<or> v + 0x10000000 < 0x10000000"

section \<open>Steps that read back an encoding\<close>

text \<open>\<open>reads f e x\<close>: wherever the bytes \<open>e\<close> stand, the step returns \<open>x\<close> and consumes them.\<close>

definition reads :: "(u8 list \<Rightarrow> nat \<Rightarrow> 'a step) \<Rightarrow> u8 list \<Rightarrow> 'a \<Rightarrow> bool" where
  "reads f e x \<longleftrightarrow> (\<forall>pre post. f (pre @ e @ post) (length pre) = Inr (x, length pre + length e))"

lemma reads_return: "reads (\<lambda>bs p. Inr (x, p)) [] x"
  by (simp add: reads_def)

lemma reads_bind:
  assumes "reads f e x" "reads (g x) e' y"
  shows "reads (\<lambda>bs p. bindE (f bs p) (\<lambda>(x, p). g x bs p)) (e @ e') y"
  unfolding reads_def
proof (intro allI)
  fix pre post
  from assms(1) have "f (pre @ e @ (e' @ post)) (length pre) = Inr (x, length pre + length e)"
    unfolding reads_def by blast
  moreover from assms(2) have "g x ((pre @ e) @ e' @ post) (length (pre @ e)) = Inr (y, length (pre @ e) + length e')"
    unfolding reads_def by blast
  ultimately show "bindE (f (pre @ (e @ e') @ post) (length pre)) (\<lambda>(x, p). g x (pre @ (e @ e') @ post) p) =
      Inr (y, length pre + length (e @ e'))" by simp
qed

lemma reads_bind_return:
  "reads f e x \<Longrightarrow> reads (\<lambda>bs p. bindE (f bs p) (\<lambda>(x, p). Inr (h x, p))) e (h x)"
  using reads_bind [of f e x "\<lambda>x bs p. Inr (h x, p)" "[]" "h x"] by (simp add: reads_return)

lemma reads_bind_return_pair:
  "reads f e (x, y) \<Longrightarrow> reads (\<lambda>bs p. bindE (f bs p) (\<lambda>((x, y), p). Inr (h x y, p))) e (h x y)"
  by (simp add: reads_def)

lemma reads_ensure: "c \<Longrightarrow> reads f e x \<Longrightarrow> reads (\<lambda>bs p. ensureE c err (f bs p)) e x"
  by simp

lemma reads_byte: "reads dec_byte [b] b"
  by (simp add: reads_def dec_byte_def nth_append)

lemma reads_byte_bind:
  "reads (g b) e y \<Longrightarrow> reads (\<lambda>bs p. bindE (dec_byte bs p) (\<lambda>(b, p). g b bs p)) (b # e) y"
  using reads_bind [OF reads_byte, of g b e y] by simp

lemma reads_repeat:
  assumes "\<forall>x\<in>set xs. reads f (enc x) x"
  shows "reads (\<lambda>bs p. dec_repeat (f bs) (length xs) p) (concat (map enc xs)) xs"
  using assms
proof (induction xs)
  case Nil
  then show ?case by (simp add: reads_return)
next
  case (Cons x xs)
  from Cons have x: "reads f (enc x) x"
    and xs: "reads (\<lambda>bs p. dec_repeat (f bs) (length xs) p) (concat (map enc xs)) xs" by simp_all
  show ?case
    using reads_bind [OF x, of "\<lambda>x bs p. bindE (dec_repeat (f bs) (length xs) p) (\<lambda>(xs, p). Inr (x # xs, p))"]
      reads_bind_return [OF xs, of "(#) x"] by simp
qed

section \<open>Numbers\<close>

lemma reads_enc7:
  assumes "n < 0x80"
  shows "reads dec_unsigned_with_width (enc7 n) (n, 7)"
proof -
  have "(ucast n :: u8) AND 0x80 = 0"
    using bit_small [of n 7] assms by (intro u8_eqI) (simp add: upt8 bit_simps)
  moreover have "(ucast (ucast n :: u8) :: u32) = n"
    using bit_small [of n 7] assms by (intro u32_eqI) (simp add: upt32 bit_simps)
  ultimately show ?thesis
    unfolding enc7_def dec_unsigned_with_width_def [abs_def]
    by (intro reads_byte_bind) (simp add: reads_return)
qed

lemma reads_enc14:
  assumes "n < 0x4000"
  shows "reads dec_unsigned_with_width (enc14 n) (n, 14)"
proof -
  let ?b = "ucast (drop_bit 8 n) OR 0x80 :: u8"
  have "bit (?b AND 0x80) 7" by (simp add: bit_simps)
  then have "?b AND 0x80 \<noteq> 0" by (metis bit_0_eq bot_apply bot_bool_def)
  moreover have "?b AND 0xc0 = 0x80"
    using bit_small [of n 14] assms by (intro u8_eqI) (simp add: upt8 bit_simps)
  moreover have "push_bit 8 (ucast (?b AND 0x3f)) OR ucast (ucast n :: u8) = n"
    using bit_small [of n 14] assms by (intro u32_eqI) (simp add: upt32 bit_simps)
  ultimately show ?thesis
    unfolding enc14_def dec_unsigned_with_width_def [abs_def]
    by (intro reads_byte_bind, simp) (intro reads_byte_bind, simp add: reads_return)
qed

lemma reads_enc29:
  assumes "n < 0x20000000"
  shows "reads dec_unsigned_with_width (enc29 n) (n, 29)"
proof -
  let ?b = "ucast (drop_bit 24 n) OR 0xc0 :: u8"
  have "bit (?b AND 0x80) 7" "bit (?b AND 0xc0) 6" "\<not> bit (0x80 :: u8) 6" by (simp_all add: bit_simps)
  then have "?b AND 0x80 \<noteq> 0" "?b AND 0xc0 \<noteq> 0x80" by (metis bit_0_eq bot_apply bot_bool_def)+
  moreover have "?b AND 0xe0 = 0xc0"
    using bit_small [of n 29] assms by (intro u8_eqI) (simp add: upt8 bit_simps)
  moreover have "push_bit 24 (ucast (?b AND 0x1f)) OR push_bit 16 (ucast (ucast (drop_bit 16 n) :: u8)) OR
      push_bit 8 (ucast (ucast (drop_bit 8 n) :: u8)) OR ucast (ucast n :: u8) = n"
    using bit_small [of n 29] assms by (intro u32_eqI) (simp add: upt32 bit_simps)
  ultimately show ?thesis
    unfolding enc29_def dec_unsigned_with_width_def [abs_def]
    by (intro reads_byte_bind, simp) (intro reads_byte_bind, simp add: reads_return)
qed

lemma dec_unsigned_eq:
  "dec_unsigned = (\<lambda>bs p. bindE (dec_unsigned_with_width bs p) (\<lambda>(x, p). Inr (fst x, p)))"
  by (auto simp: fun_eq_iff dec_unsigned_def bindE_def split: sum.split prod.split)

lemma dec_signed_eq:
  "dec_signed = (\<lambda>bs p. bindE (dec_unsigned_with_width bs p) (\<lambda>(x, p).
     Inr (drop_bit 1 (fst x) - (if fst x AND 1 \<noteq> 0 then push_bit (snd x - 1) 1 else 0), p)))"
  by (auto simp: fun_eq_iff dec_signed_def bindE_def split: sum.split prod.split)

lemma reads_unsigned: "small n \<Longrightarrow> reads dec_unsigned (enc_unsigned n) n"
  unfolding dec_unsigned_eq small_def enc_unsigned_def
  using reads_bind_return [OF reads_enc7, of n fst] reads_bind_return [OF reads_enc14, of n fst]
    reads_bind_return [OF reads_enc29, of n fst] by simp

lemma enc_unsigned_length: "1 \<le> length (enc_unsigned n)"
  by (simp add: enc_unsigned_def enc7_def enc14_def enc29_def)

lemma reads_signed_width:
  assumes "reads dec_unsigned_with_width e (n, w)"
  shows "reads dec_signed e (drop_bit 1 n - (if n AND 1 \<noteq> 0 then push_bit (w - 1) 1 else 0))"
  using reads_bind_return [OF assms,
      of "\<lambda>x. drop_bit 1 (fst x) - (if fst x AND 1 \<noteq> 0 then push_bit (snd x - 1) 1 else 0)"]
  unfolding dec_signed_eq by (simp only: fst_conv snd_conv)

lemma unat_double:
  assumes "(v::u32) < 2 ^ 31"
  shows "unat (v * 2) = unat v * 2" "unat (v * 2 + 1) = unat v * 2 + 1"
proof -
  from assms have "unat v < 2 ^ 31" by (simp add: word_less_nat_alt)
  then show "unat (v * 2) = unat v * 2" "unat (v * 2 + 1) = unat v * 2 + 1"
    by (simp_all add: unat_word_ariths)
qed

lemma signed_even: "(v::u32) < 2 ^ 31 \<Longrightarrow> drop_bit 1 (v * 2) = v \<and> v * 2 AND 1 = 0"
  by (auto simp: and_one_eq word_unat_eq_iff drop_bit_eq_div unat_double unat_mod unat_div)

lemma signed_odd: "(v::u32) < 2 ^ 31 \<Longrightarrow> drop_bit 1 (v * 2 + 1) = v \<and> (v * 2 + 1) AND 1 = 1"
  by (auto simp: and_one_eq word_unat_eq_iff drop_bit_eq_div unat_double unat_mod unat_div mod_Suc)

lemma shift_bound:
  assumes "(v::u32) < c" "c \<le> 0x10000000"
  shows "v < 2 ^ 31" "v * 2 < c * 2" "v * 2 + 1 < c * 2"
proof -
  show v: "v < 2 ^ 31" using assms by (auto simp: word_less_nat_alt word_le_nat_alt)
  have c: "c < 2 ^ 31" using assms(2) by (auto simp: word_less_nat_alt word_le_nat_alt)
  show "v * 2 < c * 2" "v * 2 + 1 < c * 2"
    using assms(1) by (auto simp: word_less_nat_alt unat_double [OF v] unat_double [OF c])
qed

lemma reads_signed_even:
  assumes "reads dec_unsigned_with_width e (v * 2, w)" "v < 2 ^ 31"
  shows "reads dec_signed e v"
  using reads_signed_width [OF assms(1)] signed_even [OF assms(2)] by simp

lemma reads_signed_odd:
  assumes "reads dec_unsigned_with_width e ((v + c) * 2 + 1, w)" "v + c < 2 ^ 31" "push_bit (w - 1) 1 = c"
  shows "reads dec_signed e v"
  using reads_signed_width [OF assms(1)] signed_odd [OF assms(2)] assms(3) by simp

lemma reads_signed:
  assumes "signed_ok v"
  shows "reads dec_signed (enc_signed v) v"
proof -
  have w7: "reads dec_signed (enc7 (v * 2)) v" if "v < 0x40"
    using shift_bound [OF that] by (intro reads_signed_even [OF reads_enc7]) auto
  have n7: "reads dec_signed (enc7 ((v + 0x40) * 2 + 1)) v" if "v + 0x40 < 0x40"
    using shift_bound [OF that] by (intro reads_signed_odd [OF reads_enc7]) auto
  have w14: "reads dec_signed (enc14 (v * 2)) v" if "v < 0x2000"
    using shift_bound [OF that] by (intro reads_signed_even [OF reads_enc14]) auto
  have n14: "reads dec_signed (enc14 ((v + 0x2000) * 2 + 1)) v" if "v + 0x2000 < 0x2000"
    using shift_bound [OF that] by (intro reads_signed_odd [OF reads_enc14]) auto
  have w29: "reads dec_signed (enc29 (v * 2)) v" if "v < 0x10000000"
    using shift_bound [OF that] by (intro reads_signed_even [OF reads_enc29]) auto
  have n29: "reads dec_signed (enc29 ((v + 0x10000000) * 2 + 1)) v" if "v + 0x10000000 < 0x10000000"
    using shift_bound [OF that] by (intro reads_signed_odd [OF reads_enc29]) auto
  show ?thesis using assms w7 n7 w14 n14 w29 n29 unfolding enc_signed_def signed_ok_def by presburger
qed

text \<open>A token: the table in the two low bits, the row above them.\<close>

lemma token_parts:
  assumes "(k :: u32) < 4" "r < 0x1000000"
  shows "(push_bit 2 r OR k) AND 3 = k" "drop_bit 2 (push_bit 2 r OR k) = r" "push_bit 2 r OR k < 0x20000000"
proof -
  note b = bit_small [of k 2] bit_small [of r 24]
  show "(push_bit 2 r OR k) AND 3 = k"
    using b assms by (intro u32_eqI) (simp add: upt32 bit_simps)
  show "drop_bit 2 (push_bit 2 r OR k) = r"
    using b assms by (intro u32_eqI) (simp add: upt32 bit_simps)
  have "(push_bit 2 r OR k) AND 0x1fffffff = push_bit 2 r OR k"
    using b assms by (intro u32_eqI) (simp add: upt32 bit_simps)
  then have "push_bit 2 r OR k \<le> 0x1fffffff" by (metis word_and_le1)
  then show "push_bit 2 r OR k < 0x20000000" by (simp add: word_less_nat_alt word_le_nat_alt)
qed

lemma reads_token:
  assumes "token_ok t"
  shows "reads dec_token (enc_token t) t"
proof -
  define r where "r = t AND 0x00ffffff"
  define table where "table = drop_bit 24 t"
  define k :: u32 where "k = (if table = 0x02 then 0 else if table = 0x01 then 1 else 2)"
  define coded where "coded = push_bit 2 r OR k"
  have r: "r < 0x1000000" "r \<le> 0xffffff" "0 < r"
    using assms word_and_le1 [of t "0xffffff"]
    by (auto simp: r_def token_ok_def word_less_nat_alt word_le_nat_alt word_neq_0_conv)
  have t: "push_bit 24 table OR r = t"
    unfolding table_def r_def by (intro u32_eqI) (simp add: upt32 bit_simps)
  have k: "k < 4" by (simp add: k_def)
  have parts: "coded AND 3 = k" "drop_bit 2 coded = r" "coded < 0x20000000"
    unfolding coded_def by (rule token_parts [OF k r(1)])+
  have u: "reads dec_unsigned (enc_token t) coded"
  proof -
    have "enc_token t = enc_unsigned coded"
      unfolding enc_token_def Let_def coded_def k_def r_def table_def by (rule refl)
    then show ?thesis using reads_unsigned [of coded] parts(3) by (simp add: small_def)
  qed
  have sel: "(if k = 0 then Inr 0x02 else if k = 1 then Inr 0x01 else if k = 2 then Inr 0x1b
      else Inl Bad_type_token) = (Inr table :: sig_error + u32)"
    using assms by (auto simp: k_def token_ok_def table_def)
  show ?thesis
    unfolding reads_def
  proof (intro allI)
    fix pre post
    have "dec_unsigned (pre @ enc_token t @ post) (length pre) =
        Inr (coded, length pre + length (enc_token t))"
      using u unfolding reads_def by blast
    then show "dec_token (pre @ enc_token t @ post) (length pre) = Inr (t, length pre + length (enc_token t))"
      using r(2,3) sel t unfolding dec_token_def by (auto simp: parts(1,2) Let_def split: if_splits)
  qed
qed

section \<open>Encoding types and methods\<close>

definition primitive_code :: "string \<Rightarrow> u8 option" where
  "primitive_code name = map_of
     [(''void'', 0x01), (''bool'', 0x02), (''char'', 0x03), (''sbyte'', 0x04), (''byte'', 0x05),
      (''short'', 0x06), (''ushort'', 0x07), (''int'', 0x08), (''uint'', 0x09), (''long'', 0x0a),
      (''ulong'', 0x0b), (''float'', 0x0c), (''double'', 0x0d), (''string'', 0x0e),
      (''System.TypedReference'', 0x16), (''nint'', 0x18), (''nuint'', 0x19), (''object'', 0x1c)]
     name"

definition enc_count :: "'a list \<Rightarrow> u8 list" where
  "enc_count xs = enc_unsigned (of_nat (length xs))"

fun enc_ty :: "type_signature \<Rightarrow> u8 list"
  and enc_method :: "signature_method \<Rightarrow> u8 list"
  and enc_params :: "nat option \<Rightarrow> nat \<Rightarrow> type_signature list \<Rightarrow> u8 list"
where
  "enc_ty (Primitive name) = [the (primitive_code name)]"
| "enc_ty (Named t) = 0x12 # enc_token t"
| "enc_ty (GenericType n) = 0x13 # enc_unsigned n"
| "enc_ty (GenericMethod n) = 0x1e # enc_unsigned n"
| "enc_ty (Pointer t) = 0x0f # enc_ty t"
| "enc_ty (ByRef t) = 0x10 # enc_ty t"
| "enc_ty (Vector t) = 0x1d # enc_ty t"
| "enc_ty (ArrayT t rank sizes bounds) =
     0x14 # enc_ty t @ enc_unsigned rank @ enc_count sizes @ concat (map enc_unsigned sizes) @
     enc_count bounds @ concat (map enc_signed bounds)"
| "enc_ty (Generic base args) =
     0x15 # (case base of Named t \<Rightarrow> 0x12 # enc_token t | _ \<Rightarrow> []) @ enc_count args @ concat (map enc_ty args)"
| "enc_ty (Function m) = 0x1b # enc_method m"
| "enc_ty (Modified req modifier t) = (if req then 0x1f else 0x20) # enc_token modifier @ enc_ty t"
| "enc_ty (Pinned t) = 0x45 # enc_ty t"
| "enc_method (Method fl g ret ps sen) =
     fl # (if fl AND 0x10 \<noteq> 0 then enc_unsigned g else []) @ enc_count ps @ enc_ty ret @ enc_params sen 0 ps"
| "enc_params sen k [] = []"
| "enc_params sen k (t # ts) =
     (if sen = Some k then [0x41] else []) @ enc_ty t @ enc_params sen (k + 1) ts"

text \<open>The values the encoding can express, and how deep they nest.\<close>

definition list_small :: "'a list \<Rightarrow> bool" where
  "list_small xs \<longleftrightarrow> length xs < 0x20000000"

fun ty_ok :: "type_signature \<Rightarrow> bool"
  and method_ok :: "signature_method \<Rightarrow> bool"
where
  "ty_ok (Primitive name) \<longleftrightarrow> primitive_code name \<noteq> None"
| "ty_ok (Named t) \<longleftrightarrow> token_ok t"
| "ty_ok (GenericType n) \<longleftrightarrow> small n"
| "ty_ok (GenericMethod n) \<longleftrightarrow> small n"
| "ty_ok (Pointer t) \<longleftrightarrow> ty_ok t"
| "ty_ok (ByRef t) \<longleftrightarrow> ty_ok t"
| "ty_ok (Vector t) \<longleftrightarrow> ty_ok t"
| "ty_ok (ArrayT t rank sizes bounds) \<longleftrightarrow> ty_ok t \<and> 0 < rank \<and> rank \<le> 32 \<and>
     length sizes \<le> unat rank \<and> length bounds \<le> unat rank \<and>
     (\<forall>n\<in>set sizes. small n) \<and> (\<forall>v\<in>set bounds. signed_ok v)"
| "ty_ok (Generic base args) \<longleftrightarrow> (case base of Named t \<Rightarrow> token_ok t | _ \<Rightarrow> False) \<and>
     list_small args \<and> (\<forall>t\<in>set args. ty_ok t)"
| "ty_ok (Function m) \<longleftrightarrow> method_ok m"
| "ty_ok (Modified req modifier t) \<longleftrightarrow> token_ok modifier \<and> ty_ok t"
| "ty_ok (Pinned t) \<longleftrightarrow> ty_ok t"
| "method_ok (Method fl g ret ps sen) \<longleftrightarrow>
     fl AND 0x80 = 0 \<and> (fl AND 0x0f \<le> 5 \<or> fl AND 0x0f = 9 \<or> fl AND 0x0f = 11) \<and>
     (if fl AND 0x10 \<noteq> 0 then g \<le> 65535 else g = 0) \<and> list_small ps \<and>
     (case sen of None \<Rightarrow> True
      | Some k \<Rightarrow> k < length ps \<and> (fl AND 0x0f = 5 \<or> fl AND 0x0f = 11)) \<and>
     ty_ok ret \<and> (\<forall>t\<in>set ps. ty_ok t)"

fun ty_height :: "type_signature \<Rightarrow> nat"
  and method_height :: "signature_method \<Rightarrow> nat"
where
  "ty_height (Pointer t) = Suc (ty_height t)"
| "ty_height (ByRef t) = Suc (ty_height t)"
| "ty_height (Vector t) = Suc (ty_height t)"
| "ty_height (ArrayT t rank sizes bounds) = Suc (ty_height t)"
| "ty_height (Generic base args) = foldr max (map (\<lambda>t. Suc (ty_height t)) args) 0"
| "ty_height (Function m) = Suc (method_height m)"
| "ty_height (Modified req modifier t) = Suc (ty_height t)"
| "ty_height (Pinned t) = Suc (ty_height t)"
| "ty_height _ = 0"
| "method_height (Method fl g ret ps sen) = foldr max (map (\<lambda>t. Suc (ty_height t)) (ret # ps)) 0"

section \<open>The round trip\<close>

lemma primitive_code_Some: "primitive_code name = Some b \<Longrightarrow> primitive b = Some name \<and> b \<noteq> 0x41"
  by (auto simp: primitive_code_def primitive_def split: if_splits)

lemma not_primitive:
  "primitive 0x0f = None" "primitive 0x10 = None" "primitive 0x11 = None" "primitive 0x12 = None"
  "primitive 0x13 = None" "primitive 0x14 = None" "primitive 0x15 = None" "primitive 0x1b = None"
  "primitive 0x1d = None" "primitive 0x1e = None" "primitive 0x1f = None" "primitive 0x20 = None"
  "primitive 0x45 = None"
  by (simp_all add: primitive_def)

lemma reads_count_bind:
  assumes "list_small xs" "length xs \<le> length e" "reads (g (length xs)) e y"
  shows "reads (\<lambda>bs p. bindE (dec_count bs p) (\<lambda>(n, p). g n bs p)) (enc_count xs @ e) y"
  unfolding reads_def
proof (intro allI)
  fix pre post
  let ?bs = "pre @ (enc_count xs @ e) @ post" and ?n = "of_nat (length xs) :: u32"
  have n: "unat ?n = length xs" using assms(1) by (simp add: list_small_def unat_of_nat)
  then have "small ?n" using assms(1) by (simp add: small_def list_small_def word_less_nat_alt)
  from reads_unsigned [OF this]
  have "dec_unsigned (pre @ enc_count xs @ (e @ post)) (length pre) = Inr (?n, length pre + length (enc_count xs))"
    unfolding reads_def enc_count_def by blast
  then have "dec_count ?bs (length pre) = Inr (length xs, length pre + length (enc_count xs))"
    using assms(2) n by (simp add: dec_count_def)
  moreover have "g (length xs) ((pre @ enc_count xs) @ e @ post) (length (pre @ enc_count xs)) =
      Inr (y, length (pre @ enc_count xs) + length e)"
    using assms(3) unfolding reads_def by blast
  ultimately show "bindE (dec_count ?bs (length pre)) (\<lambda>(n, p). g n ?bs p) =
      Inr (y, length pre + length (enc_count xs @ e))" by simp
qed

lemma concat_length_ge: "\<forall>x\<in>set xs. 1 \<le> length (enc x) \<Longrightarrow> length xs \<le> length (concat (map enc xs))"
  by (induction xs) auto

lemma enc_ty_length: "ty_ok t \<Longrightarrow> 1 \<le> length (enc_ty t)"
  by (cases t) auto

lemma enc_params_length:
  "\<forall>t\<in>set ts. ty_ok t \<Longrightarrow> length ts \<le> length (enc_params sen k ts)"
proof (induction ts arbitrary: k)
  case (Cons t ts)
  then have "length ts \<le> length (enc_params sen (k + 1) ts)" "1 \<le> length (enc_ty t)"
    using enc_ty_length by auto
  then show ?case by simp
qed simp

lemma enc_ty_no_sentinel: "ty_ok t \<Longrightarrow> \<exists>b e. enc_ty t = b # e \<and> b \<noteq> 0x41"
  by (cases t) (auto dest: primitive_code_Some)

lemma enc_signed_length: "1 \<le> length (enc_signed v)"
  by (simp add: enc_signed_def enc7_def enc14_def enc29_def)

text \<open>One parameter, with or without the sentinel before it.\<close>

lemma reads_param_start:
  assumes "ty_ok t" "sen = Some k \<Longrightarrow> fl AND 0x0f = 5 \<or> fl AND 0x0f = 11"
    "sen' = (if sen = Some k then None else sen'')"
    "reads (g (if sen = Some k then sen else sen'')) (enc_ty t @ e) y"
  shows "reads (\<lambda>bs p. bindE (param_start fl k sen' bs p) (\<lambda>(s, p). g s bs p))
     ((if sen = Some k then [0x41] else []) @ enc_ty t @ e) y"
proof (cases "sen = Some k")
  case True
  have "reads (\<lambda>bs p. param_start fl k sen' bs p) [0x41] (Some k)"
    using True assms(2,3) by (auto simp: reads_def param_start_def nth_append)
  from reads_bind [OF this, of g "enc_ty t @ e" y] True assms(4) show ?thesis by simp
next
  case False
  obtain b r where b: "enc_ty t = b # r" "b \<noteq> 0x41" using enc_ty_no_sentinel [OF assms(1)] by blast
  have "param_start fl k sen' (pre @ (enc_ty t @ e) @ post) (length pre) = Inr (sen', length pre)" for pre post
    using b by (simp add: param_start_def nth_append)
  with False assms(3,4) show ?thesis by (simp add: reads_def)
qed

lemma reads_params:
  assumes "depth \<le> 64" "\<forall>t\<in>set ts. ty_ok t \<and> reads (\<lambda>bs. dec_ty bs (depth + 1)) (enc_ty t) t"
    "\<And>j. sen = Some j \<Longrightarrow> fl AND 0x0f = 5 \<or> fl AND 0x0f = 11"
    "\<And>j. sen = Some j \<Longrightarrow> j < k + length ts"
  shows "reads (\<lambda>bs p. dec_params bs depth fl (length ts) k (case sen of Some j \<Rightarrow> if j < k then sen else None | None \<Rightarrow> None) p)
     (enc_params sen k ts) (ts, sen)"
  using assms(2,4)
proof (induction ts arbitrary: k)
  case Nil
  then have "(case sen of Some j \<Rightarrow> if j < k then sen else None | None \<Rightarrow> None) = sen"
    by (auto split: option.split)
  then show ?case by (simp add: dec_params.simps reads_return)
next
  case (Cons t ts)
  let ?now = "\<lambda>k. case sen of Some j \<Rightarrow> if j < k then sen else None | None \<Rightarrow> None"
  have IH: "reads (\<lambda>bs p. dec_params bs depth fl (length ts) (k + 1) (?now (k + 1)) p) (enc_params sen (k + 1) ts) (ts, sen)"
    by (rule Cons.IH) (use Cons.prems in auto)
  have t: "ty_ok t" "reads (\<lambda>bs. dec_ty bs (depth + 1)) (enc_ty t) t" using Cons.prems(1) by auto
  have eq: "?now (k + 1) = (if sen = Some k then sen else ?now k)"
    "?now k = (if sen = Some k then None else ?now k)"
    by (auto split: option.split)
  let ?rest = "\<lambda>s bs p. bindE (dec_ty bs (depth + 1) p) (\<lambda>(t, p).
     bindE (dec_params bs depth fl (length ts) (k + 1) s p) (\<lambda>((ts, sen), p). Inr ((t # ts, sen), p)))"
  have "reads (\<lambda>bs p. bindE (dec_params bs depth fl (length ts) (k + 1) (?now (k + 1)) p)
      (\<lambda>((ts, sen), p). Inr ((t # ts, sen), p))) (enc_params sen (k + 1) ts) (t # ts, sen)"
    by (rule reads_bind_return_pair [OF IH])
  note Q = this [unfolded eq(1)]
  have R: "reads (?rest (if sen = Some k then sen else ?now k)) (enc_ty t @ enc_params sen (k + 1) ts) (t # ts, sen)"
    by (rule reads_bind, rule t(2), rule Q)
  show ?case
    unfolding dec_params_Suc [OF assms(1)] list.size enc_params.simps add_Suc_right add_0_right
    by (rule reads_param_start [where sen'' = "?now k"]) (use t(1) assms(3) eq(2) R in auto)
qed

text \<open>A method, given that its types are read one level deeper.\<close>

lemma reads_method:
  assumes "method_ok (Method fl g ret ps sen)" "depth \<le> 64"
    "\<And>t. t \<in> set (ret # ps) \<Longrightarrow> reads (\<lambda>bs. dec_ty bs (depth + 1)) (enc_ty t) t"
  shows "reads (\<lambda>bs. dec_method bs depth) (enc_method (Method fl g ret ps sen)) (Method fl g ret ps sen)"
proof -
  have g: "small g" "reads (\<lambda>bs p. if fl AND 0x10 \<noteq> 0 then dec_unsigned bs p else Inr (0, p))
      (if fl AND 0x10 \<noteq> 0 then enc_unsigned g else []) g" "g \<le> 65535"
  proof -
    show s: "small g" "g \<le> 65535"
      using assms(1) by (auto simp: small_def word_less_nat_alt word_le_nat_alt split: if_splits)
    show "reads (\<lambda>bs p. if fl AND 0x10 \<noteq> 0 then dec_unsigned bs p else Inr (0, p))
      (if fl AND 0x10 \<noteq> 0 then enc_unsigned g else []) g"
      using reads_unsigned [OF s(1)] assms(1) by (auto simp: reads_return)
  qed
  have ok: "\<forall>t\<in>set ps. ty_ok t" "list_small ps" using assms(1) by auto
  have "reads (\<lambda>bs p. dec_params bs depth fl (length ps) 0
      (case sen of Some j \<Rightarrow> if j < 0 then sen else None | None \<Rightarrow> None) p) (enc_params sen 0 ps) (ps, sen)"
    by (rule reads_params) (use assms in \<open>auto split: option.splits\<close>)
  then have P: "reads (\<lambda>bs p. dec_params bs depth fl (length ps) 0 None p) (enc_params sen 0 ps) (ps, sen)"
    by (simp split: option.splits)
  have R: "reads (\<lambda>bs p. bindE (dec_ty bs (depth + 1) p) (\<lambda>(ret, p).
        bindE (dec_params bs depth fl (length ps) 0 None p) (\<lambda>((ps, sen), p). Inr (Method fl g ret ps sen, p))))
      (enc_ty ret @ enc_params sen 0 ps) (Method fl g ret ps sen)"
    by (rule reads_bind, rule assms(3), simp, rule reads_bind_return_pair [OF P])
  have C: "reads (\<lambda>bs p. bindE (dec_count bs p) (\<lambda>(count, p). bindE (dec_ty bs (depth + 1) p) (\<lambda>(ret, p).
        bindE (dec_params bs depth fl count 0 None p) (\<lambda>((ps, sen), p). Inr (Method fl g ret ps sen, p)))))
      (enc_count ps @ enc_ty ret @ enc_params sen 0 ps) (Method fl g ret ps sen)"
    by (rule reads_count_bind, rule ok(2))
      (use enc_params_length [OF ok(1), of sen 0] in simp, rule R)
  have G: "reads (\<lambda>bs p. bindE (if fl AND 0x10 \<noteq> 0 then dec_unsigned bs p else Inr (0, p)) (\<lambda>(generic, p).
      ensureE (generic \<le> 65535) Too_many_generics
       (bindE (dec_count bs p) (\<lambda>(count, p). bindE (dec_ty bs (depth + 1) p) (\<lambda>(ret, p).
        bindE (dec_params bs depth fl count 0 None p) (\<lambda>((ps, sen), p). Inr (Method fl generic ret ps sen, p)))))))
      ((if fl AND 0x10 \<noteq> 0 then enc_unsigned g else []) @ enc_count ps @ enc_ty ret @ enc_params sen 0 ps)
      (Method fl g ret ps sen)"
    by (rule reads_bind [OF g(2)]) (use g(3) C in simp)
  show ?thesis
    unfolding ext [OF dec_method.simps [of _ depth]] enc_method.simps
    by (rule reads_ensure [OF assms(2)], rule reads_byte_bind, rule reads_ensure [OF _ G])
      (use assms(1) in auto)
qed

text \<open>A type, given the same for the types and methods it contains.\<close>

lemma reads_array:
  assumes "ty_ok (ArrayT t rank sizes bounds)" "depth \<le> 64" "reads (\<lambda>bs. dec_ty bs (depth + 1)) (enc_ty t) t"
  shows "reads (\<lambda>bs. dec_ty bs depth) (enc_ty (ArrayT t rank sizes bounds)) (ArrayT t rank sizes bounds)"
proof -
  have rank: "small rank" "0 < rank" "rank \<le> 32" "unat rank \<le> 32" "length sizes \<le> unat rank" "length bounds \<le> unat rank"
    using assms(1) by (auto simp: small_def word_less_nat_alt word_le_nat_alt)
  then have ls: "list_small sizes" "list_small bounds" by (auto simp: list_small_def)
  have S: "reads (\<lambda>bs p. dec_repeat (dec_unsigned bs) (length sizes) p) (concat (map enc_unsigned sizes)) sizes"
    by (rule reads_repeat) (use assms(1) reads_unsigned in auto)
  have B: "reads (\<lambda>bs p. dec_repeat (dec_signed bs) (length bounds) p) (concat (map enc_signed bounds)) bounds"
    by (rule reads_repeat) (use assms(1) reads_signed in auto)
  have sl: "length sizes \<le> length (concat (map enc_unsigned sizes))"
    "length bounds \<le> length (concat (map enc_signed bounds))"
    using concat_length_ge [of sizes enc_unsigned] concat_length_ge [of bounds enc_signed]
      enc_unsigned_length enc_signed_length by blast+
  show ?thesis
    unfolding ext [OF dec_ty.simps [of _ depth]] enc_ty.simps
    apply (rule reads_ensure [OF assms(2)], rule reads_byte_bind, simp add: not_primitive)
    apply (rule reads_bind, rule assms(3)[simplified])
    apply (rule reads_bind, rule reads_unsigned [OF rank(1)])
    apply (rule reads_ensure, use rank in simp)
    apply (rule reads_count_bind [OF ls(1)], use sl in simp)
    apply (rule reads_ensure [OF rank(5)])
    apply (rule reads_bind, rule S)
    apply (rule reads_count_bind [OF ls(2) sl(2)])
    apply (rule reads_ensure [OF rank(6)])
    apply (rule reads_bind_return [OF B])
    done
qed

lemma reads_generic:
  assumes "ty_ok (Generic base args)" "depth \<le> 64"
    "\<And>t. t \<in> set args \<Longrightarrow> reads (\<lambda>bs. dec_ty bs (depth + 1)) (enc_ty t) t"
  shows "reads (\<lambda>bs. dec_ty bs depth) (enc_ty (Generic base args)) (Generic base args)"
proof -
  obtain t where base: "base = Named t" "token_ok t" using assms(1) by (cases base) auto
  have args: "list_small args" "\<forall>t\<in>set args. ty_ok t" using assms(1) by auto
  have A: "reads (\<lambda>bs p. dec_repeat (dec_ty bs (depth + 1)) (length args) p) (concat (map enc_ty args)) args"
    by (rule reads_repeat) (use assms(3) in auto)
  have al: "length args \<le> length (concat (map enc_ty args))"
    using concat_length_ge [of args enc_ty] args(2) enc_ty_length by blast
  show ?thesis
    unfolding ext [OF dec_ty.simps [of _ depth]] enc_ty.simps base(1) type_signature.case append_Cons append_assoc
    apply (rule reads_ensure [OF assms(2)], rule reads_byte_bind, simp add: not_primitive)
    apply (rule reads_byte_bind, simp)
    apply (rule reads_bind, rule reads_token [OF base(2)])
    apply (rule reads_count_bind [OF args(1) al])
    apply (rule reads_bind_return [OF A [simplified]])
    done
qed

text \<open>The remaining constructors: a code byte, perhaps a number, perhaps one contained type.\<close>

lemma code_byte_cases:
  assumes "depth \<le> 64"
    "reads (\<lambda>bs p. case primitive code of Some name \<Rightarrow> Inr (Primitive name, p) | None \<Rightarrow>
      if code = 0x0f then bindE (dec_ty bs (depth + 1) p) (\<lambda>(t, p). Inr (Pointer t, p))
      else if code = 0x10 then bindE (dec_ty bs (depth + 1) p) (\<lambda>(t, p). Inr (ByRef t, p))
      else if code = 0x11 \<or> code = 0x12 then bindE (dec_token bs p) (\<lambda>(t, p). Inr (Named t, p))
      else if code = 0x13 then bindE (dec_unsigned bs p) (\<lambda>(n, p). Inr (GenericType n, p))
      else if code = 0x1b then bindE (dec_method bs (depth + 1) p) (\<lambda>(m, p). Inr (Function m, p))
      else if code = 0x1d then bindE (dec_ty bs (depth + 1) p) (\<lambda>(t, p). Inr (Vector t, p))
      else if code = 0x1e then bindE (dec_unsigned bs p) (\<lambda>(n, p). Inr (GenericMethod n, p))
      else if code = 0x1f \<or> code = 0x20 then
        bindE (dec_token bs p) (\<lambda>(modifier, p).
        bindE (dec_ty bs (depth + 1) p) (\<lambda>(element, p).
          Inr (Modified (code = 0x1f) modifier element, p)))
      else bindE (dec_ty bs (depth + 1) p) (\<lambda>(t, p). Inr (Pinned t, p))) e t"
    "code \<in> {0x0f, 0x10, 0x12, 0x13, 0x1b, 0x1d, 0x1e, 0x1f, 0x20, 0x45} \<or> primitive code \<noteq> None"
  shows "reads (\<lambda>bs. dec_ty bs depth) (code # e) t"
  unfolding ext [OF dec_ty.simps [of _ depth]]
  by (rule reads_ensure [OF assms(1)], rule reads_byte_bind)
    (use assms(2,3) in \<open>auto simp: not_primitive split: option.splits\<close>)

lemma reads_all:
  "ty_ok t \<Longrightarrow> depth + ty_height t \<le> 64 \<Longrightarrow> reads (\<lambda>bs. dec_ty bs depth) (enc_ty t) t"
  "method_ok m \<Longrightarrow> depth' + method_height m \<le> 64 \<Longrightarrow> reads (\<lambda>bs. dec_method bs depth') (enc_method m) m"
proof (induction t and m arbitrary: depth and depth')
  case (Primitive name)
  then obtain b where b: "primitive_code name = Some b" by auto
  from primitive_code_Some [OF b] Primitive show ?case
    unfolding enc_ty.simps by (intro code_byte_cases) (simp_all add: b reads_return)
next
  case (Named t)
  then show ?case
    unfolding enc_ty.simps
    by (intro code_byte_cases) (simp_all add: not_primitive reads_bind_return [OF reads_token])
next
  case (GenericType n)
  then show ?case
    unfolding enc_ty.simps
    by (intro code_byte_cases) (simp_all add: not_primitive reads_bind_return [OF reads_unsigned])
next
  case (GenericMethod n)
  then show ?case
    unfolding enc_ty.simps
    by (intro code_byte_cases) (simp_all add: not_primitive reads_bind_return [OF reads_unsigned])
next
  case (Pointer t)
  then have "reads (\<lambda>bs. dec_ty bs (depth + 1)) (enc_ty t) t" by simp
  from reads_bind_return [OF this, of Pointer] Pointer show ?case
    unfolding enc_ty.simps by (intro code_byte_cases) (simp_all add: not_primitive)
next
  case (ByRef t)
  then have "reads (\<lambda>bs. dec_ty bs (depth + 1)) (enc_ty t) t" by simp
  from reads_bind_return [OF this, of ByRef] ByRef show ?case
    unfolding enc_ty.simps by (intro code_byte_cases) (simp_all add: not_primitive)
next
  case (Vector t)
  then have "reads (\<lambda>bs. dec_ty bs (depth + 1)) (enc_ty t) t" by simp
  from reads_bind_return [OF this, of Vector] Vector show ?case
    unfolding enc_ty.simps by (intro code_byte_cases) (simp_all add: not_primitive)
next
  case (ArrayT t rank sizes bounds)
  then have "reads (\<lambda>bs. dec_ty bs (depth + 1)) (enc_ty t) t" by simp
  with ArrayT.prems show ?case by (intro reads_array) simp_all
next
  case (Generic base args)
  have "reads (\<lambda>bs. dec_ty bs (depth + 1)) (enc_ty u) u" if "u \<in> set args" for u
  proof -
    have "Suc (ty_height u) \<le> ty_height (Generic base args)"
      using that foldr_max_le [of "map (\<lambda>t. Suc (ty_height t)) args" "ty_height (Generic base args)"] by simp
    with Generic.prems(2) have "depth + 1 + ty_height u \<le> 64" by linarith
    moreover have "ty_ok u" using Generic.prems(1) that by simp
    ultimately show ?thesis using Generic.IH(2) [OF that] by blast
  qed
  with Generic.prems show ?case by (intro reads_generic) simp_all
next
  case (Function m)
  then have "reads (\<lambda>bs. dec_method bs (depth + 1)) (enc_method m) m" by simp
  from reads_bind_return [OF this, of Function] Function show ?case
    unfolding enc_ty.simps by (intro code_byte_cases) (simp_all add: not_primitive)
next
  case (Modified req modifier t)
  then have t: "reads (\<lambda>bs. dec_ty bs (depth + 1)) (enc_ty t) t" by simp
  have "reads (\<lambda>bs p. bindE (dec_token bs p) (\<lambda>(modifier, p). bindE (dec_ty bs (depth + 1) p) (\<lambda>(element, p).
      Inr (Modified req modifier element, p)))) (enc_token modifier @ enc_ty t) (Modified req modifier t)"
    by (rule reads_bind, rule reads_token, use Modified.prems in simp, rule reads_bind_return [OF t])
  with Modified.prems show ?case
    unfolding enc_ty.simps by (intro code_byte_cases) (auto simp: not_primitive)
next
  case (Pinned t)
  then have "reads (\<lambda>bs. dec_ty bs (depth + 1)) (enc_ty t) t" by simp
  from reads_bind_return [OF this, of Pinned] Pinned show ?case
    unfolding enc_ty.simps by (intro code_byte_cases) (simp_all add: not_primitive)
next
  case (Method fl g ret ps sen)
  have "reads (\<lambda>bs. dec_ty bs (depth' + 1)) (enc_ty u) u" if "u \<in> set (ret # ps)" for u
  proof -
    have "Suc (ty_height u) \<le> method_height (Method fl g ret ps sen)"
      using that foldr_max_le [of "map (\<lambda>t. Suc (ty_height t)) (ret # ps)" "method_height (Method fl g ret ps sen)"]
      by auto
    with Method.prems(2) have "depth' + 1 + ty_height u \<le> 64" by linarith
    with that Method.prems(1) Method.IH show ?thesis by auto
  qed
  with Method.prems show ?case by (intro reads_method) simp_all
qed

lemma readsD: "reads f e x \<Longrightarrow> f e 0 = Inr (x, length e)"
  unfolding reads_def by (drule spec [of _ "[]"], drule spec [of _ "[]"]) simp

text \<open>
  C18: decoding the encoding of a type of at most 64 levels whose numbers fit their fields gives
  the type back, so every such type has a signature blob that the decoder accepts in full.
\<close>

theorem type_spec_roundtrip:
  assumes "ty_ok t" "ty_height t \<le> 64"
  shows "parse_type_spec_signature (enc_ty t) = Inr t"
proof -
  have "reads (\<lambda>bs. dec_ty bs 0) (enc_ty t) t"
    using reads_all(1) [of t 0] assms by simp
  from readsD [OF this] show ?thesis by (simp add: parse_type_spec_signature_def dec_finish_def)
qed

theorem type_spec_roundtrip_witness:
  "parse_type_spec_signature (enc_ty (Generic (Named 0x01000005) [Vector (Primitive ''int''), GenericType 3])) =
    Inr (Generic (Named 0x01000005) [Vector (Primitive ''int''), GenericType 3])"
  by (rule type_spec_roundtrip)
    (simp_all add: token_ok_def small_def list_small_def primitive_code_def)

text \<open>The same round trip for method signatures, sentinel and generic arity included.\<close>

lemma method_roundtrip:
  assumes "method_ok m" "method_height m \<le> 64"
  shows "parse_method_signature (enc_method m) = Inr m"
proof -
  have "reads (\<lambda>bs. dec_method bs 0) (enc_method m) m"
    using reads_all(2) [of m 0] assms by simp
  from readsD [OF this] show ?thesis by (simp add: parse_method_signature_def dec_finish_def)
qed

theorem method_roundtrip_witness:
  "parse_method_signature (enc_method (Method 5 0 (Primitive ''void'')
      [Primitive ''string'', Pointer (Primitive ''int'')] (Some 1))) =
    Inr (Method 5 0 (Primitive ''void'') [Primitive ''string'', Pointer (Primitive ''int'')] (Some 1))"
  by (rule method_roundtrip)
    (simp_all add: list_small_def primitive_code_def)

end
