(* ===== verification/Text.thy ===== *)
theory Text
  imports Prelude
begin

text \<open>
  Text as the Rust standard library has it: a string is a list of Unicode scalar values, with the
  searching, splitting, trimming and number parsing the program uses, its UTF-8 encoding, and the
  character classes. The classes defined by a short list (white space, control, ASCII) are
  written out; the large tables (letters, case mapping) are a record, given by the caller.
\<close>

type_synonym str = "nat list"

definition lit :: "string \<Rightarrow> str" where
  "lit s = map of_char s"

abbreviation ch :: "char \<Rightarrow> nat" where
  "ch c \<equiv> of_char c"

lemma length_lit [simp]: "length (lit s) = length s"
  by (simp add: lit_def)

lemma lit_Nil [simp]: "lit [] = []"
  by (simp add: lit_def)

lemma lit_Cons: "lit (c # s) = ch c # lit s"
  by (simp add: lit_def)

lemma lit_eq_iff [simp]: "lit s = lit t \<longleftrightarrow> s = t"
  by (simp add: lit_def inj_map_eq_map inj_def)

lemma lit_eq_Nil [simp]: "lit s = [] \<longleftrightarrow> s = []"
  by (simp add: lit_def)

section \<open>Character classes\<close>

definition is_whitespace :: "nat \<Rightarrow> bool" where
  "is_whitespace c \<longleftrightarrow> (9 \<le> c \<and> c \<le> 13) \<or> c = 32 \<or> c = 0x85 \<or> c = 0xa0 \<or> c = 0x1680 \<or>
     (0x2000 \<le> c \<and> c \<le> 0x200a) \<or> c = 0x2028 \<or> c = 0x2029 \<or> c = 0x202f \<or> c = 0x205f \<or> c = 0x3000"

definition is_ascii_whitespace :: "nat \<Rightarrow> bool" where
  "is_ascii_whitespace c \<longleftrightarrow> c = 9 \<or> c = 10 \<or> c = 12 \<or> c = 13 \<or> c = 32"

definition is_control :: "nat \<Rightarrow> bool" where
  "is_control c \<longleftrightarrow> c < 32 \<or> (127 \<le> c \<and> c < 160)"

definition is_digit :: "nat \<Rightarrow> bool" where
  "is_digit c \<longleftrightarrow> 48 \<le> c \<and> c \<le> 57"

definition is_ascii_upper :: "nat \<Rightarrow> bool" where
  "is_ascii_upper c \<longleftrightarrow> 65 \<le> c \<and> c \<le> 90"

definition is_ascii_lower :: "nat \<Rightarrow> bool" where
  "is_ascii_lower c \<longleftrightarrow> 97 \<le> c \<and> c \<le> 122"

definition is_ascii_alpha :: "nat \<Rightarrow> bool" where
  "is_ascii_alpha c \<longleftrightarrow> is_ascii_upper c \<or> is_ascii_lower c"

definition is_ascii_alnum :: "nat \<Rightarrow> bool" where
  "is_ascii_alnum c \<longleftrightarrow> is_ascii_alpha c \<or> is_digit c"

definition is_hex_digit :: "nat \<Rightarrow> bool" where
  "is_hex_digit c \<longleftrightarrow> is_digit c \<or> (65 \<le> c \<and> c \<le> 70) \<or> (97 \<le> c \<and> c \<le> 102)"

definition ascii_lower :: "nat \<Rightarrow> nat" where
  "ascii_lower c = (if is_ascii_upper c then c + 32 else c)"

lemmas ascii_classes = is_digit_def is_ascii_upper_def is_ascii_lower_def is_ascii_alpha_def is_ascii_alnum_def
  is_hex_digit_def is_ascii_whitespace_def is_control_def is_whitespace_def

text \<open>The tables of the Unicode character database that the program calls.\<close>

record unicode =
  u_alphabetic :: "nat \<Rightarrow> bool"
  u_alphanumeric :: "nat \<Rightarrow> bool"
  u_uppercase :: "nat \<Rightarrow> bool"
  u_lowercase :: "nat \<Rightarrow> bool"
  u_to_lower :: "str \<Rightarrow> str"

text \<open>The restriction of the tables to ASCII, for concrete evaluation.\<close>

definition ascii_tables :: unicode where
  "ascii_tables = \<lparr>u_alphabetic = is_ascii_alpha, u_alphanumeric = is_ascii_alnum,
     u_uppercase = is_ascii_upper, u_lowercase = is_ascii_lower, u_to_lower = map ascii_lower\<rparr>"

section \<open>Searching and cutting\<close>

fun starts_with :: "'a list \<Rightarrow> 'a list \<Rightarrow> bool" where
  "starts_with s [] \<longleftrightarrow> True"
| "starts_with [] (p # ps) \<longleftrightarrow> False"
| "starts_with (c # s) (p # ps) \<longleftrightarrow> c = p \<and> starts_with s ps"

definition ends_with :: "'a list \<Rightarrow> 'a list \<Rightarrow> bool" where
  "ends_with s p \<longleftrightarrow> starts_with (rev s) (rev p)"

fun contains_text :: "'a list \<Rightarrow> 'a list \<Rightarrow> bool" where
  "contains_text [] p \<longleftrightarrow> p = []"
| "contains_text (c # s) p \<longleftrightarrow> starts_with (c # s) p \<or> contains_text s p"

definition strip_prefix :: "'a list \<Rightarrow> 'a list \<Rightarrow> 'a list option" where
  "strip_prefix s p = (if starts_with s p then Some (drop (length p) s) else None)"

text \<open>\<^verbatim>\<open>str::find(char)\<close>: the position of the first occurrence.\<close>

fun find_first :: "('a \<Rightarrow> bool) \<Rightarrow> 'a list \<Rightarrow> nat option" where
  "find_first p [] = None"
| "find_first p (c # s) = (if p c then Some 0 else map_option Suc (find_first p s))"

text \<open>\<^verbatim>\<open>str::match_indices(p)\<close>: the positions of the non-overlapping occurrences.\<close>

fun match_indices :: "nat \<Rightarrow> nat \<Rightarrow> 'a list \<Rightarrow> 'a list \<Rightarrow> nat list" where
  "match_indices i skip p [] = []"
| "match_indices i (Suc skip) p (c # s) = match_indices (i + 1) skip p s"
| "match_indices i 0 p (c # s) =
     (if starts_with (c # s) p then i # match_indices (i + 1) (length p - 1) p s
      else match_indices (i + 1) 0 p s)"

text \<open>\<^verbatim>\<open>str::split(char)\<close>: always at least one part.\<close>

fun split_on :: "'a \<Rightarrow> 'a list \<Rightarrow> 'a list list" where
  "split_on d [] = [[]]"
| "split_on d (c # s) =
     (if c = d then [] # split_on d s
      else (case split_on d s of [] \<Rightarrow> [[c]] | p # ps \<Rightarrow> (c # p) # ps))"

text \<open>\<^verbatim>\<open>str::split(&str)\<close> for a nonempty separator, with the part read so far.\<close>

fun split_text_from :: "nat \<Rightarrow> 'a list \<Rightarrow> 'a list \<Rightarrow> 'a list \<Rightarrow> 'a list list" where
  "split_text_from skip d part [] = [part]"
| "split_text_from (Suc skip) d part (c # s) = split_text_from skip d part s"
| "split_text_from 0 d part (c # s) =
     (if starts_with (c # s) d then part # split_text_from (length d - 1) d [] s
      else split_text_from 0 d (part @ [c]) s)"

definition split_text :: "'a list \<Rightarrow> 'a list \<Rightarrow> 'a list list" where
  "split_text d s = split_text_from 0 d [] s"

fun join :: "'a list \<Rightarrow> 'a list list \<Rightarrow> 'a list" where
  "join d [] = []"
| "join d [p] = p"
| "join d (p # q # ps) = p @ d @ join d (q # ps)"

text \<open>\<^verbatim>\<open>split_once\<close> on a class of characters, and \<^verbatim>\<open>rsplit_once\<close>.\<close>

definition split_once :: "('a \<Rightarrow> bool) \<Rightarrow> 'a list \<Rightarrow> ('a list \<times> 'a list) option" where
  "split_once p s = (case find_first p s of None \<Rightarrow> None | Some i \<Rightarrow> Some (take i s, drop (i + 1) s))"

definition rsplit_once :: "'a \<Rightarrow> 'a list \<Rightarrow> ('a list \<times> 'a list) option" where
  "rsplit_once d s = (case find_first (\<lambda>c. c = d) (rev s) of None \<Rightarrow> None
     | Some i \<Rightarrow> Some (take (length s - i - 1) s, drop (length s - i) s))"

text \<open>\<^verbatim>\<open>split_once\<close> at a text.\<close>

fun split_once_text :: "str \<Rightarrow> str \<Rightarrow> (str \<times> str) option" where
  "split_once_text d [] = (if d = [] then Some ([], []) else None)"
| "split_once_text d (c # s) = (if starts_with (c # s) d then Some ([], drop (length d) (c # s))
     else map_option (\<lambda>(a, b). (c # a, b)) (split_once_text d s))"

definition strip_suffix :: "str \<Rightarrow> str \<Rightarrow> str option" where
  "strip_suffix s p = (if ends_with s p then Some (take (length s - length p) s) else None)"

definition trim_start :: "str \<Rightarrow> str" where
  "trim_start s = dropWhile is_whitespace s"

definition trim_end :: "str \<Rightarrow> str" where
  "trim_end s = rev (dropWhile is_whitespace (rev s))"

definition trim :: "str \<Rightarrow> str" where
  "trim s = trim_end (trim_start s)"

text \<open>\<^verbatim>\<open>trim_start_matches(&str)\<close> removes a nonempty prefix as often as it occurs.\<close>

function trim_prefixes :: "'a list \<Rightarrow> 'a list \<Rightarrow> 'a list" where
  "trim_prefixes p s = (if p \<noteq> [] \<and> starts_with s p then trim_prefixes p (drop (length p) s) else s)"
  by pat_completeness auto
termination
proof (relation "measure (length \<circ> snd)")
  fix p s :: "'a list"
  assume "p \<noteq> [] \<and> starts_with s p"
  then show "((p, drop (length p) s), (p, s)) \<in> measure (length \<circ> snd)"
    by (cases p; cases s) auto
qed simp

declare trim_prefixes.simps [simp del]

lemma starts_with_iff: "starts_with s p \<longleftrightarrow> (\<exists>r. s = p @ r)"
  by (induction s p rule: starts_with.induct) auto

lemma starts_with_take: "starts_with s p \<longleftrightarrow> take (length p) s = p"
  by (induction s p rule: starts_with.induct) auto

lemma starts_with_append [simp]: "starts_with (p @ s) p"
  by (simp add: starts_with_iff)

lemma ends_with_iff: "ends_with s p \<longleftrightarrow> (\<exists>r. s = r @ p)"
proof
  assume "ends_with s p"
  then obtain r where "rev s = rev p @ r" by (auto simp: ends_with_def starts_with_iff)
  then have "s = rev r @ p" by (metis rev_append rev_rev_ident)
  then show "\<exists>r. s = r @ p" ..
qed (auto simp: ends_with_def)

lemma contains_text_iff: "contains_text s p \<longleftrightarrow> (\<exists>a b. s = a @ p @ b)"
proof (induction s)
  case (Cons c s)
  have "(\<exists>a b. c # s = a @ p @ b) \<longleftrightarrow> starts_with (c # s) p \<or> (\<exists>a b. s = a @ p @ b)"
  proof
    assume "\<exists>a b. c # s = a @ p @ b"
    then obtain a b where e: "c # s = a @ p @ b" by blast
    then show "starts_with (c # s) p \<or> (\<exists>a b. s = a @ p @ b)"
      by (cases a) (auto simp: starts_with_iff)
  next
    assume "starts_with (c # s) p \<or> (\<exists>a b. s = a @ p @ b)"
    then show "\<exists>a b. c # s = a @ p @ b"
    proof
      assume "starts_with (c # s) p"
      then show ?thesis unfolding starts_with_iff by (metis append_Nil)
    next
      assume "\<exists>a b. s = a @ p @ b"
      then show ?thesis by (metis append_Cons)
    qed
  qed
  with Cons.IH show ?case by simp
qed simp

lemma find_first_Some:
  "find_first p s = Some i \<longleftrightarrow> i < length s \<and> p (s ! i) \<and> (\<forall>j<i. \<not> p (s ! j))"
proof (induction s arbitrary: i)
  case (Cons c s)
  show ?case
  proof (cases i)
    case (Suc i')
    with Cons.IH [of i'] show ?thesis by (auto simp: All_less_Suc2)
  qed auto
qed simp

lemma find_first_None: "find_first p s = None \<longleftrightarrow> (\<forall>c\<in>set s. \<not> p c)"
  by (induction s) auto

lemma split_on_not_Nil [simp]: "split_on d s \<noteq> []"
  by (induction s) (auto split: list.splits)

lemma join_split_on: "join [d] (split_on d s) = s"
proof (induction s)
  case (Cons c s)
  obtain p ps where "split_on d s = p # ps" by (cases "split_on d s") auto
  with Cons.IH show ?case by (cases ps) auto
qed simp

lemma split_on_free: "p \<in> set (split_on d s) \<Longrightarrow> d \<notin> set p"
proof (induction s arbitrary: p)
  case (Cons c s)
  obtain q qs where q: "split_on d s = q # qs" by (cases "split_on d s") auto
  with Cons.IH have "d \<notin> set q" "\<forall>p\<in>set qs. d \<notin> set p" by auto
  with Cons.prems q show ?case by (auto split: if_splits)
qed simp

lemma split_on_append: "d \<notin> set p \<Longrightarrow> split_on d (p @ d # s) = p # split_on d s"
  by (induction p) auto

lemma split_on_plain: "d \<notin> set p \<Longrightarrow> split_on d p = [p]"
  by (induction p) auto

lemma split_on_join: "ps \<noteq> [] \<Longrightarrow> \<forall>p\<in>set ps. d \<notin> set p \<Longrightarrow> split_on d (join [d] ps) = ps"
proof (induction "[d]" ps rule: join.induct)
  case (3 p q ps)
  then show ?case by (simp add: split_on_append)
qed (simp_all add: split_on_plain)

section \<open>Lines\<close>

text \<open>\<^verbatim>\<open>split_inclusive('\n')\<close>: every line with its line feed; only the last may lack it.\<close>

fun split_inclusive :: "str \<Rightarrow> str list" where
  "split_inclusive [] = []"
| "split_inclusive (c # s) =
     (if c = 10 then [c] # split_inclusive s
      else (case split_inclusive s of [] \<Rightarrow> [[c]] | l # ls \<Rightarrow> (c # l) # ls))"

lemma concat_split_inclusive: "concat (split_inclusive s) = s"
  by (induction s) (auto split: list.splits)

lemma split_inclusive_all: "list_all P s \<Longrightarrow> list_all (list_all P) (split_inclusive s)"
proof (induction s)
  case (Cons c s)
  then show ?case by (auto split: list.splits)
qed simp

definition line_ok :: "str \<Rightarrow> bool" where
  "line_ok l \<longleftrightarrow> l \<noteq> [] \<and> 10 \<notin> set (butlast l)"

lemma split_inclusive_lines: "l \<in> set (split_inclusive s) \<Longrightarrow> line_ok l"
proof (induction s arbitrary: l)
  case (Cons c s)
  then show ?case
    by (auto simp: line_ok_def split: if_splits list.splits)
qed simp

lemma split_inclusive_line: "10 \<notin> set l \<Longrightarrow> split_inclusive (l @ 10 # s) = (l @ [10]) # split_inclusive s"
  by (induction l) auto

lemma split_inclusive_Nil_iff [simp]: "split_inclusive s = [] \<longleftrightarrow> s = []"
  by (cases s) (auto split: list.splits)

lemma split_inclusive_inject: "split_inclusive s = split_inclusive t \<longleftrightarrow> s = t"
  by (metis concat_split_inclusive)

text \<open>Only the last line may lack its line feed.\<close>

lemma split_inclusive_unended:
  "split_inclusive s = ls @ l # ls' \<Longrightarrow> List.last l \<noteq> 10 \<Longrightarrow> ls' = []"
proof (induction s arbitrary: ls l)
  case (Cons c s)
  show ?case
  proof (cases "c = 10 \<or> split_inclusive s = []")
    case True
    then show ?thesis using Cons by (cases ls) (auto split: if_splits)
  next
    case False
    then obtain m ms where m: "split_inclusive s = m # ms" "m \<noteq> []"
      using split_inclusive_lines [of _ s] by (cases "split_inclusive s") (auto simp: line_ok_def)
    show ?thesis
    proof (cases ls)
      case Nil
      then have "l = c # m" "ls' = ms" using Cons.prems(1) False m by auto
      then show ?thesis using Cons.IH [of "[]" m] Cons.prems(2) m by simp
    next
      case (Cons k ks)
      then have "split_inclusive s = (m # ks) @ l # ls'" using Cons.prems(1) False m by auto
      then show ?thesis using Cons.IH Cons.prems(2) by blast
    qed
  qed
qed simp

section \<open>Numbers\<close>

text \<open>\<^verbatim>\<open>parse::<usize>\<close>: an optional plus sign, at least one digit, no overflow of 64 bits.\<close>

definition digits_value :: "str \<Rightarrow> nat" where
  "digits_value ds = foldl (\<lambda>n d. n * 10 + (d - 48)) 0 ds"

definition parse_bounded :: "nat \<Rightarrow> str \<Rightarrow> nat option" where
  "parse_bounded bound s =
     (let ds = (case s of [] \<Rightarrow> [] | c # r \<Rightarrow> if c = 43 then r else s)
      in if ds \<noteq> [] \<and> list_all is_digit ds \<and> digits_value ds \<le> bound then Some (digits_value ds) else None)"

abbreviation parse_usize :: "str \<Rightarrow> nat option" where
  "parse_usize \<equiv> parse_bounded u64_max"

text \<open>\<^verbatim>\<open>to_string\<close> of an unsigned integer.\<close>

fun display_nat :: "nat \<Rightarrow> str" where
  "display_nat n = (if n < 10 then [48 + n] else display_nat (n div 10) @ [48 + n mod 10])"

declare display_nat.simps [simp del]

lemma digits_value_snoc [simp]: "digits_value (ds @ [d]) = digits_value ds * 10 + (d - 48)"
  by (simp add: digits_value_def)

lemma display_nat_value: "digits_value (display_nat n) = n"
proof (induction n rule: display_nat.induct)
  case (1 n)
  show ?case
  proof (cases "n < 10")
    case True
    then show ?thesis by (subst display_nat.simps) (simp add: digits_value_def)
  next
    case False
    with 1 show ?thesis by (subst display_nat.simps) simp
  qed
qed

lemma display_nat_digits: "list_all is_digit (display_nat n)"
proof (induction n rule: display_nat.induct)
  case (1 n)
  have "is_digit (48 + m)" if "m < 10" for m using that by (simp add: is_digit_def)
  with 1 show ?case by (subst display_nat.simps) simp
qed

lemma display_nat_not_Nil [simp]: "display_nat n \<noteq> []"
  by (subst display_nat.simps) simp

lemma display_nat_hd: "is_digit (hd (display_nat n))"
  using display_nat_digits [of n] by (cases "display_nat n") auto

lemma parse_display_nat: "n \<le> bound \<Longrightarrow> parse_bounded bound (display_nat n) = Some n"
  using display_nat_hd [of n] display_nat_digits [of n] display_nat_value [of n]
  by (cases "display_nat n") (auto simp: parse_bounded_def Let_def is_digit_def)

lemma parse_bounded_le: "parse_bounded bound s = Some n \<Longrightarrow> n \<le> bound"
  by (auto simp: parse_bounded_def Let_def split: if_splits)

section \<open>UTF-8\<close>

definition utf8_char :: "nat \<Rightarrow> nat list" where
  "utf8_char c =
     (if c < 0x80 then [c]
      else if c < 0x800 then [0xc0 + c div 64, 0x80 + c mod 64]
      else if c < 0x10000 then [0xe0 + c div 4096, 0x80 + c div 64 mod 64, 0x80 + c mod 64]
      else [0xf0 + c div 262144, 0x80 + c div 4096 mod 64, 0x80 + c div 64 mod 64, 0x80 + c mod 64])"

definition utf8 :: "str \<Rightarrow> nat list" where
  "utf8 s = concat (map utf8_char s)"

definition continuation :: "nat \<Rightarrow> bool" where
  "continuation b \<longleftrightarrow> 0x80 \<le> b \<and> b < 0xc0"

lemma utf8_simps [simp]: "utf8 [] = []" "utf8 (c # s) = utf8_char c @ utf8 s" "utf8 (s @ t) = utf8 s @ utf8 t"
  by (simp_all add: utf8_def)

lemma utf8_char_cases:
  obtains b bs where "utf8_char c = b # bs" "\<not> continuation b" "list_all continuation bs"
    "c < 0x80 \<Longrightarrow> b = c \<and> bs = []" "0x80 \<le> c \<Longrightarrow> 0xc0 \<le> b"
  by (rule that [of "hd (utf8_char c)" "tl (utf8_char c)"])
    (auto simp: utf8_char_def continuation_def)

lemma utf8_char_not_Nil [simp]: "utf8_char c \<noteq> []"
  by (simp add: utf8_char_def)

lemma utf8_Nil_iff [simp]: "utf8 s = [] \<longleftrightarrow> s = []"
  by (cases s) auto

lemma utf8_char_length:
  "length (utf8_char c) = (if hd (utf8_char c) < 0x80 then 1 else if hd (utf8_char c) < 0xe0 then 2
     else if hd (utf8_char c) < 0xf0 then 3 else 4)"
proof -
  have "c < 0x800 \<Longrightarrow> c div 64 < 32" "c < 0x10000 \<Longrightarrow> c div 4096 < 16"
    by (rule less_mult_imp_div_less, simp)+
  then show ?thesis by (auto simp: utf8_char_def)
qed

lemma utf8_char_inj:
  assumes "utf8_char c = utf8_char d"
  shows "c = d"
proof -
  have join64: "m = n" if "m div 64 = n div 64" "m mod 64 = n mod 64" for m n :: nat
    using that by (metis div_mult_mod_eq)
  have nest: "m div 4096 = m div 64 div 64" "m div 262144 = m div 64 div 64 div 64" for m :: nat
    by (simp_all add: div_mult2_eq [symmetric])
  from assms consider "c = d" | "c div 64 = d div 64" "c mod 64 = d mod 64"
    | "c div 4096 = d div 4096" "c div 64 mod 64 = d div 64 mod 64" "c mod 64 = d mod 64"
    | "c div 262144 = d div 262144" "c div 4096 mod 64 = d div 4096 mod 64"
      "c div 64 mod 64 = d div 64 mod 64" "c mod 64 = d mod 64"
    unfolding utf8_char_def
    by (simp only: list.inject list.distinct add_left_cancel simp_thms split: if_split_asm)
  then show ?thesis unfolding nest by cases (auto intro: join64)
qed

lemma utf8_char_inject: "utf8_char c @ v = utf8_char d @ w \<longleftrightarrow> c = d \<and> v = w"
proof
  assume e: "utf8_char c @ v = utf8_char d @ w"
  then have "hd (utf8_char c) = hd (utf8_char d)" by (metis hd_append2 utf8_char_not_Nil)
  then have "length (utf8_char c) = length (utf8_char d)" by (simp add: utf8_char_length)
  with e show "c = d \<and> v = w" by (auto intro: utf8_char_inj)
qed simp

end
