(* ===== verification/Matching.thy ===== *)
theory Matching
  imports Text
begin

text \<open>
  Name matching of \<^verbatim>\<open>src/src/query.rs\<close>: the linear-space wildcard matcher \<open>wildcard\<close>, the
  graded \<open>name_rank\<close>, and \<open>qualified_name_rank\<close>, which lets a target omit leading components.
  The matcher is a loop that backs up, so it is a partial function whose value \<open>None\<close> would
  mean that it never returns; it is shown to be total and to decide the recursive \<open>glob\<close>.
\<close>

section \<open>Definitions\<close>

function skip_stars :: "nat list \<Rightarrow> nat \<Rightarrow> nat" where
  "skip_stars p i = (if i < length p \<and> p ! i = ch CHR ''*'' then skip_stars p (i + 1) else i)"
  by pat_completeness auto
termination
  by (relation "measure (\<lambda>(p, i). length p - i)") auto

declare skip_stars.simps [simp del]

partial_function (option) wildcard_loop ::
  "nat list \<Rightarrow> nat list \<Rightarrow> nat \<Rightarrow> nat \<Rightarrow> nat option \<Rightarrow> nat \<Rightarrow> bool option" where
  "wildcard_loop p v i j star retry =
     (if j < length v
      then if i < length p \<and> p ! i = ch CHR ''*'' then wildcard_loop p v (i + 1) j (Some i) j
           else if i < length p \<and> p ! i = v ! j then wildcard_loop p v (i + 1) (j + 1) star retry
           else (case star of
               Some s \<Rightarrow> wildcard_loop p v (s + 1) (retry + 1) star (retry + 1)
             | None \<Rightarrow> Some False)
      else Some (skip_stars p i = length p))"

definition wildcard :: "str \<Rightarrow> str \<Rightarrow> bool option" where
  "wildcard pattern value =
     (if ch CHR ''*'' \<notin> set pattern then Some (pattern = value)
      else wildcard_loop (utf8 pattern) (utf8 value) 0 0 None 0)"

text \<open>\<open>wildcard\<close> where the code uses its result (it always has one, see \<open>wildcard_glob\<close>).\<close>

definition wildcard_matches :: "str \<Rightarrow> str \<Rightarrow> bool" where
  "wildcard_matches pattern value \<longleftrightarrow> wildcard pattern value = Some True"

text \<open>The initials of the words of a name: word starts after a separator and inner capitals.\<close>

definition initial_at :: "unicode \<Rightarrow> str \<Rightarrow> nat \<Rightarrow> bool" where
  "initial_at U chars i \<longleftrightarrow> u_alphanumeric U (chars ! i) \<and>
     (i = 0 \<or> \<not> u_alphanumeric U (chars ! (i - 1)) \<or>
      (u_uppercase U (chars ! i) \<and>
       (u_lowercase U (chars ! (i - 1)) \<or>
        (i + 1 < length chars \<and> u_lowercase U (chars ! (i + 1))))))"

definition initials :: "unicode \<Rightarrow> str \<Rightarrow> str" where
  "initials U chars = map (\<lambda>i. ascii_lower (chars ! i)) (filter (initial_at U chars) [0..<length chars])"

definition name_rank :: "unicode \<Rightarrow> str \<Rightarrow> str \<Rightarrow> bool \<Rightarrow> nat option" where
  "name_rank U pattern value loose =
     (if pattern = value \<or> wildcard_matches pattern value then Some 0
      else if \<not> loose then None
      else let p = u_to_lower U pattern; v = u_to_lower U value in
        if p = v \<or> wildcard_matches p v then Some 1
        else if starts_with v p then Some 2
        else if starts_with (initials U value) p then Some 3
        else if contains_text v p then Some 4 else None)"

definition rank_plus :: "nat \<Rightarrow> nat \<Rightarrow> nat" where
  "rank_plus whole rank = (if rank = 0 then whole else rank + 2)"

definition best_rank :: "nat option \<Rightarrow> nat option \<Rightarrow> nat option" where
  "best_rank best new = (case new of None \<Rightarrow> best
     | Some rank \<Rightarrow> Some (case best of None \<Rightarrow> rank | Some current \<Rightarrow> min current rank))"

definition separator_of :: "str \<Rightarrow> str option" where
  "separator_of pattern =
     (if contains_text pattern (lit ''::'') then Some (lit ''::'')
      else if ch CHR ''.'' \<in> set pattern then Some (lit ''.'') else None)"

definition qualified_name_rank :: "unicode \<Rightarrow> str \<Rightarrow> str \<Rightarrow> bool \<Rightarrow> nat option" where
  "qualified_name_rank U pattern value loose = (case separator_of pattern of
     None \<Rightarrow> name_rank U pattern value loose
   | Some separator \<Rightarrow>
       foldl (\<lambda>best at. best_rank best
           (map_option (rank_plus 1) (name_rank U pattern (drop (at + length separator) value) loose)))
         (map_option (rank_plus 0) (name_rank U pattern value loose))
         (match_indices 0 0 separator value))"

section \<open>Specification of wildcards\<close>

fun glob :: "nat list \<Rightarrow> nat list \<Rightarrow> bool" where
  "glob [] v \<longleftrightarrow> v = []"
| "glob (c # p) [] \<longleftrightarrow> c = 42 \<and> glob p []"
| "glob (c # p) (d # v) \<longleftrightarrow> (if c = 42 then glob p (d # v) \<or> glob (c # p) v else c = d \<and> glob p v)"

lemma glob_star: "glob (42 # p) v \<longleftrightarrow> (\<exists>k\<le>length v. glob p (drop k v))"
proof (induction v)
  case (Cons d v)
  have "(\<exists>k\<le>length (d # v). glob p (drop k (d # v))) \<longleftrightarrow> glob p (d # v) \<or> (\<exists>k\<le>length v. glob p (drop k v))"
  proof
    assume "\<exists>k\<le>length (d # v). glob p (drop k (d # v))"
    then obtain k where "k \<le> Suc (length v)" "glob p (drop k (d # v))" by auto
    then show "glob p (d # v) \<or> (\<exists>k\<le>length v. glob p (drop k v))" by (cases k) auto
  next
    assume "glob p (d # v) \<or> (\<exists>k\<le>length v. glob p (drop k v))"
    then show "\<exists>k\<le>length (d # v). glob p (drop k (d # v))"
      by (metis Suc_le_mono drop0 drop_Suc_Cons length_Cons zero_le)
  qed
  with Cons.IH show ?case by simp
qed simp

lemma glob_star_absorb:
  assumes "glob (42 # p) (drop m v)" "j \<le> m" "m \<le> length v"
  shows "glob (42 # p) (drop j v)"
proof -
  obtain k where "k \<le> length v - m" "glob p (drop (k + m) v)"
    using assms(1,3) by (auto simp: glob_star)
  with assms(2,3) have "k + m - j \<le> length (drop j v) \<and> glob p (drop (k + m - j) (drop j v))" by simp
  then show ?thesis unfolding glob_star by blast
qed

lemma glob_literal: "42 \<notin> set q \<Longrightarrow> glob (q @ p) v \<longleftrightarrow> starts_with v q \<and> glob p (drop (length q) v)"
proof (induction q arbitrary: v)
  case (Cons c q)
  then show ?case by (cases v) auto
qed simp

lemma glob_plain: "42 \<notin> set p \<Longrightarrow> glob p v \<longleftrightarrow> p = v"
proof (induction p arbitrary: v)
  case (Cons c p)
  then show ?case by (cases v) auto
qed auto

lemma skip_stars_glob: "i \<le> length p \<Longrightarrow> skip_stars p i = length p \<longleftrightarrow> glob (drop i p) []"
proof (induction p i rule: skip_stars.induct)
  case (1 p i)
  show ?case
  proof (cases "i < length p")
    case True
    then have "drop i p = p ! i # drop (Suc i) p" by (simp add: Cons_nth_drop_Suc)
    with 1 True show ?thesis by (subst skip_stars.simps) auto
  next
    case False
    with 1 show ?thesis by (subst skip_stars.simps) simp
  qed
qed

section \<open>The loop decides the specification\<close>

text \<open>
  The alternatives a star leaves open, and what links the cursors: since the last star the
  pattern is free of stars and has been matched literally from \<open>retry\<close> on.
\<close>

definition reopened :: "nat list \<Rightarrow> nat list \<Rightarrow> nat option \<Rightarrow> nat \<Rightarrow> bool" where
  "reopened p v star retry \<longleftrightarrow> (case star of None \<Rightarrow> False
     | Some s \<Rightarrow> \<exists>k. retry < k \<and> k \<le> length v \<and> glob (drop (s + 1) p) (drop k v))"

definition cursors_ok :: "nat list \<Rightarrow> nat list \<Rightarrow> nat \<Rightarrow> nat \<Rightarrow> nat option \<Rightarrow> nat \<Rightarrow> bool" where
  "cursors_ok p v i j star retry \<longleftrightarrow> i \<le> length p \<and> j \<le> length v \<and> (case star of None \<Rightarrow> retry = 0
     | Some s \<Rightarrow> s < i \<and> 42 \<notin> set (slice p (s + 1, i)) \<and> j = retry + (i - (s + 1)))"

lemma segment_split:
  assumes "s < i" "i \<le> length p"
  shows "drop (s + 1) p = slice p (s + 1, i) @ drop i p"
  using assms slice_append_slice [of "s + 1" i "length p" p] by (simp add: slice_to_end)

lemma reopened_later:
  assumes "cursors_ok p v i j star retry" "reopened p v star retry"
  obtains m where "j < m" "m \<le> length v" "glob (drop i p) (drop m v)"
proof -
  obtain s k where s: "star = Some s" "retry < k" "k \<le> length v" "glob (drop (s + 1) p) (drop k v)"
    using assms(2) by (auto simp: reopened_def split: option.splits)
  let ?n = "i - (s + 1)"
  have c: "s < i" "i \<le> length p" "42 \<notin> set (slice p (s + 1, i))" "j = retry + ?n"
    using assms(1) s(1) by (auto simp: cursors_ok_def)
  have len: "length (slice p (s + 1, i)) = ?n" using c(2) by simp
  have "starts_with (drop k v) (slice p (s + 1, i)) \<and> glob (drop i p) (drop ?n (drop k v))"
    using s(4) glob_literal [OF c(3)] segment_split [OF c(1,2)] len by simp
  then have g: "glob (drop i p) (drop (?n + k) v)" "starts_with (drop k v) (slice p (s + 1, i))" by simp_all
  from g(2) have "?n \<le> length v - k"
    unfolding starts_with_iff using len by (metis length_append length_drop le_add1)
  with s(3) have "?n + k \<le> length v" by linarith
  with that [of "?n + k"] g(1) c(4) s(2) show thesis by simp
qed

lemma reopened_star:
  assumes "cursors_ok p v i j star retry" "i < length p" "p ! i = 42"
  shows "glob (drop i p) (drop j v) \<or> reopened p v star retry \<longleftrightarrow>
    glob (drop (i + 1) p) (drop j v) \<or> reopened p v (Some i) j"
proof -
  have d: "drop i p = 42 # drop (i + 1) p" using assms(2,3) by (metis Cons_nth_drop_Suc Suc_eq_plus1)
  have j: "j \<le> length v" using assms(1) by (simp add: cursors_ok_def)
  have "reopened p v star retry \<longrightarrow> glob (drop i p) (drop j v)"
  proof
    assume "reopened p v star retry"
    from reopened_later [OF assms(1) this] obtain m where "j < m" "m \<le> length v" "glob (drop i p) (drop m v)" .
    with d show "glob (drop i p) (drop j v)" using glob_star_absorb [of _ m v j] by simp
  qed
  moreover have "glob (drop i p) (drop j v) \<longleftrightarrow> glob (drop (i + 1) p) (drop j v) \<or> reopened p v (Some i) j"
  proof -
    have "glob (drop i p) (drop j v) \<longleftrightarrow> (\<exists>k\<ge>j. k \<le> length v \<and> glob (drop (i + 1) p) (drop k v))"
      unfolding d glob_star
    proof
      assume "\<exists>k\<le>length (drop j v). glob (drop (i + 1) p) (drop k (drop j v))"
      then obtain k where "k \<le> length v - j" "glob (drop (i + 1) p) (drop (k + j) v)" by auto
      with j show "\<exists>k\<ge>j. k \<le> length v \<and> glob (drop (i + 1) p) (drop k v)"
        by (intro exI [of _ "k + j"]) simp
    next
      assume "\<exists>k\<ge>j. k \<le> length v \<and> glob (drop (i + 1) p) (drop k v)"
      then obtain k where "j \<le> k" "k \<le> length v" "glob (drop (i + 1) p) (drop k v)" by blast
      then show "\<exists>k\<le>length (drop j v). glob (drop (i + 1) p) (drop k (drop j v))"
        by (intro exI [of _ "k - j"]) simp
    qed
    also have "\<dots> \<longleftrightarrow> glob (drop (i + 1) p) (drop j v) \<or> reopened p v (Some i) j"
      using j by (auto simp: reopened_def le_less)
    finally show ?thesis .
  qed
  ultimately show ?thesis by blast
qed

lemma reopened_end:
  assumes "cursors_ok p v i j star retry" "length v \<le> j"
  shows "\<not> reopened p v star retry"
  using reopened_later [OF assms(1)] assms(2) by fastforce

lemma reopened_retry:
  assumes "retry < length v"
  shows "reopened p v (Some s) retry \<longleftrightarrow>
    glob (drop (s + 1) p) (drop (retry + 1) v) \<or> reopened p v (Some s) (retry + 1)"
proof -
  have "(\<exists>k. retry < k \<and> k \<le> length v \<and> Q k) \<longleftrightarrow> Q (retry + 1) \<or> (\<exists>k. retry + 1 < k \<and> k \<le> length v \<and> Q k)" for Q
    using assms by (metis Suc_eq_plus1 Suc_leI less_Suc_eq_le linorder_neqE_nat not_less_eq order_less_le)
  then show ?thesis by (simp add: reopened_def)
qed

lemma wildcard_loop_correct:
  "cursors_ok p v i j star retry \<Longrightarrow>
   wildcard_loop p v i j star retry = Some (glob (drop i p) (drop j v) \<or> reopened p v star retry)"
proof (induction "(length p - (case star of None \<Rightarrow> 0 | Some s \<Rightarrow> s + 1), length v - retry, length v - j)"
    arbitrary: i j star retry rule: wf_induct_rule [OF wf_lex_prod [OF wf_less_than wf_lex_prod [OF wf_less_than wf_less_than]]])
  case (1 j star retry i)
  note ok = "1.prems" and IH = "1.hyps"
  show ?case
  proof (cases "j < length v")
    case False
    with ok have j: "drop j v = []" "i \<le> length p" by (auto simp: cursors_ok_def)
    have "wildcard_loop p v i j star retry = Some (skip_stars p i = length p)"
      using False by (subst wildcard_loop.simps) simp
    with reopened_end [OF ok] False j show ?thesis by (simp add: skip_stars_glob)
  next
    case j: True
    consider (star) "i < length p" "p ! i = 42" | (same) "i < length p" "p ! i \<noteq> 42" "p ! i = v ! j"
      | (differ) "i = length p \<or> p ! i \<noteq> 42 \<and> p ! i \<noteq> v ! j"
      using ok unfolding cursors_ok_def by (metis le_neq_implies_less)
    then show ?thesis
    proof cases
      case star
      have ok': "cursors_ok p v (i + 1) j (Some i) j"
        using star j by (simp add: cursors_ok_def)
      have "case_option 0 (\<lambda>s. s + 1) star \<le> i" using ok by (auto simp: cursors_ok_def split: option.splits)
      then have "wildcard_loop p v (i + 1) j (Some i) j =
          Some (glob (drop (i + 1) p) (drop j v) \<or> reopened p v (Some i) j)"
        using star by (intro IH ok') (auto split: option.splits)
      with star j reopened_star [OF ok star] show ?thesis by (subst wildcard_loop.simps) simp
    next
      case same
      have ok': "cursors_ok p v (i + 1) (j + 1) star retry"
      proof (cases star)
        case (Some s)
        with ok have c: "s < i" "42 \<notin> set (slice p (s + 1, i))" "j = retry + (i - (s + 1))"
          by (auto simp: cursors_ok_def)
        have "slice p (s + 1, i + 1) = slice p (s + 1, i) @ [p ! i]"
          using slice_append_slice [of "s + 1" i "i + 1" p] slice_Suc [OF same(1)] c(1) same(1) by simp
        with c same Some j show ?thesis by (simp add: cursors_ok_def)
      qed (use ok same j in \<open>simp add: cursors_ok_def\<close>)
      have "wildcard_loop p v (i + 1) (j + 1) star retry =
          Some (glob (drop (i + 1) p) (drop (j + 1) v) \<or> reopened p v star retry)"
        using j by (intro IH ok') auto
      moreover have "glob (drop i p) (drop j v) \<longleftrightarrow> glob (drop (i + 1) p) (drop (j + 1) v)"
        using same j by (simp add: Cons_nth_drop_Suc [symmetric])
      ultimately show ?thesis using same j by (subst wildcard_loop.simps) simp
    next
      case differ
      have no: "\<not> glob (drop i p) (drop j v)"
      proof (cases "i = length p")
        case True
        with j show ?thesis by simp
      next
        case False
        with ok have "drop i p = p ! i # drop (i + 1) p" by (simp add: cursors_ok_def Cons_nth_drop_Suc)
        moreover have "drop j v = v ! j # drop (j + 1) v" using j by (simp add: Cons_nth_drop_Suc)
        ultimately show ?thesis using differ False by simp
      qed
      have step: "wildcard_loop p v i j star retry = (case star of
               Some s \<Rightarrow> wildcard_loop p v (s + 1) (retry + 1) star (retry + 1) | None \<Rightarrow> Some False)"
        using differ j by (subst wildcard_loop.simps) (auto split: option.splits)
      show ?thesis
      proof (cases star)
        case None
        with step no show ?thesis by (simp add: reopened_def)
      next
        case (Some s)
        with ok j have r: "retry < length v" "s < length p" by (auto simp: cursors_ok_def)
        then have ok': "cursors_ok p v (s + 1) (retry + 1) (Some s) (retry + 1)" by (simp add: cursors_ok_def)
        have "wildcard_loop p v (s + 1) (retry + 1) (Some s) (retry + 1) =
            Some (glob (drop (s + 1) p) (drop (retry + 1) v) \<or> reopened p v (Some s) (retry + 1))"
          using r Some by (intro IH ok') auto
        with step Some no reopened_retry [OF r(1)] show ?thesis by simp
      qed
    qed
  qed
qed

section \<open>Bytes and characters\<close>

text \<open>UTF-8 is self-synchronising: a star that stops inside a character can run to its end.\<close>

lemma glob_continuation:
  "continuation b \<Longrightarrow> glob (utf8 q) (b # bs) \<Longrightarrow> glob (utf8 q) bs"
proof (induction q)
  case (Cons c q)
  show ?case
  proof (cases "c = 42")
    case True
    then have "utf8 (c # q) = 42 # utf8 q" by (simp add: utf8_char_def)
    with Cons show ?thesis by (cases bs) auto
  next
    case False
    obtain d ds where "utf8_char c = d # ds" "\<not> continuation d" "d \<noteq> 42"
      by (rule utf8_char_cases [of c]) (use False in \<open>fastforce simp: not_less\<close>)
    with Cons.prems show ?thesis by auto
  qed
qed simp

lemma glob_skip_character:
  "list_all continuation bs \<Longrightarrow> glob (utf8 q) (bs @ v) \<Longrightarrow> glob (utf8 q) v"
  by (induction bs) (auto dest: glob_continuation)

lemma glob_star_character:
  "glob (42 # p) (bs @ v) \<longleftrightarrow> (\<exists>k<length bs. glob p (drop k bs @ v)) \<or> glob (42 # p) v"
proof (induction bs)
  case (Cons b bs)
  have "(\<exists>k<length (b # bs). glob p (drop k (b # bs) @ v)) \<longleftrightarrow>
      glob p (b # bs @ v) \<or> (\<exists>k<length bs. glob p (drop k bs @ v))"
    by (auto simp: Ex_less_Suc2)
  with Cons.IH show ?case by auto
qed simp

lemma glob_utf8_char:
  assumes "c \<noteq> 42"
  shows "glob (utf8_char c @ p) (utf8_char d @ v) \<longleftrightarrow> c = d \<and> glob p v"
proof -
  have n: "42 \<notin> set (utf8_char c)"
  proof -
    obtain b bs where b: "utf8_char c = b # bs" "list_all continuation bs" "b \<noteq> 42"
      by (rule utf8_char_cases [of c]) (use assms in \<open>fastforce simp: not_less\<close>)
    then show ?thesis by (auto simp: continuation_def list_all_iff)
  qed
  show ?thesis
  proof
    assume "glob (utf8_char c @ p) (utf8_char d @ v)"
    then have g: "starts_with (utf8_char d @ v) (utf8_char c)"
      "glob p (drop (length (utf8_char c)) (utf8_char d @ v))" by (simp_all add: glob_literal [OF n])
    from g(1) obtain r where "utf8_char d @ v = utf8_char c @ r" by (auto simp: starts_with_iff)
    then have "d = c \<and> v = r" by (simp add: utf8_char_inject)
    with g(2) show "c = d \<and> glob p v" by simp
  next
    assume "c = d \<and> glob p v"
    then show "glob (utf8_char c @ p) (utf8_char d @ v)" unfolding glob_literal [OF n] by simp
  qed
qed

lemma glob_utf8: "glob (utf8 p) (utf8 v) \<longleftrightarrow> glob p v"
proof (induction p v rule: glob.induct)
  case (1 v)
  then show ?case by simp
next
  case (2 c p)
  show ?case
  proof (cases "c = 42")
    case True
    with 2 show ?thesis by (simp add: utf8_char_def)
  next
    case False
    obtain b bs where "utf8_char c = b # bs" "b \<noteq> 42"
      by (rule utf8_char_cases [of c]) (use False in \<open>fastforce simp: not_less\<close>)
    with False show ?thesis by simp
  qed
next
  case (3 c p d v)
  show ?case
  proof (cases "c = 42")
    case False
    with 3 show ?thesis by (simp add: glob_utf8_char)
  next
    case True
    then have c: "utf8 (c # p) = 42 # utf8 p" by (simp add: utf8_char_def)
    obtain b bs where b: "utf8_char d = b # bs" "list_all continuation bs" by (rule utf8_char_cases)
    have "(\<exists>k<length (b # bs). glob (utf8 p) (drop k (b # bs) @ utf8 v)) \<longrightarrow>
        glob (utf8 p) (utf8 (d # v)) \<or> glob (utf8 p) (utf8 v)"
    proof (intro impI, elim exE conjE)
      fix k assume k: "k < length (b # bs)" "glob (utf8 p) (drop k (b # bs) @ utf8 v)"
      show "glob (utf8 p) (utf8 (d # v)) \<or> glob (utf8 p) (utf8 v)"
      proof (cases k)
        case 0
        with k b show ?thesis by simp
      next
        case (Suc m)
        have "list_all continuation (drop m bs)" using b(2) by (auto simp: list_all_iff dest: in_set_dropD)
        with k Suc show ?thesis by (auto dest: glob_skip_character)
      qed
    qed
    moreover have "glob (utf8 p) (utf8 v) \<longrightarrow> glob (42 # utf8 p) (utf8 v)"
      by (cases "utf8 v") auto
    moreover have "glob (utf8 p) (utf8 (d # v)) \<longrightarrow> (\<exists>k<length (b # bs). glob (utf8 p) (drop k (b # bs) @ utf8 v))"
      using b(1) by auto
    ultimately have "glob (utf8 (c # p)) (utf8 (d # v)) \<longleftrightarrow>
        glob (utf8 p) (utf8 (d # v)) \<or> glob (utf8 (c # p)) (utf8 v)"
      unfolding c using b(1) glob_star_character [of "utf8 p" "b # bs" "utf8 v"] by auto
    with 3 True show ?thesis by simp
  qed
qed

lemma wildcard_total: "wildcard pattern value = Some (glob pattern value)"
proof (cases "42 \<in> set pattern")
  case True
  have "cursors_ok (utf8 pattern) (utf8 value) 0 0 None 0" by (simp add: cursors_ok_def)
  from wildcard_loop_correct [OF this] True show ?thesis
    by (simp add: wildcard_def glob_utf8 reopened_def)
next
  case False
  then show ?thesis by (simp add: wildcard_def glob_plain)
qed

lemma wildcard_matches_glob: "wildcard_matches pattern value \<longleftrightarrow> glob pattern value"
  by (simp add: wildcard_matches_def wildcard_total)

section \<open>Ranks\<close>

lemma glob_refl: "glob p p"
proof (induction p)
  case (Cons c p)
  show ?case
  proof (cases "c = 42")
    case True
    have "glob (42 # p) p" unfolding glob_star using Cons.IH by (metis drop0 zero_le)
    with True show ?thesis by simp
  qed (use Cons.IH in simp)
qed simp

lemma name_rank_0: "name_rank U pattern value loose = Some 0 \<longleftrightarrow> glob pattern value"
  by (auto simp: name_rank_def wildcard_matches_glob glob_refl Let_def)

lemma name_rank_le: "name_rank U pattern value loose = Some r \<Longrightarrow> r \<le> 4"
  by (auto simp: name_rank_def Let_def split: if_splits)

lemma name_rank_strict: "name_rank U pattern value False = (if glob pattern value then Some 0 else None)"
  by (auto simp: name_rank_def wildcard_matches_glob glob_refl)

lemma best_rank_Some:
  "best_rank b g = Some r \<longleftrightarrow> (b = Some r \<or> g = Some r) \<and> (\<forall>s. b = Some s \<longrightarrow> r \<le> s) \<and> (\<forall>s. g = Some s \<longrightarrow> r \<le> s)"
  by (cases b; cases g) (auto simp: best_rank_def min_def)

lemma foldl_best_rank:
  "foldl (\<lambda>best at. best_rank best (g at)) b xs = Some r \<longleftrightarrow>
    (b = Some r \<or> (\<exists>at\<in>set xs. g at = Some r)) \<and> (\<forall>s. b = Some s \<longrightarrow> r \<le> s) \<and>
    (\<forall>at\<in>set xs. \<forall>s. g at = Some s \<longrightarrow> r \<le> s)"
proof (induction xs arbitrary: b)
  case (Cons x xs)
  show ?case unfolding foldl.simps Cons.IH best_rank_Some list.set
    by (cases b; cases "g x") (auto simp: best_rank_def, (metis dual_order.trans nat_le_linear)+)
qed auto

text \<open>The rank of a whole name, and of a suffix after a separator.\<close>

lemma whole_rank:
  "map_option (rank_plus 0) (name_rank U p v loose) = Some r \<longleftrightarrow>
    (r = 0 \<and> glob p v) \<or> (3 \<le> r \<and> name_rank U p v loose = Some (r - 2))"
  using name_rank_0 [of U p v loose] by (cases "name_rank U p v loose") (auto simp: rank_plus_def)

lemma suffix_rank:
  "map_option (rank_plus 1) (name_rank U p v loose) = Some r \<longleftrightarrow>
    (r = 1 \<and> glob p v) \<or> (3 \<le> r \<and> name_rank U p v loose = Some (r - 2))"
  using name_rank_0 [of U p v loose] by (cases "name_rank U p v loose") (auto simp: rank_plus_def)

text \<open>
  Rank 0 is a match of the whole name and rank 1 a match of the name with leading components
  omitted; a loose match never ranks better than either, and without loose matching nothing
  else matches.
\<close>

lemma qualified_name_rank_levels:
  "(qualified_name_rank U p v loose = Some 0 \<longleftrightarrow> glob p v) \<and>
   (case separator_of p of None \<Rightarrow> qualified_name_rank U p v loose = name_rank U p v loose
    | Some sep \<Rightarrow>
       (qualified_name_rank U p v loose = Some 1 \<longleftrightarrow>
         \<not> glob p v \<and> (\<exists>at\<in>set (match_indices 0 0 sep v). glob p (drop (at + length sep) v))) \<and>
       qualified_name_rank U p v loose \<noteq> Some 2 \<and>
       qualified_name_rank U p v False \<in> {None, Some 0, Some 1})"
proof (cases "separator_of p")
  case None
  then show ?thesis by (simp add: qualified_name_rank_def name_rank_0)
next
  case (Some sep)
  let ?at = "\<lambda>at. drop (at + length sep) v"
  have q: "qualified_name_rank U p v l = Some r \<longleftrightarrow>
      (map_option (rank_plus 0) (name_rank U p v l) = Some r \<or>
        (\<exists>at\<in>set (match_indices 0 0 sep v). map_option (rank_plus 1) (name_rank U p (?at at) l) = Some r)) \<and>
      (\<forall>s. map_option (rank_plus 0) (name_rank U p v l) = Some s \<longrightarrow> r \<le> s) \<and>
      (\<forall>at\<in>set (match_indices 0 0 sep v). \<forall>s. map_option (rank_plus 1) (name_rank U p (?at at) l) = Some s \<longrightarrow> r \<le> s)"
    for r l using Some by (simp add: qualified_name_rank_def foldl_best_rank)
  note q = q [unfolded whole_rank suffix_rank]
  have "qualified_name_rank U p v loose = Some 0 \<longleftrightarrow> glob p v" unfolding q by auto
  moreover have "qualified_name_rank U p v loose = Some 1 \<longleftrightarrow>
      \<not> glob p v \<and> (\<exists>at\<in>set (match_indices 0 0 sep v). glob p (?at at))"
    unfolding q by fastforce
  moreover have "qualified_name_rank U p v loose \<noteq> Some 2" unfolding q by auto
  moreover have "qualified_name_rank U p v False \<in> {None, Some 0, Some 1}"
  proof (cases "qualified_name_rank U p v False")
    case r: (Some r)
    then have "r = 0 \<or> r = 1" unfolding q by (auto simp: name_rank_strict split: if_splits)
    with r show ?thesis by auto
  qed simp
  ultimately show ?thesis using Some by simp
qed

text \<open>
  C16: the wildcard matcher returns on every input, and its answer is that of the recursive glob
  in which a star stands for any number of characters and everything else for itself; the loop
  over UTF-8 bytes never matches half a character.
\<close>

theorem wildcard_glob: "wildcard pattern value = Some (glob pattern value)"
  by (rule wildcard_total)

end
