(* ===== verification/Lexing.thy ===== *)
theory Lexing
  imports Text
begin

text \<open>
  The query lexer of \<^verbatim>\<open>src/src/query.rs\<close> (\<open>lex_with\<close>): white space separates tokens outside
  quotes and delimiters, double quotes protect everything but their two escapes, and a stack
  checks that delimiters are balanced. The \<^verbatim>\<open>Vec\<close> used as the stack has its top at the head.
  \<open>quote\<close> of \<^verbatim>\<open>src/src/navigation.rs\<close> is its counterpart for output; the JSON printer it calls
  is a parameter.
\<close>

datatype query_error =
    UseDoubleQuotes str str
  | DoubleQuotesNeeded
  | UnbalancedDelimiters
  | UnclosedQuote
  | UnclosedDelimiter
  | UnclosedParameters
  | BadLocation
  | NotPositive
  | ParentDirectory
  | BadQualifiers
  | NameNeeded
  | UnbalancedSignature
  | EmptyParameter

definition opening_of :: "nat \<Rightarrow> nat" where
  "opening_of c = (if c = ch CHR '')'' then ch CHR ''('' else if c = ch CHR '']'' then ch CHR ''['' else ch CHR ''{'')"

definition lex_literal :: "bool \<Rightarrow> str \<Rightarrow> bool" where
  "lex_literal literal_files token \<longleftrightarrow> starts_with token (lit ''operator:'') \<or> starts_with token (lit ''text:'') \<or>
     starts_with token (lit ''x:'') \<or> (literal_files \<and> starts_with token (lit ''file:''))"

text \<open>The delimiter match: the new stack, or the error of an unexpected closing delimiter.\<close>

definition lex_delimiter :: "str \<Rightarrow> nat list \<Rightarrow> nat \<Rightarrow> query_error + nat list" where
  "lex_delimiter token stack c =
     (if c = ch CHR ''('' \<or> c = ch CHR ''['' \<or> c = ch CHR ''{'' then Inr (c # stack)
      else if c = ch CHR ''<'' \<and> ch CHR ''{'' \<notin> set stack \<and> \<not> ends_with token (lit ''operator'') \<and>
        \<not> ends_with token (lit ''operator<'') then Inr (c # stack)
      else if c = ch CHR '')'' \<or> c = ch CHR '']'' \<or> c = ch CHR ''}'' then
        (case stack of [] \<Rightarrow> Inl UnbalancedDelimiters
         | opened # rest \<Rightarrow> if opened = opening_of c then Inr rest else Inl UnbalancedDelimiters)
      else if c = ch CHR ''>'' \<and> \<not> ends_with token (lit ''-'') then
        (case stack of [] \<Rightarrow> Inr [] | opened # rest \<Rightarrow> if opened = ch CHR ''<'' then Inr rest else Inr stack)
      else Inr stack)"

definition push_token :: "str list \<Rightarrow> str \<Rightarrow> str list" where
  "push_token result token = (if token \<noteq> [] then result @ [token] else result)"

fun lex_loop :: "bool \<Rightarrow> str \<Rightarrow> str list \<Rightarrow> str \<Rightarrow> nat list \<Rightarrow> bool \<Rightarrow> query_error + str list" where
  "lex_loop lf [] result token stack quoted =
     ensureE (\<not> quoted) UnclosedQuote
       (ensureE (stack = []) UnclosedDelimiter (Inr (push_token result token)))"
| "lex_loop lf (c # cs) result token stack True =
     (if c = ch CHR 0x22 then lex_loop lf cs result token stack False
      else if c = ch CHR 0x5C \<and> cs \<noteq> [] \<and> (hd cs = ch CHR 0x22 \<or> hd cs = ch CHR 0x5C)
      then lex_loop lf (tl cs) result (token @ [hd cs]) stack True
      else lex_loop lf cs result (token @ [c]) stack True)"
| "lex_loop lf (c # cs) result token stack False =
     (if c = ch CHR 0x22 then lex_loop lf cs result token stack True
      else if c = ch CHR 0x27 \<and> (token = [] \<or> ends_with token (lit '':'')) then
        (case find_first (\<lambda>x. x = ch CHR 0x27) cs of
           Some n \<Rightarrow> Inl (UseDoubleQuotes token (take n cs))
         | None \<Rightarrow> Inl DoubleQuotesNeeded)
      else bindE (if lex_literal lf token then Inr stack else lex_delimiter token stack c) (\<lambda>stack.
        if is_whitespace c \<and> stack = [] then lex_loop lf cs (push_token result token) [] stack False
        else lex_loop lf cs result (token @ [c]) stack False))"

definition lex_with :: "str \<Rightarrow> bool \<Rightarrow> query_error + str list" where
  "lex_with input literal_files = lex_loop literal_files input [] [] [] False"

definition lex :: "str \<Rightarrow> query_error + str list" where
  "lex input = lex_with input False"

definition lex_history :: "str \<Rightarrow> query_error + str list" where
  "lex_history input = lex_with input True"

definition needs_quotes :: "str \<Rightarrow> bool" where
  "needs_quotes name \<longleftrightarrow> (\<exists>c\<in>set name. is_whitespace c \<or> is_control c \<or>
     c = ch CHR 0x22 \<or> c = ch CHR 0x5C \<or> c = ch CHR 0x60)"

definition quote :: "(str \<Rightarrow> str) \<Rightarrow> str \<Rightarrow> str" where
  "quote json name = (if needs_quotes name then json name else name)"

section \<open>Every token is nonempty\<close>

lemma lex_loop_nonempty:
  "lex_loop lf cs result token stack quoted = Inr ts \<Longrightarrow> [] \<notin> set result \<Longrightarrow> [] \<notin> set ts"
proof (induction lf cs result token stack quoted rule: lex_loop.induct)
  case (1 lf result token stack quoted)
  then show ?case by (auto simp: push_token_def split: if_splits)
next
  case (2 lf c cs result token stack)
  then show ?case by (auto split: if_splits)
next
  case (3 lf c cs result token stack)
  let ?st = "if lex_literal lf token then Inr stack else lex_delimiter token stack c"
  consider (dq) "c = 0x22" | (single) "c \<noteq> 0x22" "c = 0x27 \<and> (token = [] \<or> ends_with token (lit '':''))"
    | (plain) "c \<noteq> 0x22" "\<not> (c = 0x27 \<and> (token = [] \<or> ends_with token (lit '':'')))" by blast
  then show ?case
  proof cases
    case dq
    with 3 show ?thesis by simp
  next
    case single
    with "3.prems" show ?thesis by (auto split: option.splits)
  next
    case plain
    with "3.prems"(1) obtain st where st: "?st = Inr st"
      and r: "(if is_whitespace c \<and> st = [] then lex_loop lf cs (push_token result token) [] st False
        else lex_loop lf cs result (token @ [c]) st False) = Inr ts"
      by (auto simp: bindE_Inr_iff)
    have "[] \<notin> set (push_token result token)" using "3.prems"(2) by (simp add: push_token_def)
    with r plain st "3.IH"(2,3) "3.prems"(2) show ?thesis by (auto split: if_splits)
  qed
qed

section \<open>Printed tokens lex back\<close>

text \<open>
  What the JSON standard says of a printed string without control characters: quotes around it,
  a backslash before each quote and backslash.
\<close>

definition json_char :: "nat \<Rightarrow> str" where
  "json_char c = (if c = 0x22 \<or> c = 0x5C then [0x5C, c] else [c])"

definition json_plain :: "str \<Rightarrow> str" where
  "json_plain s = 0x22 # concat (map json_char s) @ [0x22]"

definition printable :: "str \<Rightarrow> bool" where
  "printable s \<longleftrightarrow> list_all (\<lambda>c. 32 \<le> c) s"

definition json_like :: "(str \<Rightarrow> str) \<Rightarrow> bool" where
  "json_like json \<longleftrightarrow> (\<forall>s. printable s \<longrightarrow> json s = json_plain s)"

text \<open>A token that \<open>quote\<close> leaves bare must not be read as a delimiter or an opening quote.\<close>

definition bare_char :: "nat \<Rightarrow> bool" where
  "bare_char c \<longleftrightarrow> c \<notin> {0x22, 0x27, 0x28, 0x29, 0x5B, 0x5D, 0x7B, 0x7D, 0x3C, 0x3E} \<and> \<not> is_whitespace c"

definition printable_token :: "str \<Rightarrow> bool" where
  "printable_token t \<longleftrightarrow> t \<noteq> [] \<and> printable t \<and> (needs_quotes t \<or> list_all bare_char t)"

lemma lex_quoted:
  "lex_loop lf (concat (map json_char s) @ 0x22 # cs) result token stack True =
    lex_loop lf cs result (token @ s) stack False"
proof (induction s arbitrary: token)
  case (Cons c s)
  then show ?case
    by (cases "c = 0x22 \<or> c = 0x5C") (auto simp: json_char_def)
qed simp

lemma lex_bare:
  "list_all bare_char s \<Longrightarrow> lex_loop lf (s @ cs) result token [] False = lex_loop lf cs result (token @ s) [] False"
proof (induction s arbitrary: token)
  case (Cons c s)
  then have c: "bare_char c" and s: "list_all bare_char s" by simp_all
  have "lex_delimiter token [] c = Inr []" using c by (simp add: bare_char_def lex_delimiter_def)
  with c Cons.IH [OF s, of "token @ [c]"] show ?case by (auto simp: bare_char_def)
qed simp

lemma lex_printed:
  assumes "json_like json" "printable_token t"
  shows "lex_loop lf (quote json t @ cs) result [] [] False = lex_loop lf cs result t [] False"
proof (cases "needs_quotes t")
  case True
  with assms have "quote json t = json_plain t"
    by (simp add: quote_def json_like_def printable_token_def)
  then show ?thesis using lex_quoted [of lf t cs result "[]" "[]"] by (simp add: json_plain_def)
next
  case False
  with assms show ?thesis
    using lex_bare [of t lf cs result "[]"] by (auto simp: quote_def printable_token_def)
qed

lemma lex_space:
  assumes "t \<noteq> []"
  shows "lex_loop lf (32 # cs) result t [] False = lex_loop lf cs (result @ [t]) [] [] False"
proof -
  have "lex_delimiter t [] 32 = Inr []" by (simp add: lex_delimiter_def)
  with assms show ?thesis by (simp add: is_whitespace_def push_token_def)
qed

lemma lex_printed_list:
  assumes "json_like json" "list_all printable_token ts"
  shows "lex_loop lf (join [32] (map (quote json) ts)) result [] [] False = Inr (result @ ts)"
  using assms(2)
proof (induction ts arbitrary: result)
  case Nil
  then show ?case by (simp add: push_token_def)
next
  case (Cons t ts)
  then have t: "printable_token t" "t \<noteq> []" by (simp_all add: printable_token_def)
  show ?case
  proof (cases ts)
    case Nil
    with lex_printed [OF assms(1) t(1), of lf "[]"] t(2) show ?thesis by (simp add: push_token_def)
  next
    case (Cons u us)
    then have "join [32] (map (quote json) (t # ts)) = quote json t @ 32 # join [32] (map (quote json) ts)"
      by simp
    with lex_printed [OF assms(1) t(1)] lex_space [OF t(2)] Cons.IH Cons.prems show ?thesis by simp
  qed
qed

text \<open>
  Tokens printed with \<open>quote\<close> and joined by spaces are lexed back unchanged, by the query and
  by the history lexer, for any printer that follows the JSON standard on printable text.
\<close>

lemma lex_quote_roundtrip:
  assumes "json_like json" "list_all printable_token ts"
  shows "lex_with (join [32] (map (quote json) ts)) lf = Inr ts"
  using lex_printed_list [OF assms, of lf "[]"] by (simp add: lex_with_def)

theorem lex_quote_roundtrip_witness:
  "lex_with (join [32] (map (quote json_plain) [lit ''text:a b'', lit ''path:src'', [0x22, 0x5C]])) False =
    Inr [lit ''text:a b'', lit ''path:src'', [0x22, 0x5C]]"
  by (rule lex_quote_roundtrip)
    (auto simp: json_like_def printable_token_def printable_def needs_quotes_def bare_char_def lit_def
      is_whitespace_def is_control_def)

end
