(* ===== verification/Targets.thy ===== *)
theory Targets
  imports Lexing
begin

text \<open>
  Search targets of \<^verbatim>\<open>src/src/query.rs\<close>: \<open>Target::parse\<close> with its three forms (a location
  \<open>@path:line:column\<close>, a name, a name with a parameter list and trailing qualifiers),
  \<open>split_parameters\<close> and \<open>normalize_name\<close>.
\<close>

record location =
  loc_path :: str
  loc_line :: nat
  loc_column :: nat

record target =
  t_name :: str
  t_parameters :: "str list option"
  t_location :: "location option"
  t_qualifiers :: "str option"

section \<open>Parameters\<close>

text \<open>
  The loop of \<open>split_parameters\<close>: nesting depth, the previous character, the piece since the last
  separating comma, the pieces cut off so far.
\<close>

definition param_depth :: "nat \<Rightarrow> nat \<Rightarrow> int \<Rightarrow> int" where
  "param_depth previous c depth =
     (if c = ch CHR ''('' \<or> c = ch CHR ''['' \<or> c = ch CHR ''<'' \<or> c = ch CHR ''{'' then depth + 1
      else if c = ch CHR '')'' \<or> c = ch CHR '']'' \<or> c = ch CHR ''}'' then depth - 1
      else if c = ch CHR ''>'' \<and> previous \<noteq> ch CHR ''-'' \<and> 0 < depth then depth - 1
      else depth)"

fun split_loop :: "str \<Rightarrow> int \<Rightarrow> nat \<Rightarrow> str \<Rightarrow> str list \<Rightarrow> query_error + str list" where
  "split_loop [] depth previous piece result =
     ensureE (depth = 0) UnbalancedSignature
       (ensureE (list_all (\<lambda>s. s \<noteq> []) (result @ [trim piece])) EmptyParameter
         (Inr (result @ [trim piece])))"
| "split_loop (c # cs) depth previous piece result =
     ensureE (0 \<le> param_depth previous c depth) UnbalancedSignature
       (if c = ch CHR '','' \<and> depth = 0
        then split_loop cs (param_depth previous c depth) c [] (result @ [trim piece])
        else split_loop cs (param_depth previous c depth) c (piece @ [c]) result)"

definition split_parameters :: "str \<Rightarrow> query_error + str list" where
  "split_parameters input = (if trim input = [] then Inr [] else split_loop input 0 0 [] [])"

section \<open>Names and targets\<close>

definition normalize_name :: "str \<Rightarrow> str" where
  "normalize_name name =
     join (lit ''.'') (map (trim_prefixes (lit ''@''))
       (split_on (ch CHR ''.'')
         (join (lit ''::'') (map (trim_prefixes (lit ''r#'')) (split_text (lit ''::'') name)))))"

text \<open>The closing parenthesis of the list that opens at the first character.\<close>

fun closing_paren :: "nat \<Rightarrow> int \<Rightarrow> str \<Rightarrow> nat option" where
  "closing_paren j depth [] = None"
| "closing_paren j depth (c # cs) =
     (let depth' = (if c = ch CHR ''('' then depth + 1 else if c = ch CHR '')'' then depth - 1 else depth)
      in if depth' = 0 then Some j else closing_paren (j + 1) depth' cs)"

definition opening_paren :: "str \<Rightarrow> nat option" where
  "opening_paren value = find_first (\<lambda>i. value ! i = ch CHR ''('' \<and>
     \<not> (ends_with (take i value) (lit ''operator'') \<and> starts_with (drop i value) (lit ''()''))) [0..<length value]"

definition qualifier_starts :: "str list" where
  "qualifier_starts = map lit [''const'', ''volatile'', ''&'', ''noexcept'', ''override'', ''final'', ''requires'', ''->'']"

definition parse_name :: "str \<Rightarrow> query_error + target" where
  "parse_name value = (case opening_paren value of
     None \<Rightarrow> ensureE (value \<noteq> []) NameNeeded
       (Inr \<lparr>t_name = normalize_name value, t_parameters = None, t_location = None, t_qualifiers = None\<rparr>)
   | Some i \<Rightarrow> (case closing_paren i 0 (drop i value) of
       None \<Rightarrow> Inl UnclosedParameters
     | Some e \<Rightarrow> let suffix = trim (drop (e + 1) value) in
         ensureE (suffix = [] \<or> list_ex (starts_with suffix) qualifier_starts) BadQualifiers
          (bindE (split_parameters (slice value (i + 1, e))) (\<lambda>parameters.
            ensureE (take i value \<noteq> []) NameNeeded
             (Inr \<lparr>t_name = normalize_name (take i value), t_parameters = Some parameters, t_location = None,
                t_qualifiers = (if suffix \<noteq> [] then Some suffix else None)\<rparr>)))))"

text \<open>
  A path component is a parent directory when it is two dots; paths are those of the Unix
  systems, where the slash alone separates components.
\<close>

definition parent_component :: "str \<Rightarrow> bool" where
  "parent_component path \<longleftrightarrow> lit ''..'' \<in> set (split_on (ch CHR ''/'') path)"

text \<open>\<^verbatim>\<open>rsplitn(3, ':')\<close> with at least two colons: the path, the line and the column.\<close>

definition rsplit3 :: "str \<Rightarrow> (str \<times> str \<times> str) option" where
  "rsplit3 s = (let parts = split_on (ch CHR '':'') s; n = length parts in
     if n < 3 then None
     else Some (join (lit '':'') (take (n - 2) parts), parts ! (n - 2), parts ! (n - 1)))"

definition parse_location :: "str \<Rightarrow> str \<Rightarrow> str \<Rightarrow> query_error + location" where
  "parse_location path line column = (case parse_usize line of
     None \<Rightarrow> Inl BadLocation
   | Some l \<Rightarrow> (case parse_usize column of
       None \<Rightarrow> Inl BadLocation
     | Some c \<Rightarrow> ensureE (0 < l \<and> 0 < c \<and> path \<noteq> []) NotPositive
         (ensureE (\<not> parent_component path) ParentDirectory
           (Inr \<lparr>loc_path = path, loc_line = l, loc_column = c\<rparr>))))"

definition parse_target :: "str \<Rightarrow> query_error + target" where
  "parse_target value = (case strip_prefix value (lit ''@'') of
     None \<Rightarrow> parse_name value
   | Some path \<Rightarrow>
       if contains_text path (lit ''::'') then parse_name value
       else if ch CHR '':'' \<in> set path \<and> length (filter (\<lambda>c. c = ch CHR '':'') path) < 2 then Inl BadLocation
       else (case rsplit3 path of
           None \<Rightarrow> parse_name value
         | Some (p, line, column) \<Rightarrow> bindE (parse_location p line column) (\<lambda>loc.
             Inr \<lparr>t_name = [], t_parameters = None, t_location = Some loc, t_qualifiers = None\<rparr>)))"

section \<open>Locations round trip\<close>

definition display_location :: "location \<Rightarrow> str" where
  "display_location loc = ch CHR ''@'' # loc_path loc @ ch CHR '':'' # display_nat (loc_line loc) @
     ch CHR '':'' # display_nat (loc_column loc)"

definition location_ok :: "location \<Rightarrow> bool" where
  "location_ok loc \<longleftrightarrow> loc_path loc \<noteq> [] \<and> 0 < loc_line loc \<and> 0 < loc_column loc \<and>
     loc_line loc \<le> u64_max \<and> loc_column loc \<le> u64_max \<and> \<not> parent_component (loc_path loc) \<and>
     \<not> contains_text (loc_path loc @ lit '':'') (lit ''::'')"

lemma display_nat_no_colon: "58 \<notin> set (display_nat n)"
  using display_nat_digits [of n] by (auto simp: list_all_iff is_digit_def)

lemma split_on_snoc: "d \<notin> set q \<Longrightarrow> split_on d (p @ d # q) = split_on d p @ [q]"
proof (induction p)
  case Nil
  then show ?case by (simp add: split_on_plain)
next
  case (Cons c p)
  then show ?case by (auto split: list.splits)
qed

lemma rsplit3_join:
  assumes "58 \<notin> set l" "58 \<notin> set c"
  shows "rsplit3 (p @ 58 # l @ 58 # c) = Some (p, l, c)"
proof -
  have s: "split_on 58 (p @ 58 # l @ 58 # c) = split_on 58 p @ [l, c]"
    using split_on_snoc [OF assms(2), of "p @ 58 # l"] split_on_snoc [OF assms(1), of p] by simp
  obtain q qs where q: "split_on 58 p = q # qs" by (cases "split_on 58 p") auto
  show ?thesis
    using join_split_on [of 58 p] unfolding rsplit3_def Let_def
    by (simp add: s q nth_append lit_def)
qed

text \<open>
  A double colon in the printed text could only come from the path: a line or a column is never
  empty.
\<close>

lemma colons_Cons:
  "contains_text (c # s) [58, 58] \<longleftrightarrow> (c = 58 \<and> s \<noteq> [] \<and> hd s = (58 :: nat)) \<or> contains_text s [58, 58]"
  by (cases s) auto

lemma colons_free: "58 \<notin> set ds \<Longrightarrow> contains_text (ds @ s) [58, 58 :: nat] \<longleftrightarrow> contains_text s [58, 58]"
  by (induction ds) (auto simp del: contains_text.simps simp: colons_Cons)

lemma colons_split:
  assumes "58 \<notin> set ds" "ds \<noteq> []"
  shows "contains_text (p @ 58 # ds @ s) [58, 58 :: nat] \<longleftrightarrow> contains_text (p @ [58]) [58, 58] \<or> contains_text s [58, 58]"
proof (induction p)
  case Nil
  have "hd (ds @ s) \<noteq> 58" using assms by (cases ds) auto
  with colons_free [OF assms(1), of s] show ?case by (simp del: contains_text.simps add: colons_Cons) simp
next
  case (Cons c p)
  have "hd (p @ 58 # ds @ s) = hd (p @ [58])" by (cases p) auto
  with Cons show ?case by (simp del: contains_text.simps add: colons_Cons)
qed

lemma colons_digits: "contains_text (display_nat n) [58, 58] \<longleftrightarrow> False"
  using colons_free [OF display_nat_no_colon, of n "[]"] by simp

lemma location_colons:
  assumes "location_ok loc"
  shows "\<not> contains_text (tl (display_location loc)) (lit ''::'')"
  using assms colons_split [OF display_nat_no_colon display_nat_not_Nil, of "loc_path loc" "loc_line loc"
      "58 # display_nat (loc_column loc)"]
    colons_split [OF display_nat_no_colon display_nat_not_Nil, of "[]" "loc_column loc" "[]"]
  by (simp add: display_location_def location_ok_def lit_def colons_digits del: contains_text.simps) simp

text \<open>
  A printed location with positive coordinates, whose path neither climbs to a parent
  directory nor holds a double colon, parses to that location and nothing else.
\<close>

lemma location_roundtrip:
  assumes "location_ok loc"
  shows "parse_target (display_location loc) =
    Inr \<lparr>t_name = [], t_parameters = None, t_location = Some loc, t_qualifiers = None\<rparr>"
proof -
  let ?path = "loc_path loc @ 58 # display_nat (loc_line loc) @ 58 # display_nat (loc_column loc)"
  have strip: "strip_prefix (display_location loc) (lit ''@'') = Some ?path"
    by (simp add: strip_prefix_def display_location_def lit_def)
  have "\<not> contains_text ?path (lit ''::'')"
    using location_colons [OF assms] by (simp add: display_location_def)
  moreover have "rsplit3 ?path = Some (loc_path loc, display_nat (loc_line loc), display_nat (loc_column loc))"
    by (intro rsplit3_join display_nat_no_colon)
  moreover have "parse_location (loc_path loc) (display_nat (loc_line loc)) (display_nat (loc_column loc)) = Inr loc"
    using assms by (simp add: parse_location_def location_ok_def parse_display_nat)
  ultimately show ?thesis unfolding parse_target_def strip by (simp add: numeral_2_eq_2)
qed

theorem location_roundtrip_witness:
  "parse_target (display_location \<lparr>loc_path = lit ''src/db.rs'', loc_line = 20, loc_column = 3\<rparr>) =
    Inr \<lparr>t_name = [], t_parameters = None,
      t_location = Some \<lparr>loc_path = lit ''src/db.rs'', loc_line = 20, loc_column = 3\<rparr>, t_qualifiers = None\<rparr>"
  by (rule location_roundtrip)
    (simp add: location_ok_def lit_def u64_max_def parent_component_def)

section \<open>Parameter lists round trip\<close>

text \<open>
  A parameter as the loop wants it: every delimiter closed again, no comma outside of them,
  nothing to trim; and its parentheses balanced among themselves, which is what the search for
  the end of the list counts.
\<close>

fun param_scan :: "int \<Rightarrow> nat \<Rightarrow> str \<Rightarrow> bool" where
  "param_scan depth previous [] \<longleftrightarrow> depth = 0"
| "param_scan depth previous (c # cs) \<longleftrightarrow> 0 \<le> param_depth previous c depth \<and>
     \<not> (c = ch CHR '','' \<and> depth = 0) \<and> param_scan (param_depth previous c depth) c cs"

fun paren_scan :: "int \<Rightarrow> str \<Rightarrow> bool" where
  "paren_scan depth [] \<longleftrightarrow> depth = 0"
| "paren_scan depth (c # cs) \<longleftrightarrow> 0 \<le> depth \<and>
     paren_scan (if c = ch CHR ''('' then depth + 1 else if c = ch CHR '')'' then depth - 1 else depth) cs"

definition parameter_ok :: "str \<Rightarrow> bool" where
  "parameter_ok p \<longleftrightarrow> p \<noteq> [] \<and> trim p = p \<and> param_scan 0 0 p \<and> paren_scan 0 p"

lemma param_depth_0: "param_depth previous c 0 = param_depth previous' c 0"
  by (simp add: param_depth_def)

lemma split_loop_previous: "split_loop cs 0 previous piece result = split_loop cs 0 0 piece result"
  by (cases cs) (simp_all add: param_depth_0 [of previous _ 0])

lemma split_loop_scan:
  "param_scan depth previous p \<Longrightarrow>
   split_loop (p @ cs) depth previous piece result = split_loop cs 0 0 (piece @ p) result"
proof (induction p arbitrary: depth previous piece)
  case Nil
  then show ?case by (simp add: split_loop_previous [of cs previous])
next
  case (Cons c p)
  then show ?case by (simp add: ensureE_def) auto
qed

lemma trim_space [simp]: "trim (32 # p) = trim p"
  by (simp add: trim_def trim_start_def is_whitespace_def)

lemma split_loop_join:
  assumes "ps \<noteq> []" "\<forall>p\<in>set ps. parameter_ok p" "trim piece = []" "list_all (\<lambda>s. s \<noteq> []) result"
    and "piece = [] \<or> piece = [32]"
  shows "split_loop (join (lit '', '') ps) 0 0 piece result = Inr (result @ ps)"
  using assms
proof (induction "lit '', ''" ps arbitrary: piece result rule: join.induct)
  case (2 p)
  then have "split_loop (p @ []) 0 0 piece result = split_loop [] 0 0 (piece @ p) result"
    by (intro split_loop_scan) (simp add: parameter_ok_def)
  with 2 show ?case by (auto simp: parameter_ok_def)
next
  case (3 p q ps)
  let ?rest = "join (lit '', '') (q # ps)"
  have p: "param_scan 0 0 p" "trim p = p" "p \<noteq> []" using "3.prems" by (simp_all add: parameter_ok_def)
  have "split_loop (p @ 44 # 32 # ?rest) 0 0 piece result = split_loop (44 # 32 # ?rest) 0 0 (piece @ p) result"
    by (rule split_loop_scan [OF p(1)])
  also have "\<dots> = split_loop ?rest 0 0 [32] (result @ [p])"
    using "3.prems"(5) p by (auto simp: param_depth_def split_loop_previous [of _ 32])
  also have "\<dots> = Inr ((result @ [p]) @ q # ps)"
    using "3.prems" p by (intro "3.hyps") (auto simp: trim_def trim_start_def trim_end_def is_whitespace_def)
  finally show ?case by (simp add: lit_def)
qed simp

lemma split_parameters_join:
  assumes "\<forall>p\<in>set ps. parameter_ok p"
  shows "split_parameters (join (lit '', '') ps) = Inr ps"
proof (cases ps)
  case Nil
  then show ?thesis by (simp add: split_parameters_def trim_def trim_start_def trim_end_def)
next
  case (Cons p qs)
  with assms have p: "p \<noteq> []" "trim p = p" by (simp_all add: parameter_ok_def)
  have "\<not> is_whitespace (hd p)"
  proof
    assume "is_whitespace (hd p)"
    with p(1) have "length (trim p) < length p"
      unfolding trim_def trim_start_def trim_end_def
      by (cases p) (auto intro!: le_imp_less_Suc intro: order_trans [OF length_dropWhile_le] simp: length_dropWhile_le)
    with p(2) show False by simp
  qed
  moreover obtain r where r: "join (lit '', '') ps = p @ r" using Cons by (cases qs) auto
  ultimately have "trim_start (join (lit '', '') ps) = p @ r" using p(1) by (cases p) (simp_all add: trim_start_def)
  moreover have "trim_end (p @ r) \<noteq> []"
    using \<open>\<not> is_whitespace (hd p)\<close> p(1) by (cases p) (auto simp: trim_end_def dropWhile_eq_Nil_conv)
  ultimately have "trim (join (lit '', '') ps) \<noteq> []" by (simp add: trim_def)
  moreover have "split_loop (join (lit '', '') ps) 0 0 [] [] = Inr ([] @ ps)"
    using Cons assms by (intro split_loop_join) (simp_all add: trim_def trim_start_def trim_end_def)
  ultimately show ?thesis by (simp add: split_parameters_def)
qed

lemma closing_paren_scan:
  "paren_scan depth p \<Longrightarrow> 0 < d \<Longrightarrow> closing_paren j (d + depth) (p @ cs) = closing_paren (j + length p) d cs"
proof (induction p arbitrary: depth j)
  case (Cons c p)
  then have pos: "0 \<le> depth" by simp
  let ?depth = "if c = ch CHR ''('' then depth + 1 else if c = ch CHR '')'' then depth - 1 else depth"
  have scan: "paren_scan ?depth p" using Cons.prems(1) by simp
  then have "0 \<le> ?depth" by (cases p) auto
  with Cons.IH [OF scan Cons.prems(2), of "j + 1"] pos Cons.prems(2) show ?case
    by (auto simp: Let_def algebra_simps split: if_splits)
qed simp

lemma closing_paren_plain:
  "40 \<notin> set p \<Longrightarrow> 41 \<notin> set p \<Longrightarrow> 0 < d \<Longrightarrow> closing_paren j d (p @ cs) = closing_paren (j + length p) d cs"
  by (induction p arbitrary: j) auto

lemma closing_paren_join:
  assumes "\<forall>p\<in>set ps. paren_scan 0 p" "0 < d"
  shows "closing_paren j d (join (lit '', '') ps @ cs) = closing_paren (j + length (join (lit '', '') ps)) d cs"
  using assms
proof (induction "lit '', ''" ps arbitrary: j rule: join.induct)
  case (2 p)
  then show ?case using closing_paren_scan [of 0 p d j cs] by simp
next
  case (3 p q ps)
  have "closing_paren j d (p @ lit '', '' @ join (lit '', '') (q # ps) @ cs) =
      closing_paren (j + length p) d (lit '', '' @ join (lit '', '') (q # ps) @ cs)"
    using closing_paren_scan [of 0 p d j] 3 by simp
  also have "\<dots> = closing_paren (j + length p + 2) d (join (lit '', '') (q # ps) @ cs)"
    using closing_paren_plain [of "lit '', ''" d "j + length p"] 3 by (simp add: lit_def)
  also have "\<dots> = closing_paren (j + length p + 2 + length (join (lit '', '') (q # ps))) d cs"
    using 3 by simp
  finally show ?case by (simp add: algebra_simps)
qed simp

lemma find_first_upt:
  assumes "k < n" "Q k" "\<forall>i<k. \<not> Q i"
  shows "find_first Q [0..<n] = Some k"
  using assms by (simp add: find_first_Some)

definition trailing :: "str option \<Rightarrow> str" where
  "trailing q = (case q of None \<Rightarrow> [] | Some s \<Rightarrow> 32 # s)"

definition display_target :: "str \<Rightarrow> str list \<Rightarrow> str option \<Rightarrow> str" where
  "display_target name ps q = name @ ch CHR ''('' # join (lit '', '') ps @ ch CHR '')'' # trailing q"

definition qualifiers_ok :: "str option \<Rightarrow> bool" where
  "qualifiers_ok q \<longleftrightarrow> (case q of None \<Rightarrow> True
     | Some s \<Rightarrow> s \<noteq> [] \<and> trim s = s \<and> list_ex (starts_with s) qualifier_starts)"

definition plain_name :: "str \<Rightarrow> bool" where
  "plain_name name \<longleftrightarrow> name \<noteq> [] \<and> hd name \<noteq> 64 \<and> 40 \<notin> set name \<and> \<not> ends_with name (lit ''operator'')"

lemma opening_paren_display:
  assumes "plain_name name"
  shows "opening_paren (display_target name ps q) = Some (length name)"
proof -
  have "display_target name ps q ! i \<noteq> 40" if "i < length name" for i
  proof -
    have "name ! i \<noteq> 40" using assms nth_mem [OF that] unfolding plain_name_def by metis
    with that show ?thesis by (simp add: display_target_def nth_append)
  qed
  then show ?thesis
    unfolding opening_paren_def using assms
    by (intro find_first_upt) (auto simp: display_target_def plain_name_def)
qed

text \<open>
  A name with a parameter list and trailing qualifiers, printed in the usual notation,
  parses to the normalized name, the same parameters in order and the same qualifiers.
\<close>

lemma target_roundtrip:
  assumes "plain_name name" "list_all parameter_ok ps" "qualifiers_ok q"
  shows "parse_target (display_target name ps q) = Inr \<lparr>t_name = normalize_name name,
    t_parameters = Some ps, t_location = None, t_qualifiers = q\<rparr>"
proof -
  let ?v = "display_target name ps q" and ?i = "length name"
  let ?ps = "join (lit '', '') ps"
  let ?e = "?i + 1 + length ?ps"
  have at: "strip_prefix ?v (lit ''@'') = None"
    using assms(1) by (cases name) (simp_all add: strip_prefix_def display_target_def plain_name_def lit_def)
  have "closing_paren ?i 0 (drop ?i ?v) = closing_paren (?i + 1) 1 (?ps @ 41 # trailing q)"
    by (simp add: display_target_def)
  also have "\<dots> = Some ?e"
    using assms(2) by (subst closing_paren_join) (auto simp: list_all_iff parameter_ok_def)
  finally have close: "closing_paren ?i 0 (drop ?i ?v) = Some ?e" .
  have suffix: "trim (drop (?e + 1) ?v) = (case q of None \<Rightarrow> [] | Some s \<Rightarrow> s)"
    using assms(3)
    by (auto simp: display_target_def trailing_def qualifiers_ok_def trim_def trim_start_def trim_end_def
        is_whitespace_def split: option.splits)
  have inner: "slice ?v (?i + 1, ?e) = ?ps" by (simp add: display_target_def slice_def)
  have "parse_name ?v = Inr \<lparr>t_name = normalize_name name, t_parameters = Some ps, t_location = None, t_qualifiers = q\<rparr>"
    using assms unfolding parse_name_def opening_paren_display [OF assms(1)] option.case close suffix inner Let_def
    by (auto simp: split_parameters_join list_all_iff qualifiers_ok_def plain_name_def display_target_def
        split: option.splits)
  then show ?thesis by (simp add: parse_target_def at)
qed

theorem target_roundtrip_witness:
  "parse_target (display_target (lit ''Map.insert'') [lit ''key: (K, V)'', lit ''T[]''] (Some (lit ''const''))) =
    Inr \<lparr>t_name = normalize_name (lit ''Map.insert''), t_parameters = Some [lit ''key: (K, V)'', lit ''T[]''],
      t_location = None, t_qualifiers = Some (lit ''const'')\<rparr>"
  by (rule target_roundtrip)
    (simp_all add: plain_name_def parameter_ok_def qualifiers_ok_def qualifier_starts_def lit_def ends_with_def
      trim_def trim_start_def trim_end_def is_whitespace_def param_depth_def)

end
