(* ===== verification/Sources.thy ===== *)
theory Sources
  imports Text
begin

text \<open>
  The data model of \<^verbatim>\<open>src/src/model.rs\<close> and the language groups of \<^verbatim>\<open>src/src/native/mod.rs\<close>:
  languages, declarations, source coordinates (\<open>offset\<close>, \<open>position\<close>, \<open>line\<close>) and the decoding
  of source files (UTF-8, UTF-16, UTF-32, and a detector for legacy encodings that is a
  parameter). A source is a list of characters; a byte index is the UTF-8 length of a prefix,
  and slicing at a byte that is not a boundary, a panic of the code, is \<open>None\<close>.
\<close>

section \<open>Languages\<close>

datatype language = CSharp | Rust | Markdown | PlainText | C | Cpp | Header | Hlsl | Glsl | ShaderLab

definition lang_document :: "language \<Rightarrow> bool" where
  "lang_document l \<longleftrightarrow> l = Markdown \<or> l = PlainText"

definition lang_native :: "language \<Rightarrow> bool" where
  "lang_native l \<longleftrightarrow> l \<in> {C, Cpp, Header, Hlsl, Glsl, ShaderLab}"

fun lang_tag :: "language \<Rightarrow> str" where
  "lang_tag CSharp = lit ''cs''"
| "lang_tag Rust = lit ''rust''"
| "lang_tag Markdown = lit ''md''"
| "lang_tag PlainText = lit ''text''"
| "lang_tag C = lit ''c''"
| "lang_tag Cpp = lit ''cpp''"
| "lang_tag Header = lit ''cpp''"
| "lang_tag Hlsl = lit ''hlsl''"
| "lang_tag Glsl = lit ''glsl''"
| "lang_tag ShaderLab = lit ''shaderlab''"

datatype lang_group = NativeGroup | ShadersGroup

definition group_of :: "language \<Rightarrow> lang_group option" where
  "group_of l = (case l of C \<Rightarrow> Some NativeGroup | Cpp \<Rightarrow> Some NativeGroup | Header \<Rightarrow> Some NativeGroup
     | Hlsl \<Rightarrow> Some ShadersGroup | Glsl \<Rightarrow> Some ShadersGroup | ShaderLab \<Rightarrow> Some ShadersGroup | _ \<Rightarrow> None)"

definition group_name :: "lang_group \<Rightarrow> str" where
  "group_name g = (case g of NativeGroup \<Rightarrow> lit ''native'' | ShadersGroup \<Rightarrow> lit ''shaders'')"

definition language_extension :: "str \<Rightarrow> language option" where
  "language_extension e =
     (if e = lit ''c'' then Some C
      else if e = lit ''h'' then Some Header
      else if e \<in> lit ` {''C'', ''cc'', ''cpp'', ''cxx'', ''c++'', ''hh'', ''hpp'', ''hxx'', ''h++'', ''inl'', ''ipp'',
        ''tpp'', ''ixx'', ''cppm''} then Some Cpp
      else if e \<in> lit ` {''hlsl'', ''hlsli'', ''cginc'', ''compute'', ''ngcompute'', ''ngshader''} then Some Hlsl
      else if e \<in> lit ` {''glsl'', ''vert'', ''frag'', ''geom'', ''tesc'', ''tese'', ''comp'', ''mesh'', ''task'', ''rgen'',
        ''rint'', ''rahit'', ''rchit'', ''rmiss'', ''rcall''} then Some Glsl
      else if e \<in> lit ` {''shader'', ''surfshader'', ''ngsurface'', ''ngsurfshader''} then Some ShaderLab
      else None)"

definition compatible :: "language \<Rightarrow> language \<Rightarrow> bool" where
  "compatible a b \<longleftrightarrow> a = b \<or> (group_of a = Some NativeGroup \<and> group_of b = Some NativeGroup) \<or>
     (a = ShaderLab \<and> group_of b = Some ShadersGroup) \<or> (b = ShaderLab \<and> group_of a = Some ShadersGroup)"

lemma compatible_refl: "compatible a a"
  by (simp add: compatible_def)

lemma compatible_sym: "compatible a b \<longleftrightarrow> compatible b a"
  by (auto simp: compatible_def)

lemma group_native: "lang_native l \<longleftrightarrow> group_of l \<noteq> None"
  by (cases l) (simp_all add: lang_native_def group_of_def)

lemma language_extension_native: "language_extension e = Some l \<Longrightarrow> lang_native l"
  by (auto simp: language_extension_def lang_native_def split: if_splits)

section \<open>Declarations\<close>

record decl =
  d_name :: str
  d_qualified :: str
  d_kind :: str
  d_namespace :: str
  d_owner :: str
  d_name_span :: range
  d_span :: range
  d_header :: range
  d_scope :: range
  d_parameters :: "str list"
  d_ty :: str
  d_access :: str
  d_attributes :: "str list"
  d_modifiers :: "str list"
  d_bases :: "str list"

definition decl_local :: "decl \<Rightarrow> bool" where
  "decl_local d \<longleftrightarrow> d_kind d \<in> lit ` {''local'', ''parameter''}"

definition decl_callable :: "decl \<Rightarrow> bool" where
  "decl_callable d \<longleftrightarrow> d_kind d \<in> lit ` {''method'', ''function'', ''constructor'', ''operator'', ''lambda''}"

definition decl_named_type :: "decl \<Rightarrow> bool" where
  "decl_named_type d \<longleftrightarrow> d_kind d \<in> lit ` {''class'', ''struct'', ''union'', ''interface'', ''enum'', ''type'', ''trait'', ''delegate''}"

lemma decl_kinds_disjoint:
  "\<not> (decl_local d \<and> decl_callable d)" "\<not> (decl_local d \<and> decl_named_type d)"
  "\<not> (decl_callable d \<and> decl_named_type d)"
  by (auto simp: decl_local_def decl_callable_def decl_named_type_def)

record project_reference =
  pr_target :: str
  pr_aliases :: "str list"

definition reference_visible :: "project_reference \<Rightarrow> str \<Rightarrow> bool" where
  "reference_visible r target \<longleftrightarrow> pr_target r = target \<and>
     (pr_aliases r = [] \<or> list_ex (\<lambda>a. a = lit ''global'') (pr_aliases r))"

section \<open>Coordinates\<close>

definition byte_len :: "str \<Rightarrow> nat" where
  "byte_len s = length (utf8 s)"

text \<open>The byte index after every line feed.\<close>

fun line_starts :: "nat \<Rightarrow> str \<Rightarrow> nat list" where
  "line_starts i [] = []"
| "line_starts i (c # s) =
     (let i = i + length (utf8_char c) in if c = 10 then i # line_starts i s else line_starts i s)"

text \<open>The characters before a byte index; \<open>None\<close> when it is past the end or inside a character.\<close>

fun char_prefix :: "str \<Rightarrow> nat \<Rightarrow> str option" where
  "char_prefix s 0 = Some []"
| "char_prefix [] (Suc n) = None"
| "char_prefix (c # s) (Suc n) =
     (if length (utf8_char c) \<le> Suc n
      then map_option (Cons c) (char_prefix s (Suc n - length (utf8_char c))) else None)"

text \<open>A slice of text by byte indices; \<open>None\<close> is the panic off a character boundary.\<close>

definition text_slice :: "str \<Rightarrow> range \<Rightarrow> str option" where
  "text_slice s r = (case (char_prefix s (fst r), char_prefix s (snd r)) of
     (Some a, Some b) \<Rightarrow> if fst r \<le> snd r then Some (drop (length a) b) else None
   | _ \<Rightarrow> None)"

text \<open>The loop of \<open>offset\<close>: skip so many lines, with the byte index and the rest of the source.\<close>

fun skip_lines :: "nat \<Rightarrow> nat \<Rightarrow> str \<Rightarrow> (nat \<times> str) option" where
  "skip_lines 0 start rest = Some (start, rest)"
| "skip_lines (Suc n) start rest = (case find_first (\<lambda>c. c = 10) rest of
     None \<Rightarrow> None
   | Some k \<Rightarrow> skip_lines n (start + (byte_len (take k rest) + 1)) (drop (k + 1) rest))"

text \<open>The first item of \<^verbatim>\<open>split_inclusive('\n')\<close>.\<close>

definition first_row :: "str \<Rightarrow> str option" where
  "first_row rest = (if rest = [] then None else (case find_first (\<lambda>c. c = 10) rest of
     None \<Rightarrow> Some rest | Some k \<Rightarrow> Some (take (k + 1) rest)))"

definition offset :: "str \<Rightarrow> nat \<Rightarrow> nat \<Rightarrow> nat option" where
  "offset source line column = (case skip_lines (line - 1) 0 source of
     None \<Rightarrow> None
   | Some (start, rest) \<Rightarrow> (case first_row rest of
       None \<Rightarrow> None
     | Some row \<Rightarrow> (case checked_sub column 1 of
         None \<Rightarrow> None
       | Some n \<Rightarrow> if n < length row then Some (start + byte_len (take n row)) else None)))"

definition last_row :: "str \<Rightarrow> str" where
  "last_row prefix = rev (takeWhile (\<lambda>c. c \<noteq> 10) (rev prefix))"

definition position :: "str \<Rightarrow> nat \<Rightarrow> (nat \<times> nat) option" where
  "position source byte = (case char_prefix source byte of
     None \<Rightarrow> None
   | Some prefix \<Rightarrow> Some (length (filter (\<lambda>b. b = 10) (utf8 prefix)) + 1, length (last_row prefix) + 1))"

text \<open>\<open>line\<close>: the trimmed line around a byte.\<close>

definition line_at :: "str \<Rightarrow> nat \<Rightarrow> str option" where
  "line_at source byte = (case char_prefix source byte of
     None \<Rightarrow> None
   | Some prefix \<Rightarrow> Some (trim (last_row prefix @ takeWhile (\<lambda>c. c \<noteq> 10) (drop (length prefix) source))))"

lemma byte_len_simps [simp]: "byte_len [] = 0" "byte_len (c # s) = length (utf8_char c) + byte_len s"
  "byte_len (s @ t) = byte_len s + byte_len t"
  by (simp_all add: byte_len_def)

lemma utf8_char_pos [simp]: "0 < length (utf8_char c)"
  by simp

lemma char_prefix_self: "char_prefix (p @ s) (byte_len p) = Some p"
proof (induction p)
  case (Cons c p)
  obtain n where n: "length (utf8_char c) + byte_len p = Suc n" by (cases "length (utf8_char c)") auto
  then have "Suc n - length (utf8_char c) = byte_len p" by simp
  moreover have "length (utf8_char c) \<le> Suc n" using n by simp
  ultimately show ?case using Cons n by simp
qed simp

lemma char_prefix_Some: "char_prefix s n = Some p \<longleftrightarrow> (\<exists>r. s = p @ r) \<and> n = byte_len p"
proof
  assume "char_prefix s n = Some p"
  then show "(\<exists>r. s = p @ r) \<and> n = byte_len p"
    by (induction s n arbitrary: p rule: char_prefix.induct) (auto split: if_splits)
next
  assume "(\<exists>r. s = p @ r) \<and> n = byte_len p"
  then show "char_prefix s n = Some p" using char_prefix_self by auto
qed

lemma newlines_utf8_char: "filter (\<lambda>b. b = 10) (utf8_char c) = (if c = 10 then [10] else [])"
proof -
  obtain b bs where b: "utf8_char c = b # bs" "list_all continuation bs" "b = 10 \<longleftrightarrow> c = 10"
  proof (rule utf8_char_cases [of c])
    fix b bs assume "utf8_char c = b # bs" "list_all continuation bs"
      "c < 0x80 \<Longrightarrow> b = c \<and> bs = []" "0x80 \<le> c \<Longrightarrow> 0xc0 \<le> b"
    then show thesis using that [of b bs] by (cases "c < 0x80") auto
  qed
  have "filter (\<lambda>b. b = 10) bs = []" using b(2) by (auto simp: filter_empty_conv list_all_iff continuation_def)
  with b show ?thesis by simp
qed

lemma newlines_utf8: "filter (\<lambda>b. b = 10) (utf8 s) = filter (\<lambda>c. c = 10) s"
  by (induction s) (simp_all add: newlines_utf8_char)

definition newlines :: "str \<Rightarrow> nat" where
  "newlines s = length (filter (\<lambda>c. c = 10) s)"

lemma newlines_simps [simp]:
  "newlines [] = 0" "newlines (c # s) = (if c = 10 then 1 else 0) + newlines s"
  "newlines (s @ t) = newlines s + newlines t"
  by (simp_all add: newlines_def)

lemma newlines_0: "newlines s = 0 \<longleftrightarrow> 10 \<notin> set s"
  by (induction s) auto

text \<open>Skipping lines reaches the text after the last newline of the prefix skipped.\<close>

lemma skip_lines_prefix:
  "p = [] \<or> last p = 10 \<Longrightarrow>
    skip_lines (newlines p) start (p @ s) = Some (start + byte_len p, s)"
proof (induction "newlines p" arbitrary: p start)
  case 0
  then have "10 \<notin> set p" using newlines_0 [of p] by simp
  with 0 have "p = []" by (metis last_in_set)
  with 0 show ?case by simp
next
  case (Suc n)
  then have "10 \<in> set p" using newlines_0 [of p] by auto
  then obtain a b where p: "p = a @ 10 # b" "10 \<notin> set a" by (meson split_list_first)
  have n: "n = newlines b" using Suc.hyps(2) p newlines_0 [of a] by simp
  have "\<forall>j<length a. a ! j \<noteq> 10" using p(2) nth_mem by metis
  then have f: "find_first (\<lambda>c. c = 10) (p @ s) = Some (length a)"
    using p by (auto simp: find_first_Some nth_append)
  have b: "b = [] \<or> last b = 10" using Suc.prems p by (auto split: if_splits)
  have "skip_lines (newlines p) start (p @ s) =
      skip_lines (newlines b) (start + (byte_len a + 1)) (b @ s)"
    unfolding Suc.hyps(2) [symmetric] n by (simp only: skip_lines.simps f option.case) (simp add: p)
  with Suc.hyps(1) [OF n b, of "start + (byte_len a + 1)"] p show ?case by (simp add: utf8_char_def)
qed

text \<open>What \<open>position\<close> sees of a prefix: the full lines, then the current row.\<close>

lemma last_row_split:
  obtains p where "prefix = p @ last_row prefix" "p = [] \<or> last p = 10" "10 \<notin> set (last_row prefix)"
proof -
  let ?r = "takeWhile (\<lambda>c. c \<noteq> 10) (rev prefix)" and ?d = "dropWhile (\<lambda>c. c \<noteq> 10) (rev prefix)"
  have "rev prefix = ?r @ ?d" by (rule takeWhile_dropWhile_id [symmetric])
  from arg_cong [OF this, of rev] have "prefix = rev ?d @ rev ?r"
    unfolding rev_rev_ident rev_append .
  moreover have "rev ?d = [] \<or> last (rev ?d) = 10"
    using hd_dropWhile [of "\<lambda>c. c \<noteq> 10" "rev prefix"] by (auto simp: last_rev)
  moreover have "10 \<notin> set (rev ?r)" by (auto dest: set_takeWhileD)
  ultimately show thesis using that unfolding last_row_def by blast
qed

lemma newlines_split: "10 \<notin> set r \<Longrightarrow> newlines (p @ r) = newlines p"
  using newlines_0 [of r] by simp

lemma first_row_take:
  assumes "10 \<notin> set row" "rest = row @ c # s"
  shows "\<exists>tail. first_row rest = Some (row @ c # tail)"
proof (cases "find_first (\<lambda>c. c = 10) rest")
  case None
  with assms show ?thesis by (auto simp: first_row_def)
next
  case (Some k)
  have "length row \<le> k"
  proof (rule ccontr)
    assume "\<not> length row \<le> k"
    then have "row ! k = 10" "k < length row" using Some assms by (auto simp: find_first_Some nth_append)
    with assms(1) show False using nth_mem by metis
  qed
  then have "take (k + 1) rest = row @ c # take (k - length row) s"
    using assms(2) by (simp add: Suc_diff_le)
  with Some assms show ?thesis by (simp add: first_row_def)
qed

lemma position_prefix: "position (p @ s) (byte_len p) = Some (newlines p + 1, length (last_row p) + 1)"
  by (simp add: position_def char_prefix_self newlines_utf8 newlines_def)

lemma offset_position_prefix:
  "offset (prefix @ c # s) (newlines prefix + 1) (length (last_row prefix) + 1) = Some (byte_len prefix)"
proof -
  obtain p where p: "prefix = p @ last_row prefix" "p = [] \<or> last p = 10" "10 \<notin> set (last_row prefix)"
    by (rule last_row_split)
  define row where "row = last_row prefix"
  have n: "newlines prefix = newlines p" using p newlines_split by metis
  have "skip_lines (newlines prefix) 0 (prefix @ c # s) = Some (byte_len p, row @ c # s)"
    using skip_lines_prefix [OF p(2), of 0 "row @ c # s"] p(1) n row_def by (metis append.assoc plus_nat.add_0)
  moreover obtain tail where "first_row (row @ c # s) = Some (row @ c # tail)"
    using first_row_take [of row "row @ c # s" c s] p(3) row_def by auto
  moreover have "byte_len prefix = byte_len p + byte_len row" using p(1) row_def by (metis byte_len_simps(3))
  ultimately show ?thesis by (simp add: offset_def checked_sub_def row_def)
qed

text \<open>
  Line and column are coordinates: at every character boundary before the end of a source,
  \<open>position\<close> is defined and \<open>offset\<close> maps what it returns back to the same byte.
\<close>

lemma offset_position:
  assumes "k < length source"
  shows "\<exists>line column. position source (byte_len (take k source)) = Some (line, column) \<and>
    offset source line column = Some (byte_len (take k source))"
proof -
  have s: "source = take k source @ source ! k # drop (k + 1) source"
    using assms by (simp add: id_take_nth_drop)
  show ?thesis
    using position_prefix [of "take k source" "source ! k # drop (k + 1) source"]
      offset_position_prefix [of "take k source" "source ! k" "drop (k + 1) source"] s by metis
qed

theorem offset_position_witness:
  "\<exists>line column. position (lit ''fn a;'' @ 10 # 0x20AC # lit ''b'') (byte_len (take 7 (lit ''fn a;'' @ 10 # 0x20AC # lit ''b''))) =
      Some (line, column) \<and>
    offset (lit ''fn a;'' @ 10 # 0x20AC # lit ''b'') line column =
      Some (byte_len (take 7 (lit ''fn a;'' @ 10 # 0x20AC # lit ''b'')))"
  by (rule offset_position) simp

section \<open>Slices of text\<close>

lemma byte_len_append [simp]: "byte_len (a @ b) = byte_len a + byte_len b"
  by (simp add: byte_len_def)

lemma line_starts_shift: "line_starts i s = map ((+) i) (line_starts 0 s)"
proof (induction s arbitrary: i)
  case (Cons c s)
  have "line_starts (i + k) s = map ((+) i) (line_starts k s)" for k
    using Cons.IH [of "i + k"] Cons.IH [of k] by (simp add: comp_def add.assoc)
  then show ?case by (simp add: Let_def)
qed simp

lemma prefix_within:
  assumes "byte_len p \<le> byte_len q" "p @ r = q @ r'"
  shows "\<exists>u. q = p @ u"
proof (cases "length p \<le> length q")
  case True
  then show ?thesis using assms(2) by (metis append_eq_append_conv_if append_take_drop_id)
next
  case False
  then obtain u where u: "p = q @ u" using assms(2) by (metis append_eq_append_conv_if append_take_drop_id nle_le)
  then have "utf8 u = []" using assms(1) by (simp add: byte_len_def)
  with u show ?thesis by simp
qed

lemma text_slice_Some:
  "text_slice s (a, b) = Some t \<longleftrightarrow> (\<exists>p r. s = p @ t @ r \<and> a = byte_len p \<and> b = byte_len (p @ t))"
proof
  assume "text_slice s (a, b) = Some t"
  then obtain p q where pq: "char_prefix s a = Some p" "char_prefix s b = Some q" "a \<le> b" "t = drop (length p) q"
    by (auto simp: text_slice_def split: option.splits if_splits)
  obtain r r' where r: "s = p @ r" "a = byte_len p" "s = q @ r'" "b = byte_len q" using pq(1,2) unfolding char_prefix_Some by blast
  have "\<exists>u. q = p @ u" using prefix_within [of p q r r'] pq(3) r by simp
  then obtain u where "q = p @ u" by blast
  with pq(4) r show "\<exists>p r. s = p @ t @ r \<and> a = byte_len p \<and> b = byte_len (p @ t)" by auto
next
  assume "\<exists>p r. s = p @ t @ r \<and> a = byte_len p \<and> b = byte_len (p @ t)"
  then obtain p r where s: "s = p @ t @ r" "a = byte_len p" "b = byte_len (p @ t)" by blast
  have "char_prefix s a = Some p" "char_prefix s b = Some (p @ t)" using s by (auto simp: char_prefix_Some)
  then show "text_slice s (a, b) = Some t" using s by (simp add: text_slice_def byte_len_def)
qed

lemma prefix_unique:
  assumes "p @ r = q @ r'" "byte_len p = byte_len q"
  shows "p = q"
  using char_prefix_self [of p r] char_prefix_self [of q r'] unfolding assms by simp

end
