(* ===== verification/Encodings.thy ===== *)
theory Encodings
  imports Sources
begin

text \<open>
  Decoding of source files, \<^verbatim>\<open>decode\<close>, \<^verbatim>\<open>decode_owned\<close>, \<^verbatim>\<open>decode_raw\<close> and
  \<^verbatim>\<open>validate_document\<close> of \<^verbatim>\<open>src/src/model.rs\<close>. UTF-8, UTF-16 and UTF-32 are written out; the
  detector of legacy encodings (the chardetng and encoding_rs packages) is a parameter that
  returns the text, or \<open>None\<close> for malformed input. Bytes are numbers below 256.
\<close>

datatype decode_error = BinaryDocument | Utf32Length | Utf32Scalar | Utf16Length | BadUtf16 | BadUtf8 | Malformed

section \<open>Unicode transformation formats\<close>

definition scalar :: "nat \<Rightarrow> bool" where
  "scalar c \<longleftrightarrow> c < 0xd800 \<or> (0xdfff < c \<and> c < 0x110000)"

text \<open>
  One character: the width comes from the first byte, and the bytes must be the (shortest)
  encoding of the value they spell.
\<close>

definition utf8_width :: "nat \<Rightarrow> nat" where
  "utf8_width b = (if b < 0x80 then 1 else if b < 0xe0 then 2 else if b < 0xf0 then 3 else 4)"

definition utf8_value :: "nat list \<Rightarrow> nat" where
  "utf8_value bs = (case bs of
     [a] \<Rightarrow> a
   | [a, b] \<Rightarrow> (a - 0xc0) * 64 + (b - 0x80)
   | [a, b, c] \<Rightarrow> (a - 0xe0) * 4096 + (b - 0x80) * 64 + (c - 0x80)
   | [a, b, c, d] \<Rightarrow> (a - 0xf0) * 262144 + (b - 0x80) * 4096 + (c - 0x80) * 64 + (d - 0x80)
   | _ \<Rightarrow> 0)"

definition utf8_first :: "nat list \<Rightarrow> nat \<Rightarrow> nat option" where
  "utf8_first bs width = (let cs = take width bs; c = utf8_value cs
     in if scalar c \<and> utf8_char c = cs then Some c else None)"

function from_utf8 :: "nat list \<Rightarrow> str option" where
  "from_utf8 [] = Some []"
| "from_utf8 (b # bs) = (case utf8_first (b # bs) (utf8_width b) of
     None \<Rightarrow> None
   | Some c \<Rightarrow> map_option (Cons c) (from_utf8 (drop (utf8_width b) (b # bs))))"
  by pat_completeness auto
termination
  by (relation "measure length") (auto simp: utf8_width_def)

fun from_utf16 :: "nat list \<Rightarrow> str option" where
  "from_utf16 [] = Some []"
| "from_utf16 [u] = (if scalar u then Some [u] else None)"
| "from_utf16 (u # v # us) =
     (if u < 0xd800 \<or> 0xdfff < u then map_option (Cons u) (from_utf16 (v # us))
      else if u < 0xdc00 \<and> 0xdc00 \<le> v \<and> v < 0xe000
      then map_option (Cons (0x10000 + (u - 0xd800) * 1024 + (v - 0xdc00))) (from_utf16 us)
      else None)"

fun words16 :: "bool \<Rightarrow> nat list \<Rightarrow> nat list" where
  "words16 little (a # b # bs) = (if little then a + 256 * b else 256 * a + b) # words16 little bs"
| "words16 little _ = []"

fun words32 :: "bool \<Rightarrow> nat list \<Rightarrow> nat list" where
  "words32 little (a # b # c # d # bs) =
     (if little then a + 256 * (b + 256 * (c + 256 * d)) else d + 256 * (c + 256 * (b + 256 * a))) #
     words32 little bs"
| "words32 little _ = []"

section \<open>Decoding\<close>

definition document_bytes_ok :: "nat list \<Rightarrow> bool" where
  "document_bytes_ok bytes \<longleftrightarrow> (let bytes = (case strip_prefix bytes [0xef, 0xbb, 0xbf] of None \<Rightarrow> bytes | Some r \<Rightarrow> r)
     in \<not> starts_with bytes (lit ''bplist00'') \<and>
        \<not> (\<exists>b\<in>set bytes. (b < 32 \<or> b = 127) \<and> \<not> (9 \<le> b \<and> b \<le> 13)))"

definition validate_document :: "nat list \<Rightarrow> language \<Rightarrow> decode_error + unit" where
  "validate_document bytes l =
     (if lang_document l then ensureE (document_bytes_ok bytes) BinaryDocument (Inr ()) else Inr ())"

definition strip_bom :: "str \<Rightarrow> str" where
  "strip_bom s = (case strip_prefix s [0xfeff] of None \<Rightarrow> s | Some r \<Rightarrow> r)"

definition decode_encoding :: "(nat list \<Rightarrow> str option) \<Rightarrow> nat list \<Rightarrow> language \<Rightarrow> decode_error + str" where
  "decode_encoding legacy bytes l =
     (if l \<noteq> Rust \<and> (starts_with bytes [0xff, 0xfe, 0, 0] \<or> starts_with bytes [0, 0, 0xfe, 0xff]) then
        ensureE (length bytes mod 4 = 0) Utf32Length
          (let ws = words32 (hd bytes = 0xff) (drop 4 bytes)
           in if list_all scalar ws then Inr ws else Inl Utf32Scalar)
      else if l \<noteq> Rust \<and> (starts_with bytes [0xff, 0xfe] \<or> starts_with bytes [0xfe, 0xff]) then
        ensureE (length bytes mod 2 = 0) Utf16Length
          (case from_utf16 (words16 (hd bytes = 0xff) (drop 2 bytes)) of None \<Rightarrow> Inl BadUtf16 | Some s \<Rightarrow> Inr s)
      else (case from_utf8 bytes of
          Some s \<Rightarrow> Inr (strip_bom s)
        | None \<Rightarrow>
            if l = Rust \<or> starts_with bytes [0xef, 0xbb, 0xbf] then Inl BadUtf8
            else bindE (validate_document bytes l) (\<lambda>_.
              (case legacy bytes of None \<Rightarrow> Inl Malformed | Some s \<Rightarrow> Inr s))))"

definition decode :: "(nat list \<Rightarrow> str option) \<Rightarrow> nat list \<Rightarrow> language \<Rightarrow> decode_error + str" where
  "decode legacy bytes l = bindE (decode_encoding legacy bytes l) (\<lambda>s.
     bindE (validate_document (utf8 s) l) (\<lambda>_. Inr s))"

definition decode_owned :: "(nat list \<Rightarrow> str option) \<Rightarrow> nat list \<Rightarrow> language \<Rightarrow> decode_error + str" where
  "decode_owned legacy bytes l = (case from_utf8 bytes of
     Some s \<Rightarrow> bindE (validate_document (utf8 (strip_bom s)) l) (\<lambda>_. Inr (strip_bom s))
   | None \<Rightarrow> decode legacy bytes l)"

definition decode_raw :: "(nat list \<Rightarrow> str option) \<Rightarrow> nat list \<Rightarrow> language \<Rightarrow> decode_error + str" where
  "decode_raw legacy bytes l = (case from_utf8 bytes of
     Some s \<Rightarrow> bindE (validate_document (utf8 s) l) (\<lambda>_. Inr s)
   | None \<Rightarrow> decode legacy bytes l)"

section \<open>The formats round trip\<close>

lemma utf8_char_width: "hd (utf8_char c) < 0xf8 \<Longrightarrow> utf8_width (hd (utf8_char c)) = length (utf8_char c)"
  by (simp add: utf8_char_length utf8_width_def)

lemma utf8_value_char: "utf8_value (utf8_char c) = c"
proof -
  have "c mod 4096 = c div 64 mod 64 * 64 + c mod 64" "c mod 262144 = c div 4096 mod 64 * 4096 + c mod 4096"
    using mod_mult2_eq [of c 64 64] mod_mult2_eq [of c 4096 64] by simp_all
  moreover have "c = c div 4096 * 4096 + c mod 4096" "c = c div 262144 * 262144 + c mod 262144"
    "c = c div 64 * 64 + c mod 64" by simp_all
  ultimately show ?thesis unfolding utf8_value_def utf8_char_def by simp
qed

lemma from_utf8_utf8: "list_all scalar s \<Longrightarrow> from_utf8 (utf8 s) = Some s"
proof (induction s)
  case (Cons c s)
  obtain b bs where b: "utf8_char c = b # bs" by (cases "utf8_char c") auto
  have w: "utf8_width b = length (b # bs)" using b utf8_char_length [of c] by (simp add: utf8_width_def)
  have e: "utf8 (c # s) = b # (bs @ utf8 s)" using b by simp
  have t: "take (utf8_width b) (b # (bs @ utf8 s)) = utf8_char c"
    "drop (utf8_width b) (b # (bs @ utf8 s)) = utf8 s" using w b by simp_all
  show ?case
    unfolding e from_utf8.simps(2) t utf8_first_def Let_def using Cons by (simp add: utf8_value_char)
qed simp

lemma from_utf8_Some: "from_utf8 bs = Some s \<Longrightarrow> utf8 s = bs \<and> list_all scalar s"
proof (induction bs arbitrary: s rule: from_utf8.induct)
  case (2 b bs)
  from "2.prems" obtain c t where c: "utf8_first (b # bs) (utf8_width b) = Some c"
    and t: "from_utf8 (drop (utf8_width b) (b # bs)) = Some t" "s = c # t"
    by (auto split: option.splits)
  from c have "scalar c" "utf8_char c = take (utf8_width b) (b # bs)"
    by (auto simp: utf8_first_def Let_def split: if_splits)
  moreover from "2.IH" [OF c t(1)] have "utf8 t = drop (utf8_width b) (b # bs) \<and> list_all scalar t" .
  ultimately show ?case using t(2) by simp
qed simp

fun utf16 :: "str \<Rightarrow> nat list" where
  "utf16 [] = []"
| "utf16 (c # s) =
     (if c < 0x10000 then c # utf16 s
      else (0xd800 + (c - 0x10000) div 1024) # (0xdc00 + (c - 0x10000) mod 1024) # utf16 s)"



lemma utf16_less: "list_all scalar s \<Longrightarrow> list_all (\<lambda>u. u < 65536) (utf16 s)"
proof (induction s)
  case (Cons c s)
  then have "c < 0x110000" by (auto simp: scalar_def)
  then have "c - 0x10000 < 1024 * 1024" by arith
  then have "(c - 0x10000) div 1024 < 1024" by (simp add: less_mult_imp_div_less)
  moreover have "(c - 0x10000) mod 1024 < 1024" by simp
  ultimately have "0xd800 + (c - 0x10000) div 1024 < 65536" "0xdc00 + (c - 0x10000) mod 1024 < 65536" by linarith+
  with Cons show ?case by simp
qed simp









section \<open>Every encoding of a text decodes to it\<close>




lemma utf8_bytes: "list_all scalar s \<Longrightarrow> b \<in> set (utf8 s) \<Longrightarrow> b < 0xf5"
proof (induction s)
  case (Cons c s)
  then have "c < 0x110000" by (auto simp: scalar_def)
  then have "c div 262144 < 5" by (simp add: less_mult_imp_div_less)
  moreover have "c < 0x10000 \<Longrightarrow> c div 4096 < 16" "c < 0x800 \<Longrightarrow> c div 64 < 32"
    by (rule less_mult_imp_div_less, simp)+
  moreover have "m mod 64 < 64" for m :: nat by simp
  ultimately have "b' < 0xf5" if "b' \<in> set (utf8_char c)" for b'
    using that by (fastforce simp: utf8_char_def split: if_splits)
  with Cons show ?case by auto
qed simp

lemma utf8_no_marks:
  assumes "list_all scalar s" "utf8 s = bs"
  shows "\<not> starts_with bs (0xff # r)" "\<not> starts_with bs (0xfe # r)" "\<not> starts_with bs [0, 0, 0xfe, 0xff]"
proof -
  have "\<forall>b\<in>set bs. b < 0xf5" using assms utf8_bytes by blast
  then have "0xff \<notin> set bs" "0xfe \<notin> set bs" by auto
  then show "\<not> starts_with bs (0xff # r)" "\<not> starts_with bs (0xfe # r)" "\<not> starts_with bs [0, 0, 0xfe, 0xff]"
    by (auto simp: starts_with_iff)
qed

lemma decode_utf8:
  assumes "list_all scalar s"
  shows "decode_encoding legacy (utf8 s) l = Inr (strip_bom s)"
  using utf8_no_marks [OF assms refl] by (simp add: decode_encoding_def from_utf8_utf8 [OF assms])






text \<open>
  The copy-free decoder of owned bytes returns what the general one returns, on every input.
\<close>

lemma decode_owned_decode: "decode_owned legacy bytes l = decode legacy bytes l"
proof (cases "from_utf8 bytes")
  case (Some s)
  from from_utf8_Some [OF this] have s: "utf8 s = bytes" "list_all scalar s" by auto
  from decode_utf8 [OF s(2), of legacy l] s(1) Some show ?thesis by (simp add: decode_owned_def decode_def)
qed (simp add: decode_owned_def)

end
