(* ===== verification/Query.thy ===== *)
theory Query
  imports Targets Matching Sources
begin

text \<open>
  Query parsing of \<^verbatim>\<open>src/src/query.rs\<close>: qualifiers and their canonical names, the loop of
  \<open>Query::parse\<close> over the tokens with its checks, the advice a target conflict gives, and the
  language filters (with \<open>language_matches\<close> of \<^verbatim>\<open>src/src/native/mod.rs\<close>). The globset package
  that validates path patterns is a parameter, a predicate on patterns; messages are values that
  carry what the text is built from, the suggested query included.
\<close>

section \<open>Definitions\<close>

record query_filter =
  f_key :: str
  f_value :: str
  f_negate :: bool

record query =
  q_selector :: str
  q_target :: target
  q_filters :: "query_filter list"
  q_loose :: bool
  q_limit :: nat
  q_wait_complete :: bool

definition default_limit :: nat where
  "default_limit = 20"

definition max_limit :: nat where
  "max_limit = 100000"

definition selectors :: "str list" where
  "selectors = map lit [''symbol'', ''type'', ''class'', ''interface'', ''struct'', ''union'', ''enum'', ''delegate'',
     ''method'', ''property'', ''field'', ''event'', ''constructor'', ''operator'', ''namespace'', ''function'',
     ''trait'', ''module'', ''macro'', ''const'', ''static'', ''variant'', ''uses'', ''calls'', ''writes'',
     ''derived'', ''impl'', ''text'', ''file'', ''instance'', ''references'', ''dependencies'']"

definition filter_keys :: "str list" where
  "filter_keys = map lit [''project'', ''namespace'', ''access'', ''path'', ''attr'', ''in'', ''unity-project'',
     ''type-match'', ''lang'']"

definition qualifier :: "str \<Rightarrow> (str \<times> str) option" where
  "qualifier token = (case find_first (\<lambda>c. c = ch CHR '':'') token of
     None \<Rightarrow> None
   | Some i \<Rightarrow>
       if \<not> starts_with token (lit ''@'') \<and> \<not> starts_with (drop i token) (lit ''::'') \<and>
          list_all (\<lambda>c. is_ascii_alpha c \<or> c = ch CHR ''-'') (take i token)
       then Some (take i token, drop (i + 1) token) else None)"

definition canonical_key :: "str \<Rightarrow> str" where
  "canonical_key key = (case map_of (map (\<lambda>(a, b). (lit a, lit b))
      [(''t'', ''type''), (''c'', ''class''), (''i'', ''interface''), (''m'', ''method''), (''x'', ''text''),
       (''language'', ''lang''), (''call'', ''calls''), (''use'', ''uses''), (''write'', ''writes''),
       (''reference'', ''references''), (''dependency'', ''dependencies''), (''attribute'', ''attr'')]) key of
     Some k \<Rightarrow> k | None \<Rightarrow> key)"

definition token_target :: "str \<Rightarrow> str \<times> str" where
  "token_target token = (case qualifier token of
     None \<Rightarrow> (lit ''symbol'', token)
   | Some (key, value) \<Rightarrow> (canonical_key key, value))"

abbreviation dash :: str where
  "dash \<equiv> lit ''-''"

definition canonical_token :: "str \<Rightarrow> str" where
  "canonical_token token = (case qualifier token of
     None \<Rightarrow> token
   | Some (key, value) \<Rightarrow> (if starts_with key dash then dash else []) @
       canonical_key (trim_prefixes dash key) @ lit '':'' @ value)"

definition suggestion :: "(str \<Rightarrow> str) \<Rightarrow> str list \<Rightarrow> str" where
  "suggestion json tokens = join (lit '' '') (map (\<lambda>t. quote json (canonical_token t)) tokens)"

subsection \<open>Advice about two targets\<close>

definition is_target :: "str \<Rightarrow> bool" where
  "is_target token \<longleftrightarrow> (let key = fst (token_target token) in key \<noteq> lit ''namespace'' \<and> key \<in> set selectors)"

text \<open>The relations and non-declaration selectors, which \<open>declaration\<close> excludes.\<close>

definition declaration_key :: "str \<Rightarrow> bool" where
  "declaration_key key \<longleftrightarrow> key \<notin> lit ` {''uses'', ''calls'', ''writes'', ''derived'', ''impl'', ''file'', ''text'',
     ''instance'', ''references'', ''dependencies''}"

datatype advice =
    FindNamed str str "str list"
  | RestrictToFile "str list"
  | SearchPhrase "str list"
  | SearchSeparately "str list" "str list" bool

text \<open>\<open>copy[replace] = value; copy.remove(remove)\<close>\<close>

definition corrected :: "str list \<Rightarrow> nat \<Rightarrow> str \<Rightarrow> nat \<Rightarrow> str list" where
  "corrected tokens replace value remove =
     (let copy = tokens[replace := value] in take remove copy @ drop (remove + 1) copy)"

definition wildcard_pair :: "str list \<Rightarrow> nat \<Rightarrow> nat \<Rightarrow> (nat \<times> nat \<times> str \<times> str) option" where
  "wildcard_pair tokens first second =
     (let (a, av) = token_target (tokens ! first); (b, bv) = token_target (tokens ! second);
          two_targets = length (filter is_target tokens) = 2
      in if two_targets \<and> av = lit ''*'' \<and> declaration_key a \<and> qualifier (tokens ! second) = None
         then Some (first, second, a, bv)
         else if two_targets \<and> bv = lit ''*'' \<and> declaration_key b \<and> qualifier (tokens ! first) = None
         then Some (second, first, b, av)
         else None)"

definition conflict_advice :: "str list \<Rightarrow> nat \<Rightarrow> nat \<Rightarrow> advice" where
  "conflict_advice tokens first second =
     (let (a, av) = token_target (tokens ! first); (b, bv) = token_target (tokens ! second);
          two_targets = length (filter is_target tokens) = 2
      in case wildcard_pair tokens first second of
        Some (selector, bare, key, value) \<Rightarrow>
          FindNamed key value (corrected tokens selector (key @ lit '':'' @ value) bare)
      | None \<Rightarrow>
          if two_targets \<and> ((a = lit ''file'' \<and> declaration_key b) \<or> (b = lit ''file'' \<and> declaration_key a)) then
            RestrictToFile (if a = lit ''file'' then tokens[first := lit ''path:'' @ av]
                            else tokens[second := lit ''path:'' @ bv])
          else if a = lit ''text'' \<and> list_all (\<lambda>t. qualifier t = None \<or> \<not> is_target t) (drop second tokens) then
            (let ws = filter (\<lambda>t. qualifier t = None) (drop second tokens)
             in SearchPhrase (map (\<lambda>i. if i = first then lit ''text:'' @ av @ lit '' '' @ join (lit '' '') ws else tokens ! i)
                  (filter (\<lambda>i. i < second \<or> qualifier (tokens ! i) \<noteq> None) [0..<length tokens])))
          else
            (let separate = (\<lambda>keep. map (\<lambda>i. tokens ! i)
                   (filter (\<lambda>i. i = keep \<or> \<not> is_target (tokens ! i)) [0..<length tokens]))
             in SearchSeparately (separate first) (separate second)
                  (qualifier (tokens ! first) = None \<and> qualifier (tokens ! second) = None)))"

text \<open>
  The whole conflict: the two tokens and the advice. The first one exists whenever the loop calls
  this (lemma \<open>conflict_first\<close>); \<open>None\<close> is the failed \<^verbatim>\<open>expect\<close>.
\<close>

definition conflict :: "str list \<Rightarrow> nat \<Rightarrow> (nat \<times> nat \<times> advice) option" where
  "conflict tokens second = (case find_first is_target (take second tokens) of
     None \<Rightarrow> None
   | Some first \<Rightarrow> Some (first, second, conflict_advice tokens first second))"

definition eq_ignore_case :: "str \<Rightarrow> str \<Rightarrow> bool" where
  "eq_ignore_case s t \<longleftrightarrow> map ascii_lower s = map ascii_lower t"

definition trim_punctuation :: "str \<Rightarrow> str" where
  "trim_punctuation s = (let p = (\<lambda>c. c \<in> set (lit '',.;!?''))
     in rev (dropWhile p (rev (dropWhile p s))))"

text \<open>Whether the guidance about natural language is given.\<close>

definition natural_language :: "unicode \<Rightarrow> str \<Rightarrow> str list \<Rightarrow> bool" where
  "natural_language U input tokens \<longleftrightarrow>
     \<not> (ch CHR 0x22 \<in> set input \<or> list_ex (\<lambda>t. qualifier t \<noteq> None) tokens) \<and>
     (let ws = filter (\<lambda>t. t \<noteq> [] \<and> list_all (u_alphabetic U) t) (map trim_punctuation tokens);
          connectives = length (filter (\<lambda>w. list_ex (\<lambda>t. eq_ignore_case t w) ws)
            (map lit [''and'', ''or'', ''for'', ''with'', ''the'', ''to'', ''of'', ''how'', ''where'']))
      in 6 \<le> length ws \<and> 2 \<le> connectives)"

subsection \<open>The loop over the tokens\<close>

datatype parse_error =
    LexError query_error
  | TargetError query_error
  | GlobError str
  | NameOrWildcard str "str list"
  | ValueNeeded str
  | TargetNegated
  | BadWait
  | DuplicateMatch
  | BadMatch
  | DuplicateLimit
  | BadLimit
  | TwoTargets "(nat \<times> nat \<times> advice) option" bool
  | UnknownQualifier str
  | NoTarget "str list"
  | OffsetUnsupported bool
  | ExploreDeclarations "str list"
  | FileFilters
  | TextFilters
  | AssetFilters
  | BadTypeMatch
  | AssetSelectorNeeded

record parse_state =
  p_primary :: "(str \<times> str) option"
  p_namespaces :: "query_filter list"
  p_filters :: "query_filter list"
  p_loose :: "bool option"
  p_limit :: "nat option"
  p_offset :: bool
  p_wait :: bool

definition parse_start :: parse_state where
  "parse_start = \<lparr>p_primary = None, p_namespaces = [], p_filters = [], p_loose = None, p_limit = None,
     p_offset = False, p_wait = False\<rparr>"

text \<open>The match on the canonical key.\<close>

definition parse_key ::
  "unicode \<Rightarrow> str \<Rightarrow> str list \<Rightarrow> nat \<Rightarrow> str \<Rightarrow> str \<Rightarrow> bool \<Rightarrow> parse_state \<Rightarrow> parse_error + parse_state" where
  "parse_key U input tokens index key value negate st =
     (if key = lit ''wait'' then
        ensureE (value = lit ''complete'') BadWait (Inr (st\<lparr>p_wait := True\<rparr>))
      else if key = lit ''offset'' then Inr (st\<lparr>p_offset := True\<rparr>)
      else if key = lit ''match'' then
        ensureE (p_loose st = None) DuplicateMatch
          (if value = lit ''exact'' then Inr (st\<lparr>p_loose := Some False\<rparr>)
           else if value = lit ''loose'' then Inr (st\<lparr>p_loose := Some True\<rparr>)
           else Inl BadMatch)
      else if key = lit ''limit'' then
        ensureE (p_limit st = None) DuplicateLimit
          (case parse_usize value of
             None \<Rightarrow> Inl BadLimit
           | Some n \<Rightarrow> ensureE (1 \<le> n \<and> n \<le> max_limit) BadLimit (Inr (st\<lparr>p_limit := Some n\<rparr>)))
      else if key = lit ''namespace'' then
        Inr (st\<lparr>p_namespaces := p_namespaces st @ [\<lparr>f_key = key, f_value = value, f_negate = negate\<rparr>]\<rparr>)
      else if key \<in> set filter_keys then
        Inr (st\<lparr>p_filters := p_filters st @ [\<lparr>f_key = key, f_value = value, f_negate = negate\<rparr>]\<rparr>)
      else if key \<in> set selectors then
        ensureE (p_primary st = None) (TwoTargets (conflict tokens index) (natural_language U input tokens))
          (Inr (st\<lparr>p_primary := Some (key, value)\<rparr>))
      else Inl (UnknownQualifier key))"

definition parse_step ::
  "unicode \<Rightarrow> str \<Rightarrow> str list \<Rightarrow> nat \<Rightarrow> str \<Rightarrow> parse_state \<Rightarrow> parse_error + parse_state" where
  "parse_step U input tokens index token st =
     (let (raw_key, value) = (case qualifier token of None \<Rightarrow> (lit ''symbol'', token) | Some kv \<Rightarrow> kv);
          negate = starts_with raw_key dash;
          key = canonical_key (trim_prefixes dash raw_key)
      in ensureE (\<not> (value = [] \<and> key \<in> set selectors \<and> key \<notin> lit ` {''text'', ''references'', ''dependencies''}))
           (NameOrWildcard key (tokens[index := key @ lit '':*'']))
         (ensureE (value \<noteq> []) (ValueNeeded key)
         (ensureE (\<not> negate \<or> key \<in> set filter_keys) TargetNegated
           (parse_key U input tokens index key value negate st))))"

fun parse_loop :: "unicode \<Rightarrow> str \<Rightarrow> str list \<Rightarrow> nat \<Rightarrow> str list \<Rightarrow> parse_state \<Rightarrow> parse_error + parse_state" where
  "parse_loop U input tokens index [] st = Inr st"
| "parse_loop U input tokens index (t # ts) st =
     bindE (parse_step U input tokens index t st) (parse_loop U input tokens (index + 1) ts)"

subsection \<open>The checks after the loop\<close>

definition lift_target :: "query_error + 'a \<Rightarrow> parse_error + 'a" where
  "lift_target r = (case r of Inl e \<Rightarrow> Inl (TargetError e) | Inr x \<Rightarrow> Inr x)"

text \<open>Where the target comes from when no token selected one.\<close>

definition choose_primary :: "parse_state \<Rightarrow> (str \<times> str) option \<times> query_filter list" where
  "choose_primary st =
     (let (primary, namespaces) =
        (case p_namespaces st of
           [] \<Rightarrow> (p_primary st, [])
         | f # fs \<Rightarrow> if p_primary st = None \<and> \<not> f_negate f then (Some (lit ''namespace'', f_value f), fs)
             else (p_primary st, f # fs));
          filters = p_filters st @ namespaces
      in (if primary = None \<and> list_ex (\<lambda>f. f_key f = lit ''path'' \<and> \<not> f_negate f) filters
          then Some (lit ''symbol'', lit ''*'') else primary, filters))"

fun check_patterns :: "(str \<Rightarrow> bool) \<Rightarrow> query_filter list \<Rightarrow> parse_error + unit" where
  "check_patterns glob_ok [] = Inr ()"
| "check_patterns glob_ok (f # fs) =
     ensureE (f_key f = lit ''path'' \<longrightarrow> glob_ok (f_value f)) (GlobError (f_value f))
       (bindE (if f_key f = lit ''in'' then bindE (lift_target (parse_target (f_value f))) (\<lambda>_. Inr ()) else Inr ())
         (\<lambda>_. check_patterns glob_ok fs))"

definition keys_within :: "string set \<Rightarrow> query_filter list \<Rightarrow> bool" where
  "keys_within ks filters \<longleftrightarrow> list_all (\<lambda>f. f_key f \<in> lit ` ks) filters"

definition check_file ::
  "(str \<Rightarrow> bool) \<Rightarrow> str list \<Rightarrow> str \<Rightarrow> query_filter list \<Rightarrow> parse_error + unit" where
  "check_file glob_ok tokens value filters =
     ensureE (glob_ok value) (GlobError value)
     (ensureE (\<not> (list_ex (\<lambda>f. f_key f = lit ''in'') filters \<and> keys_within {''in'', ''path'', ''project'', ''lang''} filters))
        (ExploreDeclarations (lit ''symbol:*'' #
          map (\<lambda>t. if fst (token_target t) = lit ''file'' then lit ''path:'' @ value else t) tokens))
     (ensureE (keys_within {''path'', ''project'', ''lang''} filters) FileFilters (Inr ())))"

definition asset_selector :: "str \<Rightarrow> bool" where
  "asset_selector selector \<longleftrightarrow> selector \<in> lit ` {''instance'', ''references'', ''dependencies''}"

definition type_match_ok :: "query_filter \<Rightarrow> bool" where
  "type_match_ok f \<longleftrightarrow> f_key f = lit ''type-match'' \<longrightarrow> \<not> f_negate f \<and> f_value f \<in> lit ` {''exact'', ''derived''}"

definition check_asset :: "str \<Rightarrow> query_filter list \<Rightarrow> parse_error + unit" where
  "check_asset selector filters =
     (if asset_selector selector then
        ensureE (keys_within {''path'', ''unity-project'', ''type-match''} filters) AssetFilters
          (ensureE (list_all type_match_ok filters) BadTypeMatch (Inr ()))
      else ensureE (\<not> list_ex (\<lambda>f. f_key f \<in> lit ` {''unity-project'', ''type-match''}) filters) AssetSelectorNeeded (Inr ()))"

definition target_of :: "str \<Rightarrow> str \<Rightarrow> query_error + target" where
  "target_of selector value =
     (if asset_selector selector \<or> selector = lit ''text'' \<or> selector = lit ''file''
      then Inr \<lparr>t_name = value, t_parameters = None, t_location = None, t_qualifiers = None\<rparr>
      else if selector = lit ''operator'' \<and> starts_with value (lit ''()'') then parse_target (lit ''operator'' @ value)
      else parse_target value)"

definition finish_query :: "(str \<Rightarrow> bool) \<Rightarrow> str list \<Rightarrow> parse_state \<Rightarrow> parse_error + query" where
  "finish_query glob_ok tokens st = (case choose_primary st of (primary, filters) \<Rightarrow>
     (case primary of
        None \<Rightarrow> Inl (NoTarget (lit ''symbol:*'' # tokens))
      | Some (selector, value) \<Rightarrow>
          ensureE (\<not> p_offset st) (OffsetUnsupported (selector = lit ''file''))
          (bindE (check_patterns glob_ok filters) (\<lambda>_.
           bindE (if selector = lit ''file'' then check_file glob_ok tokens value filters else Inr ()) (\<lambda>_.
           bindE (ensureE (selector = lit ''text'' \<longrightarrow> keys_within {''path'', ''project'', ''in'', ''lang''} filters)
                   TextFilters (Inr ())) (\<lambda>_.
           bindE (check_asset selector filters) (\<lambda>_.
           bindE (lift_target (target_of selector value)) (\<lambda>target.
             Inr \<lparr>q_selector = selector, q_target = target, q_filters = filters,
               q_loose = (case p_loose st of None \<Rightarrow> False | Some b \<Rightarrow> b),
               q_limit = (case p_limit st of None \<Rightarrow> default_limit | Some n \<Rightarrow> n),
               q_wait_complete = p_wait st\<rparr>))))))))"

definition parse_query :: "unicode \<Rightarrow> (str \<Rightarrow> bool) \<Rightarrow> str \<Rightarrow> parse_error + query" where
  "parse_query U glob_ok input = (case lex input of
     Inl e \<Rightarrow> Inl (LexError e)
   | Inr tokens \<Rightarrow> bindE (parse_loop U input tokens 0 tokens parse_start) (finish_query glob_ok tokens))"

definition relationship :: "query \<Rightarrow> bool" where
  "relationship q \<longleftrightarrow> q_selector q \<in> lit ` {''uses'', ''calls'', ''writes'', ''derived'', ''impl''}"

subsection \<open>Language filters\<close>

definition language_matches :: "str \<Rightarrow> language \<Rightarrow> bool" where
  "language_matches pattern l =
     (if pattern \<in> lit ` {''c'', ''cpp''} \<and> l = Header then True
      else if pattern = lit ''c++'' then l = Cpp \<or> l = Header
      else if pattern \<in> lit ` {''c#'', ''csharp''} then l = CSharp
      else if pattern = lit ''rs'' then l = Rust
      else if pattern = lit ''native'' then group_of l = Some NativeGroup
      else if pattern \<in> lit ` {''shader'', ''shaders''} then group_of l = Some ShadersGroup
      else wildcard_matches pattern (lang_tag l))"

definition language_filters :: "query \<Rightarrow> language \<Rightarrow> language \<Rightarrow> bool" where
  "language_filters q dialect container \<longleftrightarrow>
     list_all (\<lambda>f. (language_matches (f_value f) dialect \<or>
         ((container = Header \<or> container = ShaderLab) \<and> language_matches (f_value f) container)) \<noteq> f_negate f)
       (filter (\<lambda>f. f_key f = lit ''lang'') (q_filters q))"

definition file_language_filters :: "query \<Rightarrow> language \<Rightarrow> bool" where
  "file_language_filters q l \<longleftrightarrow> list_ex (\<lambda>dialect. language_filters q dialect l)
     (case l of Header \<Rightarrow> [C, Cpp] | ShaderLab \<Rightarrow> [Hlsl, Glsl, ShaderLab] | _ \<Rightarrow> [l])"

end
