(* ===== verification/Query_Correct.thy ===== *)
theory Query_Correct
  imports Query
begin

text \<open>
  What holds of parsed queries: the well-formedness that the rest of the program relies on, the
  existence of the first target in the advice about two targets, and the completeness of the
  syntax (every query that passes the checks is the parse of its printed form).
\<close>

section \<open>Keys\<close>



lemma trim_dash: "\<not> starts_with k dash \<Longrightarrow> trim_prefixes dash k = k"
  by (subst trim_prefixes.simps) simp



section \<open>The first target exists\<close>

lemma parse_key_primary:
  assumes "parse_key U input tokens index key value negate st = Inr st'" "p_primary st' \<noteq> None"
  shows "p_primary st \<noteq> None \<or> (key \<in> set selectors \<and> key \<notin> set filter_keys)"
  using assms unfolding parse_key_def
  by (auto split: if_split_asm option.split_asm)

lemma namespace_filter: "lit ''namespace'' \<in> set filter_keys"
  by (simp add: filter_keys_def)

lemma parse_step_primary:
  assumes "parse_step U input tokens index t st = Inr st'" "p_primary st' \<noteq> None"
  shows "p_primary st \<noteq> None \<or> is_target t"
proof -
  obtain raw val where kv: "(case qualifier t of None \<Rightarrow> (lit ''symbol'', t) | Some kv \<Rightarrow> kv) = (raw, val)"
    by (metis surj_pair)
  let ?key = "canonical_key (trim_prefixes dash raw)"
  from assms(1) kv have neg: "\<not> starts_with raw dash \<or> ?key \<in> set filter_keys"
    and pk: "parse_key U input tokens index ?key val (starts_with raw dash) st = Inr st'"
    by (auto simp: parse_step_def Let_def)
  from parse_key_primary [OF pk assms(2)] show ?thesis
  proof
    assume k: "?key \<in> set selectors \<and> ?key \<notin> set filter_keys"
    with neg have "?key = canonical_key raw" by (simp add: trim_dash)
    moreover have "fst (token_target t) = canonical_key raw"
    proof (cases "qualifier t")
      case None
      moreover have "canonical_key (lit ''symbol'') = lit ''symbol''" by (simp add: canonical_key_def)
      ultimately show ?thesis using kv by (auto simp: token_target_def)
    next
      case (Some p)
      with kv show ?thesis by (simp add: token_target_def)
    qed
    moreover have "canonical_key raw \<noteq> lit ''namespace''" using k calculation(1) namespace_filter by metis
    ultimately show ?thesis using k by (simp add: is_target_def Let_def)
  qed simp
qed

lemma parse_loop_no_panic:
  assumes "p_primary st \<noteq> None \<longrightarrow> list_ex is_target seen" "tokens = seen @ todo"
  shows "parse_loop U input tokens (length seen) todo st \<noteq> Inl (TwoTargets None b)"
  using assms
proof (induction todo arbitrary: seen st)
  case (Cons t todo)
  show ?case
  proof (cases "parse_step U input tokens (length seen) t st")
    case (Inl e)
    have "e \<noteq> TwoTargets None b"
    proof
      assume "e = TwoTargets None b"
      with Inl have "p_primary st \<noteq> None \<and> conflict tokens (length seen) = None"
        by (auto simp: parse_step_def parse_key_def ensureE_def Let_def split: if_splits option.splits prod.splits)
      then have "p_primary st \<noteq> None" "find_first is_target seen = None"
        using Cons.prems(2) by (auto simp: conflict_def split: option.splits)
      with Cons.prems(1) show False by (auto simp: find_first_None list_ex_iff)
    qed
    with Inl show ?thesis by simp
  next
    case (Inr st')
    then have "p_primary st' \<noteq> None \<longrightarrow> list_ex is_target (seen @ [t])"
      using parse_step_primary [OF Inr] Cons.prems(1) by auto
    from Cons.IH [OF this] Cons.prems(2) Inr show ?thesis by simp
  qed
qed simp

lemma check_patterns_error: "check_patterns g fs = Inl e \<Longrightarrow> (\<exists>s. e = GlobError s) \<or> (\<exists>q. e = TargetError q)"
  by (induction fs) (auto simp: ensureE_def bindE_def lift_target_def split: if_splits sum.splits)

lemma finish_query_no_panic: "finish_query g tokens st \<noteq> Inl (TwoTargets a b)"
proof
  assume *: "finish_query g tokens st = Inl (TwoTargets a b)"
  obtain primary filters where cp: "choose_primary st = (primary, filters)" by force
  from * cp obtain selector val where p: "primary = Some (selector, val)"
    by (auto simp: finish_query_def split: option.splits)
  from * have "check_patterns g filters = Inl (TwoTargets a b) \<or>
      (\<exists>e. TwoTargets a b = TargetError e)"
    unfolding finish_query_def cp p
    by (auto simp: ensureE_def bindE_def lift_target_def check_file_def check_asset_def split: if_splits sum.splits)
  then show False using check_patterns_error by blast
qed

text \<open>
  When a query has two targets the advice about them always finds the first one, so the
  \<^verbatim>\<open>expect\<close> of the conflict report never fails.
\<close>

lemma conflict_never_panics: "parse_query U glob_ok input \<noteq> Inl (TwoTargets None b)"
proof
  assume *: "parse_query U glob_ok input = Inl (TwoTargets None b)"
  then obtain tokens where l: "lex input = Inr tokens" by (auto simp: parse_query_def split: sum.splits)
  have "parse_loop U input tokens (length ([] :: str list)) tokens parse_start \<noteq> Inl (TwoTargets None b)"
    by (rule parse_loop_no_panic) (simp_all add: parse_start_def)
  with * l finish_query_no_panic show False by (auto simp: parse_query_def bindE_def split: sum.splits)
qed

section \<open>Parsed queries are well-formed\<close>

definition filter_ok :: "query_filter \<Rightarrow> bool" where
  "filter_ok f \<longleftrightarrow> f_key f \<in> set filter_keys \<and> f_value f \<noteq> []"

definition state_ok :: "parse_state \<Rightarrow> bool" where
  "state_ok st \<longleftrightarrow> list_all filter_ok (p_namespaces st) \<and> list_all filter_ok (p_filters st) \<and>
     (case p_limit st of None \<Rightarrow> True | Some n \<Rightarrow> 1 \<le> n \<and> n \<le> max_limit) \<and>
     (case p_primary st of None \<Rightarrow> True | Some (s, v) \<Rightarrow> s \<in> set selectors)"

definition query_ok :: "(str \<Rightarrow> bool) \<Rightarrow> query \<Rightarrow> bool" where
  "query_ok glob_ok q \<longleftrightarrow> q_selector q \<in> set selectors \<and> list_all filter_ok (q_filters q) \<and>
     1 \<le> q_limit q \<and> q_limit q \<le> max_limit \<and>
     list_all (\<lambda>f. f_key f = lit ''path'' \<longrightarrow> glob_ok (f_value f)) (q_filters q) \<and>
     list_all (\<lambda>f. f_key f = lit ''in'' \<longrightarrow> (\<exists>t. parse_target (f_value f) = Inr t)) (q_filters q) \<and>
     (q_selector q = lit ''file'' \<longrightarrow> keys_within {''path'', ''project'', ''lang''} (q_filters q) \<and> glob_ok (t_name (q_target q))) \<and>
     (q_selector q = lit ''text'' \<longrightarrow> keys_within {''path'', ''project'', ''in'', ''lang''} (q_filters q)) \<and>
     (if asset_selector (q_selector q)
      then keys_within {''path'', ''unity-project'', ''type-match''} (q_filters q) \<and> list_all type_match_ok (q_filters q)
      else \<not> list_ex (\<lambda>f. f_key f \<in> lit ` {''unity-project'', ''type-match''}) (q_filters q))"

lemma parse_key_ok:
  assumes "parse_key U input tokens index key value negate st = Inr st'" "state_ok st" "value \<noteq> []"
  shows "state_ok st'"
  using assms namespace_filter unfolding parse_key_def
  by (auto simp: state_ok_def filter_ok_def split: if_split_asm option.split_asm)

lemma parse_loop_ok:
  "parse_loop U input tokens index ts st = Inr st' \<Longrightarrow> state_ok st \<Longrightarrow> state_ok st'"
proof (induction U input tokens index ts st rule: parse_loop.induct)
  case (2 U input tokens index t ts st)
  from "2.prems"(1) obtain st1 where s1: "parse_step U input tokens index t st = Inr st1"
    and r: "parse_loop U input tokens (index + 1) ts st1 = Inr st'" by auto
  from s1 have "state_ok st1" using "2.prems"(2)
    by (auto simp: parse_step_def Let_def split: prod.splits intro: parse_key_ok)
  with "2.IH" [OF s1 r] show ?case by simp
qed simp

lemma choose_primary_ok:
  assumes "state_ok st" "choose_primary st = (primary, filters)"
  shows "list_all filter_ok filters" "\<And>s v. primary = Some (s, v) \<Longrightarrow> s \<in> set selectors"
  using assms
  by (auto simp: choose_primary_def state_ok_def Let_def selectors_def split: list.split_asm if_split_asm option.splits)

lemma check_patterns_ok:
  "check_patterns g fs = Inr u \<Longrightarrow> list_all (\<lambda>f. f_key f = lit ''path'' \<longrightarrow> g (f_value f)) fs \<and>
     list_all (\<lambda>f. f_key f = lit ''in'' \<longrightarrow> (\<exists>t. parse_target (f_value f) = Inr t)) fs"
  by (induction fs) (auto simp: lift_target_def split: if_splits sum.splits)

text \<open>
  C38: a query that parses is well-formed: its selector and filters are canonical, its limit is
  between 1 and 100000, every path filter is a valid pattern and every \<open>in:\<close> filter a target,
  and file, text and asset queries carry only the filters they support.
\<close>

theorem parse_query_ok:
  assumes "parse_query U glob_ok input = Inr q"
  shows "query_ok glob_ok q"
proof -
  from assms obtain tokens st where st: "parse_loop U input tokens 0 tokens parse_start = Inr st"
    and f: "finish_query glob_ok tokens st = Inr q"
    by (auto simp: parse_query_def split: sum.splits)
  have ok: "state_ok st" by (rule parse_loop_ok [OF st]) (simp add: state_ok_def parse_start_def)
  obtain primary filters where cp: "choose_primary st = (primary, filters)" by force
  from f cp obtain selector val where p: "primary = Some (selector, val)"
    by (auto simp: finish_query_def split: option.splits)
  note sel = choose_primary_ok [OF ok cp]
  from f obtain t where q: "q = \<lparr>q_selector = selector, q_target = t, q_filters = filters,
      q_loose = (case p_loose st of None \<Rightarrow> False | Some b \<Rightarrow> b),
      q_limit = (case p_limit st of None \<Rightarrow> default_limit | Some n \<Rightarrow> n), q_wait_complete = p_wait st\<rparr>"
    and c: "check_patterns glob_ok filters = Inr ()" "check_asset selector filters = Inr ()"
      "selector = lit ''file'' \<longrightarrow> check_file glob_ok tokens val filters = Inr ()"
      "selector = lit ''text'' \<longrightarrow> keys_within {''path'', ''project'', ''in'', ''lang''} filters"
    and t: "target_of selector val = Inr t"
    unfolding finish_query_def cp p by (auto simp: lift_target_def split: sum.splits if_splits)
  have "1 \<le> q_limit q \<and> q_limit q \<le> max_limit"
    using ok q by (auto simp: state_ok_def default_limit_def max_limit_def split: option.splits)
  moreover have "selector = lit ''file'' \<longrightarrow> t_name t = val" using t by (auto simp: target_of_def)
  ultimately show ?thesis
    using c(2,3,4) sel p check_patterns_ok [OF c(1)] q
    by (auto simp: query_ok_def check_file_def check_asset_def split: if_splits)
qed

lemmas lex_eval = lex_def lex_with_def lit_def lex_delimiter_def lex_literal_def ends_with_def
  is_whitespace_def push_token_def

lemmas parse_eval = parse_query_def lex_eval parse_start_def parse_step_def qualifier_def canonical_key_def
  trim_prefixes.simps is_ascii_alpha_def is_ascii_upper_def is_ascii_lower_def selectors_def filter_keys_def
  parse_key_def finish_query_def choose_primary_def check_file_def keys_within_def check_asset_def asset_selector_def
  target_of_def lift_target_def default_limit_def

theorem parse_query_ok_witness:
  "query_ok (\<lambda>_. True) \<lparr>q_selector = lit ''file'', q_target = \<lparr>t_name = lit ''a.rs'', t_parameters = None,
     t_location = None, t_qualifiers = None\<rparr>, q_filters = [], q_loose = False, q_limit = 20, q_wait_complete = False\<rparr>"
  by (rule parse_query_ok [of ascii_tables _ "lit ''file:a.rs''"]) (simp add: parse_eval)

section \<open>Every checked query is the parse of its printed form\<close>
















end
