(* ===== verification/Preprocess.thy ===== *)
theory Preprocess
  imports Encodings
begin

text \<open>
  The C# conditional compiler of \<^verbatim>\<open>src/src/extract/preprocess.rs\<close>: the lexical state that hides
  directives inside comments and literals (\<open>scan\<close>), the recursive-descent evaluator of
  conditions (\<open>evaluate\<close>), and the line loop that blanks inactive text without moving a byte
  (\<open>preprocess\<close>). The parser functions are recursive on a rest that shrinks; a guard makes that
  explicit, and the error \<open>Diverges\<close> of a failed guard is shown never to occur.
\<close>

datatype pp_error = UnclosedExpression | InvalidExpression | UnsupportedExpression str
  | UnmatchedElif | UnmatchedElse | UnmatchedEndif | UnclosedIf | NotUtf8 | Diverges

section \<open>The lexical state\<close>

datatype lexical = Normal | Comment | Verbatim | Raw nat

text \<open>The inner loop behind an opening quote: to the closing one, over escapes.\<close>

function skip_literal :: "nat \<Rightarrow> nat list \<Rightarrow> nat \<Rightarrow> nat" where
  "skip_literal q line i =
     (if i < length line then
        if line ! i = 0x5C then skip_literal q line (i + 2)
        else if line ! i = q then i + 1
        else skip_literal q line (i + 1)
      else i)"
  by pat_completeness auto
termination
  by (relation "measure (\<lambda>(q, line, i). length line - i)") auto

declare skip_literal.simps [simp del]

lemma skip_literal_ge: "i \<le> skip_literal q line i"
proof (induction q line i rule: skip_literal.induct)
  case (1 q line i)
  then show ?case by (subst skip_literal.simps) (auto intro: order_trans [rotated])
qed

lemma skip_literal_less:
  "i < length line \<Longrightarrow> length line - skip_literal q line (Suc i) < length line - i"
  using skip_literal_ge [of "Suc i" q line] by simp

lemma skip_literal_less_0: "0 < length line \<Longrightarrow> length line - skip_literal q line (Suc 0) < length line"
  using skip_literal_less [of 0 line q] by simp

definition quote_run :: "nat list \<Rightarrow> nat" where
  "quote_run bs = length (takeWhile (\<lambda>b. b = 0x22) bs)"

function scan :: "lexical \<Rightarrow> nat list \<Rightarrow> nat \<Rightarrow> lexical" where
  "scan st line i =
     (if i < length line then (case st of
        Comment \<Rightarrow> if starts_with (drop i line) (lit ''*/'') then scan Normal line (i + 2) else scan Comment line (i + 1)
      | Verbatim \<Rightarrow>
          if starts_with (drop i line) [0x22, 0x22] then scan Verbatim line (i + 2)
          else if line ! i = 0x22 then scan Normal line (i + 1)
          else scan Verbatim line (i + 1)
      | Raw count \<Rightarrow>
          if count \<le> quote_run (drop i line) then scan Normal line (i + quote_run (drop i line))
          else scan (Raw count) line (i + max (quote_run (drop i line)) 1)
      | Normal \<Rightarrow>
          if starts_with (drop i line) (lit ''//'') then Normal
          else if starts_with (drop i line) (lit ''/*'') then scan Comment line (i + 2)
          else if line ! i = 0x22 \<and> 0 < i \<and> line ! (i - 1) = ch CHR ''@'' then scan Verbatim line (i + 1)
          else if line ! i = 0x22 \<and> 3 \<le> quote_run (drop i line)
            then scan (Raw (quote_run (drop i line))) line (i + quote_run (drop i line))
          else if line ! i = 0x22 \<or> line ! i = 0x27 then scan Normal line (skip_literal (line ! i) line (i + 1))
          else scan Normal line (i + 1))
      else st)"
  by pat_completeness auto
termination
  by (relation "measure (\<lambda>(st, line, i). 2 * (length line - i) + (if st = Normal then 0 else 1))")
    (auto simp: skip_literal_less skip_literal_less_0 simp del: length_greater_0_conv simp flip: length_greater_0_conv)

declare scan.simps [simp del]

section \<open>Conditions\<close>

text \<open>\<open>eat\<close> trims and then takes the token when it is there; the trimming stays either way.\<close>

definition eat :: "str \<Rightarrow> str \<Rightarrow> bool \<times> str" where
  "eat s rest = (case strip_prefix (trim_start rest) s of
     Some r \<Rightarrow> (True, r) | None \<Rightarrow> (False, trim_start rest))"

definition shorter :: "str \<Rightarrow> str \<Rightarrow> pp_error + 'a \<Rightarrow> pp_error + 'a" where
  "shorter r' r result = (if length r' < length r then result else Inl Diverges)"

definition word_len :: "unicode \<Rightarrow> str \<Rightarrow> nat" where
  "word_len U s = length (takeWhile (\<lambda>c. u_alphanumeric U c \<or> c = ch CHR ''_'') s)"

definition symbol_value :: "str set \<Rightarrow> str \<Rightarrow> bool" where
  "symbol_value symbols name \<longleftrightarrow> name = lit ''true'' \<or> (name \<noteq> lit ''false'' \<and> name \<in> symbols)"

lemma shorter_cong [fundef_cong]:
  "r' = s' \<Longrightarrow> r = s \<Longrightarrow> (length s' < length s \<Longrightarrow> x = y) \<Longrightarrow> shorter r' r x = shorter s' s y"
  by (simp add: shorter_def)

lemma length_trim_start: "length (trim_start r) \<le> length r"
  by (simp add: trim_start_def length_dropWhile_le)

lemma eat_True: "eat s r = (True, r') \<Longrightarrow> trim_start r = s @ r'"
  by (auto simp: eat_def strip_prefix_def starts_with_iff split: option.splits if_splits)

lemma eat_False: "eat s r = (False, r') \<Longrightarrow> r' = trim_start r \<and> \<not> starts_with (trim_start r) s"
  by (auto simp: eat_def strip_prefix_def split: option.splits if_splits)

lemma eat_shorter: "eat s r = (True, r') \<Longrightarrow> s \<noteq> [] \<Longrightarrow> length r' < length r"
  using length_trim_start [of r] by (auto dest!: eat_True simp del: length_trim_start)
    (metis add_Suc_right length_Cons length_append length_greater_0_conv less_add_same_cancel2 order_less_le_trans)

type_synonym parse = "pp_error + bool \<times> str"

function (sequential) ev_atom :: "unicode \<Rightarrow> str set \<Rightarrow> str \<Rightarrow> parse"
  and ev_equality :: "unicode \<Rightarrow> str set \<Rightarrow> str \<Rightarrow> parse"
  and ev_equality_loop :: "unicode \<Rightarrow> str set \<Rightarrow> bool \<Rightarrow> str \<Rightarrow> parse"
  and ev_and :: "unicode \<Rightarrow> str set \<Rightarrow> str \<Rightarrow> parse"
  and ev_and_loop :: "unicode \<Rightarrow> str set \<Rightarrow> bool \<Rightarrow> str \<Rightarrow> parse"
  and ev_or :: "unicode \<Rightarrow> str set \<Rightarrow> str \<Rightarrow> parse"
  and ev_or_loop :: "unicode \<Rightarrow> str set \<Rightarrow> bool \<Rightarrow> str \<Rightarrow> parse"
where
  "ev_atom U S rest = (case eat (lit ''!'') rest of
     (True, r) \<Rightarrow> shorter r rest (bindE (ev_atom U S r) (\<lambda>(v, r). Inr (\<not> v, r)))
   | (False, r) \<Rightarrow> (case eat (lit ''('') r of
       (True, r) \<Rightarrow> shorter r rest (bindE (ev_or U S r) (\<lambda>(v, r).
          (case eat (lit '')'') r of (closed, r) \<Rightarrow> ensureE closed UnclosedExpression (Inr (v, r)))))
     | (False, r) \<Rightarrow>
         let r = trim_start r; len = word_len U r
         in if len = 0 then Inl InvalidExpression
            else Inr (symbol_value S (take len r), drop len r)))"
| "ev_equality U S rest = bindE (ev_atom U S rest) (\<lambda>(v, r). shorter r rest (ev_equality_loop U S v r))"
| "ev_equality_loop U S v rest = (case eat (lit ''=='') rest of
     (True, r) \<Rightarrow> shorter r rest (bindE (ev_atom U S r) (\<lambda>(w, r). shorter r rest (ev_equality_loop U S (w = v) r)))
   | (False, r) \<Rightarrow> (case eat (lit ''!='') r of
       (True, r) \<Rightarrow> shorter r rest (bindE (ev_atom U S r) (\<lambda>(w, r). shorter r rest (ev_equality_loop U S (w \<noteq> v) r)))
     | (False, r) \<Rightarrow> Inr (v, r)))"
| "ev_and U S rest = bindE (ev_equality U S rest) (\<lambda>(v, r). shorter r rest (ev_and_loop U S v r))"
| "ev_and_loop U S v rest = (case eat (lit ''&&'') rest of
     (True, r) \<Rightarrow> shorter r rest (bindE (ev_equality U S r) (\<lambda>(w, r). shorter r rest (ev_and_loop U S (v \<and> w) r)))
   | (False, r) \<Rightarrow> Inr (v, r))"
| "ev_or U S rest = bindE (ev_and U S rest) (\<lambda>(v, r). shorter r rest (ev_or_loop U S v r))"
| "ev_or_loop U S v rest = (case eat (lit ''||'') rest of
     (True, r) \<Rightarrow> shorter r rest (bindE (ev_and U S r) (\<lambda>(w, r). shorter r rest (ev_or_loop U S (v \<or> w) r)))
   | (False, r) \<Rightarrow> Inr (v, r))"
  by pat_completeness auto
termination
  by (relation "inv_image (less_than <*lex*> less_than) (\<lambda>x. case x of
       Inl (Inl (U, S, r)) \<Rightarrow> (length r, 0 :: nat)
     | Inl (Inr (Inl (U, S, r))) \<Rightarrow> (length r, 1)
     | Inl (Inr (Inr (U, S, v, r))) \<Rightarrow> (length r, 0)
     | Inr (Inl (Inl (U, S, r))) \<Rightarrow> (length r, 2)
     | Inr (Inl (Inr (U, S, v, r))) \<Rightarrow> (length r, 0)
     | Inr (Inr (Inl (U, S, r))) \<Rightarrow> (length r, 3)
     | Inr (Inr (Inr (U, S, v, r))) \<Rightarrow> (length r, 0))") auto

declare ev_atom.simps [simp del] ev_equality.simps [simp del] ev_equality_loop.simps [simp del]
  ev_and.simps [simp del] ev_and_loop.simps [simp del] ev_or.simps [simp del] ev_or_loop.simps [simp del]

definition evaluate :: "unicode \<Rightarrow> str \<Rightarrow> str set \<Rightarrow> pp_error + bool" where
  "evaluate U expr symbols = bindE (ev_or U symbols expr) (\<lambda>(v, rest).
     ensureE (trim rest = []) (UnsupportedExpression rest) (Inr v))"

section \<open>The line loop\<close>

text \<open>
  The branching state: whether text is active, and for each open conditional whether its parent
  is active and whether one of its branches has been taken. The top of the stack is the head.
\<close>

type_synonym branching = "bool \<times> (bool \<times> bool) list"

datatype branch_event = BIf bool | BElif bool | BElse | BEndif

definition branch_step :: "branch_event \<Rightarrow> branching \<Rightarrow> pp_error + branching" where
  "branch_step e b = (case b of (active, stack) \<Rightarrow> (case e of
     BIf yes \<Rightarrow> Inr (active \<and> yes, (active, yes) # stack)
   | BElif yes \<Rightarrow> (case stack of [] \<Rightarrow> Inl UnmatchedElif
       | (parent, seen) # rest \<Rightarrow> Inr (parent \<and> \<not> seen \<and> yes, (parent, seen \<or> yes) # rest))
   | BElse \<Rightarrow> (case stack of [] \<Rightarrow> Inl UnmatchedElse
       | (parent, seen) # rest \<Rightarrow> Inr (parent \<and> \<not> seen, (parent, True) # rest))
   | BEndif \<Rightarrow> (case stack of [] \<Rightarrow> Inl UnmatchedEndif
       | (parent, seen) # rest \<Rightarrow> Inr (parent, rest))))"

record pp_state =
  pp_symbols :: "str set"
  pp_branching :: branching
  pp_lexical :: lexical
  pp_output :: "nat list"

definition branch :: "branch_event \<Rightarrow> pp_state \<Rightarrow> pp_error + pp_state" where
  "branch e st = bindE (branch_step e (pp_branching st)) (\<lambda>b. Inr (st\<lparr>pp_branching := b\<rparr>))"

text \<open>
  The match on the directive's key. An \<^verbatim>\<open>#elif\<close> without its \<^verbatim>\<open>#if\<close> is reported before its
  condition is read.
\<close>

definition directive_step :: "unicode \<Rightarrow> str \<Rightarrow> pp_state \<Rightarrow> pp_error + pp_state" where
  "directive_step U directive st =
     (let d = trim_start directive; key = take (word_len U d) d; rest = drop (word_len U d) d;
          expr = trim (hd (split_text (lit ''//'') rest)); active = fst (pp_branching st)
      in if key = lit ''if'' then bindE (evaluate U expr (pp_symbols st)) (\<lambda>yes. branch (BIf yes) st)
         else if key = lit ''elif'' then
           ensureE (snd (pp_branching st) \<noteq> []) UnmatchedElif
             (bindE (evaluate U expr (pp_symbols st)) (\<lambda>yes. branch (BElif yes) st))
         else if key = lit ''else'' then branch BElse st
         else if key = lit ''endif'' then branch BEndif st
         else if key = lit ''define'' \<and> active then Inr (st\<lparr>pp_symbols := insert expr (pp_symbols st)\<rparr>)
         else if key = lit ''undef'' \<and> active then Inr (st\<lparr>pp_symbols := pp_symbols st - {expr}\<rparr>)
         else Inr st)"

definition blank :: "nat list \<Rightarrow> nat list" where
  "blank bs = map (\<lambda>b. if b = 10 \<or> b = 13 then b else 32) bs"

definition line_directive :: "lexical \<Rightarrow> str \<Rightarrow> str option" where
  "line_directive lexical line = (if lexical = Normal then strip_prefix (trim_start line) (lit ''#'') else None)"

definition emit_line :: "bool \<Rightarrow> str \<Rightarrow> pp_state \<Rightarrow> pp_state" where
  "emit_line is_directive line st =
     (if is_directive \<or> \<not> fst (pp_branching st)
      then st\<lparr>pp_output := pp_output st @ blank (utf8 line)\<rparr>
      else st\<lparr>pp_output := pp_output st @ utf8 line, pp_lexical := scan (pp_lexical st) (utf8 line) 0\<rparr>)"

definition line_step :: "unicode \<Rightarrow> str \<Rightarrow> pp_state \<Rightarrow> pp_error + pp_state" where
  "line_step U line st = (case line_directive (pp_lexical st) line of
     None \<Rightarrow> Inr (emit_line False line st)
   | Some d \<Rightarrow> bindE (directive_step U d st) (\<lambda>st. Inr (emit_line True line st)))"

fun lines_loop :: "unicode \<Rightarrow> str list \<Rightarrow> pp_state \<Rightarrow> pp_error + pp_state" where
  "lines_loop U [] st = Inr st"
| "lines_loop U (l # ls) st = bindE (line_step U l st) (lines_loop U ls)"

definition preprocess :: "unicode \<Rightarrow> str \<Rightarrow> str list \<Rightarrow> pp_error + str" where
  "preprocess U source defines =
     bindE (lines_loop U (split_inclusive source)
       \<lparr>pp_symbols = set defines, pp_branching = (True, []), pp_lexical = Normal, pp_output = []\<rparr>) (\<lambda>st.
     ensureE (snd (pp_branching st) = []) UnclosedIf
       (case from_utf8 (pp_output st) of None \<Rightarrow> Inl NotUtf8 | Some s \<Rightarrow> Inr s))"

section \<open>The parser never diverges\<close>

text \<open>\<open>bounded n r\<close>: a proper result, and what is left has fewer than \<open>n\<close> characters.\<close>

definition bounded :: "nat \<Rightarrow> parse \<Rightarrow> bool" where
  "bounded n r \<longleftrightarrow> (case r of Inl e \<Rightarrow> e \<noteq> Diverges \<and> e \<noteq> NotUtf8 | Inr (v, r') \<Rightarrow> length r' < n)"

lemma bounded_simps [simp]: "bounded n (Inl e) \<longleftrightarrow> e \<noteq> Diverges \<and> e \<noteq> NotUtf8" "bounded n (Inr (v, r)) \<longleftrightarrow> length r < n"
  by (simp_all add: bounded_def)

lemma bounded_mono: "bounded n x \<Longrightarrow> n \<le> m \<Longrightarrow> bounded m x"
  by (auto simp: bounded_def split: sum.splits)

lemma bounded_bind:
  assumes "bounded n x" "\<And>v r. x = Inr (v, r) \<Longrightarrow> length r < n \<Longrightarrow> bounded m (f v r)"
  shows "bounded m (bindE x (\<lambda>(v, r). f v r))"
  using assms by (cases x) auto

lemma shorter_bounded: "length r' < length r \<Longrightarrow> bounded m x \<Longrightarrow> bounded m (shorter r' r x)"
  by (simp add: shorter_def)

lemma lit_tokens [simp]: "lit ''!'' \<noteq> []" "lit ''('' \<noteq> []" "lit '')'' \<noteq> []" "lit ''=='' \<noteq> []" "lit ''!='' \<noteq> []"
  "lit ''&&'' \<noteq> []" "lit ''||'' \<noteq> []"
  by simp_all

lemma eat_length: "eat s r = (b, r') \<Longrightarrow> s \<noteq> [] \<Longrightarrow> length r' \<le> length r"
  using eat_shorter [of s r r'] eat_False [of s r r'] length_trim_start [of r] by (cases b) auto

lemma ev_bounded:
  "bounded (length r) (ev_atom U S r)"
  "bounded (length r) (ev_equality U S r)"
  "bounded (Suc (length r)) (ev_equality_loop U S v r)"
  "bounded (length r) (ev_and U S r)"
  "bounded (Suc (length r)) (ev_and_loop U S v r)"
  "bounded (length r) (ev_or U S r)"
  "bounded (Suc (length r)) (ev_or_loop U S v r)"
proof (induction U S r and U S r and U S v r and U S r and U S v r and U S r and U S v r
    rule: ev_atom_ev_equality_ev_equality_loop_ev_and_ev_and_loop_ev_or_ev_or_loop.induct)
  case (1 U S rest)
  obtain b1 r1 where e1: "eat (lit ''!'') rest = (b1, r1)" by force
  show ?case
  proof (cases b1)
    case True
    with e1 have l: "length r1 < length rest" using eat_shorter by simp
    with 1(1) e1 True have "bounded (length r1) (ev_atom U S r1)" by auto
    then show ?thesis using e1 True l
      by (subst ev_atom.simps) (auto intro!: shorter_bounded bounded_bind)
  next
    case b1: False
    obtain b2 r2 where e2: "eat (lit ''('') r1 = (b2, r2)" by force
    have l1: "length r1 \<le> length rest" using e1 eat_length by simp
    show ?thesis
    proof (cases b2)
      case True
      with e2 l1 have l: "length r2 < length rest" using eat_shorter [of "lit ''(''" r1 r2] by simp
      with 1(2) e1 b1 e2 True have IH: "bounded (length r2) (ev_or U S r2)" by auto
      have "bounded (length rest) (case eat (lit '')'') r of (closed, r) \<Rightarrow> ensureE closed UnclosedExpression (Inr (v, r)))"
        if "length r < length r2" for v r
        using that l eat_length [of "lit '')''" r] by (auto simp: ensureE_def split: prod.splits) fastforce
      with IH have "bounded (length rest) (bindE (ev_or U S r2) (\<lambda>(v, r).
          (case eat (lit '')'') r of (closed, r) \<Rightarrow> ensureE closed UnclosedExpression (Inr (v, r)))))"
        by (intro bounded_bind) auto
      then show ?thesis using e1 b1 e2 True l
        by (subst ev_atom.simps) (simp add: shorter_def)
    next
      case b2: False
      have l: "length (trim_start r2) \<le> length rest"
        using l1 eat_length [OF e2] length_trim_start [of r2] by simp
      show ?thesis using e1 b1 e2 b2 l
        by (subst ev_atom.simps) (cases "trim_start r2", auto simp: Let_def word_len_def)
    qed
  qed
next
  case (2 U S rest)
  show ?case by (subst ev_equality.simps) (rule bounded_bind [OF 2(1)], rule shorter_bounded, assumption,
      rule bounded_mono [OF 2(2)], auto)
next
  case (3 U S v rest)
  obtain b r1 where e: "eat (lit ''=='') rest = (b, r1)" by force
  have l1: "length r1 \<le> length rest" using eat_length [OF e] by simp
  obtain b' r1' where e': "eat (lit ''!='') r1 = (b', r1')" by force
  show ?case
  proof (cases b)
    case True
    with e have l: "length r1 < length rest" using eat_shorter by simp
    have A: "bounded (length r1) (ev_atom U S r1)" using 3(1) e True l by auto
    have B: "bounded (Suc (length r2)) (ev_equality_loop U S (w = v) r2)"
      if "ev_atom U S r1 = Inr (w, r2)" "length r2 < length rest" for w r2
      using 3(2) e True l that by auto
    have "bounded (Suc (length rest)) (bindE (ev_atom U S r1) (\<lambda>(w, r). shorter r rest (ev_equality_loop U S (w = v) r)))"
      using l by (intro bounded_bind [OF A] shorter_bounded) (auto intro: bounded_mono [OF B])
    then show ?thesis using e True l by (subst ev_equality_loop.simps) (simp add: shorter_def)
  next
    case F: False
    show ?thesis
    proof (cases b')
      case True
      with e' l1 have l: "length r1' < length rest" using eat_shorter [of "lit ''!=''" r1 r1'] by simp
      have A: "bounded (length r1') (ev_atom U S r1')" using 3(3) e F e' True l by auto
      have B: "bounded (Suc (length r2)) (ev_equality_loop U S (w \<noteq> v) r2)"
        if "ev_atom U S r1' = Inr (w, r2)" "length r2 < length rest" for w r2
        using 3(4) e F e' True l that by auto
      have "bounded (Suc (length rest)) (bindE (ev_atom U S r1') (\<lambda>(w, r). shorter r rest (ev_equality_loop U S (w \<noteq> v) r)))"
        using l by (intro bounded_bind [OF A] shorter_bounded) (simp, rule bounded_mono [OF B], simp_all)
      then show ?thesis using e F e' True l by (subst ev_equality_loop.simps) (simp add: shorter_def)
    next
      case False
      with e F e' l1 eat_length [OF e'] show ?thesis by (subst ev_equality_loop.simps) simp
    qed
  qed
next
  case (4 U S rest)
  show ?case by (subst ev_and.simps) (rule bounded_bind [OF 4(1)], rule shorter_bounded, assumption,
      rule bounded_mono [OF 4(2)], auto)
next
  case (5 U S v rest)
  obtain b r1 where e: "eat (lit ''&&'') rest = (b, r1)" by force
  show ?case
  proof (cases b)
    case True
    with e have l: "length r1 < length rest" using eat_shorter by simp
    have A: "bounded (length r1) (ev_equality U S r1)" using 5(1) e True l by auto
    have B: "bounded (Suc (length r2)) (ev_and_loop U S (v \<and> w) r2)"
      if "ev_equality U S r1 = Inr (w, r2)" "length r2 < length rest" for w r2
      using 5(2) e True l that by auto
    have "bounded (Suc (length rest)) (bindE (ev_equality U S r1) (\<lambda>(w, r). shorter r rest (ev_and_loop U S (v \<and> w) r)))"
      using l by (intro bounded_bind [OF A] shorter_bounded) (auto intro: bounded_mono [OF B])
    then show ?thesis using e True l by (subst ev_and_loop.simps) (simp add: shorter_def)
  next
    case False
    with e eat_length [OF e] show ?thesis by (subst ev_and_loop.simps) simp
  qed
next
  case (6 U S rest)
  show ?case by (subst ev_or.simps) (rule bounded_bind [OF 6(1)], rule shorter_bounded, assumption,
      rule bounded_mono [OF 6(2)], auto)
next
  case (7 U S v rest)
  obtain b r1 where e: "eat (lit ''||'') rest = (b, r1)" by force
  show ?case
  proof (cases b)
    case True
    with e have l: "length r1 < length rest" using eat_shorter by simp
    have A: "bounded (length r1) (ev_and U S r1)" using 7(1) e True l by auto
    have B: "bounded (Suc (length r2)) (ev_or_loop U S (v \<or> w) r2)"
      if "ev_and U S r1 = Inr (w, r2)" "length r2 < length rest" for w r2
      using 7(2) e True l that by auto
    have "bounded (Suc (length rest)) (bindE (ev_and U S r1) (\<lambda>(w, r). shorter r rest (ev_or_loop U S (v \<or> w) r)))"
      using l by (intro bounded_bind [OF A] shorter_bounded) (auto intro: bounded_mono [OF B])
    then show ?thesis using e True l by (subst ev_or_loop.simps) (simp add: shorter_def)
  next
    case False
    with e eat_length [OF e] show ?thesis by (subst ev_or_loop.simps) simp
  qed
qed

end
