(* ===== verification/Preprocess_Conditions.thy ===== *)
theory Preprocess_Conditions
  imports Preprocess_Correct
begin

text \<open>
  The evaluator of \<^verbatim>\<open>src/src/extract/preprocess.rs\<close> against the abstract syntax of C# conditions:
  printing an expression with the fewest parentheses and evaluating the text gives its value.
\<close>

datatype pexp = PSym str | PNot pexp | PEq bool pexp pexp | PAnd pexp pexp | POr pexp pexp

fun sem :: "str set \<Rightarrow> pexp \<Rightarrow> bool" where
  "sem S (PSym n) = symbol_value S n"
| "sem S (PNot e) = (\<not> sem S e)"
| "sem S (PEq b l r) = ((sem S l = sem S r) = b)"
| "sem S (PAnd l r) = (sem S l \<and> sem S r)"
| "sem S (POr l r) = (sem S l \<or> sem S r)"

definition paren :: "bool \<Rightarrow> str \<Rightarrow> str" where
  "paren b s = (if b then 40 # s @ [41] else s)"

text \<open>Levels: 0 disjunction, 1 conjunction, 2 equality, 3 atom.\<close>

fun show_at :: "nat \<Rightarrow> pexp \<Rightarrow> str" where
  "show_at k (PSym n) = n"
| "show_at k (PNot e) = 33 # show_at 3 e"
| "show_at k (PEq b l r) = paren (2 < k) (show_at 2 l @ (if b then 61 else 33) # 61 # show_at 3 r)"
| "show_at k (PAnd l r) = paren (1 < k) (show_at 1 l @ 38 # 38 # show_at 2 r)"
| "show_at k (POr l r) = paren (0 < k) (show_at 0 l @ 124 # 124 # show_at 1 r)"

definition symbol_char :: "unicode \<Rightarrow> nat \<Rightarrow> bool" where
  "symbol_char U c \<longleftrightarrow> u_alphanumeric U c \<or> c = 95"

fun pexp_ok :: "unicode \<Rightarrow> pexp \<Rightarrow> bool" where
  "pexp_ok U (PSym n) \<longleftrightarrow> n \<noteq> [] \<and> list_all (symbol_char U) n"
| "pexp_ok U (PNot e) \<longleftrightarrow> pexp_ok U e"
| "pexp_ok U (PEq b l r) \<longleftrightarrow> pexp_ok U l \<and> pexp_ok U r"
| "pexp_ok U (PAnd l r) \<longleftrightarrow> pexp_ok U l \<and> pexp_ok U r"
| "pexp_ok U (POr l r) \<longleftrightarrow> pexp_ok U l \<and> pexp_ok U r"

text \<open>What the Unicode tables say: letters and digits are neither white space nor operators.\<close>

definition tables_ok :: "unicode \<Rightarrow> bool" where
  "tables_ok U \<longleftrightarrow> (\<forall>c. u_alphanumeric U c \<longrightarrow> \<not> is_whitespace c \<and> c \<notin> {33, 38, 40, 41, 61, 124})"

section \<open>The equations without guards\<close>

lemma ev_equality_eq:
  "ev_equality U S r = bindE (ev_atom U S r) (\<lambda>(v, r). ev_equality_loop U S v r)"
  using ev_bounded(1) [of r U S]
  by (subst ev_equality.simps) (auto simp: bindE_def shorter_def split: sum.splits)

lemma ev_and_eq: "ev_and U S r = bindE (ev_equality U S r) (\<lambda>(v, r). ev_and_loop U S v r)"
  using ev_bounded(2) [of r U S]
  by (subst ev_and.simps) (auto simp: bindE_def shorter_def split: sum.splits)

lemma ev_or_eq: "ev_or U S r = bindE (ev_and U S r) (\<lambda>(v, r). ev_or_loop U S v r)"
  using ev_bounded(4) [of r U S]
  by (subst ev_or.simps) (auto simp: bindE_def shorter_def split: sum.splits)

lemma eat_token:
  "\<not> is_whitespace (hd s) \<Longrightarrow> s \<noteq> [] \<Longrightarrow> eat s (s @ r) = (True, r)"
  by (cases s) (simp_all add: eat_def trim_start_def strip_prefix_def)

lemma eat_other:
  "r = [] \<or> \<not> is_whitespace (hd r) \<Longrightarrow> \<not> starts_with r s \<Longrightarrow> eat s r = (False, r)"
  by (cases r) (simp_all add: eat_def trim_start_def strip_prefix_def)

lemma not_space [simp]: "\<not> is_whitespace 33" "\<not> is_whitespace 38" "\<not> is_whitespace 40" "\<not> is_whitespace 41"
  "\<not> is_whitespace 61" "\<not> is_whitespace 124"
  by (simp_all add: is_whitespace_def)

lemma lit_ops: "lit ''!'' = [33]" "lit ''('' = [40]" "lit '')'' = [41]" "lit ''=='' = [61, 61]" "lit ''!='' = [33, 61]"
  "lit ''&&'' = [38, 38]" "lit ''||'' = [124, 124]"
  by (simp_all add: lit_def)

lemma loop_equality_step:
  "ev_equality_loop U S v ((if b then 61 else 33) # 61 # r) =
    bindE (ev_atom U S r) (\<lambda>(w, r). ev_equality_loop U S ((w = v) = b) r)"
proof -
  have g: "(case ev_atom U S r of Inl e \<Rightarrow> True | Inr (w, r') \<Rightarrow> length r' < Suc (Suc (length r)))"
    using ev_bounded(1) [of r U S] by (auto simp: bounded_def split: sum.splits)
  show ?thesis
  proof (cases b)
    case True
    have "eat [61, 61] (61 # 61 # r) = (True, r)" using eat_token [of "[61, 61]" r] by simp
    with True g show ?thesis
      by (subst ev_equality_loop.simps) (auto simp: lit_ops shorter_def bindE_def split: sum.splits)
  next
    case False
    have "eat [61, 61] (33 # 61 # r) = (False, 33 # 61 # r)" "eat [33, 61] (33 # 61 # r) = (True, r)"
      using eat_other [of "33 # 61 # r" "[61, 61]"] eat_token [of "[33, 61]" r] by simp_all
    with False g show ?thesis
      by (subst ev_equality_loop.simps) (auto simp: lit_ops shorter_def bindE_def split: sum.splits)
  qed
qed

lemma loop_and_step:
  "ev_and_loop U S v (38 # 38 # r) = bindE (ev_equality U S r) (\<lambda>(w, r). ev_and_loop U S (v \<and> w) r)"
  using ev_bounded(2) [of r U S] eat_token [of "[38, 38]" r]
  by (subst ev_and_loop.simps) (auto simp: lit_ops shorter_def bindE_def split: sum.splits)

lemma loop_or_step:
  "ev_or_loop U S v (124 # 124 # r) = bindE (ev_and U S r) (\<lambda>(w, r). ev_or_loop U S (v \<or> w) r)"
  using ev_bounded(4) [of r U S] eat_token [of "[124, 124]" r]
  by (subst ev_or_loop.simps) (auto simp: lit_ops shorter_def bindE_def split: sum.splits)

section \<open>What may follow, level by level\<close>

definition follow :: "nat \<Rightarrow> str \<Rightarrow> bool" where
  "follow k s \<longleftrightarrow> s = [] \<or> hd s \<in> (if k = 3 then {41, 124, 38, 61, 33} else if k = 2 then {41, 124, 38} else if k = 1 then {41, 124} else {41})"

lemma follow_mono: "follow k s \<Longrightarrow> k \<le> m \<Longrightarrow> m \<le> 3 \<Longrightarrow> follow m s"
  by (auto simp: follow_def split: if_splits)

lemma loop_equality_end: "follow 2 s \<Longrightarrow> ev_equality_loop U S v s = Inr (v, s)"
  using eat_other [of s "[61, 61]"] eat_other [of s "[33, 61]"]
  by (subst ev_equality_loop.simps) (cases s; auto simp: follow_def lit_ops)

lemma loop_and_end: "follow 1 s \<Longrightarrow> ev_and_loop U S v s = Inr (v, s)"
  using eat_other [of s "[38, 38]"]
  by (subst ev_and_loop.simps) (cases s; auto simp: follow_def lit_ops)

lemma loop_or_end: "follow 0 s \<Longrightarrow> ev_or_loop U S v s = Inr (v, s)"
  using eat_other [of s "[124, 124]"]
  by (subst ev_or_loop.simps) (cases s; auto simp: follow_def lit_ops)

text \<open>A text \<open>x\<close> that is read at a level as a prefix of value \<open>v\<close>.\<close>

definition reads_atom :: "unicode \<Rightarrow> str set \<Rightarrow> str \<Rightarrow> bool \<Rightarrow> bool" where
  "reads_atom U S x v \<longleftrightarrow> (\<forall>s. follow 3 s \<longrightarrow> ev_atom U S (x @ s) = Inr (v, s))"

definition reads_equality :: "unicode \<Rightarrow> str set \<Rightarrow> str \<Rightarrow> bool \<Rightarrow> bool" where
  "reads_equality U S x v \<longleftrightarrow> (\<forall>s. follow 3 s \<longrightarrow> ev_equality U S (x @ s) = ev_equality_loop U S v s)"

definition reads_and :: "unicode \<Rightarrow> str set \<Rightarrow> str \<Rightarrow> bool \<Rightarrow> bool" where
  "reads_and U S x v \<longleftrightarrow> (\<forall>s. follow 2 s \<longrightarrow> ev_and U S (x @ s) = ev_and_loop U S v s)"

definition reads_or :: "unicode \<Rightarrow> str set \<Rightarrow> str \<Rightarrow> bool \<Rightarrow> bool" where
  "reads_or U S x v \<longleftrightarrow> (\<forall>s. follow 1 s \<longrightarrow> ev_or U S (x @ s) = ev_or_loop U S v s)"

lemma reads_up:
  "reads_atom U S x v \<Longrightarrow> reads_equality U S x v"
  "reads_equality U S x v \<Longrightarrow> reads_and U S x v"
  "reads_and U S x v \<Longrightarrow> reads_or U S x v"
  unfolding reads_atom_def reads_equality_def reads_and_def reads_or_def
  by (auto simp: ev_equality_eq ev_and_eq ev_or_eq loop_equality_end loop_and_end follow_mono)

lemma reads_or_full: "reads_or U S x v \<Longrightarrow> follow 0 s \<Longrightarrow> ev_or U S (x @ s) = Inr (v, s)"
  by (simp add: reads_or_def loop_or_end follow_mono)

lemma reads_paren: "reads_or U S x v \<Longrightarrow> reads_atom U S (paren True x) v"
  unfolding reads_atom_def paren_def
proof (intro allI impI)
  fix s assume r: "reads_or U S x v" and "follow 3 s"
  have e: "eat [33] (40 # x @ 41 # s) = (False, 40 # x @ 41 # s)" "eat [40] (40 # x @ 41 # s) = (True, x @ 41 # s)"
    "eat [41] (41 # s) = (True, s)"
    using eat_other [of "40 # x @ 41 # s" "[33]"] eat_token [of "[40]" "x @ 41 # s"] eat_token [of "[41]" s] by simp_all
  have "ev_or U S (x @ 41 # s) = Inr (v, 41 # s)" by (rule reads_or_full [OF r]) (simp add: follow_def)
  with e show "ev_atom U S ((if True then 40 # x @ [41] else x) @ s) = Inr (v, s)"
    by (subst ev_atom.simps) (simp add: lit_ops shorter_def)
qed

lemma reads_symbol:
  assumes "tables_ok U" "n \<noteq> []" "list_all (symbol_char U) n"
  shows "reads_atom U S n (symbol_value S n)"
  unfolding reads_atom_def
proof (intro allI impI)
  fix s assume f: "follow 3 s"
  obtain c m where n: "n = c # m" using assms(2) by (cases n) auto
  have c: "\<not> is_whitespace c" "c \<noteq> 33" "c \<noteq> 40"
    using assms(1,3) n by (auto simp: tables_ok_def symbol_char_def is_whitespace_def)
  have e: "eat [33] (n @ s) = (False, n @ s)" "eat [40] (n @ s) = (False, n @ s)" "trim_start (n @ s) = n @ s"
    using eat_other [of "n @ s" "[33]"] eat_other [of "n @ s" "[40]"] c n by (simp_all add: trim_start_def)
  have "s = [] \<or> \<not> symbol_char U (hd s)"
    using f assms(1) by (auto simp: follow_def tables_ok_def symbol_char_def)
  then have "takeWhile (symbol_char U) (n @ s) = n"
    using assms(3) by (cases s) (auto simp: takeWhile_append list_all_iff)
  then have "word_len U (n @ s) = length n" by (simp add: word_len_def symbol_char_def [abs_def])
  then show "ev_atom U S (n @ s) = Inr (symbol_value S n, s)"
    using e assms(2) by (subst ev_atom.simps) (simp add: lit_ops Let_def)
qed

lemma reads_not: "reads_atom U S x v \<Longrightarrow> reads_atom U S (33 # x) (\<not> v)"
  unfolding reads_atom_def
proof (intro allI impI)
  fix s assume "\<forall>s. follow 3 s \<longrightarrow> ev_atom U S (x @ s) = Inr (v, s)" "follow 3 s"
  moreover have "eat [33] (33 # x @ s) = (True, x @ s)" using eat_token [of "[33]" "x @ s"] by simp
  ultimately show "ev_atom U S ((33 # x) @ s) = Inr (\<not> v, s)"
    by (subst ev_atom.simps) (simp add: lit_ops shorter_def)
qed

lemma reads_equality_op:
  assumes "reads_equality U S x v" "reads_atom U S y w"
  shows "reads_equality U S (x @ (if b then 61 else 33) # 61 # y) ((w = v) = b)"
  unfolding reads_equality_def
proof (intro allI impI)
  fix s assume f: "follow 3 s"
  have "ev_equality U S (x @ ((if b then 61 else 33) # 61 # y @ s)) = ev_equality_loop U S v ((if b then 61 else 33) # 61 # y @ s)"
    using assms(1) by (simp add: reads_equality_def follow_def)
  with assms(2) f show "ev_equality U S ((x @ (if b then 61 else 33) # 61 # y) @ s) = ev_equality_loop U S ((w = v) = b) s"
    by (simp add: loop_equality_step reads_atom_def del: if_split)
qed

lemma reads_and_op:
  assumes "reads_and U S x v" "reads_equality U S y w"
  shows "reads_and U S (x @ 38 # 38 # y) (v \<and> w)"
  unfolding reads_and_def
proof (intro allI impI)
  fix s assume f: "follow 2 s"
  have "ev_and U S (x @ (38 # 38 # y @ s)) = ev_and_loop U S v (38 # 38 # y @ s)"
    using assms(1) by (simp add: reads_and_def follow_def)
  with assms(2) f show "ev_and U S ((x @ 38 # 38 # y) @ s) = ev_and_loop U S (v \<and> w) s"
    by (simp add: loop_and_step reads_equality_def loop_equality_end follow_mono)
qed

lemma reads_or_op:
  assumes "reads_or U S x v" "reads_and U S y w"
  shows "reads_or U S (x @ 124 # 124 # y) (v \<or> w)"
  unfolding reads_or_def
proof (intro allI impI)
  fix s assume f: "follow 1 s"
  have "ev_or U S (x @ (124 # 124 # y @ s)) = ev_or_loop U S v (124 # 124 # y @ s)"
    using assms(1) by (simp add: reads_or_def follow_def)
  with assms(2) f show "ev_or U S ((x @ 124 # 124 # y) @ s) = ev_or_loop U S (v \<or> w) s"
    by (simp add: loop_or_step reads_and_def loop_and_end follow_mono)
qed

lemma reads_show:
  assumes "tables_ok U"
  shows "pexp_ok U e \<Longrightarrow> reads_atom U S (show_at 3 e) (sem S e) \<and> reads_equality U S (show_at 2 e) (sem S e) \<and>
    reads_and U S (show_at 1 e) (sem S e) \<and> reads_or U S (show_at 0 e) (sem S e)"
proof (induction e)
  case (PSym n)
  then have "reads_atom U S n (symbol_value S n)" by (intro reads_symbol [OF assms]) auto
  then show ?case by (simp add: reads_up)
next
  case (PNot e)
  then have "reads_atom U S (33 # show_at 3 e) (\<not> sem S e)" by (intro reads_not) simp
  then show ?case by (simp add: reads_up)
next
  case (PEq b l r)
  then have q: "reads_equality U S (show_at 2 (PEq b l r)) (sem S (PEq b l r))"
    using reads_equality_op [of U S "show_at 2 l" "sem S l" "show_at 3 r" "sem S r" b]
    by (simp add: paren_def eq_commute [of "sem S r"])
  with reads_paren [of U S "show_at 2 (PEq b l r)"] show ?case by (simp add: reads_up paren_def)
next
  case (PAnd l r)
  then have q: "reads_and U S (show_at 1 (PAnd l r)) (sem S (PAnd l r))"
    using reads_and_op [of U S "show_at 1 l" "sem S l" "show_at 2 r" "sem S r"] by (simp add: paren_def)
  with reads_paren [of U S "show_at 1 (PAnd l r)"] show ?case by (simp add: reads_up paren_def)
next
  case (POr l r)
  then have q: "reads_or U S (show_at 0 (POr l r)) (sem S (POr l r))"
    using reads_or_op [of U S "show_at 0 l" "sem S l" "show_at 1 r" "sem S r"] by (simp add: paren_def)
  with reads_paren [of U S "show_at 0 (POr l r)"] show ?case by (simp add: reads_up paren_def)
qed

text \<open>
  C35: the evaluator computes the value of every condition: printed with the precedences of C#
  (negation, equality, conjunction, disjunction, all left-associative) and the fewest
  parentheses, an expression evaluates to its value under the defined symbols.
\<close>

theorem evaluate_correct:
  assumes "tables_ok U" "pexp_ok U e"
  shows "evaluate U (show_at 0 e) symbols = Inr (sem symbols e)"
proof -
  have "reads_or U symbols (show_at 0 e) (sem symbols e)" using reads_show [OF assms] by blast
  from reads_or_full [OF this, of "[]"] show ?thesis
    by (simp add: evaluate_def follow_def trim_def trim_start_def trim_end_def)
qed

theorem evaluate_correct_witness:
  "evaluate ascii_tables (show_at 0 (PAnd (PNot (PSym (lit ''A''))) (POr (PSym (lit ''B'')) (PEq False (PSym (lit ''C'')) (PSym (lit ''true'')))))) {lit ''B''} =
    Inr (sem {lit ''B''} (PAnd (PNot (PSym (lit ''A''))) (POr (PSym (lit ''B'')) (PEq False (PSym (lit ''C'')) (PSym (lit ''true''))))))"
proof (rule evaluate_correct)
  show "tables_ok ascii_tables" by (auto simp: tables_ok_def ascii_tables_def ascii_classes)
qed (simp add: symbol_char_def ascii_tables_def ascii_classes lit_def)

end
