(* ===== verification/Conditions.thy ===== *)
theory Conditions
  imports Preprocess "HOL-Library.AList"
begin

text \<open>
  The bounded Boolean conditions of \<^verbatim>\<open>src/src/extract/csharp/history/conditions.rs\<close>: binary
  decision diagrams in a growing node table, with a unique table, an operation cache, a symbol
  table and limits on nodes, symbols and work. A hash map is an association list that keeps the
  order of insertion. \<open>Panic\<close> is an index out of range and \<open>Stuck\<close> a failed progress guard; both
  are shown impossible. The identifier pattern and the class of formatting characters (the regex
  package) are parameters.
\<close>

section \<open>Nodes and operations\<close>

type_synonym guard = nat

abbreviation FALSE :: guard where "FALSE \<equiv> 0"
abbreviation TRUE :: guard where "TRUE \<equiv> 1"

definition max_symbols :: nat where "max_symbols = 128"
definition max_nodes :: nat where "max_nodes = 8192"
definition max_operations :: nat where "max_operations = 262144"
definition max_depth :: nat where "max_depth = 64"

record cnode =
  n_variable :: nat
  n_low :: guard
  n_high :: guard

datatype cop = OpAnd | OpOr | OpXor

datatype cond_error = NodeLimit | SymbolLimit | WorkLimit | LengthLimit | NestingLimit | UnsupportedCondition
  | InvalidSymbol | InvalidEscape | UnclosedCondition | Panic | Stuck

record conditions =
  c_nodes :: "cnode list"
  c_unique :: "((nat \<times> guard \<times> guard) \<times> guard) list"
  c_memo :: "((cop \<times> guard \<times> guard) \<times> guard) list"
  c_symbols :: "(str \<times> guard) list"
  c_work :: nat

type_synonym 'a cond_result = "cond_error + 'a \<times> conditions"

definition terminal :: cnode where
  "terminal = \<lparr>n_variable = max_symbols, n_low = FALSE, n_high = TRUE\<rparr>"

definition conditions_default :: conditions where
  "conditions_default = \<lparr>c_nodes = [terminal, terminal], c_unique = [], c_memo = [], c_symbols = [], c_work = 0\<rparr>"

definition mk_node :: "nat \<Rightarrow> guard \<Rightarrow> guard \<Rightarrow> conditions \<Rightarrow> guard cond_result" where
  "mk_node variable low high c =
     (if low = high then Inr (low, c)
      else (case map_of (c_unique c) (variable, low, high) of
          Some gid \<Rightarrow> Inr (gid, c)
        | None \<Rightarrow> ensureE (length (c_nodes c) < max_nodes) NodeLimit
            (Inr (length (c_nodes c),
              c\<lparr>c_nodes := c_nodes c @ [\<lparr>n_variable = variable, n_low = low, n_high = high\<rparr>],
                c_unique := AList.update (variable, low, high) (length (c_nodes c)) (c_unique c)\<rparr>))))"

definition symbol :: "str \<Rightarrow> conditions \<Rightarrow> guard cond_result" where
  "symbol name c = (case map_of (c_symbols c) name of
     Some gid \<Rightarrow> Inr (gid, c)
   | None \<Rightarrow> ensureE (length (c_symbols c) < max_symbols) SymbolLimit
       (bindE (mk_node (length (c_symbols c)) FALSE TRUE c) (\<lambda>(gid, c).
         Inr (gid, c\<lparr>c_symbols := AList.update name gid (c_symbols c)\<rparr>))))"

text \<open>The terminal cases of \<open>apply\<close>, for arguments in order.\<close>

definition shortcut :: "cop \<Rightarrow> guard \<Rightarrow> guard \<Rightarrow> guard option" where
  "shortcut op a b = (case op of
     OpAnd \<Rightarrow> if a = FALSE \<or> a = b then Some a else if a = TRUE then Some b else None
   | OpOr \<Rightarrow> if a = FALSE \<or> a = b then Some b else if a = TRUE then Some TRUE else None
   | OpXor \<Rightarrow> if a = b then Some FALSE else if a = FALSE then Some b else None)"

definition worked :: "conditions \<Rightarrow> conditions \<Rightarrow> cond_error + 'a \<Rightarrow> cond_error + 'a" where
  "worked c c' r = (if c_work c < c_work c' then r else Inl Stuck)"

lemma worked_cong [fundef_cong]:
  "c = d \<Longrightarrow> c' = d' \<Longrightarrow> (c_work d < c_work d' \<Longrightarrow> r = s) \<Longrightarrow> worked c c' r = worked d d' s"
  by (simp add: worked_def)

definition remember :: "cop \<Rightarrow> guard \<Rightarrow> guard \<Rightarrow> guard \<Rightarrow> conditions \<Rightarrow> conditions" where
  "remember op a b gid c =
     (if length (c_memo c) < max_nodes * 4 then c\<lparr>c_memo := AList.update (op, a, b) gid (c_memo c)\<rparr> else c)"

definition cofactors :: "conditions \<Rightarrow> nat \<Rightarrow> guard \<Rightarrow> guard \<times> guard" where
  "cofactors c variable g = (let n = c_nodes c ! g in if n_variable n = variable then (n_low n, n_high n) else (g, g))"

definition top_variable :: "conditions \<Rightarrow> guard \<Rightarrow> guard \<Rightarrow> nat" where
  "top_variable c a b = min (n_variable (c_nodes c ! a)) (n_variable (c_nodes c ! b))"

function (sequential) apply_op :: "cop \<Rightarrow> guard \<Rightarrow> guard \<Rightarrow> conditions \<Rightarrow> guard cond_result" where
  "apply_op op a0 b0 c0 =
     (let c = c0\<lparr>c_work := c_work c0 + 1\<rparr>; a = min a0 b0; b = max a0 b0
      in ensureE (c_work c0 + 1 \<le> max_operations) WorkLimit
       (case shortcut op a b of
          Some g \<Rightarrow> Inr (g, c)
        | None \<Rightarrow> (case map_of (c_memo c) (op, a, b) of
            Some gid \<Rightarrow> Inr (gid, c)
          | None \<Rightarrow> ensureE (b < length (c_nodes c)) Panic
              (bindE (apply_op op (fst (cofactors c (top_variable c a b) a)) (fst (cofactors c (top_variable c a b) b)) c)
                (\<lambda>(low, c1). worked c0 c1
              (bindE (apply_op op (snd (cofactors c (top_variable c a b) a)) (snd (cofactors c (top_variable c a b) b)) c1)
                (\<lambda>(high, c2).
               bindE (mk_node (top_variable c a b) low high c2) (\<lambda>(gid, c3).
                 Inr (gid, remember op a b gid c3)))))))))"
  by pat_completeness auto
termination
  by (relation "measure (\<lambda>(op, a, b, c). max_operations + 1 - c_work c)") (auto simp: max_operations_def)

declare apply_op.simps [simp del]

definition cond_or :: "guard \<Rightarrow> guard \<Rightarrow> conditions \<Rightarrow> guard cond_result" where
  "cond_or a b c = apply_op OpOr a b c"

definition cond_and :: "guard \<Rightarrow> guard \<Rightarrow> conditions \<Rightarrow> guard cond_result" where
  "cond_and a b c = apply_op OpAnd a b c"

definition cond_not :: "guard \<Rightarrow> conditions \<Rightarrow> guard cond_result" where
  "cond_not a c = apply_op OpXor a TRUE c"

section \<open>Evaluation\<close>

partial_function (option) value_loop :: "cnode list \<Rightarrow> bool list \<Rightarrow> guard \<Rightarrow> bool option" where
  "value_loop ns values g =
     (if TRUE < g then value_loop ns values
        (if values ! n_variable (ns ! g) then n_high (ns ! g) else n_low (ns ! g))
      else Some (g = TRUE))"

definition cond_value :: "conditions \<Rightarrow> guard \<Rightarrow> bool list \<Rightarrow> bool option" where
  "cond_value c g values = value_loop (c_nodes c) values g"

partial_function (option) witness_loop :: "cnode list \<Rightarrow> bool \<Rightarrow> guard \<Rightarrow> bool list \<Rightarrow> bool list option" where
  "witness_loop ns prefer g values =
     (if TRUE < g then
        (let n = ns ! g; yes = (if prefer then n_high n \<noteq> FALSE else n_low n = FALSE)
         in witness_loop ns prefer (if yes then n_high n else n_low n) (values[n_variable n := yes]))
      else Some values)"

definition cond_witness :: "conditions \<Rightarrow> guard \<Rightarrow> bool \<Rightarrow> bool list option" where
  "cond_witness c g prefer = witness_loop (c_nodes c) prefer g (replicate max_symbols prefer)"

section \<open>Presence and coverage\<close>

record presence =
  pres_nodes :: "cnode list"

record coverage =
  cov_conditions :: conditions
  cov_covered :: guard

definition presence_default :: presence where
  "presence_default = \<lparr>pres_nodes = []\<rparr>"

definition cond_finish :: "conditions \<Rightarrow> presence" where
  "cond_finish c = \<lparr>pres_nodes = c_nodes c\<rparr>"

definition node_key :: "cnode \<Rightarrow> nat \<times> guard \<times> guard" where
  "node_key n = (n_variable n, n_low n, n_high n)"

definition coverage_of :: "presence \<Rightarrow> coverage" where
  "coverage_of p =
     \<lparr>cov_conditions =
        (if pres_nodes p \<noteq> [] then
           conditions_default\<lparr>c_nodes := pres_nodes p,
             c_unique := fold (\<lambda>gid m. AList.update (node_key (pres_nodes p ! gid)) gid m) [2..<length (pres_nodes p)] []\<rparr>
         else conditions_default),
      cov_covered = FALSE\<rparr>"

definition uncovered :: "guard \<Rightarrow> coverage \<Rightarrow> cond_error + bool \<times> coverage" where
  "uncovered g cov = bindE (cond_not (cov_covered cov) (cov_conditions cov)) (\<lambda>(remaining, c).
     bindE (cond_and g remaining c) (\<lambda>(r, c). Inr (r \<noteq> FALSE, cov\<lparr>cov_conditions := c\<rparr>)))"

definition cov_add :: "guard \<Rightarrow> coverage \<Rightarrow> cond_error + coverage" where
  "cov_add g cov = bindE (cond_or (cov_covered cov) g (cov_conditions cov)) (\<lambda>(covered, c).
     Inr \<lparr>cov_conditions = c, cov_covered = covered\<rparr>)"

section \<open>Identifiers\<close>

text \<open>
  The parameters of the condition parser: the length of the identifier a text starts with (the
  pattern \<^verbatim>\<open>IDENTIFIER\<close>), the formatting characters (\<^verbatim>\<open>FORMATTING\<close>), the local definitions,
  and whether unknown symbols are kept or read as false.
\<close>

record condition_env =
  x_identifier :: "str \<Rightarrow> nat option"
  x_formatting :: "nat \<Rightarrow> bool"
  x_local :: "(str \<times> guard) list"
  x_symbolic :: bool

definition hex_digit_value :: "nat \<Rightarrow> nat" where
  "hex_digit_value c = (if is_digit c then c - 48 else if c \<le> 70 then c - 55 else c - 87)"

definition hex_value :: "str \<Rightarrow> nat option" where
  "hex_value ds = (if ds \<noteq> [] \<and> list_all is_hex_digit ds
     then Some (foldl (\<lambda>n d. n * 16 + hex_digit_value d) 0 ds) else None)"

text \<open>The loop that replaces \<^verbatim>\<open>\uXXXX\<close> and \<^verbatim>\<open>\UXXXXXXXX\<close>; a text too short for its escape is the slicing panic.\<close>

function unescape :: "str \<Rightarrow> cond_error + str" where
  "unescape [] = Inr []"
| "unescape (c # s) =
     (if c = 0x5C then
        (if s = [] then Inl Panic
         else let width = (if hd s = ch CHR ''u'' then 6 else 10)
           in if length (c # s) < width then Inl Panic
              else (case hex_value (slice (c # s) (2, width)) of
                  None \<Rightarrow> Inl InvalidEscape
                | Some v \<Rightarrow> ensureE (scalar v) InvalidEscape
                    (bindE (unescape (drop width (c # s))) (\<lambda>name. Inr (v # name)))))
      else bindE (unescape s) (\<lambda>name. Inr (c # name)))"
  by pat_completeness auto
termination
  by (relation "measure length") auto

definition read_identifier :: "condition_env \<Rightarrow> str \<Rightarrow> cond_error + str \<times> nat" where
  "read_identifier E s = (case x_identifier E s of
     None \<Rightarrow> Inl InvalidSymbol
   | Some n \<Rightarrow> bindE (unescape (take n s)) (\<lambda>name.
       let name = filter (\<lambda>c. \<not> x_formatting E c) name
       in ensureE (x_identifier E name = Some (length name)) InvalidEscape (Inr (name, n))))"

section \<open>The condition parser\<close>

definition consumed :: "str \<Rightarrow> str \<Rightarrow> cond_error + 'a \<Rightarrow> cond_error + 'a" where
  "consumed r' r result = (if length r' < length r then result else Inl Stuck)"

lemma consumed_cong [fundef_cong]:
  "r' = s' \<Longrightarrow> r = s \<Longrightarrow> (length s' < length s \<Longrightarrow> x = y) \<Longrightarrow> consumed r' r x = consumed s' s y"
  by (simp add: consumed_def)

type_synonym condition_parse = "cond_error + guard \<times> str \<times> conditions"

definition symbol_guard :: "condition_env \<Rightarrow> str \<Rightarrow> conditions \<Rightarrow> guard cond_result" where
  "symbol_guard E name c =
     (if name = lit ''true'' then Inr (TRUE, c)
      else if name = lit ''false'' then Inr (FALSE, c)
      else if \<not> x_symbolic E then Inr (FALSE, c)
      else (case map_of (x_local E) name of Some g \<Rightarrow> Inr (g, c) | None \<Rightarrow> symbol name c))"

text \<open>The two operations of an equality step: exclusive or, negated for \<^verbatim>\<open>==\<close>.\<close>

definition cond_equal :: "bool \<Rightarrow> guard \<Rightarrow> guard \<Rightarrow> conditions \<Rightarrow> guard cond_result" where
  "cond_equal equal a b c = bindE (apply_op OpXor a b c) (\<lambda>(g, c). if equal then cond_not g c else Inr (g, c))"

function (sequential) ex_atom :: "condition_env \<Rightarrow> nat \<Rightarrow> str \<Rightarrow> conditions \<Rightarrow> condition_parse"
  and ex_equality :: "condition_env \<Rightarrow> nat \<Rightarrow> str \<Rightarrow> conditions \<Rightarrow> condition_parse"
  and ex_equality_loop :: "condition_env \<Rightarrow> nat \<Rightarrow> guard \<Rightarrow> str \<Rightarrow> conditions \<Rightarrow> condition_parse"
  and ex_and :: "condition_env \<Rightarrow> nat \<Rightarrow> str \<Rightarrow> conditions \<Rightarrow> condition_parse"
  and ex_and_loop :: "condition_env \<Rightarrow> nat \<Rightarrow> guard \<Rightarrow> str \<Rightarrow> conditions \<Rightarrow> condition_parse"
  and ex_or :: "condition_env \<Rightarrow> nat \<Rightarrow> str \<Rightarrow> conditions \<Rightarrow> condition_parse"
  and ex_or_loop :: "condition_env \<Rightarrow> nat \<Rightarrow> guard \<Rightarrow> str \<Rightarrow> conditions \<Rightarrow> condition_parse"
where
  "ex_atom E depth rest c = ensureE (depth < max_depth) NestingLimit
     (case eat (lit ''!'') rest of
        (True, r) \<Rightarrow> consumed r rest (bindE (ex_atom E (depth + 1) r c) (\<lambda>(g, r, c).
          bindE (cond_not g c) (\<lambda>(g, c). Inr (g, r, c))))
      | (False, r) \<Rightarrow> (case eat (lit ''('') r of
          (True, r) \<Rightarrow> consumed r rest (bindE (ex_or E (depth + 1) r c) (\<lambda>(g, r, c).
            (case eat (lit '')'') r of (closed, r) \<Rightarrow> ensureE closed UnclosedCondition (Inr (g, r, c)))))
        | (False, r) \<Rightarrow>
            let r = trim_start r
            in bindE (read_identifier E r) (\<lambda>(name, len).
               bindE (symbol_guard E name c) (\<lambda>(g, c). Inr (g, drop len r, c)))))"
| "ex_equality E depth rest c = bindE (ex_atom E depth rest c) (\<lambda>(g, r, c).
     consumed r rest (ex_equality_loop E depth g r c))"
| "ex_equality_loop E depth g rest c = (case eat (lit ''=='') rest of
     (True, r) \<Rightarrow> consumed r rest (bindE (ex_atom E depth r c) (\<lambda>(h, r, c).
       bindE (cond_equal True g h c) (\<lambda>(g, c). consumed r rest (ex_equality_loop E depth g r c))))
   | (False, r) \<Rightarrow> (case eat (lit ''!='') r of
       (True, r) \<Rightarrow> consumed r rest (bindE (ex_atom E depth r c) (\<lambda>(h, r, c).
         bindE (cond_equal False g h c) (\<lambda>(g, c). consumed r rest (ex_equality_loop E depth g r c))))
     | (False, r) \<Rightarrow> Inr (g, r, c)))"
| "ex_and E depth rest c = bindE (ex_equality E depth rest c) (\<lambda>(g, r, c).
     consumed r rest (ex_and_loop E depth g r c))"
| "ex_and_loop E depth g rest c = (case eat (lit ''&&'') rest of
     (True, r) \<Rightarrow> consumed r rest (bindE (ex_equality E depth r c) (\<lambda>(h, r, c).
       bindE (cond_and g h c) (\<lambda>(g, c). consumed r rest (ex_and_loop E depth g r c))))
   | (False, r) \<Rightarrow> Inr (g, r, c))"
| "ex_or E depth rest c = bindE (ex_and E depth rest c) (\<lambda>(g, r, c).
     consumed r rest (ex_or_loop E depth g r c))"
| "ex_or_loop E depth g rest c = (case eat (lit ''||'') rest of
     (True, r) \<Rightarrow> consumed r rest (bindE (ex_and E depth r c) (\<lambda>(h, r, c).
       bindE (cond_or g h c) (\<lambda>(g, c). consumed r rest (ex_or_loop E depth g r c))))
   | (False, r) \<Rightarrow> Inr (g, r, c))"
  by pat_completeness auto
termination
  by (relation "inv_image (less_than <*lex*> less_than) (\<lambda>x. case x of
       Inl (Inl (E, d, r, c)) \<Rightarrow> (length r, 0 :: nat)
     | Inl (Inr (Inl (E, d, r, c))) \<Rightarrow> (length r, 1)
     | Inl (Inr (Inr (E, d, g, r, c))) \<Rightarrow> (length r, 0)
     | Inr (Inl (Inl (E, d, r, c))) \<Rightarrow> (length r, 2)
     | Inr (Inl (Inr (E, d, g, r, c))) \<Rightarrow> (length r, 0)
     | Inr (Inr (Inl (E, d, r, c))) \<Rightarrow> (length r, 3)
     | Inr (Inr (Inr (E, d, g, r, c))) \<Rightarrow> (length r, 0))") auto

declare ex_atom.simps [simp del] ex_equality.simps [simp del] ex_equality_loop.simps [simp del]
  ex_and.simps [simp del] ex_and_loop.simps [simp del] ex_or.simps [simp del] ex_or_loop.simps [simp del]

definition expression :: "condition_env \<Rightarrow> str \<Rightarrow> conditions \<Rightarrow> guard cond_result" where
  "expression E s c = ensureE (byte_len s \<le> 4096) LengthLimit
     (bindE (ex_or E 0 s c) (\<lambda>(g, rest, c).
       ensureE (trim rest = []) UnsupportedCondition (Inr (g, c))))"

end
