(* ===== verification/Conditions_Correct.thy ===== *)
theory Conditions_Correct
  imports Conditions
begin

text \<open>
  The decision diagrams of \<open>Conditions\<close> as Boolean functions: the meaning of a guard, the
  invariant of the tables (ordered, reduced, hash-consed, cache sound), and the functional
  correctness of \<open>apply\<close>. Since the diagrams are canonical, a guard is unsatisfiable exactly
  when it is \<open>FALSE\<close>, and \<open>witness\<close> satisfies every other one.
\<close>

section \<open>Meaning and invariant\<close>

function bdd_sem :: "cnode list \<Rightarrow> (nat \<Rightarrow> bool) \<Rightarrow> guard \<Rightarrow> bool" where
  "bdd_sem ns \<rho> g =
     (if g \<le> TRUE then g = TRUE
      else let k = (if \<rho> (n_variable (ns ! g)) then n_high (ns ! g) else n_low (ns ! g))
        in if k < g then bdd_sem ns \<rho> k else False)"
  by pat_completeness auto
termination
  by (relation "measure (\<lambda>(ns, \<rho>, g). g)") auto

declare bdd_sem.simps [simp del]

definition node_ok :: "cnode list \<Rightarrow> nat \<Rightarrow> bool" where
  "node_ok ns i \<longleftrightarrow> (let n = ns ! i in n_variable n < max_symbols \<and> n_low n < i \<and> n_high n < i \<and> n_low n \<noteq> n_high n \<and>
     n_variable n < n_variable (ns ! n_low n) \<and> n_variable n < n_variable (ns ! n_high n))"

definition nodes_ok :: "cnode list \<Rightarrow> bool" where
  "nodes_ok ns \<longleftrightarrow> 2 \<le> length ns \<and> ns ! 0 = terminal \<and> ns ! 1 = terminal \<and> (\<forall>i. 2 \<le> i \<longrightarrow> i < length ns \<longrightarrow> node_ok ns i) \<and>
     (\<forall>i j. 2 \<le> i \<longrightarrow> i < length ns \<longrightarrow> 2 \<le> j \<longrightarrow> j < length ns \<longrightarrow> ns ! i = ns ! j \<longrightarrow> i = j)"

definition unique_ok :: "cnode list \<Rightarrow> ((nat \<times> guard \<times> guard) \<times> guard) list \<Rightarrow> bool" where
  "unique_ok ns u \<longleftrightarrow> (\<forall>v l h i. map_of u (v, l, h) = Some i \<longleftrightarrow>
     2 \<le> i \<and> i < length ns \<and> ns ! i = \<lparr>n_variable = v, n_low = l, n_high = h\<rparr>)"

fun op_sem :: "cop \<Rightarrow> bool \<Rightarrow> bool \<Rightarrow> bool" where
  "op_sem OpAnd x y = (x \<and> y)"
| "op_sem OpOr x y = (x \<or> y)"
| "op_sem OpXor x y = (x \<noteq> y)"

definition memo_entry :: "cnode list \<Rightarrow> cop \<Rightarrow> guard \<Rightarrow> guard \<Rightarrow> guard \<Rightarrow> bool" where
  "memo_entry ns op a b i \<longleftrightarrow> a < length ns \<and> b < length ns \<and> i < length ns \<and>
     min (n_variable (ns ! a)) (n_variable (ns ! b)) \<le> n_variable (ns ! i) \<and>
     (\<forall>\<rho>. bdd_sem ns \<rho> i = op_sem op (bdd_sem ns \<rho> a) (bdd_sem ns \<rho> b))"

definition memo_ok :: "cnode list \<Rightarrow> ((cop \<times> guard \<times> guard) \<times> guard) list \<Rightarrow> bool" where
  "memo_ok ns m \<longleftrightarrow> (\<forall>op a b i. map_of m (op, a, b) = Some i \<longrightarrow> memo_entry ns op a b i)"

definition conditions_ok :: "conditions \<Rightarrow> bool" where
  "conditions_ok c \<longleftrightarrow> nodes_ok (c_nodes c) \<and> unique_ok (c_nodes c) (c_unique c) \<and>
     memo_ok (c_nodes c) (c_memo c)"

lemma bdd_sem_simps [simp]: "bdd_sem ns \<rho> 0 = False" "bdd_sem ns \<rho> (Suc 0) = True"
  by (subst bdd_sem.simps, simp)+

lemma bdd_sem_node:
  assumes "nodes_ok ns" "2 \<le> g" "g < length ns"
  shows "bdd_sem ns \<rho> g = (if \<rho> (n_variable (ns ! g)) then bdd_sem ns \<rho> (n_high (ns ! g)) else bdd_sem ns \<rho> (n_low (ns ! g)))"
  using assms by (subst bdd_sem.simps) (auto simp: nodes_ok_def node_ok_def Let_def)

lemma nodes_okD:
  assumes "nodes_ok ns" "2 \<le> g" "g < length ns"
  shows "n_variable (ns ! g) < max_symbols" "n_low (ns ! g) < g" "n_high (ns ! g) < g" "n_low (ns ! g) \<noteq> n_high (ns ! g)"
    "n_variable (ns ! g) < n_variable (ns ! n_low (ns ! g))" "n_variable (ns ! g) < n_variable (ns ! n_high (ns ! g))"
  using assms by (auto simp: nodes_ok_def node_ok_def Let_def)

lemma terminal_variable: "nodes_ok ns \<Longrightarrow> g < 2 \<Longrightarrow> n_variable (ns ! g) = max_symbols"
  by (auto simp: nodes_ok_def terminal_def less_2_cases_iff)

lemma variable_le: "nodes_ok ns \<Longrightarrow> g < length ns \<Longrightarrow> n_variable (ns ! g) \<le> max_symbols"
  using nodes_okD(1) [of ns g] terminal_variable [of ns g] by (cases "2 \<le> g") auto

text \<open>A guard depends only on its own variable and later ones.\<close>

lemma bdd_sem_agree:
  assumes "nodes_ok ns" "g < length ns" "\<And>v. n_variable (ns ! g) \<le> v \<Longrightarrow> \<rho> v = \<rho>' v"
  shows "bdd_sem ns \<rho> g = bdd_sem ns \<rho>' g"
  using assms(2,3)
proof (induction g rule: less_induct)
  case (less g)
  show ?case
  proof (cases "2 \<le> g")
    case True
    note n = nodes_okD [OF assms(1) True less.prems(1)]
    have "bdd_sem ns \<rho> (n_low (ns ! g)) = bdd_sem ns \<rho>' (n_low (ns ! g))"
      by (rule less.IH) (use n less.prems in auto)
    moreover have "bdd_sem ns \<rho> (n_high (ns ! g)) = bdd_sem ns \<rho>' (n_high (ns ! g))"
      by (rule less.IH) (use n less.prems in auto)
    ultimately show ?thesis using less.prems by (simp add: bdd_sem_node [OF assms(1) True])
  next
    case False
    then have "g = 0 \<or> g = 1" by auto
    then show ?thesis by auto
  qed
qed

lemma bdd_sem_update:
  "nodes_ok ns \<Longrightarrow> g < length ns \<Longrightarrow> v < n_variable (ns ! g) \<Longrightarrow> bdd_sem ns (\<rho>(v := x)) g = bdd_sem ns \<rho> g"
  by (rule bdd_sem_agree) auto

section \<open>Canonicity\<close>

lemma bdd_low: "nodes_ok ns \<Longrightarrow> 2 \<le> g \<Longrightarrow> g < length ns \<Longrightarrow>
  bdd_sem ns \<rho> (n_low (ns ! g)) = bdd_sem ns (\<rho>(n_variable (ns ! g) := False)) g"
  using nodes_okD [of ns g] by (simp add: bdd_sem_node [of ns g] bdd_sem_update)

lemma bdd_high: "nodes_ok ns \<Longrightarrow> 2 \<le> g \<Longrightarrow> g < length ns \<Longrightarrow>
  bdd_sem ns \<rho> (n_high (ns ! g)) = bdd_sem ns (\<rho>(n_variable (ns ! g) := True)) g"
  using nodes_okD [of ns g] by (simp add: bdd_sem_node [of ns g] bdd_sem_update)

lemma canonical_less:
  assumes ok: "nodes_ok ns" and ab: "a < b" "b < length ns" and eq: "\<And>\<rho>. bdd_sem ns \<rho> a = bdd_sem ns \<rho> b"
    and IH: "\<And>x y. x < b \<Longrightarrow> y < b \<Longrightarrow> (\<And>\<rho>. bdd_sem ns \<rho> x = bdd_sem ns \<rho> y) \<Longrightarrow> x = y"
  shows False
proof -
  have b: "2 \<le> b"
  proof (rule ccontr)
    assume "\<not> 2 \<le> b"
    with ab(1) have "a = 0" "b = 1" by auto
    with eq show False by auto
  qed
  note nb = nodes_okD [OF ok b ab(2)]
  let ?v = "n_variable (ns ! b)" and ?w = "n_variable (ns ! a)"
  have a: "a < length ns" using ab by simp
  have var_ge: "?w < max_symbols \<Longrightarrow> 2 \<le> a" using terminal_variable [OF ok, of a] by (cases "2 \<le> a") auto
  consider "?v < ?w" | "?v = ?w" | "?w < ?v" by linarith
  then show False
  proof cases
    case 1
    have L: "bdd_sem ns \<rho> (n_low (ns ! b)) = bdd_sem ns \<rho> a" "bdd_sem ns \<rho> (n_high (ns ! b)) = bdd_sem ns \<rho> a" for \<rho>
      unfolding bdd_low [OF ok b ab(2)] bdd_high [OF ok b ab(2)] eq [symmetric]
      by (rule bdd_sem_update [OF ok a 1])+
    have "n_low (ns ! b) = a" by (rule IH [OF nb(2) ab(1) L(1)])
    moreover have "n_high (ns ! b) = a" by (rule IH [OF nb(3) ab(1) L(2)])
    ultimately have "n_low (ns ! b) = n_high (ns ! b)" by simp
    with nb(4) show False by simp
  next
    case 2
    with nb(1) have a2: "2 \<le> a" using var_ge by simp
    note na = nodes_okD [OF ok a2 a]
    have L: "bdd_sem ns \<rho> (n_low (ns ! a)) = bdd_sem ns \<rho> (n_low (ns ! b))"
      "bdd_sem ns \<rho> (n_high (ns ! a)) = bdd_sem ns \<rho> (n_high (ns ! b))" for \<rho>
      unfolding bdd_low [OF ok b ab(2)] bdd_high [OF ok b ab(2)] bdd_low [OF ok a2 a] bdd_high [OF ok a2 a] eq 2 by simp_all
    have "n_low (ns ! a) = n_low (ns ! b)"
      by (rule IH [OF _ _ L(1)]) (use na(2) nb(2) ab(1) in simp_all)
    moreover have "n_high (ns ! a) = n_high (ns ! b)"
      by (rule IH [OF _ _ L(2)]) (use na(3) nb(3) ab(1) in simp_all)
    ultimately have "ns ! a = ns ! b" using 2 by (intro cnode.equality) simp_all
    with ok a2 a b ab(2) have "a = b" unfolding nodes_ok_def by blast
    with ab(1) show False by simp
  next
    case 3
    with nb(1) have a2: "2 \<le> a" using var_ge by simp
    note na = nodes_okD [OF ok a2 a]
    have L: "bdd_sem ns \<rho> (n_low (ns ! a)) = bdd_sem ns \<rho> (n_high (ns ! a))" for \<rho>
      unfolding bdd_low [OF ok a2 a] bdd_high [OF ok a2 a] eq bdd_sem_update [OF ok ab(2) 3] ..
    have "n_low (ns ! a) = n_high (ns ! a)" by (rule IH [OF _ _ L]) (use na(2,3) ab(1) in simp_all)
    with na(4) show False by simp
  qed
qed

lemma canonical:
  assumes "nodes_ok ns" "a < length ns" "b < length ns" "\<And>\<rho>. bdd_sem ns \<rho> a = bdd_sem ns \<rho> b"
  shows "a = b"
proof -
  have "\<forall>a b. a < n \<longrightarrow> b < n \<longrightarrow> (\<forall>\<rho>. bdd_sem ns \<rho> a = bdd_sem ns \<rho> b) \<longrightarrow> a = b" if "n \<le> length ns" for n
    using that
  proof (induction n)
    case (Suc n)
    then have IH: "\<And>x y. x < n \<Longrightarrow> y < n \<Longrightarrow> (\<And>\<rho>. bdd_sem ns \<rho> x = bdd_sem ns \<rho> y) \<Longrightarrow> x = y" by auto
    have top: False if "x < n" "\<And>\<rho>. bdd_sem ns \<rho> x = bdd_sem ns \<rho> n" for x
      by (rule canonical_less [OF assms(1) that(1) _ that(2)]) (use Suc.prems IH in auto)
    show ?case using IH top by (metis less_Suc_eq)
  qed simp
  with assms(2,3,4) show ?thesis by blast
qed

section \<open>Growing the table\<close>

definition extends :: "conditions \<Rightarrow> conditions \<Rightarrow> bool" where
  "extends c c' \<longleftrightarrow> (\<exists>xs. c_nodes c' = c_nodes c @ xs)"

lemma extends_refl: "extends c c"
  by (simp add: extends_def)

lemma extends_trans: "extends c d \<Longrightarrow> extends d e \<Longrightarrow> extends c e"
  by (auto simp: extends_def)

lemma extends_length: "extends c c' \<Longrightarrow> length (c_nodes c) \<le> length (c_nodes c')"
  by (auto simp: extends_def)

lemma extends_nth: "extends c c' \<Longrightarrow> g < length (c_nodes c) \<Longrightarrow> c_nodes c' ! g = c_nodes c ! g"
  by (auto simp: extends_def nth_append)

lemma bdd_sem_append: "g < length ns \<Longrightarrow> bdd_sem (ns @ xs) \<rho> g = bdd_sem ns \<rho> g"
proof (induction g rule: less_induct)
  case (less g)
  then show ?case
    by (subst bdd_sem.simps, subst (2) bdd_sem.simps) (auto simp: nth_append Let_def)
qed

lemma extends_sem: "extends c c' \<Longrightarrow> g < length (c_nodes c) \<Longrightarrow> bdd_sem (c_nodes c') \<rho> g = bdd_sem (c_nodes c) \<rho> g"
  by (auto simp: extends_def bdd_sem_append)

lemma nodes_ok_append:
  assumes "nodes_ok ns" "v < max_symbols" "l < length ns" "h < length ns" "l \<noteq> h"
    "v < n_variable (ns ! l)" "v < n_variable (ns ! h)"
    and new: "\<And>i. 2 \<le> i \<Longrightarrow> i < length ns \<Longrightarrow> ns ! i \<noteq> \<lparr>n_variable = v, n_low = l, n_high = h\<rparr>"
  shows "nodes_ok (ns @ [\<lparr>n_variable = v, n_low = l, n_high = h\<rparr>])"
proof -
  let ?n = "\<lparr>n_variable = v, n_low = l, n_high = h\<rparr>" and ?ns = "ns @ [\<lparr>n_variable = v, n_low = l, n_high = h\<rparr>]"
  have len: "2 \<le> length ns" "ns ! 0 = terminal" "ns ! 1 = terminal" using assms(1) by (auto simp: nodes_ok_def)
  have "node_ok ?ns i" if "2 \<le> i" "i < length ?ns" for i
  proof (cases "i = length ns")
    case True
    with assms show ?thesis by (simp add: node_ok_def nth_append)
  next
    case False
    with that have "i < length ns" by simp
    with nodes_okD [OF assms(1) that(1) this] show ?thesis by (simp add: node_ok_def nth_append)
  qed
  moreover have "i = j" if "2 \<le> i" "i < length ?ns" "2 \<le> j" "j < length ?ns" "?ns ! i = ?ns ! j" for i j
    using that assms(1) new by (auto simp: nth_append nodes_ok_def less_Suc_eq split: if_splits)
  ultimately show ?thesis using len unfolding nodes_ok_def by (auto simp: nth_append)
qed

lemma memo_entry_append: "memo_entry ns op a b i \<Longrightarrow> memo_entry (ns @ xs) op a b i"
  by (simp add: memo_entry_def nth_append bdd_sem_append)

lemma memo_ok_append: "memo_ok ns m \<Longrightarrow> memo_ok (ns @ xs) m"
  unfolding memo_ok_def using memo_entry_append by blast

text \<open>What every operation promises: tables stay sound, no guard changes its meaning.\<close>

definition guard_ok :: "conditions \<Rightarrow> guard \<Rightarrow> bool" where
  "guard_ok c g \<longleftrightarrow> g < length (c_nodes c)"

lemma mk_node_correct:
  assumes "conditions_ok c" "guard_ok c low" "guard_ok c high" "variable < max_symbols"
    and "variable < n_variable (c_nodes c ! low)" "variable < n_variable (c_nodes c ! high)"
    and "mk_node variable low high c = Inr (g, c')"
  shows "conditions_ok c' \<and> extends c c' \<and> guard_ok c' g \<and> c_work c' = c_work c \<and> c_symbols c' = c_symbols c \<and>
    variable \<le> n_variable (c_nodes c' ! g) \<and>
    (\<forall>\<rho>. bdd_sem (c_nodes c') \<rho> g = (if \<rho> variable then bdd_sem (c_nodes c) \<rho> high else bdd_sem (c_nodes c) \<rho> low))"
proof (cases "low = high")
  case True
  with assms show ?thesis by (auto simp: mk_node_def extends_refl)
next
  case False
  let ?n = "\<lparr>n_variable = variable, n_low = low, n_high = high\<rparr>"
  have ok: "nodes_ok (c_nodes c)" "unique_ok (c_nodes c) (c_unique c)" using assms(1) by (auto simp: conditions_ok_def)
  show ?thesis
  proof (cases "map_of (c_unique c) (variable, low, high)")
    case (Some i)
    with ok(2) have i: "2 \<le> i" "i < length (c_nodes c)" "c_nodes c ! i = ?n" by (auto simp: unique_ok_def)
    from Some False assms(7) have "g = i" "c' = c" by (auto simp: mk_node_def)
    with i assms(1) show ?thesis by (auto simp: guard_ok_def extends_refl bdd_sem_node [OF ok(1) i(1,2)])
  next
    case None
    let ?ns = "c_nodes c @ [?n]"
    from None False assms(7) have g: "g = length (c_nodes c)"
      and c': "c' = c\<lparr>c_nodes := ?ns, c_unique := AList.update (variable, low, high) g (c_unique c)\<rparr>"
      by (auto simp: mk_node_def)
    have new: "c_nodes c ! i \<noteq> ?n" if "2 \<le> i" "i < length (c_nodes c)" for i
      using None ok(2) that unfolding unique_ok_def by (metis option.distinct(1))
    have nok: "nodes_ok ?ns"
      by (rule nodes_ok_append) (use assms False ok new in \<open>auto simp: guard_ok_def\<close>)
    have "unique_ok ?ns (AList.update (variable, low, high) g (c_unique c))"
    proof -
      have len: "2 \<le> length (c_nodes c)" using ok(1) by (simp add: nodes_ok_def)
      show ?thesis using ok(2) new len unfolding unique_ok_def g
        by (auto simp: update_conv' nth_append split: if_splits)
    qed
    moreover have "memo_ok ?ns (c_memo c)"
      using assms(1) by (auto simp: conditions_ok_def intro: memo_ok_append)
    ultimately have "conditions_ok c'" using nok c' by (simp add: conditions_ok_def)
    moreover have "bdd_sem ?ns \<rho> g = (if \<rho> variable then bdd_sem (c_nodes c) \<rho> high else bdd_sem (c_nodes c) \<rho> low)" for \<rho>
    proof -
      have "2 \<le> g" "g < length ?ns" using ok(1) g by (auto simp: nodes_ok_def)
      from bdd_sem_node [OF nok this] show ?thesis
        using assms(2,3) g by (simp add: bdd_sem_append guard_ok_def)
    qed
    ultimately show ?thesis using c' g by (simp add: extends_def guard_ok_def)
  qed
qed

section \<open>Applying an operation\<close>

lemma shortcut_correct:
  assumes "shortcut op a b = Some g" "a \<le> b"
  shows "(g = a \<or> g = b \<or> g < 2) \<and> bdd_sem ns \<rho> g = op_sem op (bdd_sem ns \<rho> a) (bdd_sem ns \<rho> b)"
  using assms by (cases op) (auto simp: shortcut_def split: if_splits)

lemma op_sem_commute: "op_sem op x y = op_sem op y x"
  by (cases op) auto

lemma op_sem_min_max:
  "op_sem op (bdd_sem ns \<rho> (min a b)) (bdd_sem ns \<rho> (max a b)) = op_sem op (bdd_sem ns \<rho> a) (bdd_sem ns \<rho> b)"
  using op_sem_commute by (auto simp: min_def max_def)

definition applied :: "cop \<Rightarrow> guard \<Rightarrow> guard \<Rightarrow> conditions \<Rightarrow> guard \<Rightarrow> conditions \<Rightarrow> bool" where
  "applied op a b c g c' \<longleftrightarrow> conditions_ok c' \<and> extends c c' \<and> guard_ok c' g \<and> c_work c < c_work c' \<and>
     c_symbols c' = c_symbols c \<and>
     min (n_variable (c_nodes c ! a)) (n_variable (c_nodes c ! b)) \<le> n_variable (c_nodes c' ! g) \<and>
     (\<forall>\<rho>. bdd_sem (c_nodes c') \<rho> g = op_sem op (bdd_sem (c_nodes c) \<rho> a) (bdd_sem (c_nodes c) \<rho> b))"

lemma cofactors_correct:
  assumes "nodes_ok (c_nodes c)" "guard_ok c g" "v \<le> n_variable (c_nodes c ! g)" "v < max_symbols"
    and "cofactors c v g = (l, h)"
  shows "guard_ok c l \<and> guard_ok c h \<and> v < n_variable (c_nodes c ! l) \<and> v < n_variable (c_nodes c ! h) \<and>
    (\<forall>\<rho>. bdd_sem (c_nodes c) \<rho> g = (if \<rho> v then bdd_sem (c_nodes c) \<rho> h else bdd_sem (c_nodes c) \<rho> l))"
proof (cases "n_variable (c_nodes c ! g) = v")
  case True
  with assms(1,4) have g: "2 \<le> g" "g < length (c_nodes c)"
    using terminal_variable [of "c_nodes c" g] assms(2) by (cases "2 \<le> g", auto simp: guard_ok_def)
  from nodes_okD [OF assms(1) g] bdd_sem_node [OF assms(1) g] True assms(5) g show ?thesis
    by (auto simp: cofactors_def guard_ok_def Let_def)
next
  case False
  with assms show ?thesis by (auto simp: cofactors_def Let_def)
qed

lemma shortcut_None: "shortcut op a b = None \<Longrightarrow> a \<le> b \<Longrightarrow> 2 \<le> b"
  by (cases op) (auto simp: shortcut_def split: if_splits)

lemma top_variable_less:
  assumes "nodes_ok (c_nodes c)" "guard_ok c b" "2 \<le> b"
  shows "top_variable c a b < max_symbols"
  using nodes_okD(1) [OF assms(1,3)] assms(2) by (auto simp: top_variable_def guard_ok_def)

lemma remember_ok:
  assumes "conditions_ok c" "memo_entry (c_nodes c) op a b g"
  shows "conditions_ok (remember op a b g c)" "c_nodes (remember op a b g c) = c_nodes c"
    "c_work (remember op a b g c) = c_work c" "c_symbols (remember op a b g c) = c_symbols c"
  using assms by (auto simp: conditions_ok_def remember_def memo_ok_def update_conv')

text \<open>One step of the recursion: from the results of the two cofactors to the result.\<close>

lemma apply_combine:
  assumes c: "conditions_ok c" "guard_ok c a" "guard_ok c b" "a \<le> b" "2 \<le> b"
    and fa: "cofactors c (top_variable c a b) a = (al, ah)" and fb: "cofactors c (top_variable c a b) b = (bl, bh)"
    and low: "applied op al bl c low c1" and high: "applied op ah bh c1 high c2"
    and node: "mk_node (top_variable c a b) low high c2 = Inr (g, c3)"
  shows "applied op a b c g (remember op a b g c3)"
proof -
  let ?v = "top_variable c a b"
  have ns: "nodes_ok (c_nodes c)" using c(1) by (simp add: conditions_ok_def)
  have v: "?v < max_symbols" by (rule top_variable_less [OF ns c(3,5)])
  have va: "?v \<le> n_variable (c_nodes c ! a)" "?v \<le> n_variable (c_nodes c ! b)" by (simp_all add: top_variable_def)
  note A = cofactors_correct [OF ns c(2) va(1) v fa] and B = cofactors_correct [OF ns c(3) va(2) v fb]
  note L = low [unfolded applied_def] and H = high [unfolded applied_def]
  have e02: "extends c c2" using L H extends_trans by blast
  have low2: "guard_ok c2 low" "n_variable (c_nodes c2 ! low) = n_variable (c_nodes c1 ! low)"
    using L H extends_length [of c1 c2] extends_nth [of c1 c2 low] by (auto simp: guard_ok_def)
  have nth1: "c_nodes c1 ! ah = c_nodes c ! ah" "c_nodes c1 ! bh = c_nodes c ! bh"
    using A B L extends_nth [of c c1] by (auto simp: guard_ok_def)
  have N: "conditions_ok c3 \<and> extends c2 c3 \<and> guard_ok c3 g \<and> c_work c3 = c_work c2 \<and> c_symbols c3 = c_symbols c2 \<and>
      ?v \<le> n_variable (c_nodes c3 ! g) \<and>
      (\<forall>\<rho>. bdd_sem (c_nodes c3) \<rho> g = (if \<rho> ?v then bdd_sem (c_nodes c2) \<rho> high else bdd_sem (c_nodes c2) \<rho> low))"
  proof (rule mk_node_correct [OF _ _ _ v _ _ node])
    show "conditions_ok c2" "guard_ok c2 low" "guard_ok c2 high" using H low2 by auto
    show "?v < n_variable (c_nodes c2 ! low)" using A B L low2 by (auto simp: min_def split: if_splits)
    show "?v < n_variable (c_nodes c2 ! high)" using A B H nth1 by (auto simp: min_def split: if_splits)
  qed
  have e03: "extends c c3" using e02 N extends_trans by blast
  have sem: "bdd_sem (c_nodes c3) \<rho> g = op_sem op (bdd_sem (c_nodes c) \<rho> a) (bdd_sem (c_nodes c) \<rho> b)" for \<rho>
  proof -
    have "bdd_sem (c_nodes c2) \<rho> low = op_sem op (bdd_sem (c_nodes c) \<rho> al) (bdd_sem (c_nodes c) \<rho> bl)"
      using L H extends_sem [of c1 c2 low \<rho>] by (simp add: guard_ok_def)
    moreover have "bdd_sem (c_nodes c2) \<rho> high = op_sem op (bdd_sem (c_nodes c) \<rho> ah) (bdd_sem (c_nodes c) \<rho> bh)"
      using L H A B extends_sem [of c c1 _ \<rho>] by (simp add: guard_ok_def)
    ultimately show ?thesis using N A B by auto
  qed
  have entry: "memo_entry (c_nodes c3) op a b g"
    using N c(2,3) e03 extends_length [OF e03] sem extends_sem [OF e03] extends_nth [OF e03]
    by (auto simp: memo_entry_def guard_ok_def top_variable_def)
  have "conditions_ok c3" using N by simp
  note R = remember_ok [OF this entry]
  have "c_work c < c_work c3" using L H N by auto
  then show ?thesis unfolding applied_def
    using R N L H e03 sem by (auto simp: extends_def guard_ok_def top_variable_def)
qed

lemma apply_op_correct:
  assumes "conditions_ok c" "guard_ok c a" "guard_ok c b"
  shows "case apply_op op a b c of Inl e \<Rightarrow> e \<noteq> Panic \<and> e \<noteq> Stuck | Inr (g, c') \<Rightarrow> applied op a b c g c'"
  using assms
proof (induction op a b c rule: apply_op.induct)
  case (1 op a0 b0 c0)
  define c where "c = c0\<lparr>c_work := c_work c0 + 1\<rparr>"
  define a where "a = min a0 b0"
  define b where "b = max a0 b0"
  have c: "conditions_ok c" "c_nodes c = c_nodes c0" "c_work c = c_work c0 + 1" "c_symbols c = c_symbols c0" "c_memo c = c_memo c0"
    using "1.prems"(1) by (auto simp: c_def conditions_ok_def)
  have ab: "guard_ok c a" "guard_ok c b" "a \<le> b" using "1.prems" c by (auto simp: a_def b_def guard_ok_def)
  have mm: "min (n_variable (c_nodes c0 ! a)) (n_variable (c_nodes c0 ! b)) = min (n_variable (c_nodes c0 ! a0)) (n_variable (c_nodes c0 ! b0))"
    by (simp add: a_def b_def min_def max_def)
  have to0: "applied op a0 b0 c0 g c'" if "applied op a b c g c'" for g c'
    using that c mm op_sem_min_max [of op "c_nodes c0" _ a0 b0] by (auto simp: applied_def extends_def a_def b_def)
  have fin: "applied op a0 b0 c0 g c" if "guard_ok c g" "min (n_variable (c_nodes c ! a)) (n_variable (c_nodes c ! b)) \<le> n_variable (c_nodes c ! g)"
    "\<And>\<rho>. bdd_sem (c_nodes c) \<rho> g = op_sem op (bdd_sem (c_nodes c) \<rho> a) (bdd_sem (c_nodes c) \<rho> b)" for g
    using that c mm op_sem_min_max [of op "c_nodes c0" _ a0 b0] by (simp add: applied_def extends_def a_def b_def)
  note unfold = apply_op.simps [of op a0 b0 c0, unfolded Let_def, folded a_def b_def c_def]
  show ?case
  proof (cases "c_work c0 + 1 \<le> max_operations")
    case False
    then show ?thesis by (subst unfold) simp
  next
    case work: True
    show ?thesis
    proof (cases "shortcut op a b")
      case (Some g)
      have "guard_ok c g" "min (n_variable (c_nodes c ! a)) (n_variable (c_nodes c ! b)) \<le> n_variable (c_nodes c ! g)"
      proof -
        have ns: "nodes_ok (c_nodes c)" using c by (simp add: conditions_ok_def)
        from shortcut_correct [OF Some ab(3)] have "g = a \<or> g = b \<or> g < 2" by blast
        then show "guard_ok c g" using ab ns by (auto simp: guard_ok_def nodes_ok_def)
        from \<open>g = a \<or> g = b \<or> g < 2\<close> show "min (n_variable (c_nodes c ! a)) (n_variable (c_nodes c ! b)) \<le> n_variable (c_nodes c ! g)"
          using terminal_variable [OF ns, of g] variable_le [OF ns, of a] ab(1) by (auto simp: guard_ok_def)
      qed
      from fin [OF this] shortcut_correct [OF Some ab(3)] work Some show ?thesis by (subst unfold) simp
    next
      case nos: None
      have b2: "2 \<le> b" by (rule shortcut_None [OF nos ab(3)])
      show ?thesis
      proof (cases "map_of (c_memo c) (op, a, b)")
        case (Some i)
        with c(1) have "memo_entry (c_nodes c) op a b i" by (auto simp: conditions_ok_def memo_ok_def)
        then have "applied op a0 b0 c0 i c" by (intro fin) (auto simp: memo_entry_def guard_ok_def)
        with work nos Some show ?thesis by (subst unfold) simp
      next
        case nom: None
        have inb: "b < length (c_nodes c)" using ab(2) by (simp add: guard_ok_def)
        obtain al ah where fa: "cofactors c (top_variable c a b) a = (al, ah)" by force
        obtain bl bh where fb: "cofactors c (top_variable c a b) b = (bl, bh)" by force
        have ns: "nodes_ok (c_nodes c)" using c by (simp add: conditions_ok_def)
        have v: "top_variable c a b < max_symbols" by (rule top_variable_less [OF ns ab(2) b2])
        have A: "guard_ok c al" "guard_ok c ah"
          using cofactors_correct [OF ns ab(1) _ v fa] by (auto simp: top_variable_def)
        have B: "guard_ok c bl" "guard_ok c bh"
          using cofactors_correct [OF ns ab(2) _ v fb] by (auto simp: top_variable_def)
        have IH1: "case apply_op op al bl c of Inl e \<Rightarrow> e \<noteq> Panic \<and> e \<noteq> Stuck | Inr (g, c') \<Rightarrow> applied op al bl c g c'"
          using "1.IH"(1) [OF c_def a_def b_def work nos nom inb, unfolded fa fb fst_conv] A B c(1) by blast
        show ?thesis
        proof (cases "apply_op op al bl c")
          case (Inl e)
          with IH1 work nos nom inb fa fb show ?thesis by (subst unfold) simp
        next
          case (Inr p1)
          obtain low c1 where p1: "p1 = (low, c1)" by force
          with IH1 Inr have low: "applied op al bl c low c1" by simp
          then have w1: "c_work c0 < c_work c1" and ok1: "conditions_ok c1" and e1: "extends c c1"
            using c by (auto simp: applied_def)
          have IH2: "case apply_op op ah bh c1 of Inl e \<Rightarrow> e \<noteq> Panic \<and> e \<noteq> Stuck | Inr (g, c') \<Rightarrow> applied op ah bh c1 g c'"
            using "1.IH"(2) [OF c_def a_def b_def work nos nom inb, unfolded fa fb fst_conv snd_conv, OF _ _ w1]
              Inr p1 A B ok1 extends_length [OF e1]
            unfolding guard_ok_def by (metis order_less_le_trans)
          show ?thesis
          proof (cases "apply_op op ah bh c1")
            case Inl2: (Inl e)
            with IH2 Inr p1 w1 work nos nom inb fa fb show ?thesis by (subst unfold) (simp add: worked_def)
          next
            case Inr2: (Inr p2)
            obtain high c2 where p2: "p2 = (high, c2)" by force
            with IH2 Inr2 have high: "applied op ah bh c1 high c2" by simp
            show ?thesis
            proof (cases "mk_node (top_variable c a b) low high c2")
              case Inl3: (Inl e)
              then have "e = NodeLimit" by (auto simp: mk_node_def ensureE_def split: if_splits option.splits)
              with Inl3 Inr2 p2 Inr p1 w1 work nos nom inb fa fb show ?thesis by (subst unfold) (simp add: worked_def)
            next
              case Inr3: (Inr p3)
              obtain g c3 where p3: "p3 = (g, c3)" by force
              have "applied op a b c g (remember op a b g c3)"
                by (rule apply_combine [OF c(1) ab b2 fa fb low high]) (use Inr3 p3 in simp)
              from to0 [OF this] Inr3 p3 Inr2 p2 Inr p1 w1 work nos nom inb fa fb show ?thesis
                by (subst unfold) (simp add: worked_def)
            qed
          qed
        qed
      qed
    qed
  qed
qed

section \<open>Satisfiability\<close>

lemma sem_False: "conditions_ok c \<Longrightarrow> guard_ok c g \<Longrightarrow> (\<forall>\<rho>. \<not> bdd_sem (c_nodes c) \<rho> g) \<longleftrightarrow> g = FALSE"
proof
  assume c: "conditions_ok c" "guard_ok c g" "\<forall>\<rho>. \<not> bdd_sem (c_nodes c) \<rho> g"
  show "g = FALSE"
    by (rule canonical [of "c_nodes c"]) (use c in \<open>auto simp: conditions_ok_def nodes_ok_def guard_ok_def\<close>)
qed simp

lemma true_ok: "conditions_ok c \<Longrightarrow> guard_ok c TRUE" "conditions_ok c \<Longrightarrow> guard_ok c FALSE"
  by (auto simp: conditions_ok_def nodes_ok_def guard_ok_def)

lemma apply_op_Inr:
  assumes "conditions_ok c" "guard_ok c a" "guard_ok c b" "apply_op op a b c = Inr (g, c')"
  shows "applied op a b c g c'"
  using apply_op_correct [OF assms(1-3), of op] assms(4) by simp

lemma conditions_default_ok: "conditions_ok conditions_default"
  by (auto simp: conditions_ok_def conditions_default_def nodes_ok_def unique_ok_def memo_ok_def)

text \<open>
  C36: an operation on guards computes the operation on the environments they denote, in every
  environment, keeps the tables ordered, reduced, shared and the cache sound, changes the meaning
  of no older guard, and never leaves the table or runs on without progress.
\<close>

theorem apply_op_meaning:
  assumes "conditions_ok c" "guard_ok c a" "guard_ok c b"
  shows "(case apply_op op a b c of
      Inl e \<Rightarrow> e \<noteq> Panic \<and> e \<noteq> Stuck
    | Inr (g, c') \<Rightarrow> conditions_ok c' \<and> guard_ok c' g \<and>
        (\<forall>\<rho>. bdd_sem (c_nodes c') \<rho> g = op_sem op (bdd_sem (c_nodes c) \<rho> a) (bdd_sem (c_nodes c) \<rho> b)) \<and>
        (\<forall>h \<rho>. h < length (c_nodes c) \<longrightarrow> bdd_sem (c_nodes c') \<rho> h = bdd_sem (c_nodes c) \<rho> h))"
  using apply_op_correct [OF assms, of op]
  by (auto simp: applied_def extends_sem split: sum.splits)

theorem apply_op_meaning_witness:
  "(case apply_op OpXor 0 1 conditions_default of
      Inl e \<Rightarrow> e \<noteq> Panic \<and> e \<noteq> Stuck
    | Inr (g, c') \<Rightarrow> conditions_ok c' \<and> guard_ok c' g)"
  using apply_op_meaning [OF conditions_default_ok true_ok(2) true_ok(1), OF conditions_default_ok conditions_default_ok, of OpXor]
  by (auto split: sum.splits)

text \<open>The loops of \<open>value\<close> and \<open>witness\<close> walk down the diagram.\<close>

lemma value_loop_correct:
  assumes "nodes_ok ns"
  shows "g < length ns \<Longrightarrow> value_loop ns values g = Some (bdd_sem ns (\<lambda>v. values ! v) g)"
proof (induction g rule: less_induct)
  case (less g)
  show ?case
  proof (cases "2 \<le> g")
    case True
    note n = nodes_okD [OF assms True less.prems]
    show ?thesis
      using less.IH [OF n(2)] less.IH [OF n(3)] n less.prems True
      by (subst value_loop.simps) (simp add: bdd_sem_node [OF assms True less.prems])
  next
    case False
    then have "g = 0 \<or> g = 1" by auto
    then show ?thesis by (subst value_loop.simps) auto
  qed
qed

lemma witness_loop_correct:
  assumes "nodes_ok ns"
  shows "g < length ns \<Longrightarrow> g \<noteq> FALSE \<Longrightarrow> length values = max_symbols \<Longrightarrow>
    \<exists>values'. witness_loop ns prefer g values = Some values' \<and> length values' = max_symbols \<and>
      (\<forall>v<n_variable (ns ! g). values' ! v = values ! v) \<and> bdd_sem ns (\<lambda>v. values' ! v) g"
proof (induction g arbitrary: "values" rule: less_induct)
  case (less g)
  show ?case
  proof (cases "2 \<le> g")
    case True
    note n = nodes_okD [OF assms True less.prems(1)]
    let ?n = "ns ! g"
    define yes where "yes = (if prefer then n_high ?n \<noteq> FALSE else n_low ?n = FALSE)"
    define k where "k = (if yes then n_high ?n else n_low ?n)"
    have k: "k < g" "k \<noteq> FALSE" "n_variable ?n < n_variable (ns ! k)"
      using n by (auto simp: k_def yes_def)
    have "\<exists>values'. witness_loop ns prefer k (values[n_variable ?n := yes]) = Some values' \<and> length values' = max_symbols \<and>
      (\<forall>v<n_variable (ns ! k). values' ! v = values[n_variable ?n := yes] ! v) \<and> bdd_sem ns (\<lambda>v. values' ! v) k"
      by (rule less.IH) (use k less.prems in auto)
    then obtain values' where w: "witness_loop ns prefer k (values[n_variable ?n := yes]) = Some values'"
      "length values' = max_symbols" "\<forall>v<n_variable (ns ! k). values' ! v = values[n_variable ?n := yes] ! v"
      "bdd_sem ns (\<lambda>v. values' ! v) k" by blast
    have y: "values' ! n_variable ?n = yes" using w(3) k(3) n(1) less.prems(3) by simp
    have "\<forall>v<n_variable ?n. values' ! v = values ! v" using w(3) k(3) by auto
    moreover have "bdd_sem ns (\<lambda>v. values' ! v) g"
      using w(4) y by (cases yes) (simp_all add: bdd_sem_node [OF assms True less.prems(1)] k_def)
    moreover have "witness_loop ns prefer g values = Some values'"
      using True w(1) by (subst witness_loop.simps) (simp add: Let_def yes_def k_def)
    ultimately show ?thesis using w(2) by blast
  next
    case False
    with less.prems have "g = 1" by auto
    with less.prems show ?thesis by (subst witness_loop.simps) auto
  qed
qed

text \<open>
  Every guard but \<open>FALSE\<close> has an environment: \<open>witness\<close> returns one, whichever value it
  prefers for free symbols, and \<open>value\<close> confirms it.
\<close>

lemma cond_witness_satisfies:
  assumes "conditions_ok c" "guard_ok c g" "g \<noteq> FALSE"
  shows "\<exists>values. cond_witness c g prefer = Some values \<and> length values = max_symbols \<and>
    cond_value c g values = Some True"
proof -
  have ns: "nodes_ok (c_nodes c)" using assms(1) by (simp add: conditions_ok_def)
  have "\<exists>values'. witness_loop (c_nodes c) prefer g (replicate max_symbols prefer) = Some values' \<and>
      length values' = max_symbols \<and>
      (\<forall>v<n_variable (c_nodes c ! g). values' ! v = replicate max_symbols prefer ! v) \<and>
      bdd_sem (c_nodes c) (\<lambda>v. values' ! v) g"
    by (rule witness_loop_correct [OF ns]) (use assms in \<open>simp_all add: guard_ok_def\<close>)
  then show ?thesis
    using value_loop_correct [OF ns, of g] assms(2)
    by (auto simp: cond_witness_def cond_value_def guard_ok_def)
qed

theorem cond_witness_satisfies_witness:
  "\<exists>values. cond_witness conditions_default 1 True = Some values \<and> length values = max_symbols \<and>
    cond_value conditions_default 1 values = Some True"
  by (rule cond_witness_satisfies [OF conditions_default_ok true_ok(1) [OF conditions_default_ok]]) simp

section \<open>Coverage\<close>

definition coverage_ok :: "coverage \<Rightarrow> bool" where
  "coverage_ok cov \<longleftrightarrow> conditions_ok (cov_conditions cov) \<and> guard_ok (cov_conditions cov) (cov_covered cov)"

lemma node_key_iff: "node_key n = (v, l, h) \<longleftrightarrow> n = \<lparr>n_variable = v, n_low = l, n_high = h\<rparr>"
  by (cases n) (auto simp: node_key_def)

lemma rebuilt_unique:
  assumes "nodes_ok ns" "2 \<le> k" "k \<le> length ns"
  shows "map_of (fold (\<lambda>i m. AList.update (node_key (ns ! i)) i m) [2..<k] []) (v, l, h) = Some i \<longleftrightarrow>
    2 \<le> i \<and> i < k \<and> ns ! i = \<lparr>n_variable = v, n_low = l, n_high = h\<rparr>"
  using assms(2,3)
proof (induction k rule: dec_induct)
  case (step k)
  have "i = k" if "ns ! i = ns ! k" "2 \<le> i" "i < k" for i
    using assms(1) that step unfolding nodes_ok_def by (metis Suc_le_lessD order_less_trans)
  then show ?case
    using step by (auto simp: update_conv' node_key_iff fun_upd_def less_Suc_eq) (metis node_key_iff)+
qed simp

lemma coverage_of_ok: "conditions_ok c \<Longrightarrow> coverage_ok (coverage_of (cond_finish c))"
proof -
  assume c: "conditions_ok c"
  then have ns: "nodes_ok (c_nodes c)" "c_nodes c \<noteq> []" by (auto simp: conditions_ok_def nodes_ok_def)
  have "unique_ok (c_nodes c) (fold (\<lambda>i m. AList.update (node_key (c_nodes c ! i)) i m) [2..<length (c_nodes c)] [])"
    unfolding unique_ok_def using rebuilt_unique [OF ns(1), of "length (c_nodes c)"] ns by (auto simp: nodes_ok_def)
  with ns show ?thesis
    by (auto simp: coverage_ok_def coverage_of_def cond_finish_def conditions_ok_def conditions_default_def memo_ok_def
        guard_ok_def nodes_ok_def)
qed

text \<open>The environments covered so far.\<close>

definition covers :: "coverage \<Rightarrow> (nat \<Rightarrow> bool) \<Rightarrow> bool" where
  "covers cov \<rho> \<longleftrightarrow> bdd_sem (c_nodes (cov_conditions cov)) \<rho> (cov_covered cov)"

definition denotes :: "coverage \<Rightarrow> guard \<Rightarrow> (nat \<Rightarrow> bool) \<Rightarrow> bool" where
  "denotes cov g \<rho> \<longleftrightarrow> bdd_sem (c_nodes (cov_conditions cov)) \<rho> g"

lemma uncovered_correct:
  assumes "coverage_ok cov" "guard_ok (cov_conditions cov) g" "uncovered g cov = Inr (b, cov')"
  shows "(b \<longleftrightarrow> (\<exists>\<rho>. denotes cov g \<rho> \<and> \<not> covers cov \<rho>)) \<and> coverage_ok cov' \<and>
    extends (cov_conditions cov) (cov_conditions cov') \<and> cov_covered cov' = cov_covered cov"
proof -
  let ?c = "cov_conditions cov"
  have c: "conditions_ok ?c" "guard_ok ?c (cov_covered cov)" using assms(1) by (auto simp: coverage_ok_def)
  from assms(3) obtain remaining c1 r c2 where
    n: "cond_not (cov_covered cov) ?c = Inr (remaining, c1)" and a: "cond_and g remaining c1 = Inr (r, c2)"
    and b: "b = (r \<noteq> FALSE)" "cov' = cov\<lparr>cov_conditions := c2\<rparr>"
    by (auto simp: uncovered_def)
  have N: "applied OpXor (cov_covered cov) TRUE ?c remaining c1"
    by (rule apply_op_Inr [OF c true_ok(1) [OF c(1)]]) (use n in \<open>simp add: cond_not_def\<close>)
  have g1: "guard_ok c1 g" using N assms(2) extends_length [of ?c c1] by (auto simp: applied_def guard_ok_def)
  have A: "applied OpAnd g remaining c1 r c2"
    by (rule apply_op_Inr [OF _ g1]) (use N a in \<open>auto simp: applied_def cond_and_def\<close>)
  have "bdd_sem (c_nodes c2) \<rho> r = (denotes cov g \<rho> \<and> \<not> covers cov \<rho>)" for \<rho>
    using A N assms(2) extends_sem [of ?c c1 g \<rho>]
    by (auto simp: applied_def denotes_def covers_def guard_ok_def)
  moreover have "(\<forall>\<rho>. \<not> bdd_sem (c_nodes c2) \<rho> r) \<longleftrightarrow> r = FALSE"
    by (rule sem_False) (use A in \<open>auto simp: applied_def\<close>)
  ultimately have "b \<longleftrightarrow> (\<exists>\<rho>. denotes cov g \<rho> \<and> \<not> covers cov \<rho>)" using b by auto
  moreover have e: "extends ?c c2" using A N extends_trans by (auto simp: applied_def)
  moreover have "guard_ok c2 (cov_covered cov)" using c(2) extends_length [OF e] by (auto simp: guard_ok_def)
  ultimately show ?thesis using b A by (simp add: coverage_ok_def applied_def)
qed

text \<open>
  A guard is reported uncovered exactly when some environment satisfies it and none of the
  guards added so far, and the question changes neither the covered set nor any guard.
\<close>

lemma uncovered_meaning:
  assumes "coverage_ok cov" "guard_ok (cov_conditions cov) g" "uncovered g cov = Inr (b, cov')"
  shows "(b \<longleftrightarrow> (\<exists>\<rho>. denotes cov g \<rho> \<and> \<not> covers cov \<rho>)) \<and> coverage_ok cov' \<and> covers cov' = covers cov \<and>
    (\<forall>h. guard_ok (cov_conditions cov) h \<longrightarrow> denotes cov' h = denotes cov h)"
  using uncovered_correct [OF assms] assms(1)
  by (auto simp: covers_def denotes_def fun_eq_iff coverage_ok_def guard_ok_def extends_sem)

theorem uncovered_meaning_witness:
  "True \<longleftrightarrow> (\<exists>\<rho>. denotes (coverage_of presence_default) 1 \<rho> \<and> \<not> covers (coverage_of presence_default) \<rho>)"
proof -
  let ?cov = "coverage_of presence_default"
  have cov: "?cov = \<lparr>cov_conditions = conditions_default, cov_covered = 0\<rparr>"
    by (simp add: coverage_of_def presence_default_def)
  have "\<exists>cov'. uncovered 1 ?cov = Inr (True, cov')"
    unfolding cov by (simp add: uncovered_def cond_not_def cond_and_def apply_op.simps shortcut_def conditions_default_def
        max_operations_def)
  then obtain cov' where "uncovered 1 ?cov = Inr (True, cov')" by blast
  with uncovered_meaning [of ?cov 1 True cov'] conditions_default_ok true_ok [OF conditions_default_ok] show ?thesis
    by (auto simp: cov coverage_ok_def)
qed

lemma cov_add_correct:
  assumes "coverage_ok cov" "guard_ok (cov_conditions cov) g" "cov_add g cov = Inr cov'"
  shows "coverage_ok cov' \<and> extends (cov_conditions cov) (cov_conditions cov') \<and>
    (\<forall>\<rho>. covers cov' \<rho> \<longleftrightarrow> covers cov \<rho> \<or> denotes cov g \<rho>)"
proof -
  from assms(3) obtain g' c where o: "cond_or (cov_covered cov) g (cov_conditions cov) = Inr (g', c)"
    and c': "cov' = \<lparr>cov_conditions = c, cov_covered = g'\<rparr>" by (auto simp: cov_add_def)
  have "applied OpOr (cov_covered cov) g (cov_conditions cov) g' c"
    by (rule apply_op_Inr) (use assms o in \<open>auto simp: coverage_ok_def cond_or_def\<close>)
  then show ?thesis using c' by (auto simp: applied_def coverage_ok_def covers_def denotes_def)
qed

end
