(* ===== verification/CSharp_Types.thy ===== *)
theory CSharp_Types
  imports Text
begin

text \<open>
  The types of \<^verbatim>\<open>src/src/csharp/types.rs\<close>: written and semantic types, the primitive types with
  their names and implicit numeric conversions, integer literals, and the bounded simultaneous
  substitution of type parameters. A budget is threaded as the code threads its \<^verbatim>\<open>&mut usize\<close>:
  a failed substitution leaves what it has not spent.
\<close>

section \<open>Written and semantic types\<close>

record definition_id =
  di_context :: str
  di_key :: str

record parameter_id =
  pi_owner :: definition_id
  pi_ordinal :: nat

datatype written_type =
    WMetadataParameter bool nat
  | WExternal str written_type
  | WName "str option" "(str \<times> written_type list) list"
  | WParameter parameter_id
  | WArray written_type nat
  | WPointer written_type
  | WNullable written_type
  | WTuple "(written_type \<times> str option) list"
  | WDynamic
  | WInferred
  | WUnsupported str

datatype primitive = PVoid | PBool | PChar | I8 | U8 | I16 | U16 | I32 | U32 | I64 | U64
  | NativeInt | NativeUInt | F32 | F64 | PDecimal | PString | PObject

datatype sem_type =
    TPrimitive primitive
  | TNamed definition_id "sem_type option" "sem_type list"
  | TParameter parameter_id
  | TArray sem_type nat
  | TPointer sem_type
  | TNullable sem_type
  | TTuple "(sem_type \<times> str option) list"
  | TDynamic
  | TNull
  | TUnresolved written_type definition_id
  | TUnsupported

section \<open>Primitive types\<close>

fun metadata_name :: "primitive \<Rightarrow> str" where
  "metadata_name PVoid = lit ''Void''"
| "metadata_name PBool = lit ''Boolean''"
| "metadata_name PChar = lit ''Char''"
| "metadata_name I8 = lit ''SByte''"
| "metadata_name U8 = lit ''Byte''"
| "metadata_name I16 = lit ''Int16''"
| "metadata_name U16 = lit ''UInt16''"
| "metadata_name I32 = lit ''Int32''"
| "metadata_name U32 = lit ''UInt32''"
| "metadata_name I64 = lit ''Int64''"
| "metadata_name U64 = lit ''UInt64''"
| "metadata_name NativeInt = lit ''IntPtr''"
| "metadata_name NativeUInt = lit ''UIntPtr''"
| "metadata_name F32 = lit ''Single''"
| "metadata_name F64 = lit ''Double''"
| "metadata_name PDecimal = lit ''Decimal''"
| "metadata_name PString = lit ''String''"
| "metadata_name PObject = lit ''Object''"

definition primitive_from_name :: "str \<Rightarrow> primitive option" where
  "primitive_from_name name = map_of
     [(lit ''void'', PVoid), (lit ''System.Void'', PVoid),
      (lit ''bool'', PBool), (lit ''System.Boolean'', PBool),
      (lit ''char'', PChar), (lit ''System.Char'', PChar),
      (lit ''sbyte'', I8), (lit ''System.SByte'', I8),
      (lit ''byte'', U8), (lit ''System.Byte'', U8),
      (lit ''short'', I16), (lit ''System.Int16'', I16),
      (lit ''ushort'', U16), (lit ''System.UInt16'', U16),
      (lit ''int'', I32), (lit ''System.Int32'', I32),
      (lit ''uint'', U32), (lit ''System.UInt32'', U32),
      (lit ''long'', I64), (lit ''System.Int64'', I64),
      (lit ''ulong'', U64), (lit ''System.UInt64'', U64),
      (lit ''nint'', NativeInt), (lit ''System.IntPtr'', NativeInt),
      (lit ''nuint'', NativeUInt), (lit ''System.UIntPtr'', NativeUInt),
      (lit ''float'', F32), (lit ''System.Single'', F32),
      (lit ''double'', F64), (lit ''System.Double'', F64),
      (lit ''decimal'', PDecimal), (lit ''System.Decimal'', PDecimal),
      (lit ''string'', PString), (lit ''System.String'', PString),
      (lit ''object'', PObject), (lit ''System.Object'', PObject)] name"

definition widens_to :: "primitive \<Rightarrow> primitive \<Rightarrow> bool" where
  "widens_to a b \<longleftrightarrow>
     (a = I8 \<and> b \<in> {I16, I32, I64, NativeInt, F32, F64, PDecimal})
   \<or> (a = U8 \<and> b \<in> {I16, U16, I32, U32, I64, U64, NativeInt, NativeUInt, F32, F64, PDecimal})
   \<or> (a = I16 \<and> b \<in> {I32, I64, NativeInt, F32, F64, PDecimal})
   \<or> (a \<in> {U16, PChar} \<and> b \<in> {I32, U32, I64, U64, NativeInt, NativeUInt, F32, F64, PDecimal})
   \<or> (a = PChar \<and> b = U16)
   \<or> (a = I32 \<and> b \<in> {I64, NativeInt, F32, F64, PDecimal})
   \<or> (a = U32 \<and> b \<in> {I64, U64, NativeUInt, F32, F64, PDecimal})
   \<or> (a \<in> {I64, U64, NativeInt, NativeUInt} \<and> b \<in> {F32, F64, PDecimal})
   \<or> (a = NativeInt \<and> b = I64)
   \<or> (a = NativeUInt \<and> b = U64)
   \<or> (a = F32 \<and> b = F64)"

datatype passing_mode = PassValue | PassRef | PassOut | PassIn

datatype const = ConstInteger int | ConstUnsupported

section \<open>Integer literals\<close>

definition digit_value :: "nat \<Rightarrow> nat option" where
  "digit_value c =
     (if is_digit c then Some (c - 48)
      else if is_ascii_lower c then Some (c - 87)
      else if is_ascii_upper c then Some (c - 55) else None)"

definition radix_digit :: "nat \<Rightarrow> nat \<Rightarrow> bool" where
  "radix_digit radix c \<longleftrightarrow> (case digit_value c of None \<Rightarrow> False | Some d \<Rightarrow> d < radix)"

text \<open>\<^verbatim>\<open>i128::from_str_radix\<close> of the standard library: an optional sign, digits, and the range.\<close>

definition i128_from_radix :: "nat \<Rightarrow> str \<Rightarrow> int option" where
  "i128_from_radix radix s =
     (let (sign, digits) =
        (case s of [] \<Rightarrow> (1, []) | c # cs \<Rightarrow> if c = 43 then (1, cs) else if c = 45 then (-1, cs) else (1, s));
        v = sign * int (foldl (\<lambda>n c. n * radix + the (digit_value c)) 0 digits)
      in if digits \<noteq> [] \<and> list_all (radix_digit radix) digits \<and> - (2 ^ 127) \<le> v \<and> v < 2 ^ 127
         then Some v else None)"

definition strip_either :: "str \<Rightarrow> str \<Rightarrow> str \<Rightarrow> str option" where
  "strip_either s p q = (case strip_prefix s p of Some r \<Rightarrow> Some r | None \<Rightarrow> strip_prefix s q)"

definition integer_literal :: "str \<Rightarrow> int option" where
  "integer_literal written =
     (let written = filter (\<lambda>c. c \<noteq> 95) written;
          digits = rev (dropWhile (\<lambda>c. c \<in> set (lit ''uUlL'')) (rev written))
      in case strip_either digits (lit ''0x'') (lit ''0X'') of
           Some hex \<Rightarrow> i128_from_radix 16 hex
         | None \<Rightarrow> (case strip_either digits (lit ''0b'') (lit ''0B'') of
             Some binary \<Rightarrow> i128_from_radix 2 binary
           | None \<Rightarrow> i128_from_radix 10 digits))"

section \<open>Substitution\<close>

type_synonym 'a budgeted = "'a option \<times> nat"

definition bindB :: "'a budgeted \<Rightarrow> ('a \<Rightarrow> nat \<Rightarrow> 'b budgeted) \<Rightarrow> 'b budgeted" where
  "bindB r f = (case r of (None, b) \<Rightarrow> (None, b) | (Some x, b) \<Rightarrow> f x b)"

lemma bindB_cong [fundef_cong]:
  "r = r' \<Longrightarrow> (\<And>x b. r' = (Some x, b) \<Longrightarrow> f x b = f' x b) \<Longrightarrow> bindB r f = bindB r' f'"
  by (cases r'; cases "fst r'") (auto simp: bindB_def)

text \<open>\<open>subst_visit\<close> is the inner \<^verbatim>\<open>visit\<close>; \<open>subst_all\<close> the \<^verbatim>\<open>collect\<close> over children.\<close>

function (sequential) subst_visit :: "(parameter_id \<times> sem_type) list \<Rightarrow> nat \<Rightarrow> sem_type \<Rightarrow> nat \<Rightarrow> sem_type budgeted"
  and subst_all :: "(parameter_id \<times> sem_type) list \<Rightarrow> nat \<Rightarrow> sem_type list \<Rightarrow> nat \<Rightarrow> sem_type list budgeted"
where
  "subst_visit args depth ty b =
     (if 64 < depth then (None, b)
      else if b = 0 then (None, b)
      else (case ty of
        TParameter pid \<Rightarrow> (case map_of args pid of
            Some v \<Rightarrow> subst_visit [] (depth + 1) v (b - 1)
          | None \<Rightarrow> (Some ty, b - 1))
      | TNamed d containing arguments \<Rightarrow>
          (case containing of
             Some t \<Rightarrow> bindB (subst_visit args (depth + 1) t (b - 1)) (\<lambda>t b.
               bindB (subst_all args (depth + 1) arguments b) (\<lambda>ts b. (Some (TNamed d (Some t) ts), b)))
           | None \<Rightarrow> bindB (subst_all args (depth + 1) arguments (b - 1)) (\<lambda>ts b. (Some (TNamed d None ts), b)))
      | TArray t rank \<Rightarrow> bindB (subst_visit args (depth + 1) t (b - 1)) (\<lambda>t b. (Some (TArray t rank), b))
      | TPointer t \<Rightarrow> bindB (subst_visit args (depth + 1) t (b - 1)) (\<lambda>t b. (Some (TPointer t), b))
      | TNullable t \<Rightarrow> bindB (subst_visit args (depth + 1) t (b - 1)) (\<lambda>t b. (Some (TNullable t), b))
      | TTuple elements \<Rightarrow> bindB (subst_all args (depth + 1) (map fst elements) (b - 1)) (\<lambda>ts b.
          (Some (TTuple (zip ts (map snd elements))), b))
      | _ \<Rightarrow> (Some ty, b - 1)))"
| "subst_all args depth [] b = (Some [], b)"
| "subst_all args depth (t # ts) b = bindB (subst_visit args depth t b) (\<lambda>t b.
     bindB (subst_all args depth ts b) (\<lambda>ts b. (Some (t # ts), b)))"
  by pat_completeness auto
termination
  by (relation "measures [\<lambda>x. case x of Inl (_, d, _, _) \<Rightarrow> 66 - d | Inr (_, d, _, _) \<Rightarrow> 66 - d,
        \<lambda>x. case x of Inl _ \<Rightarrow> 0 | Inr (_, _, ts, _) \<Rightarrow> Suc (length ts)]") auto

declare subst_visit.simps [simp del]

definition substitute :: "sem_type \<Rightarrow> (parameter_id \<times> sem_type) list \<Rightarrow> nat \<Rightarrow> sem_type budgeted" where
  "substitute ty arguments budget = subst_visit arguments 0 ty budget"


section \<open>Names and conversions\<close>

lemma metadata_name_known: "primitive_from_name (lit ''System.'' @ metadata_name p) = Some p"
  by (cases p) (simp_all add: primitive_from_name_def lit_def)

text \<open>
  The values of the integral types when a native integer has \<open>w\<close> bits; a pointer has 32 or 64.
\<close>

fun int_range :: "nat \<Rightarrow> primitive \<Rightarrow> (int \<times> int) option" where
  "int_range w I8 = Some (-128, 127)"
| "int_range w U8 = Some (0, 255)"
| "int_range w I16 = Some (-32768, 32767)"
| "int_range w U16 = Some (0, 65535)"
| "int_range w PChar = Some (0, 65535)"
| "int_range w I32 = Some (-2147483648, 2147483647)"
| "int_range w U32 = Some (0, 4294967295)"
| "int_range w I64 = Some (-9223372036854775808, 9223372036854775807)"
| "int_range w U64 = Some (0, 18446744073709551615)"
| "int_range w NativeInt = Some (- (2 ^ (w - 1)), 2 ^ (w - 1) - 1)"
| "int_range w NativeUInt = Some (0, 2 ^ w - 1)"
| "int_range w _ = None"

definition range_within :: "(int \<times> int) option \<Rightarrow> (int \<times> int) option \<Rightarrow> bool" where
  "range_within r r' = (case (r, r') of (Some (l, h), Some (l', h')) \<Rightarrow> l' \<le> l \<and> h \<le> h' | _ \<Rightarrow> False)"

definition all_primitives :: "primitive list" where
  "all_primitives = [PVoid, PBool, PChar, I8, U8, I16, U16, I32, U32, I64, U64,
     NativeInt, NativeUInt, F32, F64, PDecimal, PString, PObject]"

lemma in_all_primitives: "p \<in> set all_primitives"
  by (cases p) (simp_all add: all_primitives_def)

text \<open>
  The implicit numeric conversions are exactly these: between two different integral types,
  never to \<^verbatim>\<open>char\<close>, when every value of the first is one of the second on 32-bit and on 64-bit
  platforms; from every integral type to the floating types and \<^verbatim>\<open>decimal\<close>; and \<^verbatim>\<open>float\<close> to
  \<^verbatim>\<open>double\<close>.
\<close>

lemma widens_to_ranges:
  "widens_to a b \<longleftrightarrow>
     (a \<noteq> b \<and> b \<noteq> PChar \<and> range_within (int_range 32 a) (int_range 32 b) \<and> range_within (int_range 64 a) (int_range 64 b))
   \<or> (int_range 64 a \<noteq> None \<and> (b = F32 \<or> b = F64 \<or> b = PDecimal)) \<or> (a = F32 \<and> b = F64)"
proof -
  have "list_all (\<lambda>a. list_all (\<lambda>b. widens_to a b \<longleftrightarrow>
     (a \<noteq> b \<and> b \<noteq> PChar \<and> range_within (int_range 32 a) (int_range 32 b) \<and> range_within (int_range 64 a) (int_range 64 b))
   \<or> (int_range 64 a \<noteq> None \<and> (b = F32 \<or> b = F64 \<or> b = PDecimal)) \<or> (a = F32 \<and> b = F64)) all_primitives) all_primitives"
    by code_simp
  then show ?thesis using in_all_primitives unfolding list_all_iff by blast
qed

lemma widens_to_trans: "widens_to a b \<Longrightarrow> widens_to b c \<Longrightarrow> widens_to a c"
proof -
  have "list_all (\<lambda>a. list_all (\<lambda>b. widens_to a b \<longrightarrow>
      list_all (\<lambda>c. widens_to b c \<longrightarrow> widens_to a c) all_primitives) all_primitives) all_primitives"
    by code_simp
  then show "widens_to a b \<Longrightarrow> widens_to b c \<Longrightarrow> widens_to a c"
    using in_all_primitives unfolding list_all_iff by blast
qed

section \<open>What substitution computes\<close>

text \<open>
  The reference: \<open>type_sub f\<close> replaces parameters at once, \<open>type_weight p\<close> counts the visited
  types and \<open>type_height p\<close> the levels below a type, where \<open>p\<close> is what a parameter's own
  replacement adds.
\<close>

fun type_sub :: "(parameter_id \<rightharpoonup> sem_type) \<Rightarrow> sem_type \<Rightarrow> sem_type" where
  "type_sub f (TParameter pid) = (case f pid of Some v \<Rightarrow> v | None \<Rightarrow> TParameter pid)"
| "type_sub f (TNamed d c as) = TNamed d (map_option (type_sub f) c) (map (type_sub f) as)"
| "type_sub f (TArray t rank) = TArray (type_sub f t) rank"
| "type_sub f (TPointer t) = TPointer (type_sub f t)"
| "type_sub f (TNullable t) = TNullable (type_sub f t)"
| "type_sub f (TTuple es) = TTuple (map (\<lambda>(t, n). (type_sub f t, n)) es)"
| "type_sub f t = t"

fun type_children :: "sem_type \<Rightarrow> sem_type list" where
  "type_children (TNamed d c as) = (case c of None \<Rightarrow> [] | Some t \<Rightarrow> [t]) @ as"
| "type_children (TArray t rank) = [t]"
| "type_children (TPointer t) = [t]"
| "type_children (TNullable t) = [t]"
| "type_children (TTuple es) = map fst es"
| "type_children t = []"

lemma type_children_size: "t \<in> set (type_children ty) \<Longrightarrow> size t < size ty"
proof (cases ty)
  case (TTuple es)
  assume "t \<in> set (type_children ty)"
  with TTuple obtain n where "(t, n) \<in> set es" by auto
  from size_list_estimation' [OF this, of "Suc (size t)" "size_prod size (\<lambda>x. 0)"] show ?thesis
    by (simp add: TTuple)
next
  case (TNamed d c as)
  assume "t \<in> set (type_children ty)"
  with TNamed consider "c = Some t" | "t \<in> set as" by (auto split: option.splits)
  then show ?thesis
  proof cases
    case 2
    from size_list_estimation' [OF this order_refl, of size] show ?thesis by (simp add: TNamed)
  qed (simp add: TNamed)
qed auto

function type_weight :: "(parameter_id \<Rightarrow> nat) \<Rightarrow> sem_type \<Rightarrow> nat" where
  "type_weight p ty = 1 + (case ty of TParameter pid \<Rightarrow> p pid | _ \<Rightarrow> sum_list (map (type_weight p) (type_children ty)))"
  by pat_completeness auto
termination
  by (relation "measure (size \<circ> snd)") (auto dest: type_children_size simp del: type_children.simps)

function type_height :: "(parameter_id \<Rightarrow> nat) \<Rightarrow> sem_type \<Rightarrow> nat" where
  "type_height p ty = (case ty of TParameter pid \<Rightarrow> p pid
     | _ \<Rightarrow> foldr max (map (\<lambda>t. 1 + type_height p t) (type_children ty)) 0)"
  by pat_completeness auto
termination
  by (relation "measure (size \<circ> snd)") (auto dest: type_children_size simp del: type_children.simps)

declare type_weight.simps [simp del] type_height.simps [simp del]

definition replaced_weight :: "(parameter_id \<times> sem_type) list \<Rightarrow> parameter_id \<Rightarrow> nat" where
  "replaced_weight args pid = (case map_of args pid of None \<Rightarrow> 0 | Some v \<Rightarrow> type_weight (\<lambda>_. 0) v)"

definition replaced_height :: "(parameter_id \<times> sem_type) list \<Rightarrow> parameter_id \<Rightarrow> nat" where
  "replaced_height args pid = (case map_of args pid of None \<Rightarrow> 0 | Some v \<Rightarrow> 1 + type_height (\<lambda>_. 0) v)"


lemma sub_empty: "type_sub Map.empty ty = ty"
proof (induction ty)
  case (TNamed d c as)
  then show ?case by (cases c) (simp_all add: map_idI)
next
  case (TTuple es)
  then show ?case by (auto intro!: map_idI simp: split_beta)
qed auto

lemma replaced_Nil [simp]: "replaced_weight [] = (\<lambda>_. 0)" "replaced_height [] = (\<lambda>_. 0)"
  by (simp_all add: replaced_weight_def replaced_height_def fun_eq_iff)

text \<open>A visit succeeds exactly when depth and budget suffice, and then it computes the reference.\<close>

definition visit_ok :: "(parameter_id \<times> sem_type) list \<Rightarrow> nat \<Rightarrow> sem_type \<Rightarrow> nat \<Rightarrow> sem_type budgeted \<Rightarrow> bool" where
  "visit_ok args d ty b r \<longleftrightarrow>
     (if d + type_height (replaced_height args) ty \<le> 64 \<and> type_weight (replaced_weight args) ty \<le> b
      then r = (Some (type_sub (map_of args) ty), b - type_weight (replaced_weight args) ty)
      else fst r = None \<and> snd r \<le> b)"

definition visits_ok :: "(parameter_id \<times> sem_type) list \<Rightarrow> nat \<Rightarrow> sem_type list \<Rightarrow> nat \<Rightarrow> sem_type list budgeted \<Rightarrow> bool" where
  "visits_ok args d ts b r \<longleftrightarrow>
     (if (\<forall>t \<in> set ts. d + type_height (replaced_height args) t \<le> 64) \<and>
        sum_list (map (type_weight (replaced_weight args)) ts) \<le> b
      then r = (Some (map (type_sub (map_of args)) ts), b - sum_list (map (type_weight (replaced_weight args)) ts))
      else fst r = None \<and> snd r \<le> b)"

lemma visits_ok_Nil: "visits_ok args d [] b (Some [], b)"
  by (simp add: visits_ok_def)

lemma visits_ok_Cons:
  assumes "visit_ok args d t b r" "\<And>u c. r = (Some u, c) \<Longrightarrow> visits_ok args d ts c (f c)"
  shows "visits_ok args d (t # ts) b (bindB r (\<lambda>t b. bindB (f b) (\<lambda>ts b. (Some (t # ts), b))))"
  using assms
  by (cases r; cases "fst r"; cases "f (snd r)"; cases "fst (f (snd r))")
    (auto simp: visit_ok_def visits_ok_def bindB_def split: if_splits)


lemma bindB_assoc: "bindB (bindB r f) g = bindB r (\<lambda>x b. bindB (f x b) g)"
  by (cases r; cases "fst r") (auto simp: bindB_def)

lemma bindB_Some [simp]: "bindB (Some x, b) f = f x b"
  by (simp add: bindB_def)

lemma visits_ok_single: "visit_ok args d t b r \<Longrightarrow> visits_ok args d [t] b (bindB r (\<lambda>t b. (Some [t], b)))"
  using visits_ok_Cons [of args d t b r "[]" "\<lambda>b. (Some [], b)"] by (simp add: visits_ok_Nil)

lemma visit_ok_composite:
  assumes "d \<le> 64" "0 < b" "visits_ok args (d + 1) (type_children ty) (b - 1) r" "\<And>pid. ty \<noteq> TParameter pid"
    and F: "type_sub (map_of args) ty = F (map (type_sub (map_of args)) (type_children ty))"
  shows "visit_ok args d ty b (bindB r (\<lambda>ts b. (Some (F ts), b)))"
proof -
  let ?w = "replaced_weight args" and ?h = "replaced_height args"
  have "type_weight ?w ty = 1 + sum_list (map (type_weight ?w) (type_children ty))"
    using assms(4) by (subst type_weight.simps) (auto split: sem_type.splits)
  moreover have "type_height ?h ty = foldr max (map (\<lambda>t. 1 + type_height ?h t) (type_children ty)) 0"
    using assms(4) by (subst type_height.simps) (auto split: sem_type.splits)
  then have "d + type_height ?h ty \<le> 64 \<longleftrightarrow> (\<forall>t \<in> set (type_children ty). d + 1 + type_height ?h t \<le> 64)"
    using assms(1) foldr_max_le [of "map (\<lambda>t. 1 + type_height ?h t) (type_children ty)" "64 - d"] by auto
  ultimately show ?thesis
    using assms(2,3) F by (cases r; cases "fst r") (auto simp: visit_ok_def visits_ok_def bindB_def split: if_splits)
qed

lemma visit_ok_leaf:
  assumes "d \<le> 64" "0 < b" "\<And>pid. ty \<noteq> TParameter pid" "type_children ty = []" "type_sub (map_of args) ty = ty"
  shows "visit_ok args d ty b (Some ty, b - 1)"
  using visit_ok_composite [OF assms(1,2) _ assms(3), of args "(Some [], b - 1)" "\<lambda>_. ty"] assms(4,5)
  by (simp add: visits_ok_Nil)

lemma visit_ok_stop: "64 < d \<or> b = 0 \<Longrightarrow> visit_ok args d ty b (None, b)"
  by (auto simp: visit_ok_def) (subst (asm) type_weight.simps, simp)

lemma visit_ok_parameter:
  assumes "d \<le> 64" "0 < b"
    and "\<And>v. map_of args pid = Some v \<Longrightarrow> visit_ok [] (d + 1) v (b - 1) (subst_visit [] (d + 1) v (b - 1))"
  shows "visit_ok args d (TParameter pid) b (subst_visit args d (TParameter pid) b)"
proof -
  note leaf = type_weight.simps [of _ "TParameter pid"] type_height.simps [of _ "TParameter pid"]
    replaced_weight_def [of args] replaced_height_def [of args]
  show ?thesis
  proof (cases "map_of args pid")
    case None
    with assms(1,2) show ?thesis by (subst subst_visit.simps) (simp add: visit_ok_def leaf)
  next
    case (Some v)
    from assms(3) [OF Some] assms(1,2) Some show ?thesis
      by (subst subst_visit.simps) (simp add: visit_ok_def leaf sub_empty split: if_splits; arith?)
  qed
qed

lemma visit_ok_single:
  assumes "d \<le> 64" "0 < b" "visit_ok args (d + 1) t (b - 1) r" "type_children ty = [t]"
    "\<And>pid. ty \<noteq> TParameter pid" "type_sub (map_of args) ty = G (type_sub (map_of args) t)"
  shows "visit_ok args d ty b (bindB r (\<lambda>t b. (Some (G t), b)))"
  using visit_ok_composite [OF assms(1,2) _ assms(5), of args "bindB r (\<lambda>t b. (Some [t], b))" "\<lambda>ts. G (hd ts)"]
    visits_ok_single [OF assms(3)] assms(4,6)
  by (simp add: bindB_assoc)

lemma subst_visit_ok:
  "visit_ok args d ty b (subst_visit args d ty b)"
  "visits_ok args d ts b (subst_all args d ts b)"
proof (induction args d ty b and args d ts b rule: subst_visit_subst_all.induct)
  case (1 args d ty b)
  show ?case
  proof (cases "64 < d \<or> b = 0")
    case True
    with visit_ok_stop [OF True] show ?thesis by (subst subst_visit.simps) auto
  next
    case False
    then have g: "\<not> 64 < d" "b \<noteq> 0" "d \<le> 64" "0 < b" by auto
    note single = visit_ok_single [OF g(3,4)]
    show ?thesis
    proof (cases ty)
      case (TParameter pid)
      show ?thesis unfolding TParameter by (rule visit_ok_parameter [OF g(3,4)]) (use 1 g TParameter in simp)
    next
      case (TNamed did c as)
      show ?thesis
      proof (cases c)
        case None
        have "visits_ok args (d + 1) (type_children ty) (b - 1) (subst_all args (d + 1) as (b - 1))"
          using 1 g TNamed None by simp
        from visit_ok_composite [OF g(3,4) this, of "TNamed did None"] show ?thesis
          using g TNamed None by (subst subst_visit.simps) simp
      next
        case (Some t)
        have "visits_ok args (d + 1) (type_children ty) (b - 1)
            (bindB (subst_visit args (d + 1) t (b - 1)) (\<lambda>t b. bindB (subst_all args (d + 1) as b) (\<lambda>ts b. (Some (t # ts), b))))"
          using visits_ok_Cons 1 g TNamed Some by simp
        from visit_ok_composite [OF g(3,4) this, of "\<lambda>ts. TNamed did (Some (hd ts)) (tl ts)"] show ?thesis
          using g TNamed Some by (subst subst_visit.simps) (simp add: bindB_assoc)
      qed
    next
      case (TArray t rank)
      with single [of args t _ ty "\<lambda>t. TArray t rank"] 1 g show ?thesis
        by (subst subst_visit.simps) simp
    next
      case (TPointer t)
      with single [of args t _ ty TPointer] 1 g show ?thesis
        by (subst subst_visit.simps) simp
    next
      case (TNullable t)
      with single [of args t _ ty TNullable] 1 g show ?thesis
        by (subst subst_visit.simps) simp
    next
      case (TTuple es)
      have "visits_ok args (d + 1) (type_children ty) (b - 1) (subst_all args (d + 1) (map fst es) (b - 1))"
        using 1 g TTuple by simp
      from visit_ok_composite [OF g(3,4) this, of "\<lambda>ts. TTuple (zip ts (map snd es))"] show ?thesis
        using g TTuple by (subst subst_visit.simps) (simp add: zip_map_map zip_same_conv_map split_beta o_def)
    qed (insert g visit_ok_leaf [OF g(3,4), of ty args], (subst subst_visit.simps, simp)+)
  qed
next
  case (3 args d t ts b)
  then show ?case using visits_ok_Cons by simp
qed (simp add: visits_ok_Nil)


text \<open>
  C34: substitution succeeds exactly when no visited type is more than 64 levels deep and the budget
  covers every visited type, replacements included. It then replaces the parameters at once,
  leaves the replacements as they are, and spends exactly the visited types; a failure never adds
  to the budget.
\<close>

theorem substitute_simultaneous:
  "(if type_height (replaced_height args) ty \<le> 64 \<and> type_weight (replaced_weight args) ty \<le> budget
    then substitute ty args budget =
      (Some (type_sub (map_of args) ty), budget - type_weight (replaced_weight args) ty)
    else fst (substitute ty args budget) = None \<and> snd (substitute ty args budget) \<le> budget)"
  using subst_visit_ok(1) [of args 0 ty budget] by (simp add: substitute_def visit_ok_def)

section \<open>Reading integers\<close>

lemma digits_trim: "list_all is_digit ds \<Longrightarrow> set suffix \<subseteq> set (lit ''uUlL'') \<Longrightarrow>
  rev (dropWhile (\<lambda>c. c \<in> set (lit ''uUlL'')) (rev (ds @ suffix))) = ds"
proof -
  assume a: "list_all is_digit ds" "set suffix \<subseteq> set (lit ''uUlL'')"
  from a(1) have "dropWhile (\<lambda>c. c \<in> set (lit ''uUlL'')) (rev ds) = rev ds"
    by (cases ds rule: rev_cases) (auto simp: is_digit_def lit_def)
  with a(2) show ?thesis by (subst rev_append, subst dropWhile_append2) auto
qed


lemma foldl_radix_ten: "list_all is_digit ds \<Longrightarrow>
  foldl (\<lambda>n c. n * 10 + the (digit_value c)) k ds = foldl (\<lambda>n c. n * 10 + (c - 48)) k ds"
  by (induction ds arbitrary: k) (simp_all add: digit_value_def)


lemma strip_prefix_second: "list_all is_digit ds \<Longrightarrow> \<not> is_digit b \<Longrightarrow> strip_prefix ds [a, b] = None"
  by (cases ds; cases "tl ds") (auto simp: strip_prefix_def)

text \<open>A decimal literal, with separators anywhere and a suffix, is read as the number it shows.\<close>

lemma integer_literal_display:
  assumes "n < 2 ^ 127" "set suffix \<subseteq> set (lit ''uUlL'')" "filter (\<lambda>c. c \<noteq> 95) written = display_nat n @ suffix"
  shows "integer_literal written = Some (int n)"
proof -
  let ?ds = "display_nat n"
  note d = display_nat_digits [of n] display_nat_hd [of n]
  have radix: "list_all (radix_digit 10) ?ds"
    using d(1) by (auto simp: list_all_iff radix_digit_def digit_value_def is_digit_def)
  have "foldl (\<lambda>k c. k * 10 + the (digit_value c)) 0 ?ds = n"
    using foldl_radix_ten [OF d(1)] display_nat_value [of n] by (simp add: digits_value_def)
  moreover have "int n < 2 ^ 127" using assms(1) by (metis of_nat_less_iff of_nat_numeral of_nat_power)
  moreover have "(case ?ds of [] \<Rightarrow> (1, []) | c # cs \<Rightarrow> if c = 43 then (1, cs) else if c = 45 then (-1, cs) else (1, ?ds))
      = (1 :: int, ?ds)"
    using d(2) by (cases "?ds") (auto simp: is_digit_def)
  ultimately have "i128_from_radix 10 ?ds = Some (int n)"
    using radix by (simp add: i128_from_radix_def)
  moreover have "strip_either ?ds (lit ''0x'') (lit ''0X'') = None" "strip_either ?ds (lit ''0b'') (lit ''0B'') = None"
    using strip_prefix_second [OF d(1)] by (simp_all add: strip_either_def lit_def is_digit_def)
  ultimately show ?thesis
    using digits_trim [OF d(1) assms(2)] assms(3) by (simp add: integer_literal_def)
qed

end
