(* ===== verification/Walk.thy ===== *)
theory Walk
  imports Sources "HOL-Library.AList" "HOL-Library.Product_Lexorder"
begin

text \<open>
  Parent discovery of \<^verbatim>\<open>src/src/history/walk.rs\<close>: commits are read breadth first from the tips
  until all of them continue through one commit, a union-find structure telling when; a replay
  finds the nearest such commit, and the interval above it is ordered children first. The object
  store is the parameter \<open>read\<close>. Cancellation, which can end every loop early with an error, is
  not modelled. A \<^verbatim>\<open>Vec\<close> used as a stack is a list with its top first, a \<^verbatim>\<open>BTreeSet<usize>\<close> a
  set that is iterated in ascending order. \<open>WPanic\<close> is an index out of range or a counter below
  zero and \<open>WStuck\<close> a failed progress guard.
\<close>

section \<open>The state of a discovery\<close>

record commit =
  ct_id :: str
  ct_tree :: str
  ct_parents :: "str list"
  ct_date :: str
  ct_subject :: str

datatype walk_error = MissingTips | GraphTooLarge | UnexpectedCommit | ReadFailed str | UnfinishedGraph
  | CyclicAncestry | MissingContinuation | WPanic | WStuck

record wnode =
  wn_id :: str
  wn_commit :: "commit option"
  wn_parents :: "nat list"
  wn_children :: nat
  wn_component :: nat
  wn_size :: nat
  wn_selected :: bool
  wn_pending :: nat
  wn_waiting :: "nat set"

record discovery =
  d_nodes :: "wnode list"
  d_ids :: "str \<rightharpoonup> nat"
  d_tips :: "nat list"
  d_tip_components :: nat
  d_ready :: "nat list"
  d_bytes :: nat
  d_failed :: "nat set"
  d_failure :: "(nat \<times> walk_error) option"

text \<open>An error of an operation on the discovery carries the state it leaves behind.\<close>

type_synonym 'a walk = "walk_error + 'a"
type_synonym 'a step = "walk_error \<times> discovery + 'a"

record graph =
  g_commits :: "(str \<times> commit) list"
  g_order :: "str list"
  g_boundary :: "str option"

definition upd_node :: "nat \<Rightarrow> (wnode \<Rightarrow> wnode) \<Rightarrow> discovery \<Rightarrow> discovery" where
  "upd_node i f d = d\<lparr>d_nodes := (d_nodes d)[i := f (d_nodes d ! i)]\<rparr>"

definition graph_bytes :: nat where
  "graph_bytes = 128 * 1024 * 1024"

definition wcharge :: "nat \<Rightarrow> discovery \<Rightarrow> discovery step" where
  "wcharge bytes d =
     (let d = d\<lparr>d_bytes := saturating_add (d_bytes d) bytes\<rparr>
      in ensureE (d_bytes d \<le> graph_bytes) (GraphTooLarge, d) (Inr d))"

definition add_node :: "str \<Rightarrow> discovery \<Rightarrow> (nat \<times> discovery) step" where
  "add_node oid d = bindE (wcharge (512 + byte_len oid) d) (\<lambda>d.
     let index = length (d_nodes d)
     in Inr (index, d\<lparr>d_ids := (d_ids d)(oid \<mapsto> index),
          d_nodes := d_nodes d @ [\<lparr>wn_id = oid, wn_commit = None, wn_parents = [], wn_children = 0,
            wn_component = index, wn_size = 1, wn_selected = False, wn_pending = 0, wn_waiting = {}\<rparr>]\<rparr>))"

fun add_tips :: "str list \<Rightarrow> discovery \<Rightarrow> discovery step" where
  "add_tips [] d = Inr d"
| "add_tips (tip # tips) d =
     (if d_ids d tip = None then bindE (add_node tip d) (\<lambda>(index, d).
        add_tips tips (upd_node index (\<lambda>n. n\<lparr>wn_selected := True\<rparr>)
          (d\<lparr>d_tips := d_tips d @ [index], d_tip_components := d_tip_components d + 1\<rparr>)))
      else add_tips tips d)"

definition new_discovery :: "str list \<Rightarrow> discovery step" where
  "new_discovery tips =
     bindE (add_tips tips \<lparr>d_nodes = [], d_ids = Map.empty, d_tips = [], d_tip_components = 0, d_ready = [],
        d_bytes = 0, d_failed = {}, d_failure = None\<rparr>) (\<lambda>d.
     ensureE (d_tips d \<noteq> []) (MissingTips, d) (Inr d))"

section \<open>Components\<close>

text \<open>Union by size makes sizes grow along component links; the guard reads that off.\<close>

definition upward :: "wnode list \<Rightarrow> nat \<Rightarrow> nat \<Rightarrow> 'a walk \<Rightarrow> 'a walk" where
  "upward ns i p r = (if p < length ns \<and> wn_size (ns ! i) < wn_size (ns ! p) then r else Inl WStuck)"

lemma upward_cong [fundef_cong]:
  "ns = ns' \<Longrightarrow> i = i' \<Longrightarrow> p = p' \<Longrightarrow> (p' < length ns' \<and> wn_size (ns' ! i') < wn_size (ns' ! p') \<Longrightarrow> r = r')
    \<Longrightarrow> upward ns i p r = upward ns' i' p' r'"
  by (simp add: upward_def)

function component :: "wnode list \<Rightarrow> nat \<Rightarrow> (nat \<times> wnode list) walk" where
  "component ns i =
     (let p = wn_component (ns ! i)
      in if p = i then Inr (i, ns)
         else upward ns i p (component (ns[i := (ns ! i)\<lparr>wn_component := wn_component (ns ! p)\<rparr>]) p))"
  by pat_completeness auto
termination
proof (relation "measure (\<lambda>(ns, i). card {j. j < length ns \<and> wn_size (ns ! i) < wn_size (ns ! j)})")
  fix ns :: "wnode list" and i p :: nat and x
  assume p: "p = wn_component (ns ! i)" "p \<noteq> i" and g: "p < length ns \<and> wn_size (ns ! i) < wn_size (ns ! p)"
  let ?ns = "ns[i := (ns ! i)\<lparr>wn_component := wn_component (ns ! p)\<rparr>]"
  have size: "wn_size (?ns ! j) = wn_size (ns ! j)" for j
    by (cases "i < length ns") (auto simp: nth_list_update not_less list_update_beyond)
  have "{j. j < length ?ns \<and> wn_size (?ns ! p) < wn_size (?ns ! j)} \<subset> {j. j < length ns \<and> wn_size (ns ! i) < wn_size (ns ! j)}"
    unfolding size using g by auto
  then show "((?ns, p), (ns, i)) \<in> measure (\<lambda>(ns, i). card {j. j < length ns \<and> wn_size (ns ! i) < wn_size (ns ! j)})"
    by (simp add: psubset_card_mono)
qed simp

declare component.simps [simp del]

definition find_component :: "nat \<Rightarrow> discovery \<Rightarrow> (nat \<times> discovery) step" where
  "find_component i d = (case component (d_nodes d) i of Inl e \<Rightarrow> Inl (e, d) | Inr (r, ns) \<Rightarrow> Inr (r, d\<lparr>d_nodes := ns\<rparr>))"

text \<open>A waiting child moves to the joined component; one that already waited there has one parent component less.\<close>

definition transfer :: "nat \<Rightarrow> nat \<Rightarrow> discovery \<Rightarrow> discovery" where
  "transfer a child d =
     (if child \<in> wn_waiting (d_nodes d ! a) then
        (let d = upd_node child (\<lambda>n. n\<lparr>wn_pending := wn_pending n - 1\<rparr>) d
         in if wn_pending (d_nodes d ! child) = 1 then d\<lparr>d_ready := child # d_ready d\<rparr> else d)
      else upd_node a (\<lambda>n. n\<lparr>wn_waiting := insert child (wn_waiting n)\<rparr>) d)"

definition link :: "nat \<Rightarrow> nat \<Rightarrow> discovery \<Rightarrow> discovery" where
  "link a b d =
     (let size = wn_size (d_nodes d ! b);
          d = upd_node b (\<lambda>n. n\<lparr>wn_component := a\<rparr>) d;
          d = upd_node a (\<lambda>n. n\<lparr>wn_size := wn_size n + size\<rparr>) d;
          selected = wn_selected (d_nodes d ! b);
          d = (if wn_selected (d_nodes d ! a) \<and> selected then d\<lparr>d_tip_components := d_tip_components d - 1\<rparr> else d);
          d = upd_node a (\<lambda>n. n\<lparr>wn_selected := wn_selected n \<or> selected\<rparr>) d;
          waiting = wn_waiting (d_nodes d ! b);
          d = upd_node b (\<lambda>n. n\<lparr>wn_waiting := {}\<rparr>) d
      in fold (transfer a) (sorted_list_of_set waiting) d)"

definition join_nodes :: "nat \<Rightarrow> nat \<Rightarrow> discovery \<Rightarrow> discovery step" where
  "join_nodes a b d = bindE (find_component a d) (\<lambda>(a, d). bindE (find_component b d) (\<lambda>(b, d).
     if a = b then Inr d
     else if wn_size (d_nodes d ! a) < wn_size (d_nodes d ! b) then Inr (link b a d)
     else Inr (link a b d)))"


section \<open>Reading a commit\<close>

definition retain_commit :: "nat \<Rightarrow> commit \<Rightarrow> discovery \<Rightarrow> discovery step" where
  "retain_commit index c d =
     ensureE (ct_id c = wn_id (d_nodes d ! index)) (UnexpectedCommit, d)
       (bindE (wcharge (byte_len (ct_subject c) + byte_len (ct_tree c) + byte_len (ct_date c) +
          sum_list (map (\<lambda>p. byte_len p + 32) (ct_parents c))) d) (\<lambda>d.
        Inr (upd_node index (\<lambda>n. n\<lparr>wn_commit := Some c\<rparr>) d)))"

definition parent_node :: "str \<Rightarrow> discovery \<Rightarrow> (nat \<times> discovery) step" where
  "parent_node oid d = (case d_ids d oid of Some parent \<Rightarrow> Inr (parent, d) | None \<Rightarrow> add_node oid d)"

definition expand_parent :: "nat \<Rightarrow> str \<Rightarrow> discovery \<Rightarrow> discovery step" where
  "expand_parent index oid d = bindE (wcharge 64 d) (\<lambda>d. bindE (parent_node oid d) (\<lambda>(parent, d).
     let d = upd_node index (\<lambda>n. n\<lparr>wn_parents := wn_parents n @ [parent]\<rparr>) d;
         d = upd_node parent (\<lambda>n. n\<lparr>wn_children := wn_children n + 1\<rparr>) d
     in bindE (find_component parent d) (\<lambda>(c, d).
        if index \<in> wn_waiting (d_nodes d ! c) then Inr d
        else Inr (upd_node index (\<lambda>n. n\<lparr>wn_pending := wn_pending n + 1\<rparr>)
               (upd_node c (\<lambda>n. n\<lparr>wn_waiting := insert index (wn_waiting n)\<rparr>) d)))))"

fun expand_parents :: "nat \<Rightarrow> str list \<Rightarrow> discovery \<Rightarrow> discovery step" where
  "expand_parents index [] d = Inr d"
| "expand_parents index (p # ps) d = bindE (expand_parent index p d) (expand_parents index ps)"

text \<open>The reduction loop; the guard is that a reduction joins two components or shortens the stack.\<close>

definition roots :: "wnode list \<Rightarrow> nat" where
  "roots ns = length (filter (\<lambda>i. wn_component (ns ! i) = i) [0..<length ns])"

definition reduced :: "discovery \<Rightarrow> discovery \<Rightarrow> 'a step \<Rightarrow> 'a step" where
  "reduced d d' r = (if roots (d_nodes d') < roots (d_nodes d)
       \<or> roots (d_nodes d') = roots (d_nodes d) \<and> length (d_ready d') < length (d_ready d)
     then r else Inl (WStuck, d'))"

lemma reduced_cong [fundef_cong]:
  "d = e \<Longrightarrow> d' = e' \<Longrightarrow> (roots (d_nodes e') < roots (d_nodes e)
       \<or> roots (d_nodes e') = roots (d_nodes e) \<and> length (d_ready e') < length (d_ready e) \<Longrightarrow> r = r')
    \<Longrightarrow> reduced d d' r = reduced e e' r'"
  by (auto simp: reduced_def)

definition reduce_one :: "nat \<Rightarrow> discovery \<Rightarrow> discovery step" where
  "reduce_one index d =
     bindE (find_component (hd (wn_parents (d_nodes d ! index))) d) (\<lambda>(parent, d).
       join_nodes index parent (upd_node parent (\<lambda>n. n\<lparr>wn_waiting := wn_waiting n - {index}\<rparr>) d))"

function reduce_ready :: "discovery \<Rightarrow> discovery step" where
  "reduce_ready d = (case d_ready d of [] \<Rightarrow> Inr d
     | index # ready \<Rightarrow> bindE (reduce_one index (d\<lparr>d_ready := ready\<rparr>)) (\<lambda>d'. reduced d d' (reduce_ready d')))"
  by pat_completeness auto
termination
  by (relation "measures [\<lambda>d. roots (d_nodes d), \<lambda>d. length (d_ready d)]") auto

declare reduce_ready.simps [simp del]

definition expand :: "nat \<Rightarrow> commit \<Rightarrow> discovery \<Rightarrow> discovery step" where
  "expand index c d = bindE (expand_parents index (ct_parents c) d) (\<lambda>d.
     bindE (retain_commit index c d) (\<lambda>d.
       reduce_ready (if wn_pending (d_nodes d ! index) = 1 then d\<lparr>d_ready := index # d_ready d\<rparr> else d)))"

section \<open>The nearest cut\<close>

type_synonym cut_state = "nat list \<times> nat list \<times> bool list \<times> nat"

text \<open>The inner loop over the parents of a node taken from the queue.\<close>

fun cut_parents :: "nat list \<Rightarrow> cut_state \<Rightarrow> cut_state walk" where
  "cut_parents [] st = Inr st"
| "cut_parents (p # ps) (children, ready, frontier, count) =
     ensureE (p < length children \<and> 0 < children ! p) WPanic
       (cut_parents ps
         (children[p := children ! p - 1],
          if children ! p = 1 then ready @ [p] else ready,
          frontier[p := True],
          if frontier ! p then count else count + 1))"

lemma sum_list_dec: "p < length xs \<Longrightarrow> 0 < xs ! p \<Longrightarrow> sum_list (xs[p := xs ! p - 1]) + 1 = (sum_list xs :: nat)"
  by (induction xs arbitrary: p) (auto split: nat.splits simp: nth_Cons')

lemma cut_parents_sum:
  "cut_parents ps (children, ready, frontier, count) = Inr (children', st) \<Longrightarrow>
    sum_list children' + length ps = sum_list children"
  by (induction ps arbitrary: children ready frontier count)
    (fastforce dest!: sum_list_dec)+

function cut_loop :: "wnode list \<Rightarrow> cut_state \<Rightarrow> nat option walk" where
  "cut_loop ns (children, ready, frontier, count) = (case ready of
     [] \<Rightarrow> Inr None
   | index # ready \<Rightarrow>
       if wn_parents (ns ! index) = [] then cut_loop ns (children, ready, frontier, count)
       else ensureE (0 < count) WPanic
         (bindE (cut_parents (wn_parents (ns ! index)) (children, ready, frontier[index := False], count - 1)) (\<lambda>st.
            if snd (snd (snd st)) = 1 then Inr (find_first (\<lambda>pending. pending) (fst (snd (snd st))))
            else cut_loop ns st)))"
  by pat_completeness auto
termination
  by (relation "measures [\<lambda>(ns, children, _). sum_list children, \<lambda>(ns, _, ready, _). length ready]")
    (auto dest!: cut_parents_sum simp flip: length_greater_0_conv)

declare cut_loop.simps [simp del]

definition cut :: "discovery \<Rightarrow> nat option walk" where
  "cut d =
     (let children = map wn_children (d_nodes d);
          ready = filter (\<lambda>i. children ! i = 0) [0..<length children];
          frontier = fold (\<lambda>tip f. f[tip := True]) (d_tips d) (replicate (length (d_nodes d)) False)
      in cut_loop (d_nodes d) (children, ready, frontier, length (d_tips d)))"


section \<open>The retained interval\<close>

text \<open>
  Depth first ranks: \<open>None\<close> stands for \<^verbatim>\<open>usize::MAX\<close>. The stack holds the tips in order, and a
  ranked node's parents go on top in order.
\<close>

function rank_loop :: "wnode list \<Rightarrow> nat option \<Rightarrow> nat list \<Rightarrow> nat option list \<Rightarrow> nat list \<Rightarrow>
    (nat option list \<times> nat list) walk" where
  "rank_loop ns boundary pending ranks retained = (case pending of
     [] \<Rightarrow> Inr (ranks, retained)
   | index # pending \<Rightarrow>
       ensureE (index < length ranks) WPanic
        (if Some index = boundary \<or> ranks ! index \<noteq> None then rank_loop ns boundary pending ranks retained
         else ensureE (wn_commit (ns ! index) \<noteq> None) UnfinishedGraph
           (rank_loop ns boundary (wn_parents (ns ! index) @ pending)
              (ranks[index := Some (length retained)]) (retained @ [index]))))"
  by pat_completeness auto
termination
proof (relation "measures [\<lambda>(ns, b, pending, ranks, retained). length (filter (\<lambda>r. r = None) ranks),
    \<lambda>(ns, b, pending, ranks, retained). length pending]")
  fix ns :: "wnode list" and boundary :: "nat option" and ranks and pending retained rest :: "nat list" and index :: nat
  assume "pending = index # rest" "index < length ranks" "\<not> (Some index = boundary \<or> ranks ! index \<noteq> (None :: nat option))"
  then have "length (filter (\<lambda>r. r = None) (ranks[index := Some (length retained)])) < length (filter (\<lambda>r. r = None) ranks)"
    by (auto simp: length_filter_conv_card nth_list_update intro!: psubset_card_mono)
  then show "((ns, boundary, wn_parents (ns ! index) @ rest, ranks[index := Some (length retained)], retained @ [index]),
      ns, boundary, pending, ranks, retained)
     \<in> measures [\<lambda>(ns, b, pending, ranks, retained). length (filter (\<lambda>r. r = None) ranks),
         \<lambda>(ns, b, pending, ranks, retained). length pending]"
    by simp
qed auto

declare rank_loop.simps [simp del]

definition count_children :: "wnode list \<Rightarrow> nat option \<Rightarrow> nat list \<Rightarrow> nat list" where
  "count_children ns boundary retained =
     fold (\<lambda>index. fold (\<lambda>p c. if Some p = boundary then c else c[p := c ! p + 1]) (wn_parents (ns ! index)))
       retained (replicate (length ns) 0)"

type_synonym ready_set = "((nat \<times> nat) \<times> unit) list"

text \<open>The ordered loop: the ready node of least rank, then its parents.\<close>

fun order_parents :: "nat option list \<Rightarrow> nat option \<Rightarrow> nat list \<Rightarrow> nat list \<Rightarrow> ready_set \<Rightarrow> (nat list \<times> ready_set) walk" where
  "order_parents ranks boundary [] children ready = Inr (children, ready)"
| "order_parents ranks boundary (p # ps) children ready =
     (if Some p = boundary then order_parents ranks boundary ps children ready
      else ensureE (p < length children \<and> 0 < children ! p) WPanic
        (order_parents ranks boundary ps (children[p := children ! p - 1])
           (if children ! p = 1 then bt_insert (the (ranks ! p), p) () ready else ready)))"

lemma length_bt_insert: "length (bt_insert k v m) \<le> Suc (length m)"
  by (induction k v m rule: bt_insert.induct) auto

lemma order_parents_sum:
  "order_parents ranks boundary ps children ready = Inr (children', ready') \<Longrightarrow>
    sum_list children' + length ready' \<le> sum_list children + length ready"
proof (induction ps arbitrary: children ready)
  case (Cons p ps)
  show ?case
  proof (cases "Some p = boundary")
    case False
    with Cons.prems have p: "p < length children" "0 < children ! p"
      and r: "order_parents ranks boundary ps (children[p := children ! p - 1])
        (if children ! p = 1 then bt_insert (the (ranks ! p), p) () ready else ready) = Inr (children', ready')"
      by auto
    from Cons.IH [OF r] sum_list_dec [OF p] length_bt_insert [of "(the (ranks ! p), p)" "()" ready]
    show ?thesis by (auto split: if_splits)
  qed (use Cons in auto)
qed simp

function order_loop :: "wnode list \<Rightarrow> nat option list \<Rightarrow> nat option \<Rightarrow> nat list \<Rightarrow> ready_set \<Rightarrow> nat list \<Rightarrow> nat list walk" where
  "order_loop ns ranks boundary children ready order = (case ready of
     [] \<Rightarrow> Inr order
   | ((rank, index), _) # ready \<Rightarrow>
       bindE (order_parents ranks boundary (wn_parents (ns ! index)) children ready) (\<lambda>(children, ready).
         order_loop ns ranks boundary children ready (order @ [index])))"
  by pat_completeness auto
termination
  by (relation "measure (\<lambda>(ns, ranks, boundary, children, ready, order). sum_list children + length ready)")
    (auto dest!: order_parents_sum)

declare order_loop.simps [simp del]

text \<open>Taking the commits out of the nodes: a later node with the same commit identity replaces the entry.\<close>

definition take_commits :: "wnode list \<Rightarrow> nat list \<Rightarrow> (str \<times> commit) list" where
  "take_commits ns is = fold (\<lambda>i m. case wn_commit (ns ! i) of None \<Rightarrow> m | Some c \<Rightarrow> AList.update (ct_id c) c m) is []"

definition interval :: "nat option \<Rightarrow> discovery \<Rightarrow> graph walk" where
  "interval boundary d =
     bindE (rank_loop (d_nodes d) boundary (d_tips d) (replicate (length (d_nodes d)) None) []) (\<lambda>(ranks, retained).
       let children = count_children (d_nodes d) boundary retained;
           ready = fold (\<lambda>i m. bt_insert (the (ranks ! i), i) () m) (filter (\<lambda>i. children ! i = 0) retained) []
       in bindE (order_loop (d_nodes d) ranks boundary children ready []) (\<lambda>order.
         ensureE (length order = length retained) CyclicAncestry
           (Inr \<lparr>g_commits = take_commits (d_nodes d) (retained @ (case boundary of None \<Rightarrow> [] | Some b \<Rightarrow> [b])),
              g_order = map (\<lambda>i. wn_id (d_nodes d ! i)) order,
              g_boundary = map_option (\<lambda>i. wn_id (d_nodes d ! i)) boundary\<rparr>)))"


text \<open>Reading the object of the boundary, where the caller needs its source; a failure of the search is reported again.\<close>

definition read_boundary :: "(str \<Rightarrow> commit walk) \<Rightarrow> nat \<Rightarrow> discovery \<Rightarrow> discovery step" where
  "read_boundary read index d = (case d_failure d of
     Some (failed, e) \<Rightarrow>
       if failed = index then Inl (e, d\<lparr>d_failure := None\<rparr>)
       else (case read (wn_id (d_nodes d ! index)) of
           Inl e \<Rightarrow> Inl (e, d\<lparr>d_failed := insert index (d_failed d)\<rparr>)
         | Inr c \<Rightarrow> retain_commit index c d)
   | None \<Rightarrow> (case read (wn_id (d_nodes d ! index)) of
           Inl e \<Rightarrow> Inl (e, d\<lparr>d_failed := insert index (d_failed d)\<rparr>)
         | Inr c \<Rightarrow> retain_commit index c d))"

definition finish :: "(str \<Rightarrow> commit walk) \<Rightarrow> bool \<Rightarrow> nat option \<Rightarrow> discovery \<Rightarrow> graph step" where
  "finish read source boundary d =
     bindE (case boundary of
        Some index \<Rightarrow> if source \<and> wn_commit (d_nodes d ! index) = None then read_boundary read index d else Inr d
      | None \<Rightarrow> Inr d)
      (\<lambda>d. case interval boundary d of Inl e \<Rightarrow> Inl (e, d) | Inr g \<Rightarrow> Inr g)"

section \<open>The search\<close>

text \<open>
  Every node costs more than 512 bytes of the 128 MiB, so there are fewer than \<open>2^18\<close> nodes;
  the guard on \<open>next\<close> is that bound.
\<close>

definition node_limit :: nat where
  "node_limit = 262144"

function search :: "(str \<Rightarrow> commit walk) \<Rightarrow> bool \<Rightarrow> nat \<Rightarrow> discovery \<Rightarrow> graph step" where
  "search read source next_node d =
     (if next_node < length (d_nodes d) then
        ensureE (next_node < node_limit) (WStuck, d)
         (case read (wn_id (d_nodes d ! next_node)) of
            Inl e \<Rightarrow> search read source (next_node + 1)
              (d\<lparr>d_failed := insert next_node (d_failed d),
                 d_failure := (if d_failure d = None then Some (next_node, e) else d_failure d)\<rparr>)
          | Inr c \<Rightarrow> bindE (expand next_node c d) (\<lambda>d.
              if d_tip_components d = 1 then
                (case cut d of
                   Inl e \<Rightarrow> Inl (e, d)
                 | Inr None \<Rightarrow> Inl (CyclicAncestry, d)
                 | Inr (Some boundary) \<Rightarrow> finish read source (Some boundary) d)
              else search read source (next_node + 1) d))
      else (case d_failure d of
          Some (_, e) \<Rightarrow> Inl (e, d\<lparr>d_failure := None\<rparr>)
        | None \<Rightarrow> finish read source None d))"
  by pat_completeness auto
termination
  by (relation "measure (\<lambda>(read, source, n, d). node_limit - n)") auto

declare search.simps [simp del]

definition run_discovery :: "(str \<Rightarrow> commit walk) \<Rightarrow> bool \<Rightarrow> discovery \<Rightarrow> graph step" where
  "run_discovery read source d =
     (if length (d_tips d) = 1 then finish read source (Some (hd (d_tips d))) d else search read source 0 d)"

section \<open>Discovery within a store\<close>

record walk_store =
  ws_complete :: "str set"
  ws_boundaries :: "str set"

fun certify_loop :: "(str \<times> commit) list \<Rightarrow> str list \<Rightarrow> str set \<Rightarrow> str set" where
  "certify_loop commits [] complete = complete"
| "certify_loop commits (oid # ids) complete = certify_loop commits ids
     (case map_of commits oid of None \<Rightarrow> complete
      | Some c \<Rightarrow> if list_all (\<lambda>p. p \<in> complete) (ct_parents c) then insert oid complete else complete)"

definition boundary_list :: "graph \<Rightarrow> str list" where
  "boundary_list g = (case g_boundary g of None \<Rightarrow> [] | Some b \<Rightarrow> [b])"

definition certify :: "graph \<Rightarrow> str set \<Rightarrow> str set" where
  "certify g complete = certify_loop (g_commits g) (boundary_list g @ rev (g_order g)) complete"

definition failed_boundaries :: "commit option \<Rightarrow> discovery \<Rightarrow> str set" where
  "failed_boundaries head d =
     set (map wn_id (filter (\<lambda>n. list_ex (\<lambda>p. p \<in> d_failed d) (wn_parents n)) (d_nodes d))) \<union>
     (case head of None \<Rightarrow> {}
      | Some h \<Rightarrow> if list_ex (\<lambda>p. case d_ids d p of None \<Rightarrow> False | Some i \<Rightarrow> i \<in> d_failed d) (ct_parents h)
          then {ct_id h} else {})"

definition discover :: "(str \<Rightarrow> commit walk) \<Rightarrow> str list \<Rightarrow> commit option \<Rightarrow> bool \<Rightarrow> walk_store \<Rightarrow> walk_store \<times> graph walk" where
  "discover read tips head source st = (case new_discovery tips of
     Inl (e, _) \<Rightarrow> (st, Inl e)
   | Inr d \<Rightarrow> (case run_discovery read source d of
       Inl (e, d) \<Rightarrow> (st\<lparr>ws_boundaries := ws_boundaries st \<union> failed_boundaries head d\<rparr>, Inl e)
     | Inr g \<Rightarrow>
         let g = (case head of None \<Rightarrow> g
            | Some h \<Rightarrow> g\<lparr>g_order := ct_id h # g_order g, g_commits := AList.update (ct_id h) h (g_commits g)\<rparr>);
             complete = certify g (ws_complete st)
         in (\<lparr>ws_complete = complete, ws_boundaries = ws_boundaries st - complete\<rparr>, Inr g)))"

definition graph_merge :: "(str \<Rightarrow> commit walk) \<Rightarrow> commit \<Rightarrow> bool \<Rightarrow> walk_store \<Rightarrow> walk_store \<times> graph walk" where
  "graph_merge read c source st = discover read (ct_parents c) (Some c) source st"

definition graph_connect :: "(str \<Rightarrow> commit walk) \<Rightarrow> str list \<Rightarrow> walk_store \<Rightarrow> walk_store \<times> graph walk" where
  "graph_connect read tips st = discover read tips None True st"

definition boundary_commit :: "(str \<Rightarrow> commit walk) \<Rightarrow> graph \<Rightarrow> walk_store \<Rightarrow> walk_store \<times> commit walk" where
  "boundary_commit read g st = (case g_boundary g of
     None \<Rightarrow> (st, Inl MissingContinuation)
   | Some oid \<Rightarrow> (case map_of (g_commits g) oid of
       Some c \<Rightarrow> (st, Inr c)
     | None \<Rightarrow> (case read oid of
         Inr c \<Rightarrow> (st, Inr c)
       | Inl e \<Rightarrow> (st\<lparr>ws_boundaries := ws_boundaries st \<union>
            set (map ct_id (filter (\<lambda>c. oid \<in> set (ct_parents c)) (map snd (g_commits g))))\<rparr>, Inl e))))"

section \<open>Ancestors and merge bases\<close>

function ancestors_loop :: "graph \<Rightarrow> str list \<Rightarrow> str set \<Rightarrow> str set" where
  "ancestors_loop g pending seen = (case pending of
     [] \<Rightarrow> seen
   | oid # pending \<Rightarrow>
       if oid \<in> seen then ancestors_loop g pending seen
       else if g_boundary g = Some oid then ancestors_loop g pending (insert oid seen)
       else (case map_of (g_commits g) oid of
           None \<Rightarrow> ancestors_loop g pending (insert oid seen)
         | Some c \<Rightarrow> ancestors_loop g (rev (ct_parents c) @ pending) (insert oid seen)))"
  by pat_completeness auto
termination
proof (relation "measures [\<lambda>(g, pending, seen). card (fst ` set (g_commits g) - seen), \<lambda>(g, pending, seen). length pending]")
  fix g pending seen oid rest c
  assume a: "pending = oid # rest" "oid \<notin> seen" "map_of (g_commits g) oid = Some c"
  then have "oid \<in> fst ` set (g_commits g)" by (force dest: map_of_SomeD)
  with a(2) have "card (fst ` set (g_commits g) - insert oid seen) < card (fst ` set (g_commits g) - seen)"
    by (intro psubset_card_mono) auto
  then show "((g, rev (ct_parents c) @ rest, insert oid seen), g, pending, seen)
    \<in> measures [\<lambda>(g, pending, seen). card (fst ` set (g_commits g) - seen), \<lambda>(g, pending, seen). length pending]"
    by simp
next
  have le: "card (A - insert x B) \<le> card (A - B)" if "finite A" for A B :: "str set" and x
    using that by (intro card_mono) auto
  fix g pending seen oid rest
  show "((g, rest, insert oid seen), g, pending, seen)
    \<in> measures [\<lambda>(g, pending, seen). card (fst ` set (g_commits g) - seen), \<lambda>(g, pending, seen). length pending]"
    if "pending = oid # rest" using that le [of "fst ` set (g_commits g)" oid seen] by auto
  then show "((g, rest, insert oid seen), g, pending, seen)
    \<in> measures [\<lambda>(g, pending, seen). card (fst ` set (g_commits g) - seen), \<lambda>(g, pending, seen). length pending]"
    if "pending = oid # rest" using that by auto
qed auto

declare ancestors_loop.simps [simp del]

definition ancestors :: "graph \<Rightarrow> str \<Rightarrow> str set" where
  "ancestors g tip = ancestors_loop g [tip] {}"

fun bases_loop :: "graph \<Rightarrow> str set \<Rightarrow> str list \<Rightarrow> str set \<Rightarrow> str list" where
  "bases_loop g common [] below = []"
| "bases_loop g common (oid # ids) below =
     (if oid \<in> common \<and> oid \<notin> below then oid # bases_loop g common ids (below \<union> ancestors g oid)
      else bases_loop g common ids below)"

definition bases :: "graph \<Rightarrow> str list \<Rightarrow> str list" where
  "bases g tips = (case tips of [] \<Rightarrow> []
     | first # rest \<Rightarrow> bases_loop g (fold (\<lambda>tip common. common \<inter> ancestors g tip) rest (ancestors g first))
         (g_order g @ boundary_list g) {})"

end
