(* ===== verification/Walk_Cut.thy ===== *)
theory Walk_Cut
  imports Walk
begin

text \<open>
  The replay \<open>cut\<close>: over a discovered graph it processes children before parents and stops at the
  first moment when a single commit is left in front. That commit lies on every path from the tips
  to where the recorded ancestry ends, and every other such commit is one of its ancestors; when
  there is none, \<open>cut\<close> says so.
\<close>

section \<open>Discovered graphs\<close>

abbreviation parents_of :: "wnode list \<Rightarrow> nat \<Rightarrow> nat list" where
  "parents_of ns i \<equiv> wn_parents (ns ! i)"

definition in_edges :: "wnode list \<Rightarrow> nat set \<Rightarrow> nat \<Rightarrow> nat" where
  "in_edges ns A p = (\<Sum>i\<in>A. count_list (parents_of ns i) p)"

definition links :: "wnode list \<Rightarrow> (nat \<times> nat) set" where
  "links ns = {(i, p). i < length ns \<and> p \<in> set (parents_of ns i)}"

definition graph_ok :: "wnode list \<Rightarrow> nat list \<Rightarrow> bool" where
  "graph_ok ns tips \<longleftrightarrow>
     (\<forall>i<length ns. set (parents_of ns i) \<subseteq> {..<length ns}) \<and>
     (\<forall>p<length ns. wn_children (ns ! p) = in_edges ns {..<length ns} p) \<and>
     distinct tips \<and> set tips \<subseteq> {..<length ns} \<and>
     (\<forall>p<length ns. wn_children (ns ! p) = 0 \<longrightarrow> p \<in> set tips)"

text \<open>
  An all-path cut: a path from a tip to a commit without recorded parents cannot avoid it.
\<close>

definition all_path_cut :: "wnode list \<Rightarrow> nat list \<Rightarrow> nat \<Rightarrow> bool" where
  "all_path_cut ns tips b \<longleftrightarrow> b < length ns \<and>
     (\<forall>tip \<in> set tips. \<forall>e. (tip, e) \<in> (links ns - {b} \<times> UNIV)\<^sup>* \<and> parents_of ns e = [] \<longrightarrow> e = b)"

lemma in_edges_0: "finite A \<Longrightarrow> in_edges ns A p = 0 \<longleftrightarrow> (\<forall>i \<in> A. p \<notin> set (parents_of ns i))"
  by (simp add: in_edges_def count_list_0_iff)

lemma in_edges_remove: "finite A \<Longrightarrow> i \<in> A \<Longrightarrow> in_edges ns A p = in_edges ns (A - {i}) p + count_list (parents_of ns i) p"
  by (simp add: in_edges_def sum.remove [of A i])

section \<open>The invariant of the loop\<close>

fun cut_inv :: "wnode list \<Rightarrow> nat list \<Rightarrow> nat set \<Rightarrow> cut_state \<Rightarrow> bool" where
  "cut_inv ns tips P (children, ready, frontier, count) \<longleftrightarrow>
     P \<subseteq> {..<length ns} \<and> length children = length ns \<and> length frontier = length ns \<and>
     (\<forall>p<length ns. children ! p = in_edges ns ({..<length ns} - P) p) \<and>
     (\<forall>i \<in> P. children ! i = 0 \<and> parents_of ns i \<noteq> []) \<and>
     distinct ready \<and> (\<forall>i \<in> set ready. i < length ns \<and> children ! i = 0 \<and> i \<notin> P) \<and>
     (\<forall>i<length ns. children ! i = 0 \<and> i \<notin> P \<longrightarrow> i \<in> set ready \<or> parents_of ns i = []) \<and>
     (\<forall>j \<in> P. \<exists>tip \<in> set tips. (tip, j) \<in> (links ns \<inter> P \<times> UNIV)\<^sup>*) \<and>
     (\<forall>i<length ns. frontier ! i \<longleftrightarrow> i \<notin> P \<and> (i \<in> set tips \<or> (\<exists>j \<in> P. i \<in> set (parents_of ns j)))) \<and>
     count = card {i. i < length ns \<and> frontier ! i}"

text \<open>Within a step: \<open>ps\<close> are the parents of \<open>i\<close> still to come, \<open>qs\<close> those already handled.\<close>

fun cut_mid :: "wnode list \<Rightarrow> nat list \<Rightarrow> nat set \<Rightarrow> nat \<Rightarrow> nat list \<Rightarrow> nat list \<Rightarrow> cut_state \<Rightarrow> bool" where
  "cut_mid ns tips P i qs ps (children, ready, frontier, count) \<longleftrightarrow>
     length children = length ns \<and> length frontier = length ns \<and>
     (\<forall>p<length ns. children ! p = in_edges ns ({..<length ns} - insert i P) p + count_list ps p) \<and>
     distinct ready \<and> (\<forall>k \<in> set ready. k < length ns \<and> children ! k = 0 \<and> k \<notin> insert i P) \<and>
     (\<forall>k<length ns. children ! k = 0 \<and> k \<notin> insert i P \<longrightarrow> k \<in> set ready \<or> parents_of ns k = []) \<and>
     (\<forall>k<length ns. frontier ! k \<longleftrightarrow> k \<notin> insert i P \<and>
        (k \<in> set tips \<or> (\<exists>j \<in> P. k \<in> set (parents_of ns j)) \<or> k \<in> set qs)) \<and>
     count = card {k. k < length ns \<and> frontier ! k}"

lemma card_update:
  assumes "length xs = n" "p < n"
  shows "card {k. k < n \<and> xs[p := True] ! k} = (if xs ! p then card {k. k < n \<and> xs ! k} else card {k. k < n \<and> xs ! k} + 1)"
proof -
  have "{k. k < n \<and> xs[p := True] ! k} = insert p {k. k < n \<and> xs ! k}"
    using assms by (auto simp: nth_list_update)
  then show ?thesis using assms by (auto simp: insert_absorb)
qed

lemma cut_parents_mid:
  assumes "set ps \<subseteq> {..<length ns} - insert i P" "cut_mid ns tips P i qs ps st"
  shows "\<exists>st'. cut_parents ps st = Inr st' \<and> cut_mid ns tips P i (qs @ ps) [] st'"
  using assms
proof (induction ps arbitrary: qs st)
  case Nil
  obtain children ready frontier count where "st = (children, ready, frontier, count)" by (cases st)
  with Nil show ?case by auto
next
  case (Cons p ps)
  obtain children ready frontier count where st: "st = (children, ready, frontier, count)" by (cases st)
  have p: "p < length ns" "p \<notin> insert i P" using Cons.prems(1) by auto
  note m = Cons.prems(2) [unfolded st cut_mid.simps]
  let ?st = "(children[p := children ! p - 1], if children ! p = 1 then ready @ [p] else ready,
      frontier[p := True], if frontier ! p then count else count + 1)"
  have pos: "p < length children" "0 < children ! p" using m p by simp_all
  have "cut_mid ns tips P i (qs @ [p]) ps ?st"
  proof -
    have len: "length (children[p := children ! p - 1]) = length ns" "length (frontier[p := True]) = length ns"
      using m by simp_all
    have new: "p \<notin> set ready" using m pos by auto
    then have ready: "distinct (if children ! p = 1 then ready @ [p] else ready)" using m by simp
    have zero: "\<forall>k \<in> set (if children ! p = 1 then ready @ [p] else ready).
        k < length ns \<and> children[p := children ! p - 1] ! k = 0 \<and> k \<notin> insert i P"
    proof
      fix k assume k: "k \<in> set (if children ! p = 1 then ready @ [p] else ready)"
      show "k < length ns \<and> children[p := children ! p - 1] ! k = 0 \<and> k \<notin> insert i P"
      proof (cases "k = p")
        case True
        with k new p pos show ?thesis by (auto split: if_splits)
      next
        case False
        with k have "k \<in> set ready" by (auto split: if_splits)
        with m False show ?thesis by auto
      qed
    qed
    have edges: "\<forall>q<length ns. children[p := children ! p - 1] ! q =
        in_edges ns ({..<length ns} - insert i P) q + count_list ps q"
      using m p by (auto simp: nth_list_update)
    have front: "\<forall>k<length ns. frontier[p := True] ! k \<longleftrightarrow> k \<notin> insert i P \<and>
        (k \<in> set tips \<or> (\<exists>j \<in> P. k \<in> set (parents_of ns j)) \<or> k \<in> set (qs @ [p]))"
      using m p by (auto simp: nth_list_update)
    have all: "\<forall>k<length ns. children[p := children ! p - 1] ! k = 0 \<and> k \<notin> insert i P \<longrightarrow>
        k \<in> set (if children ! p = 1 then ready @ [p] else ready) \<or> parents_of ns k = []"
      using m pos by (auto simp: nth_list_update)
    have count: "(if frontier ! p then count else count + 1) = card {k. k < length ns \<and> frontier[p := True] ! k}"
      using card_update [of frontier "length ns" p] m p by simp
    show ?thesis unfolding cut_mid.simps using len edges ready zero all front count by blast
  qed
  from Cons.IH [OF _ this] Cons.prems(1) pos st show ?case by auto
qed

lemma cut_step:
  assumes ok: "graph_ok ns tips" and inv: "cut_inv ns tips P (children, i # ready, frontier, count)"
    and parents: "parents_of ns i \<noteq> []"
  shows "0 < count \<and> frontier ! i \<and> (\<exists>st. cut_parents (parents_of ns i) (children, ready, frontier[i := False], count - 1) = Inr st \<and>
    cut_inv ns tips (insert i P) st)"
proof -
  note v = inv [unfolded cut_inv.simps]
  let ?A = "{..<length ns} - P"
  have i: "i < length ns" "i \<notin> P" "i \<notin> set ready" "children ! i = 0" using v by auto
  have none: "i \<notin> set (parents_of ns j)" if "j \<in> ?A" for j
    using v i that in_edges_0 [of ?A ns i] by simp
  have front: "frontier ! i"
  proof (cases "i \<in> set tips")
    case True
    then show ?thesis using v i by auto
  next
    case False
    then have "in_edges ns {..<length ns} i \<noteq> 0" using ok i unfolding graph_ok_def by metis
    then obtain j where "j < length ns" "i \<in> set (parents_of ns j)" by (auto simp: in_edges_0)
    with none have "j \<in> P" by auto
    then show ?thesis using v i \<open>i \<in> set (parents_of ns j)\<close> by auto
  qed
  have pos: "0 < count"
  proof -
    have "{k. k < length ns \<and> frontier ! k} \<noteq> {}" using front i by auto
    then show ?thesis using v by (simp add: card_gt_0_iff)
  qed
  have ps: "set (parents_of ns i) \<subseteq> {..<length ns} - insert i P"
  proof
    fix p assume p: "p \<in> set (parents_of ns i)"
    then have "p < length ns" using ok i by (auto simp: graph_ok_def)
    moreover from this have "children ! p \<noteq> 0" using v p i in_edges_0 [of ?A ns p] by auto
    then have "p \<notin> P" using v by auto
    moreover have "p \<noteq> i" using none [of i] i p by auto
    ultimately show "p \<in> {..<length ns} - insert i P" by simp
  qed
  have diff: "{..<length ns} - insert i P = ?A - {i}" by auto
  have "in_edges ns ?A p = in_edges ns ({..<length ns} - insert i P) p + count_list (parents_of ns i) p" for p
    using in_edges_remove [of ?A i ns p] i unfolding diff by simp
  moreover have "card {k. k < length ns \<and> frontier[i := False] ! k} = count - 1"
  proof -
    have "{k. k < length ns \<and> frontier[i := False] ! k} = {k. k < length ns \<and> frontier ! k} - {i}"
      using v i by (auto simp: nth_list_update)
    then show ?thesis using v i front by simp
  qed
  ultimately have "cut_mid ns tips P i [] (parents_of ns i) (children, ready, frontier[i := False], count - 1)"
    using v i by (auto simp: nth_list_update)
  from cut_parents_mid [OF ps this] obtain st where st: "cut_parents (parents_of ns i) (children, ready, frontier[i := False], count - 1) = Inr st"
    "cut_mid ns tips P i (parents_of ns i) [] st" by (auto simp del: cut_mid.simps)
  obtain children' ready' frontier' count' where s: "st = (children', ready', frontier', count')" by (cases st)
  have *: "in_edges ns ({..<length ns} - insert i P) k = 0" if "k \<in> insert i P" for k
  proof -
    have "in_edges ns ?A k = 0" using that v i by (cases "k = i") auto
    then show ?thesis by (simp add: in_edges_0)
  qed
  have reach: "\<forall>j \<in> P. \<exists>tip \<in> set tips. (tip, j) \<in> (links ns \<inter> P \<times> UNIV)\<^sup>*"
    using v by (elim conjE)
  have reached: "\<exists>tip \<in> set tips. (tip, j) \<in> (links ns \<inter> insert i P \<times> UNIV)\<^sup>*" if "j \<in> insert i P" for j
  proof -
    have mono: "(x, y) \<in> (links ns \<inter> insert i P \<times> UNIV)\<^sup>*" if "(x, y) \<in> (links ns \<inter> P \<times> UNIV)\<^sup>*" for x y
      using that rtrancl_mono [of "links ns \<inter> P \<times> UNIV" "links ns \<inter> insert i P \<times> UNIV"] by auto
    show ?thesis
    proof (cases "j \<in> P")
      case True
      with reach obtain tip where "tip \<in> set tips" "(tip, j) \<in> (links ns \<inter> P \<times> UNIV)\<^sup>*" by blast
      then show ?thesis using mono by blast
    next
      case False
      with that have j: "j = i" by simp
      show ?thesis
      proof (cases "i \<in> set tips")
        case True
        then show ?thesis using j by blast
      next
        case False
        with v i front obtain k where k: "k \<in> P" "i \<in> set (parents_of ns k)" by auto
        with reach obtain tip where "tip \<in> set tips" "(tip, k) \<in> (links ns \<inter> P \<times> UNIV)\<^sup>*" by blast
        moreover have "(k, i) \<in> links ns \<inter> insert i P \<times> UNIV" using k v by (auto simp: links_def)
        ultimately show ?thesis unfolding j using mono by (meson rtrancl.rtrancl_into_rtrancl)
      qed
    qed
  qed
  then have reached: "\<forall>j \<in> insert i P. \<exists>tip \<in> set tips. (tip, j) \<in> (links ns \<inter> insert i P \<times> UNIV)\<^sup>*" by blast
  note m = st(2) [unfolded s cut_mid.simps]
  have "\<forall>j \<in> insert i P. children' ! j = 0 \<and> parents_of ns j \<noteq> []"
    using m * v i parents by auto
  moreover have "\<forall>k<length ns. frontier' ! k \<longleftrightarrow> k \<notin> insert i P \<and> (k \<in> set tips \<or> (\<exists>j \<in> insert i P. k \<in> set (parents_of ns j)))"
    using m by auto
  moreover have "insert i P \<subseteq> {..<length ns}" using v i by auto
  moreover have "\<forall>p<length ns. children' ! p = in_edges ns ({..<length ns} - insert i P) p" using m by simp
  ultimately have "cut_inv ns tips (insert i P) st"
    unfolding s cut_inv.simps using m reached by blast
  with pos st front show ?thesis by blast
qed


section \<open>What the loop returns\<close>

declare cut_inv.simps [simp del]

lemma cut_inv_rest: "cut_inv ns tips P (children, i # ready, frontier, count) \<Longrightarrow> parents_of ns i = [] \<Longrightarrow>
    cut_inv ns tips P (children, ready, frontier, count)"
  by (auto simp: cut_inv.simps)

text \<open>The state in which the loop ends, and the nodes processed until then, none of which is a cut.\<close>

definition cut_exit :: "wnode list \<Rightarrow> nat list \<Rightarrow> nat option walk \<Rightarrow> bool" where
  "cut_exit ns tips r \<longleftrightarrow> (\<exists>P children ready frontier count.
     cut_inv ns tips P (children, ready, frontier, count) \<and>
     (acyclic (links ns) \<longrightarrow> (\<forall>c \<in> P. \<not> all_path_cut ns tips c)) \<and>
     (r = Inr None \<and> ready = [] \<and> count \<noteq> 1 \<or> r = Inr (find_first (\<lambda>pending. pending) frontier) \<and> count = 1))"

lemma cut_loop_exit:
  assumes "graph_ok ns tips"
    and passed: "\<And>P i children ready frontier count. cut_inv ns tips P (children, i # ready, frontier, count) \<Longrightarrow>
      count \<noteq> 1 \<Longrightarrow> parents_of ns i \<noteq> [] \<Longrightarrow> acyclic (links ns) \<Longrightarrow> \<not> all_path_cut ns tips i"
  shows "cut_inv ns tips P st \<Longrightarrow> snd (snd (snd st)) \<noteq> 1 \<Longrightarrow>
    (\<And>c. c \<in> P \<Longrightarrow> acyclic (links ns) \<Longrightarrow> \<not> all_path_cut ns tips c) \<Longrightarrow> cut_exit ns tips (cut_loop ns st)"
proof (induction "(length ns - card P, length (fst (snd st)))" arbitrary: P st rule: wf_induct_rule [OF wf_lex_prod [OF wf_less_than wf_less_than]])
  case (1 P st)
  obtain children ready frontier count where st: "st = (children, ready, frontier, count)" by (cases st)
  note inv = 1(2) [unfolded st]
  have count: "count \<noteq> 1" using 1(3) st by simp
  show ?case
  proof (cases ready)
    case Nil
    then have "cut_loop ns st = Inr None" unfolding st by (subst cut_loop.simps) simp
    with inv count 1(4) Nil show ?thesis unfolding cut_exit_def by blast
  next
    case (Cons i rest)
    note inv = inv [unfolded Cons]
    show ?thesis
    proof (cases "parents_of ns i = []")
      case True
      have "cut_exit ns tips (cut_loop ns (children, rest, frontier, count))"
        by (rule 1(1) [of P]) (use st Cons cut_inv_rest [OF inv True] count 1(4) in auto)
      then show ?thesis unfolding st Cons using True by (subst cut_loop.simps) simp
    next
      case False
      from cut_step [OF assms(1) inv False] obtain st' where step: "0 < count"
        "cut_parents (parents_of ns i) (children, rest, frontier[i := False], count - 1) = Inr st'"
        "cut_inv ns tips (insert i P) st'" by blast
      have passed_all: "\<not> all_path_cut ns tips c" if "c \<in> insert i P" "acyclic (links ns)" for c
        using that passed [OF inv count False] 1(4) by blast
      have eq: "cut_loop ns st = (if snd (snd (snd st')) = 1 then Inr (find_first (\<lambda>pending. pending) (fst (snd (snd st'))))
          else cut_loop ns st')"
        unfolding st Cons using False step by (subst cut_loop.simps) simp
      show ?thesis
      proof (cases "snd (snd (snd st')) = 1")
        case True
        obtain ch re fr co where s: "st' = (ch, re, fr, co)" by (cases st')
        with True step(3) passed_all show ?thesis unfolding eq cut_exit_def by (auto simp: s) blast
      next
        case False
        have P: "i \<notin> P" "i < length ns" "finite P" "P \<subseteq> {..<length ns}"
          using inv finite_subset [of P "{..<length ns}"] by (auto simp: cut_inv.simps)
        then have "card (insert i P) \<le> length ns"
          using card_mono [of "{..<length ns}" "insert i P"] by auto
        then have "length ns - card (insert i P) < length ns - card P" using P by simp
        then have "cut_exit ns tips (cut_loop ns st')"
          by (intro 1(1) [of "insert i P"]) (use False step(3) passed_all in auto)
        with False show ?thesis unfolding eq by simp
      qed
    qed
  qed
qed

section \<open>Cuts\<close>

lemma terminal_below:
  assumes "graph_ok ns tips" "acyclic (links ns)" "x < length ns"
  shows "\<exists>e. (x, e) \<in> (links ns)\<^sup>* \<and> parents_of ns e = []"
proof -
  have "links ns \<subseteq> {..<length ns} \<times> {..<length ns}" using assms(1) by (auto simp: links_def graph_ok_def)
  then have "finite (links ns)" by (rule finite_subset) simp
  then have "wf ((links ns)\<inverse>)" using assms(2) by (simp add: finite_acyclic_wf_converse)
  then show ?thesis using assms(3)
  proof (induction x rule: wf_induct_rule)
    case (less x)
    show ?case
    proof (cases "parents_of ns x")
      case (Cons p ps)
      then have "(x, p) \<in> links ns" "p < length ns"
        using less.prems assms(1) by (auto simp: links_def graph_ok_def)
      with less.IH [of p] show ?thesis by (meson converse_rtrancl_into_rtrancl converse_iff)
    qed auto
  qed
qed

text \<open>Above the front every path stays above it, and what is ready cannot be entered from below.\<close>

lemma front_below:
  assumes "cut_inv ns tips P (children, ready, frontier, count)" "(x, y) \<in> (links ns)\<^sup>*" "x \<notin> P" "y \<noteq> x"
    "graph_ok ns tips"
  shows "y \<notin> P \<and> y \<notin> set ready"
  using assms(2,4)
proof (induction rule: rtrancl_induct)
  case (step y z)
  note v = assms(1) [unfolded cut_inv.simps]
  have y: "y \<notin> P" using step assms(3) by (cases "y = x") auto
  have z: "z < length ns" "z \<in> set (parents_of ns y)" "y < length ns"
    using step(2) assms(5) by (auto simp: links_def graph_ok_def)
  then have "children ! z \<noteq> 0" using v y in_edges_0 [of "{..<length ns} - P" ns z] by auto
  with v show ?case by auto
qed simp

lemma front_reached:
  assumes "cut_inv ns tips P (children, ready, frontier, count)" "x < length ns" "frontier ! x"
  shows "\<exists>tip \<in> set tips. (tip, x) \<in> (links ns \<inter> P \<times> UNIV)\<^sup>*"
proof (cases "x \<in> set tips")
  case False
  note v = assms(1) [unfolded cut_inv.simps]
  from False v assms obtain j where j: "j \<in> P" "x \<in> set (parents_of ns j)" by blast
  from v have "\<forall>j \<in> P. \<exists>tip \<in> set tips. (tip, j) \<in> (links ns \<inter> P \<times> UNIV)\<^sup>*" by (elim conjE)
  with j obtain tip where "tip \<in> set tips" "(tip, j) \<in> (links ns \<inter> P \<times> UNIV)\<^sup>*" by blast
  moreover have "(j, x) \<in> links ns \<inter> P \<times> UNIV" using j v by (auto simp: links_def)
  ultimately show ?thesis by (meson rtrancl.rtrancl_into_rtrancl)
qed auto

text \<open>A cut outside \<open>P\<close> lies below every node of the front.\<close>

lemma cut_below_front:
  assumes "cut_inv ns tips P (children, ready, frontier, count)" "graph_ok ns tips" "acyclic (links ns)"
    "all_path_cut ns tips c" "c \<notin> P" "x < length ns" "frontier ! x"
  shows "(x, c) \<in> (links ns)\<^sup>*"
proof (rule ccontr)
  assume far: "(x, c) \<notin> (links ns)\<^sup>*"
  obtain tip where tip: "tip \<in> set tips" "(tip, x) \<in> (links ns \<inter> P \<times> UNIV)\<^sup>*"
    using front_reached [OF assms(1,6,7)] by blast
  obtain e where e: "(x, e) \<in> (links ns)\<^sup>*" "parents_of ns e = []" using terminal_below [OF assms(2,3,6)] by blast
  have "links ns \<inter> P \<times> UNIV \<subseteq> links ns - {c} \<times> UNIV" using assms(5) by auto
  from rtrancl_mono [OF this] tip(2) have "(tip, x) \<in> (links ns - {c} \<times> UNIV)\<^sup>*" by blast
  moreover have "(x, e) \<in> (links ns - {c} \<times> UNIV)\<^sup>*"
    using e(1)
  proof (induction rule: rtrancl_induct)
    case (step y z)
    have "y \<noteq> c" using far step(1) by auto
    with step(2) have "(y, z) \<in> links ns - {c} \<times> UNIV" by auto
    with step(3) show ?case by (rule rtrancl.rtrancl_into_rtrancl)
  qed simp
  ultimately have "e = c" using assms(4) tip(1) e(2) unfolding all_path_cut_def by (meson rtrancl_trans)
  with far e(1) show False by simp
qed

lemma card_two: "card A \<noteq> 1 \<Longrightarrow> x \<in> A \<Longrightarrow> finite A \<Longrightarrow> \<exists>y \<in> A. y \<noteq> x"
  by (metis card_1_singleton_iff is_singletonI' is_singleton_altdef empty_iff)

lemma another_front:
  assumes "cut_inv ns tips P (children, ready, frontier, count)" "count \<noteq> 1" "x < length ns" "frontier ! x"
  obtains y where "y < length ns" "frontier ! y" "y \<noteq> x" "y \<notin> P"
proof -
  have "card {k. k < length ns \<and> frontier ! k} \<noteq> 1" using assms by (simp add: cut_inv.simps)
  with card_two [OF this, of x] assms obtain y where y: "y < length ns" "frontier ! y" "y \<noteq> x" by auto
  moreover have "y \<notin> P" using assms(1) y by (auto simp: cut_inv.simps)
  ultimately show thesis using that by blast
qed

lemma ready_not_cut:
  assumes "graph_ok ns tips" "cut_inv ns tips P (children, i # ready, frontier, count)" "count \<noteq> 1"
    "parents_of ns i \<noteq> []" "acyclic (links ns)"
  shows "\<not> all_path_cut ns tips i"
proof
  assume c: "all_path_cut ns tips i"
  have i: "i < length ns" "i \<notin> P" using assms(2) by (auto simp: cut_inv.simps)
  have "frontier ! i" using cut_step [OF assms(1,2,4)] by blast
  with another_front [OF assms(2,3) i(1)] obtain y where y: "y < length ns" "frontier ! y" "y \<noteq> i" "y \<notin> P" by blast
  have "(y, i) \<in> (links ns)\<^sup>*" by (rule cut_below_front [OF assms(2,1,5) c i(2) y(1,2)])
  from front_below [OF assms(2) this y(4) _ assms(1)] y(3) show False by auto
qed

lemma exhausted:
  assumes "graph_ok ns tips" "cut_inv ns tips P (children, [], frontier, count)" "acyclic (links ns)"
    "i < length ns" "parents_of ns i \<noteq> []"
  shows "i \<in> P"
proof -
  note v = assms(2) [unfolded cut_inv.simps]
  have "links ns \<subseteq> {..<length ns} \<times> {..<length ns}" using assms(1) by (auto simp: links_def graph_ok_def)
  then have "finite (links ns)" by (rule finite_subset) simp
  then have "wf (links ns)" using assms(3) by (simp add: wf_iff_acyclic_if_finite)
  then show ?thesis using assms(4,5)
  proof (induction i rule: wf_induct_rule)
    case (less i)
    show ?case
    proof (rule ccontr)
      assume i: "i \<notin> P"
      with v less.prems have "children ! i \<noteq> 0" by auto
      with v less.prems i in_edges_0 [of "{..<length ns} - P" ns i]
      obtain j where j: "j < length ns" "j \<notin> P" "i \<in> set (parents_of ns j)" by auto
      then have "(j, i) \<in> links ns" by (simp add: links_def)
      moreover have "parents_of ns j \<noteq> []" using j(3) by (cases "parents_of ns j") auto
      ultimately show False using less.IH [of j] j by blast
    qed
  qed
qed

lemma find_first_single:
  "card {k. k < length xs \<and> xs ! k} = 1 \<Longrightarrow> \<exists>b. find_first (\<lambda>p. p) xs = Some b \<and> {k. k < length xs \<and> xs ! k} = {b}"
proof -
  assume "card {k. k < length xs \<and> xs ! k} = 1"
  then obtain b where b: "{k. k < length xs \<and> xs ! k} = {b}" by (auto simp: card_1_singleton_iff)
  show ?thesis
  proof (cases "find_first (\<lambda>p. p) xs")
    case None
    moreover have "b < length xs" "xs ! b" using b by blast+
    ultimately show ?thesis using find_first_None [of "\<lambda>p. p" xs] nth_mem by metis
  next
    case (Some k)
    then have "k < length xs \<and> xs ! k" by (simp add: find_first_Some)
    then have "k \<in> {k. k < length xs \<and> xs ! k}" by simp
    with b Some show ?thesis by simp
  qed
qed

lemma nth_set_True: "i < length f \<Longrightarrow> f[a := True] ! i \<longleftrightarrow> i = a \<or> f ! i"
  by (cases "i = a") auto

lemma cut_initial:
  assumes "graph_ok ns tips"
  shows "cut_inv ns tips {} (map wn_children ns, filter (\<lambda>i. map wn_children ns ! i = 0) [0..<length (map wn_children ns)],
    fold (\<lambda>tip f. f[tip := True]) tips (replicate (length ns) False), length tips)"
proof -
  have fold: "length (fold (\<lambda>tip f. f[tip := True]) tips f) = length f \<and>
      (\<forall>i<length f. fold (\<lambda>tip f. f[tip := True]) tips f ! i \<longleftrightarrow> f ! i \<or> i \<in> set tips)" for f :: "bool list"
    by (induction tips arbitrary: f) (auto simp: nth_set_True)
  let ?f = "fold (\<lambda>tip f. f[tip := True]) tips (replicate (length ns) False)"
  have f: "length ?f = length ns" "\<forall>i<length ns. ?f ! i \<longleftrightarrow> i \<in> set tips"
    using fold [of "replicate (length ns) False"] by auto
  have "{k. k < length ns \<and> ?f ! k} = set tips" using f assms by (auto simp: graph_ok_def)
  then have "length tips = card {k. k < length ns \<and> ?f ! k}"
    using assms distinct_card [of tips] by (simp add: graph_ok_def)
  with f assms show ?thesis by (simp add: cut_inv.simps graph_ok_def)
qed

lemma final_front:
  assumes "graph_ok ns tips" "cut_inv ns tips P (children, ready, frontier, 1)"
  shows "\<exists>b. find_first (\<lambda>pending. pending) frontier = Some b \<and> all_path_cut ns tips b \<and> b \<notin> P \<and> frontier ! b"
proof -
  note v = assms(2) [unfolded cut_inv.simps]
  then have "card {k. k < length frontier \<and> frontier ! k} = 1" by simp
  from find_first_single [OF this] v obtain b where b: "find_first (\<lambda>pending. pending) frontier = Some b"
    "{k. k < length ns \<and> frontier ! k} = {b}" by auto
  then have bn: "b < length ns" "frontier ! b" by blast+
  have front: "k \<in> P \<or> k = b" if "k < length ns" "k \<in> set tips \<or> (\<exists>j \<in> P. k \<in> set (parents_of ns j))" for k
  proof -
    have "k \<in> P \<or> frontier ! k" using v that by auto
    with b(2) that(1) show ?thesis by auto
  qed
  have "e \<in> P \<or> e = b" if "(tip, e) \<in> (links ns - {b} \<times> UNIV)\<^sup>*" "tip \<in> set tips" for tip e
    using that(1)
  proof (induction rule: rtrancl_induct)
    case base
    then show ?case using front [of tip] that(2) assms(1) by (auto simp: graph_ok_def)
  next
    case (step y z)
    then have "y \<in> P" "z \<in> set (parents_of ns y)" "y < length ns" by (auto simp: links_def)
    moreover from this have "z < length ns" using assms(1) by (auto simp: graph_ok_def)
    ultimately show ?case using front by blast
  qed
  moreover have "parents_of ns e \<noteq> []" if "e \<in> P" for e using v that by auto
  ultimately have "all_path_cut ns tips b" using bn unfolding all_path_cut_def by blast
  moreover have "b \<notin> P" using v bn by auto
  ultimately show ?thesis using b(1) bn by blast
qed

lemma no_cut_left:
  assumes "graph_ok ns tips" "cut_inv ns tips P (children, [], frontier, count)" "count \<noteq> 1" "acyclic (links ns)"
    "\<And>c. c \<in> P \<Longrightarrow> \<not> all_path_cut ns tips c"
  shows "\<not> all_path_cut ns tips c"
proof
  assume c: "all_path_cut ns tips c"
  note v = assms(2) [unfolded cut_inv.simps]
  from c assms(5) have cn: "c < length ns" "c \<notin> P" by (auto simp: all_path_cut_def)
  then have end_c: "parents_of ns c = []" using exhausted [OF assms(1,2,4)] by blast
  have "frontier ! c"
  proof (cases "c \<in> set tips")
    case False
    then have "in_edges ns {..<length ns} c \<noteq> 0" using assms(1) cn unfolding graph_ok_def by metis
    then obtain j where j: "j < length ns" "c \<in> set (parents_of ns j)" by (auto simp: in_edges_0)
    moreover from j have "parents_of ns j \<noteq> []" by (cases "parents_of ns j") auto
    then have "j \<in> P" using exhausted [OF assms(1,2,4) j(1)] by blast
    ultimately show ?thesis using v cn by auto
  qed (use v cn in auto)
  with another_front [OF assms(2,3) cn(1)] obtain y where y: "y < length ns" "frontier ! y" "y \<noteq> c" "y \<notin> P" by blast
  have "(y, c) \<in> (links ns)\<^sup>*" by (rule cut_below_front [OF assms(2,1,4) c cn(2) y(1,2)])
  with y(3) obtain z where "(y, z) \<in> links ns" by (meson converse_rtranclE)
  moreover have "parents_of ns y = []" using exhausted [OF assms(1,2,4) y(1)] y(4) by blast
  ultimately show False by (simp add: links_def)
qed

lemma cut_spec:
  assumes "graph_ok (d_nodes d) (d_tips d)" "length (d_tips d) \<noteq> 1"
  shows "case cut d of Inl e \<Rightarrow> False
    | Inr None \<Rightarrow> acyclic (links (d_nodes d)) \<longrightarrow> (\<forall>c. \<not> all_path_cut (d_nodes d) (d_tips d) c)
    | Inr (Some b) \<Rightarrow> all_path_cut (d_nodes d) (d_tips d) b \<and>
        (acyclic (links (d_nodes d)) \<longrightarrow>
          (\<forall>c. all_path_cut (d_nodes d) (d_tips d) c \<longrightarrow> (b, c) \<in> (links (d_nodes d))\<^sup>*))"
proof -
  let ?ns = "d_nodes d" and ?tips = "d_tips d"
  have "cut_exit ?ns ?tips (cut d)"
    unfolding cut_def Let_def
    by (rule cut_loop_exit [OF assms(1) ready_not_cut [OF assms(1)] cut_initial [OF assms(1)]]) (use assms(2) in auto)
  then obtain P children ready frontier count where inv: "cut_inv ?ns ?tips P (children, ready, frontier, count)"
    and passed: "acyclic (links ?ns) \<longrightarrow> (\<forall>c \<in> P. \<not> all_path_cut ?ns ?tips c)"
    and out: "cut d = Inr None \<and> ready = [] \<and> count \<noteq> 1 \<or> cut d = Inr (find_first (\<lambda>pending. pending) frontier) \<and> count = 1"
    unfolding cut_exit_def by blast
  from out show ?thesis
  proof (elim disjE conjE)
    assume a: "cut d = Inr None" "ready = []" "count \<noteq> 1"
    then show ?thesis using no_cut_left [OF assms(1) inv [unfolded a(2)] a(3)] passed by simp
  next
    assume a: "cut d = Inr (find_first (\<lambda>pending. pending) frontier)" "count = 1"
    from final_front [OF assms(1) inv [unfolded a(2)]] obtain b where b: "find_first (\<lambda>pending. pending) frontier = Some b"
      "all_path_cut ?ns ?tips b" "b \<notin> P" "frontier ! b" by blast
    have "(b, c) \<in> (links ?ns)\<^sup>*" if "acyclic (links ?ns)" "all_path_cut ?ns ?tips c" for c
      using cut_below_front [OF inv assms(1) that] passed that b by (auto simp: all_path_cut_def)
    with a b show ?thesis by simp
  qed
qed

text \<open>
  C7: over a discovered graph with several tips, \<open>cut\<close> never fails, and a commit it returns lies on
  every path from the tips to where the recorded ancestry ends. When the ancestry has no cycle, it
  is the nearest such commit, all others being its ancestors, and \<open>cut\<close> finds none only when there
  is none.
\<close>

theorem cut_nearest:
  assumes "graph_ok (d_nodes d) (d_tips d)" "length (d_tips d) \<noteq> 1"
  shows "case cut d of Inl e \<Rightarrow> False
    | Inr None \<Rightarrow> acyclic (links (d_nodes d)) \<longrightarrow> (\<forall>c. \<not> all_path_cut (d_nodes d) (d_tips d) c)
    | Inr (Some b) \<Rightarrow> all_path_cut (d_nodes d) (d_tips d) b \<and>
        (acyclic (links (d_nodes d)) \<longrightarrow>
          (\<forall>c. all_path_cut (d_nodes d) (d_tips d) c \<longrightarrow> (b, c) \<in> (links (d_nodes d))\<^sup>*))"
  using cut_spec [OF assms] .

text \<open>Two tips with one parent, which has a parent of its own.\<close>

definition joined_node :: "nat \<Rightarrow> nat list \<Rightarrow> nat \<Rightarrow> wnode" where
  "joined_node i ps n = \<lparr>wn_id = [i], wn_commit = Some \<lparr>ct_id = [i], ct_tree = [], ct_parents = map (\<lambda>p. [p]) ps,
       ct_date = [], ct_subject = []\<rparr>, wn_parents = ps, wn_children = n, wn_component = 0,
     wn_size = 1, wn_selected = False, wn_pending = 0, wn_waiting = {}\<rparr>"

definition joined :: discovery where
  "joined = \<lparr>d_nodes = [joined_node 0 [2] 0, joined_node 1 [2] 0, joined_node 2 [3] 2, joined_node 3 [] 1], d_ids = Map.empty,
     d_tips = [0, 1], d_tip_components = 1, d_ready = [], d_bytes = 0, d_failed = {}, d_failure = None\<rparr>"

lemma joined_ok: "graph_ok (d_nodes joined) (d_tips joined)"
proof -
  have four: "{..<4 :: nat} = {0, 1, 2, 3}" and all: "(\<forall>i<4. Q i) \<longleftrightarrow> Q 0 \<and> Q 1 \<and> Q 2 \<and> Q 3" for Q :: "nat \<Rightarrow> bool"
    by (auto simp: less_Suc_eq numeral_eq_Suc)
  have "length (d_nodes joined) = 4" by (simp add: joined_def)
  then show ?thesis
    unfolding graph_ok_def in_edges_def by (simp add: all four) (simp add: joined_def joined_node_def)
qed

lemma joined_cut: "cut joined = Inr (Some 2)"
  by code_simp

theorem cut_nearest_witness: "all_path_cut (d_nodes joined) (d_tips joined) 2"
  using cut_nearest [OF joined_ok] by (simp add: joined_cut) (simp add: joined_def)

end
