(* ===== verification/Walk_Bases.thy ===== *)
theory Walk_Bases
  imports Walk
begin

text \<open>
  The recorded ancestry of a graph: \<open>ancestors\<close> is reachability, \<open>bases\<close> the common ancestors that
  no other common ancestor descends to, and \<open>certify\<close> keeps the certified commits closed under
  parents.
\<close>

section \<open>Reachability\<close>

definition g_edges :: "graph \<Rightarrow> (str \<times> str) set" where
  "g_edges g = {(a, b). g_boundary g \<noteq> Some a \<and> (\<exists>c. map_of (g_commits g) a = Some c \<and> b \<in> set (ct_parents c))}"

lemma g_edges_iff: "(a, b) \<in> g_edges g \<longleftrightarrow>
    g_boundary g \<noteq> Some a \<and> (\<exists>c. map_of (g_commits g) a = Some c \<and> b \<in> set (ct_parents c))"
  by (simp add: g_edges_def)

lemma reach_closed: "(a, b) \<in> r\<^sup>* \<Longrightarrow> a \<in> A \<Longrightarrow> (\<And>x y. x \<in> A \<Longrightarrow> (x, y) \<in> r \<Longrightarrow> y \<in> A) \<Longrightarrow> b \<in> A"
  by (induction rule: rtrancl_induct) blast+

lemma reach_step:
  assumes "\<And>b. (a, b) \<in> r \<longleftrightarrow> b \<in> N"
  shows "insert a (r\<^sup>* `` N) = r\<^sup>* `` {a}"
proof (rule set_eqI)
  fix x
  show "x \<in> insert a (r\<^sup>* `` N) \<longleftrightarrow> x \<in> r\<^sup>* `` {a}"
    using assms converse_rtranclE [of a x r] converse_rtrancl_into_rtrancl [of a _ r x] by (auto; blast)
qed

lemma ancestors_loop_reach:
  assumes "\<And>a b. a \<in> seen \<Longrightarrow> (a, b) \<in> g_edges g \<Longrightarrow> b \<in> seen \<or> b \<in> set pending"
  shows "ancestors_loop g pending seen = seen \<union> (g_edges g)\<^sup>* `` set pending"
  using assms
proof (induction g pending seen rule: ancestors_loop.induct)
  case (1 g pending seen)
  show ?case
  proof (cases pending)
    case Nil
    then show ?thesis by (subst ancestors_loop.simps) simp
  next
    case (Cons oid rest)
    let ?next = "if g_boundary g = Some oid then [] else (case map_of (g_commits g) oid of None \<Rightarrow> [] | Some c \<Rightarrow> rev (ct_parents c))"
    have edges: "(oid, b) \<in> g_edges g \<longleftrightarrow> b \<in> set ?next" for b
      by (cases "map_of (g_commits g) oid") (auto simp: g_edges_iff)
    show ?thesis
    proof (cases "oid \<in> seen")
      case True
      have closed: "(\<And>a b. a \<in> seen \<Longrightarrow> (a, b) \<in> g_edges g \<Longrightarrow> b \<in> seen \<or> b \<in> set rest)"
        using 1(5) Cons True by fastforce
      from 1(1) [OF Cons True] closed
      have eq: "ancestors_loop g pending seen = seen \<union> (g_edges g)\<^sup>* `` set rest"
        using Cons True by (subst ancestors_loop.simps) simp
      have "x \<in> seen \<union> (g_edges g)\<^sup>* `` set rest" if "(oid, x) \<in> (g_edges g)\<^sup>*" for x
        by (rule reach_closed [OF that]) (use True closed in \<open>auto intro: rtrancl_into_rtrancl\<close>)
      then show ?thesis unfolding eq using Cons by auto
    next
      case False
      have closed: "a \<in> insert oid seen \<Longrightarrow> (a, b) \<in> g_edges g \<Longrightarrow> b \<in> insert oid seen \<or> b \<in> set (?next @ rest)" for a b
        using 1(5) Cons edges by auto
      have IH: "ancestors_loop g (?next @ rest) (insert oid seen) = insert oid seen \<union> (g_edges g)\<^sup>* `` set (?next @ rest)"
      proof (cases "g_boundary g = Some oid")
        case True
        then have n: "?next = []" by simp
        show ?thesis unfolding n append_Nil by (rule 1(2) [OF Cons False True]) (use closed n in simp)
      next
        case b: False
        show ?thesis
        proof (cases "map_of (g_commits g) oid")
          case None
          with b have n: "?next = []" by simp
          show ?thesis unfolding n append_Nil by (rule 1(3) [OF Cons False b None]) (use closed n in simp)
        next
          case (Some c)
          with b have n: "?next = rev (ct_parents c)" by simp
          show ?thesis unfolding n by (rule 1(4) [OF Cons False b Some]) (use closed n in simp)
        qed
      qed
      have "ancestors_loop g pending seen = ancestors_loop g (?next @ rest) (insert oid seen)"
        using Cons False by (subst ancestors_loop.simps) (auto split: option.splits)
      also have "\<dots> = seen \<union> ((g_edges g)\<^sup>* `` set rest \<union> insert oid ((g_edges g)\<^sup>* `` set ?next))"
        unfolding IH by auto
      also have "insert oid ((g_edges g)\<^sup>* `` set ?next) = (g_edges g)\<^sup>* `` {oid}"
        by (rule reach_step [OF edges])
      finally show ?thesis using Cons by auto
    qed
  qed
qed

lemma ancestors_reach: "ancestors g tip = (g_edges g)\<^sup>* `` {tip}"
  using ancestors_loop_reach [of "{}" g "[tip]"] by (simp add: ancestors_def)

section \<open>Merge bases\<close>

text \<open>Common ancestors, and those that no other common ancestor descends to.\<close>

definition common_ancestors :: "graph \<Rightarrow> str list \<Rightarrow> str set" where
  "common_ancestors g tips = {x. \<forall>tip \<in> set tips. (tip, x) \<in> (g_edges g)\<^sup>*}"

definition nearest :: "graph \<Rightarrow> str set \<Rightarrow> str set" where
  "nearest g A = {x \<in> A. \<forall>y \<in> A. (y, x) \<in> (g_edges g)\<^sup>* \<longrightarrow> y = x}"

text \<open>Children come before their ancestors.\<close>

definition descending :: "graph \<Rightarrow> str list \<Rightarrow> bool" where
  "descending g xs \<longleftrightarrow> distinct xs \<and> sorted_wrt (\<lambda>a b. (b, a) \<notin> (g_edges g)\<^sup>*) xs"

lemma fold_common: "fold (\<lambda>tip common. common \<inter> ancestors g tip) tips A = {x \<in> A. \<forall>tip \<in> set tips. (tip, x) \<in> (g_edges g)\<^sup>*}"
  by (induction tips arbitrary: A) (auto simp: ancestors_reach)

lemma bases_loop_nearest:
  assumes "descending g (done_ids @ ids)" "A \<subseteq> set (done_ids @ ids)" "B = nearest g A \<inter> set done_ids"
    "below = (g_edges g)\<^sup>* `` B" "\<And>y. y \<in> A \<Longrightarrow> y \<in> set done_ids \<Longrightarrow> y \<in> below"
  shows "set (bases_loop g A ids below) = nearest g A - set done_ids"
  using assms
proof (induction ids arbitrary: done_ids B below)
  case Nil
  then show ?case by (auto simp: nearest_def)
next
  case (Cons x ids)
  let ?r = "(g_edges g)\<^sup>*"
  have x: "x \<notin> set done_ids" "x \<notin> set ids" and later: "\<And>y. y \<in> set ids \<Longrightarrow> (y, x) \<notin> ?r"
    using Cons.prems(1) by (auto simp: descending_def sorted_wrt_append)
  have near: "x \<in> nearest g A \<longleftrightarrow> x \<in> A \<and> x \<notin> below"
  proof -
    have "y \<in> set done_ids \<or> y = x" if "y \<in> A" "(y, x) \<in> ?r" for y
      using that later Cons.prems(2) by auto
    moreover have "x \<in> below" if "y \<in> A" "(y, x) \<in> ?r" "y \<in> set done_ids" for y
      using Cons.prems(4) Cons.prems(5) [OF that(1,3)] that(2) by (auto intro: rtrancl_trans)
    moreover have "\<exists>y \<in> A. (y, x) \<in> ?r \<and> y \<noteq> x" if "x \<in> below"
      using that Cons.prems(3,4) x(1) by (auto simp: nearest_def)
    ultimately show ?thesis by (auto simp: nearest_def)
  qed
  let ?below = "if x \<in> nearest g A then below \<union> ancestors g x else below"
  have IH: "set (bases_loop g A ids ?below) = nearest g A - set (done_ids @ [x])"
  proof (rule Cons.IH)
    show "?below = ?r `` (nearest g A \<inter> set (done_ids @ [x]))"
      using Cons.prems(3,4) by (auto simp: ancestors_reach)
    show "y \<in> ?below" if "y \<in> A" "y \<in> set (done_ids @ [x])" for y
      using that near Cons.prems(5) by (auto simp: ancestors_reach)
  qed (use Cons.prems in auto)
  show ?case
  proof (cases "x \<in> nearest g A")
    case True
    then have "bases_loop g A (x # ids) below = x # bases_loop g A ids (below \<union> ancestors g x)"
      using near by simp
    with IH True x(1) show ?thesis by (simp add: insert_Diff_if) blast
  next
    case False
    then have "bases_loop g A (x # ids) below = bases_loop g A ids below"
      using near by auto
    with IH False show ?thesis by simp
  qed
qed

lemma bases_nearest:
  assumes "descending g (g_order g @ boundary_list g)" "tips \<noteq> []"
    "common_ancestors g tips \<subseteq> set (g_order g @ boundary_list g)"
  shows "set (bases g tips) = nearest g (common_ancestors g tips)"
proof -
  obtain first rest where tips: "tips = first # rest" using assms(2) by (cases tips) auto
  have "fold (\<lambda>tip common. common \<inter> ancestors g tip) rest (ancestors g first) = common_ancestors g tips"
    unfolding fold_common tips by (auto simp: ancestors_reach common_ancestors_def)
  then have "bases g tips = bases_loop g (common_ancestors g tips) (g_order g @ boundary_list g) {}"
    by (simp add: bases_def tips)
  with bases_loop_nearest [of g "[]" "g_order g @ boundary_list g" "common_ancestors g tips" "{}" "{}"] assms
  show ?thesis by simp
qed


section \<open>Certified commits\<close>

text \<open>
  A set of commits is closed when it holds the parents of each recorded commit in it.
\<close>

definition parents_certified :: "(str \<times> commit) list \<Rightarrow> str set \<Rightarrow> str set \<Rightarrow> bool" where
  "parents_certified commits old complete \<longleftrightarrow>
     (\<forall>oid \<in> complete - old. \<exists>c. map_of commits oid = Some c \<and> set (ct_parents c) \<subseteq> complete)"

lemma certify_loop_closed:
  "parents_certified commits old complete \<Longrightarrow> parents_certified commits old (certify_loop commits ids complete) \<and>
    complete \<subseteq> certify_loop commits ids complete"
proof (induction ids arbitrary: complete)
  case (Cons oid ids)
  let ?c = "case map_of commits oid of None \<Rightarrow> complete
      | Some c \<Rightarrow> if list_all (\<lambda>p. p \<in> complete) (ct_parents c) then insert oid complete else complete"
  have "parents_certified commits old ?c \<and> complete \<subseteq> ?c"
  proof (cases "?c = complete")
    case False
    then obtain c where c: "map_of commits oid = Some c" "set (ct_parents c) \<subseteq> complete" "?c = insert oid complete"
      by (auto simp: list_all_iff split: option.splits if_splits)
    with Cons.prems show ?thesis unfolding c(3) parents_certified_def by blast
  qed (use Cons.prems in simp)
  with Cons.IH [of ?c] show ?case by auto
qed simp


text \<open>
  Certifying a graph adds a commit to the complete ones only when it is recorded and all its
  parents are complete, so that completeness stays closed under parents; nothing is withdrawn.
\<close>

lemma certify_closed:
  "ws_complete st \<subseteq> certify g (ws_complete st) \<and>
   parents_certified (g_commits g) (ws_complete st) (certify g (ws_complete st))"
proof -
  have "parents_certified (g_commits g) (ws_complete st) (ws_complete st)"
    by (simp add: parents_certified_def)
  from certify_loop_closed [OF this] show ?thesis by (simp add: certify_def)
qed

end
