(* ===== verification/Walk_Order.thy ===== *)
theory Walk_Order
  imports Walk_Cut Walk_Bases
begin

text \<open>
  The retained interval: depth first ranking visits exactly the commits that the tips reach without
  passing the boundary, and the ordered loop lists each of them once, before all its parents.
\<close>

section \<open>Ranking\<close>

text \<open>Links within the interval: neither from nor to the boundary.\<close>

definition inner_links :: "wnode list \<Rightarrow> nat option \<Rightarrow> (nat \<times> nat) set" where
  "inner_links ns boundary = {(i, p) \<in> links ns. Some i \<noteq> boundary \<and> Some p \<noteq> boundary}"

definition rank_inv :: "wnode list \<Rightarrow> nat option \<Rightarrow> nat list \<Rightarrow> nat list \<Rightarrow> nat option list \<Rightarrow> nat list \<Rightarrow> bool" where
  "rank_inv ns boundary tips pending ranks retained \<longleftrightarrow>
     length ranks = length ns \<and> distinct retained \<and> set retained \<subseteq> {..<length ns} \<and>
     (\<forall>i<length ns. ranks ! i \<noteq> None \<longleftrightarrow> i \<in> set retained) \<and>
     inj_on (\<lambda>i. ranks ! i) (set retained) \<and>
     (\<forall>i \<in> set retained. Some i \<noteq> boundary \<and> wn_commit (ns ! i) \<noteq> None \<and> the (ranks ! i) < length retained) \<and>
     (\<forall>i \<in> set tips. Some i = boundary \<or> i \<in> set retained \<or> i \<in> set pending) \<and>
     (\<forall>i \<in> set retained. \<forall>p \<in> set (parents_of ns i). Some p = boundary \<or> p \<in> set retained \<or> p \<in> set pending) \<and>
     (\<forall>i \<in> set retained \<union> set pending. Some i \<noteq> boundary \<longrightarrow> (\<exists>tip \<in> set tips. Some tip \<noteq> boundary \<and> (tip, i) \<in> (inner_links ns boundary)\<^sup>*))"

lemma rank_inv_skip:
  assumes "rank_inv ns boundary tips (i # pending) ranks retained" "i < length ranks" "Some i = boundary \<or> ranks ! i \<noteq> None"
  shows "rank_inv ns boundary tips pending ranks retained"
  using assms unfolding rank_inv_def by auto

lemma rank_inv_take:
  assumes inv: "rank_inv ns boundary tips (i # pending) ranks retained" and i: "i < length ranks"
    and new: "Some i \<noteq> boundary" "ranks ! i = None" and c: "wn_commit (ns ! i) \<noteq> None"
  shows "rank_inv ns boundary tips (parents_of ns i @ pending) (ranks[i := Some (length retained)]) (retained @ [i])"
proof -
  note v = inv [unfolded rank_inv_def]
  have i': "i < length ns" "i \<notin> set retained" using v i new by auto
  let ?ranks = "ranks[i := Some (length retained)]"
  have same: "?ranks ! k = (if k = i then Some (length retained) else ranks ! k)" for k
    using i by (simp add: nth_list_update)
  have less: "ranks ! k \<noteq> Some (length retained)" if "k \<in> set retained" for k
    using v that by force
  have "inj_on (\<lambda>k. ?ranks ! k) (set (retained @ [i]))"
    using v i' less unfolding same by (auto simp: inj_on_def)
  moreover obtain tip where tip: "tip \<in> set tips" "Some tip \<noteq> boundary" "(tip, i) \<in> (inner_links ns boundary)\<^sup>*"
    using v new(1) by auto
  have "\<exists>tip \<in> set tips. Some tip \<noteq> boundary \<and> (tip, k) \<in> (inner_links ns boundary)\<^sup>*"
    if "k \<in> set (parents_of ns i)" "Some k \<noteq> boundary" for k
  proof -
    have "(i, k) \<in> inner_links ns boundary" using that i' new by (simp add: inner_links_def links_def)
    with tip show ?thesis by (meson rtrancl.rtrancl_into_rtrancl)
  qed
  ultimately show ?thesis
    using v i' new c unfolding rank_inv_def same by (auto simp: less_Suc_eq)
qed

lemma rank_loop_inv:
  "\<forall>i<length ns. set (parents_of ns i) \<subseteq> {..<length ns} \<Longrightarrow>
    rank_inv ns boundary tips pending ranks retained \<Longrightarrow> set pending \<subseteq> {..<length ns} \<Longrightarrow>
    case rank_loop ns boundary pending ranks retained of Inl e \<Rightarrow> e = UnfinishedGraph
    | Inr (ranks', retained') \<Rightarrow> rank_inv ns boundary tips [] ranks' retained'"
proof (induction ns boundary pending ranks retained rule: rank_loop.induct)
  case (1 ns boundary pending ranks retained)
  show ?case
  proof (cases pending)
    case Nil
    with 1 show ?thesis by (subst rank_loop.simps) simp
  next
    case (Cons i rest)
    have i: "i < length ranks" using 1(4,5) Cons by (auto simp: rank_inv_def)
    show ?thesis
    proof (cases "Some i = boundary \<or> ranks ! i \<noteq> None")
      case True
      have "case rank_loop ns boundary rest ranks retained of Inl e \<Rightarrow> e = UnfinishedGraph
        | Inr (ranks', retained') \<Rightarrow> rank_inv ns boundary tips [] ranks' retained'"
        by (rule 1(1) [OF Cons i True 1(3)])
          (use 1(4,5) Cons rank_inv_skip [OF _ i True] in auto)
      with i True Cons show ?thesis by (subst rank_loop.simps) simp
    next
      case False
      then have new: "Some i \<noteq> boundary" "ranks ! i = None" by auto
      show ?thesis
      proof (cases "wn_commit (ns ! i) = None")
        case True
        with i new Cons show ?thesis by (subst rank_loop.simps) simp
      next
        case c: False
        have "i < length ns" using 1(5) Cons by simp
        then have ps: "set (parents_of ns i @ rest) \<subseteq> {..<length ns}" using 1(3,5) Cons by simp
        have "case rank_loop ns boundary (parents_of ns i @ rest) (ranks[i := Some (length retained)]) (retained @ [i]) of
            Inl e \<Rightarrow> e = UnfinishedGraph
          | Inr (ranks', retained') \<Rightarrow> rank_inv ns boundary tips [] ranks' retained'"
          by (rule 1(2) [OF Cons i False c 1(3) rank_inv_take [OF 1(4) [unfolded Cons] i new c] ps])
        with i new c Cons show ?thesis by (subst rank_loop.simps) simp
      qed
    qed
  qed
qed

section \<open>Counting children\<close>

lemma count_parents:
  "length c = n \<Longrightarrow> set ps \<subseteq> {..<n} \<Longrightarrow> length (fold (\<lambda>p c. if Some p = boundary then c else c[p := c ! p + 1]) ps c) = n \<and>
    (\<forall>q<n. fold (\<lambda>p c. if Some p = boundary then c else c[p := c ! p + 1]) ps c ! q =
      c ! q + (if Some q = boundary then 0 else count_list ps q))"
proof (induction ps arbitrary: c)
  case (Cons p ps)
  let ?c = "if Some p = boundary then c else c[p := c ! p + 1]"
  have "length ?c = n" "set ps \<subseteq> {..<n}" using Cons.prems by auto
  from Cons.IH [OF this] have "length (fold (\<lambda>p c. if Some p = boundary then c else c[p := c ! p + 1]) ps ?c) = n \<and>
    (\<forall>q<n. fold (\<lambda>p c. if Some p = boundary then c else c[p := c ! p + 1]) ps ?c ! q =
      ?c ! q + (if Some q = boundary then 0 else count_list ps q))" .
  moreover have "?c ! q = c ! q + (if Some p \<noteq> boundary \<and> p = q then 1 else 0)" if "q < n" for q
    using Cons.prems that by (auto simp: nth_list_update)
  ultimately show ?case by auto
qed simp

lemma count_children_edges:
  assumes "\<forall>i<length ns. set (parents_of ns i) \<subseteq> {..<length ns}" "distinct retained" "set retained \<subseteq> {..<length ns}"
  shows "length (count_children ns boundary retained) = length ns \<and>
    (\<forall>q<length ns. count_children ns boundary retained ! q = (if Some q = boundary then 0 else in_edges ns (set retained) q))"
proof -
  let ?f = "\<lambda>i. fold (\<lambda>p c. if Some p = boundary then c else c[p := c ! p + 1]) (parents_of ns i)"
  have "length (fold ?f rs c) = length ns \<and>
      (\<forall>q<length ns. fold ?f rs c ! q = c ! q + (if Some q = boundary then 0 else in_edges ns (set rs) q))"
    if "distinct rs" "set rs \<subseteq> {..<length ns}" "length c = length ns" for rs c
    using that
  proof (induction rs arbitrary: c)
    case (Cons r rs)
    have r: "length (?f r c) = length ns" "\<forall>q<length ns. ?f r c ! q = c ! q + (if Some q = boundary then 0 else count_list (parents_of ns r) q)"
      using count_parents [OF Cons.prems(3), of "parents_of ns r" boundary] assms(1) Cons.prems(2) by auto
    have "in_edges ns (set (r # rs)) q = count_list (parents_of ns r) q + in_edges ns (set rs) q" for q
      using Cons.prems(1) by (simp add: in_edges_def)
    with Cons.IH [of "?f r c"] Cons.prems r show ?case by simp
  qed (simp add: in_edges_def)
  from this [of retained "replicate (length ns) 0"] assms(2,3) show ?thesis
    by (simp add: count_children_def)
qed

section \<open>The ordered loop\<close>

text \<open>Each listed commit stands after all its children in the interval.\<close>

definition children_first :: "wnode list \<Rightarrow> nat set \<Rightarrow> nat list \<Rightarrow> bool" where
  "children_first ns R order \<longleftrightarrow> distinct order \<and> set order \<subseteq> R \<and>
     (\<forall>k<length order. \<forall>i \<in> R. order ! k \<in> set (parents_of ns i) \<longrightarrow> i \<in> set (take k order))"

definition order_inv :: "wnode list \<Rightarrow> nat option list \<Rightarrow> nat option \<Rightarrow> nat set \<Rightarrow> nat list \<Rightarrow> ready_set \<Rightarrow> nat list \<Rightarrow> bool" where
  "order_inv ns ranks boundary R children ready order \<longleftrightarrow>
     length children = length ns \<and> children_first ns R order \<and> bt_ok ready \<and>
     (\<forall>p<length ns. Some p \<noteq> boundary \<longrightarrow> children ! p = in_edges ns (R - set order) p) \<and>
     (\<forall>k \<in> set (bt_keys ready). fst k = the (ranks ! snd k) \<and> snd k \<in> R - set order \<and> children ! snd k = 0)"

text \<open>Within a step, when \<open>i\<close> has been listed and \<open>ps\<close> are its parents still to come.\<close>

definition order_mid :: "wnode list \<Rightarrow> nat option list \<Rightarrow> nat option \<Rightarrow> nat set \<Rightarrow> nat list \<Rightarrow> nat list \<Rightarrow> nat list \<Rightarrow> ready_set \<Rightarrow> bool" where
  "order_mid ns ranks boundary R listed ps children ready \<longleftrightarrow>
     length children = length ns \<and> bt_ok ready \<and>
     (\<forall>p<length ns. Some p \<noteq> boundary \<longrightarrow> children ! p = in_edges ns (R - set listed) p + count_list ps p) \<and>
     (\<forall>k \<in> set (bt_keys ready). fst k = the (ranks ! snd k) \<and> snd k \<in> R - set listed \<and> children ! snd k = 0)"

lemma order_parents_mid:
  assumes "R \<subseteq> {..<length ns}" "\<And>k. k \<in> R \<Longrightarrow> Some k \<noteq> boundary"
  shows "set ps \<subseteq> {..<length ns} \<Longrightarrow> (\<And>p. p \<in> set ps \<Longrightarrow> Some p = boundary \<or> p \<in> R - set listed) \<Longrightarrow>
    order_mid ns ranks boundary R listed ps children ready \<Longrightarrow>
    \<exists>children' ready'. order_parents ranks boundary ps children ready = Inr (children', ready') \<and>
      order_mid ns ranks boundary R listed [] children' ready'"
proof (induction ps arbitrary: children ready)
  case (Cons p ps)
  note m = Cons.prems(3) [unfolded order_mid_def]
  show ?case
  proof (cases "Some p = boundary")
    case True
    have "order_mid ns ranks boundary R listed ps children ready"
      using m True unfolding order_mid_def by auto
    from Cons.IH [OF _ _ this] Cons.prems(1,2) True show ?thesis by auto
  next
    case False
    with Cons.prems(1,2) have p: "p < length ns" "p \<in> R - set listed" by auto
    have pos: "p < length children" "0 < children ! p" using m p False by auto
    let ?children = "children[p := children ! p - 1]"
    let ?ready = "if children ! p = 1 then bt_insert (the (ranks ! p), p) () ready else ready"
    have "order_mid ns ranks boundary R listed ps ?children ?ready"
    proof -
      have 1: "length ?children = length ns" "bt_ok ?ready" using m by auto
      have 2: "\<forall>q<length ns. Some q \<noteq> boundary \<longrightarrow> ?children ! q = in_edges ns (R - set listed) q + count_list ps q"
        using m p False by (auto simp: nth_list_update)
      have 3: "\<forall>k \<in> set (bt_keys ?ready). fst k = the (ranks ! snd k) \<and> snd k \<in> R - set listed \<and> ?children ! snd k = 0"
      proof
        fix k assume k: "k \<in> set (bt_keys ?ready)"
        show "fst k = the (ranks ! snd k) \<and> snd k \<in> R - set listed \<and> ?children ! snd k = 0"
        proof (cases "snd k = p")
          case True
          have "k \<notin> set (bt_keys ready)" using m pos True by auto
          with k have "children ! p = 1" "k = (the (ranks ! p), p)" by (auto split: if_splits)
          with p pos show ?thesis by simp
        next
          case False
          with k have "k \<in> set (bt_keys ready)" by (auto split: if_splits)
          with m False show ?thesis by auto
        qed
      qed
      from 1 2 3 show ?thesis unfolding order_mid_def by blast
    qed
    from Cons.IH [OF _ _ this] Cons.prems(1,2) False pos show ?thesis by auto
  qed
qed auto

lemma order_step:
  assumes R: "R \<subseteq> {..<length ns}" "\<And>k. k \<in> R \<Longrightarrow> Some k \<noteq> boundary"
    and closed: "\<And>k p. k \<in> R \<Longrightarrow> p \<in> set (parents_of ns k) \<Longrightarrow> p < length ns \<and> (Some p = boundary \<or> p \<in> R)"
    and inv: "order_inv ns ranks boundary R children (((rank, i), u) # ready) order"
  shows "\<exists>children' ready'. order_parents ranks boundary (parents_of ns i) children ready = Inr (children', ready') \<and>
    order_inv ns ranks boundary R children' ready' (order @ [i])"
proof -
  note v = inv [unfolded order_inv_def]
  have "(rank, i) \<in> set (bt_keys (((rank, i), u) # ready))" by (simp add: bt_keys_def)
  with v have rank: "rank = the (ranks ! i)" and i: "i \<in> R" "i \<notin> set order" "children ! i = 0" by fastforce+
  then have in0: "in_edges ns (R - set order) i = 0" using v R by auto
  have fin: "finite R" using R(1) finite_subset by blast
  have none: "i \<notin> set (parents_of ns j)" if "j \<in> R - set order" for j
    using in0 that fin by (simp add: in_edges_0)
  have listed: "p \<notin> set (order @ [i])" if p: "p \<in> set (parents_of ns i)" "Some p \<noteq> boundary" for p
  proof
    assume "p \<in> set (order @ [i])"
    then consider "p = i" | "p \<in> set order" by auto
    then show False
    proof cases
      case 1
      with none [of i] i p show False by auto
    next
      case 2
      then obtain k where "k < length order" "order ! k = p" by (auto simp: in_set_conv_nth)
      with v i(1) p(1) have "i \<in> set (take k order)" by (auto simp: children_first_def)
      with i(2) show False by (meson in_set_takeD)
    qed
  qed
  have bt: "bt_ok ready" "\<forall>k \<in> set (bt_keys ready). (rank, i) < k"
    using v by (auto simp: bt_ok_def bt_keys_def)
  have "order_mid ns ranks boundary R (order @ [i]) (parents_of ns i) children ready"
  proof -
    have "R - set (order @ [i]) = (R - set order) - {i}" by auto
    then have "in_edges ns (R - set order) p = in_edges ns (R - set (order @ [i])) p + count_list (parents_of ns i) p" for p
      using in_edges_remove [of "R - set order" i ns p] fin i by simp
    moreover have "fst k = the (ranks ! snd k) \<and> snd k \<in> R - set (order @ [i]) \<and> children ! snd k = 0"
      if k: "k \<in> set (bt_keys ready)" for k
    proof -
      have k': "fst k = the (ranks ! snd k)" "snd k \<in> R - set order" "children ! snd k = 0"
        using v k by (auto simp: bt_keys_def)
      moreover have "k \<noteq> (rank, i)" using bt k by auto
      then have "snd k \<noteq> i" using k'(1) rank by (cases k) auto
      ultimately show ?thesis by auto
    qed
    ultimately show ?thesis using v bt unfolding order_mid_def by auto
  qed
  from order_parents_mid [OF R _ _ this] closed [OF i(1)] listed
  obtain children' ready' where st: "order_parents ranks boundary (parents_of ns i) children ready = Inr (children', ready')"
    "order_mid ns ranks boundary R (order @ [i]) [] children' ready'" by (metis DiffI lessThan_iff subsetI)
  have "children_first ns R (order @ [i])"
    unfolding children_first_def
  proof (intro conjI allI impI ballI)
    fix k j assume k: "k < length (order @ [i])" and j: "j \<in> R" "(order @ [i]) ! k \<in> set (parents_of ns j)"
    show "j \<in> set (take k (order @ [i]))"
    proof (cases "k = length order")
      case True
      with j none [of j] show ?thesis by auto
    next
      case False
      with k j v show ?thesis by (auto simp: children_first_def nth_append)
    qed
  qed (use v i in \<open>auto simp: children_first_def\<close>)
  with st show ?thesis by (auto simp: order_mid_def order_inv_def)
qed

lemma order_loop_inv:
  "R \<subseteq> {..<length ns} \<Longrightarrow> (\<And>k. k \<in> R \<Longrightarrow> Some k \<noteq> boundary) \<Longrightarrow>
   (\<And>k p. k \<in> R \<Longrightarrow> p \<in> set (parents_of ns k) \<Longrightarrow> p < length ns \<and> (Some p = boundary \<or> p \<in> R)) \<Longrightarrow>
   order_inv ns ranks boundary R children ready order \<Longrightarrow>
   \<exists>order'. order_loop ns ranks boundary children ready order = Inr order' \<and> children_first ns R order'"
proof (induction ns ranks boundary children ready order rule: order_loop.induct)
  case (1 ns ranks boundary children ready order)
  show ?case
  proof (cases ready)
    case Nil
    then show ?thesis using 1(5) by (subst order_loop.simps) (simp add: order_inv_def)
  next
    case (Cons k rest)
    obtain rank i u where k: "k = ((rank, i), u)" by (metis prod.collapse)
    note Cons = Cons [unfolded k]
    have inv: "order_inv ns ranks boundary R children (((rank, i), u) # rest) order" using 1(5) Cons by simp
    have "\<exists>children' ready'. order_parents ranks boundary (parents_of ns i) children rest = Inr (children', ready') \<and>
        order_inv ns ranks boundary R children' ready' (order @ [i])"
      by (rule order_step [OF 1(2) _ _ inv]) (use 1(3,4) in blast)+
    then obtain children' ready' where st: "order_parents ranks boundary (parents_of ns i) children rest = Inr (children', ready')"
      "order_inv ns ranks boundary R children' ready' (order @ [i])" by auto
    have "\<exists>order'. order_loop ns ranks boundary children' ready' (order @ [i]) = Inr order' \<and> children_first ns R order'"
      by (rule 1(1) [OF Cons refl refl st(1) refl 1(2)]) (use 1(3,4) st(2) in blast)+
    then show ?thesis using Cons st by (subst order_loop.simps) simp
  qed
qed

section \<open>The interval\<close>

definition retained_nodes :: "wnode list \<Rightarrow> nat option \<Rightarrow> nat list \<Rightarrow> nat set" where
  "retained_nodes ns boundary tips =
     {i. \<exists>tip \<in> set tips. Some tip \<noteq> boundary \<and> (tip, i) \<in> (inner_links ns boundary)\<^sup>*}"

definition interval_ok :: "wnode list \<Rightarrow> nat option \<Rightarrow> nat list \<Rightarrow> bool" where
  "interval_ok ns boundary tips \<longleftrightarrow>
     (\<forall>i<length ns. set (parents_of ns i) \<subseteq> {..<length ns}) \<and> set tips \<subseteq> {..<length ns} \<and>
     (\<forall>b. boundary = Some b \<longrightarrow> b < length ns)"

lemma rank_inv_final:
  assumes "interval_ok ns boundary tips" "rank_inv ns boundary tips [] ranks retained"
  shows "set retained = retained_nodes ns boundary tips"
proof
  note v = assms(2) [unfolded rank_inv_def]
  show "set retained \<subseteq> retained_nodes ns boundary tips" using v by (auto simp: retained_nodes_def)
  show "retained_nodes ns boundary tips \<subseteq> set retained"
  proof
    fix i assume "i \<in> retained_nodes ns boundary tips"
    then obtain tip where tip: "tip \<in> set tips" "Some tip \<noteq> boundary" "(tip, i) \<in> (inner_links ns boundary)\<^sup>*"
      by (auto simp: retained_nodes_def)
    from tip(3) show "i \<in> set retained"
    proof (induction rule: rtrancl_induct)
      case base
      then show ?case using v tip by auto
    next
      case (step x y)
      then show ?case using v by (auto simp: inner_links_def links_def)
    qed
  qed
qed

lemma bt_fold_ready:
  fixes f :: "nat \<Rightarrow> nat"
  shows "bt_ok (fold (\<lambda>i m. bt_insert (f i, i) () m) is []) \<and>
   set (bt_keys (fold (\<lambda>i m. bt_insert (f i, i) () m) is [])) = (\<lambda>i. (f i, i)) ` set is"
proof -
  have "bt_ok (fold (\<lambda>i m. bt_insert (f i, i) () m) is m) \<and>
     set (bt_keys (fold (\<lambda>i m. bt_insert (f i, i) () m) is m)) = (\<lambda>i. (f i, i)) ` set is \<union> set (bt_keys m)"
    if "bt_ok m" for m :: "((nat \<times> nat) \<times> unit) list"
    using that by (induction "is" arbitrary: m) auto
  from this [of "[]"] show ?thesis by (simp add: bt_keys_def)
qed

lemma interval_spec:
  assumes "interval_ok (d_nodes d) boundary (d_tips d)"
  shows "case interval boundary d of Inl e \<Rightarrow> e = UnfinishedGraph \<or> e = CyclicAncestry
    | Inr g \<Rightarrow> (\<forall>i \<in> retained_nodes (d_nodes d) boundary (d_tips d). wn_commit (d_nodes d ! i) \<noteq> None) \<and>
      (\<exists>order. g_order g = map (\<lambda>i. wn_id (d_nodes d ! i)) order \<and>
        set order = retained_nodes (d_nodes d) boundary (d_tips d) \<and>
        children_first (d_nodes d) (retained_nodes (d_nodes d) boundary (d_tips d)) order \<and>
        retained_nodes (d_nodes d) boundary (d_tips d) \<subseteq> {..<length (d_nodes d)} \<and>
        g_boundary g = map_option (\<lambda>i. wn_id (d_nodes d ! i)) boundary \<and>
        (\<exists>is. set is = retained_nodes (d_nodes d) boundary (d_tips d) \<union> set_option boundary \<and>
          g_commits g = take_commits (d_nodes d) is))"
proof -
  let ?ns = "d_nodes d" and ?tips = "d_tips d"
  let ?N = "length ?ns"
  have range: "\<forall>i<?N. set (parents_of ?ns i) \<subseteq> {..<?N}" "set ?tips \<subseteq> {..<?N}" using assms by (auto simp: interval_ok_def)
  have "rank_inv ?ns boundary ?tips ?tips (replicate ?N None) []" by (auto simp: rank_inv_def)
  from rank_loop_inv [OF range(1) this range(2)]
  show ?thesis
  proof (cases "rank_loop ?ns boundary ?tips (replicate ?N None) []")
    case (Inl e)
    with rank_loop_inv [OF range(1) \<open>rank_inv _ _ _ _ _ _\<close> range(2)] show ?thesis by (simp add: interval_def)
  next
    case (Inr r)
    obtain ranks retained where r: "r = (ranks, retained)" by (cases r)
    with rank_loop_inv [OF range(1) \<open>rank_inv _ _ _ _ _ _\<close> range(2)] Inr
    have inv: "rank_inv ?ns boundary ?tips [] ranks retained" by simp
    note v = inv [unfolded rank_inv_def]
    let ?R = "set retained"
    have R: "?R = retained_nodes ?ns boundary ?tips" by (rule rank_inv_final [OF assms inv])
    let ?children = "count_children ?ns boundary retained"
    let ?ready = "fold (\<lambda>i m. bt_insert (the (ranks ! i), i) () m) (filter (\<lambda>i. ?children ! i = 0) retained) []"
    have ch: "length ?children = ?N \<and> (\<forall>q<?N. ?children ! q = (if Some q = boundary then 0 else in_edges ?ns ?R q))"
      by (rule count_children_edges [OF range(1)]) (use v in auto)
    have ord: "order_inv ?ns ranks boundary ?R ?children ?ready []"
      using ch v bt_fold_ready [of "\<lambda>i. the (ranks ! i)" "filter (\<lambda>i. ?children ! i = 0) retained"]
      by (auto simp: order_inv_def children_first_def)
    have "\<exists>order. order_loop ?ns ranks boundary ?children ?ready [] = Inr order \<and> children_first ?ns ?R order"
      by (rule order_loop_inv [OF _ _ _ ord]) (use v range in auto)
    then obtain order where order: "order_loop ?ns ranks boundary ?children ?ready [] = Inr order" "children_first ?ns ?R order"
      by blast
    have all: "set order = ?R" if "length order = length retained"
      using that order(2) v by (intro card_subset_eq) (auto simp: children_first_def distinct_card)
    have "set (retained @ (case boundary of None \<Rightarrow> [] | Some b \<Rightarrow> [b])) = ?R \<union> set_option boundary"
      by (auto split: option.splits)
    note listed = this
    have sub: "?R \<subseteq> {..<?N}" "\<forall>i \<in> ?R. wn_commit (?ns ! i) \<noteq> None" using v by blast+
    show ?thesis
    proof (cases "length order = length retained")
      case False
      with order Inr show ?thesis by (simp add: interval_def r Let_def)
    next
      case True
      with order Inr have eq: "interval boundary d = Inr \<lparr>g_commits = take_commits ?ns (retained @ (case boundary of None \<Rightarrow> [] | Some b \<Rightarrow> [b])),
          g_order = map (\<lambda>i. wn_id (?ns ! i)) order, g_boundary = map_option (\<lambda>i. wn_id (?ns ! i)) boundary\<rparr>"
        by (simp add: interval_def r Let_def)
      have "\<exists>is. set is = ?R \<union> set_option boundary \<and>
          take_commits ?ns (retained @ (case boundary of None \<Rightarrow> [] | Some b \<Rightarrow> [b])) = take_commits ?ns is"
        using listed by blast
      with all [OF True] order(2) sub show ?thesis unfolding R [symmetric] eq
        by (simp only: sum.case graph.select_convs) blast
    qed
  qed
qed



section \<open>The graph of an interval\<close>

text \<open>
  Nodes bear the identity of their commit, no two the same, and all but the boundary have been
  expanded to their recorded parents.
\<close>

definition nodes_recorded :: "wnode list \<Rightarrow> nat option \<Rightarrow> bool" where
  "nodes_recorded ns boundary \<longleftrightarrow>
     inj_on (\<lambda>i. wn_id (ns ! i)) {..<length ns} \<and>
     (\<forall>i<length ns. \<forall>c. wn_commit (ns ! i) = Some c \<longrightarrow> ct_id c = wn_id (ns ! i) \<and>
        (Some i \<noteq> boundary \<longrightarrow> ct_parents c = map (\<lambda>p. wn_id (ns ! p)) (parents_of ns i)))"

lemma take_commits_lookup:
  assumes "inj_on (\<lambda>i. wn_id (ns ! i)) {..<length ns}" "set is \<subseteq> {..<length ns}"
    "\<forall>i<length ns. \<forall>c. wn_commit (ns ! i) = Some c \<longrightarrow> ct_id c = wn_id (ns ! i)"
  shows "map_of (take_commits ns is) oid = Some c \<longleftrightarrow> (\<exists>i \<in> set is. wn_id (ns ! i) = oid \<and> wn_commit (ns ! i) = Some c)"
proof -
  let ?f = "\<lambda>i m. case wn_commit (ns ! i) of None \<Rightarrow> m | Some c \<Rightarrow> AList.update (ct_id c) c m"
  have "map_of (fold ?f is m) oid = Some c \<longleftrightarrow> (\<exists>i \<in> set is. wn_id (ns ! i) = oid \<and> wn_commit (ns ! i) = Some c)
      \<or> (\<forall>i \<in> set is. wn_id (ns ! i) = oid \<longrightarrow> wn_commit (ns ! i) = None) \<and> map_of m oid = Some c"
    if "set is \<subseteq> {..<length ns}" for m "is"
    using that
  proof (induction "is" arbitrary: m)
    case (Cons i "is")
    have i: "i < length ns" "set is \<subseteq> {..<length ns}" using Cons.prems by auto
    have same: "k = i" if "k \<in> set is" "wn_id (ns ! k) = wn_id (ns ! i)" for k
      using that i assms(1) by (auto simp: inj_on_def)
    show ?case
    proof (cases "wn_commit (ns ! i)")
      case None
      with Cons.IH [OF i(2), of m] show ?thesis by auto
    next
      case (Some c')
      with assms(3) i have "ct_id c' = wn_id (ns ! i)" by simp
      then have "map_of (fold ?f (i # is) m) oid = map_of (fold ?f is (AList.update (wn_id (ns ! i)) c' m)) oid"
        using Some by simp
      then show ?thesis
        using Cons.IH [OF i(2), of "AList.update (wn_id (ns ! i)) c' m"] Some same
        by (auto simp: update_conv' split: if_splits)
    qed
  qed simp
  from this [OF assms(2), of "[]"] show ?thesis by (simp add: take_commits_def)
qed

lemma descending_path:
  assumes rec: "nodes_recorded ns boundary" and range: "\<forall>i<length ns. set (parents_of ns i) \<subseteq> {..<length ns}"
    and b: "\<forall>b. boundary = Some b \<longrightarrow> b < length ns"
    and order: "children_first ns R order" "set order = R" "R \<subseteq> {..<length ns}"
    and closed: "\<And>i p. i \<in> R \<Longrightarrow> p \<in> set (parents_of ns i) \<Longrightarrow> Some p = boundary \<or> p \<in> R"
    and g: "g_boundary g = map_option (\<lambda>i. wn_id (ns ! i)) boundary" "set is = R \<union> set_option boundary"
      "g_commits g = take_commits ns is"
    and path: "(wn_id (ns ! (order ! k)), y) \<in> (g_edges g)\<^sup>*" and k: "k < length order"
  shows "(\<exists>k' \<ge> k. k' < length order \<and> y = wn_id (ns ! (order ! k'))) \<or> g_boundary g = Some y"
  using path
proof (induction rule: rtrancl_induct)
  case base
  then show ?case using k by blast
next
  case (step y z)
  from step(2) have nb: "g_boundary g \<noteq> Some y" by (simp add: g_edges_def)
  with step(3) obtain k' where k': "k \<le> k'" "k' < length order" "y = wn_id (ns ! (order ! k'))" by blast
  let ?i = "order ! k'"
  have i: "?i \<in> R" "?i < length ns" using k' order(2,3) by auto
  have ib: "Some ?i \<noteq> boundary" using nb g(1) k'(3) by auto
  have comm: "\<forall>i<length ns. \<forall>c. wn_commit (ns ! i) = Some c \<longrightarrow> ct_id c = wn_id (ns ! i)"
    and inj: "inj_on (\<lambda>i. wn_id (ns ! i)) {..<length ns}" using rec by (auto simp: nodes_recorded_def)
  have is_range: "set is \<subseteq> {..<length ns}" using g(2) order(3) b by auto
  from step(2) obtain c where c: "map_of (g_commits g) y = Some c" "z \<in> set (ct_parents c)" by (auto simp: g_edges_iff)
  from c(1) obtain j where j: "j \<in> set is" "wn_id (ns ! j) = y" "wn_commit (ns ! j) = Some c"
    unfolding g(3) take_commits_lookup [OF inj is_range comm] by blast
  then have "j = ?i" using k'(3) inj is_range i by (auto simp: inj_on_def)
  with j c(2) rec i ib obtain p where p: "p \<in> set (parents_of ns ?i)" "z = wn_id (ns ! p)"
    by (auto simp: nodes_recorded_def)
  show ?case
  proof (cases "Some p = boundary")
    case True
    with p g(1) show ?thesis by (cases boundary) auto
  next
    case False
    with closed [OF i(1) p(1)] order(2) obtain m where m: "m < length order" "order ! m = p"
      by (auto simp: in_set_conv_nth)
    with order(1) i(1) p(1) have "?i \<in> set (take m order)" by (auto simp: children_first_def)
    then obtain n where "n < m" "n < length order" "order ! n = ?i" by (auto simp: in_set_conv_nth)
    with order(1) k'(2) have "k' < m" by (auto simp: children_first_def nth_eq_iff_index_eq)
    with m p k' show ?thesis by (metis less_imp_le order.trans)
  qed
qed

lemma interval_descending:
  assumes ok: "interval_ok (d_nodes d) boundary (d_tips d)" and rec: "nodes_recorded (d_nodes d) boundary"
    and run: "interval boundary d = Inr g"
  shows "descending g (g_order g @ boundary_list g)"
    and "tip \<in> set (g_order g @ boundary_list g) \<Longrightarrow> (tip, x) \<in> (g_edges g)\<^sup>* \<Longrightarrow> x \<in> set (g_order g @ boundary_list g)"
proof -
  let ?ns = "d_nodes d"
  let ?R = "retained_nodes ?ns boundary (d_tips d)"
  have inj: "inj_on (\<lambda>i. wn_id (?ns ! i)) {..<length ?ns}" using rec by (simp add: nodes_recorded_def)
  from interval_spec [OF ok] run obtain order "is" where order: "g_order g = map (\<lambda>i. wn_id (?ns ! i)) order" "set order = ?R"
      "children_first ?ns ?R order" "?R \<subseteq> {..<length ?ns}"
    and g: "g_boundary g = map_option (\<lambda>i. wn_id (?ns ! i)) boundary" "set is = ?R \<union> set_option boundary"
      "g_commits g = take_commits ?ns is" by auto
  have range: "\<forall>i<length ?ns. set (parents_of ?ns i) \<subseteq> {..<length ?ns}" "\<forall>b. boundary = Some b \<longrightarrow> b < length ?ns"
    using ok by (auto simp: interval_ok_def)
  have inner: "Some i \<noteq> boundary" if "i \<in> ?R" for i
    using that by (auto simp: retained_nodes_def inner_links_def elim: rtranclE)
  have closed: "Some p = boundary \<or> p \<in> ?R" if i: "i \<in> ?R" "p \<in> set (parents_of ?ns i)" for i p
  proof (rule disjCI)
    assume "p \<notin> ?R"
    obtain tip where tip: "tip \<in> set (d_tips d)" "Some tip \<noteq> boundary" "(tip, i) \<in> (inner_links ?ns boundary)\<^sup>*"
      using i(1) by (auto simp: retained_nodes_def)
    show "Some p = boundary"
    proof (rule ccontr)
      assume "Some p \<noteq> boundary"
      then have "(i, p) \<in> inner_links ?ns boundary" using i inner order(4) by (auto simp: inner_links_def links_def)
      with tip \<open>p \<notin> ?R\<close> show False by (auto simp: retained_nodes_def intro: rtrancl.rtrancl_into_rtrancl)
    qed
  qed
  have path: "(\<exists>k' \<ge> k. k' < length order \<and> y = wn_id (?ns ! (order ! k'))) \<or> g_boundary g = Some y"
    if "(wn_id (?ns ! (order ! k)), y) \<in> (g_edges g)\<^sup>*" "k < length order" for k y
    by (rule descending_path [OF rec range order(3,2,4) _ g that]) (use closed in blast)
  have nob: "g_boundary g \<noteq> Some (wn_id (?ns ! i))" if "i \<in> ?R" for i
    using that inner [OF that] g(1) order(4) range(2) inj by (cases boundary) (auto simp: inj_on_def)
  have stop: "x = y" if "(y, x) \<in> (g_edges g)\<^sup>*" "g_boundary g = Some y" for x y
    using that by (auto simp: g_edges_iff elim: converse_rtranclE)
  have nth: "k = k'" if "k < length order" "k' < length order" "wn_id (?ns ! (order ! k)) = wn_id (?ns ! (order ! k'))" for k k'
  proof -
    have "order ! k = order ! k'" using that order(2,4) inj nth_mem by (fastforce simp: inj_on_def)
    with that order(3) show ?thesis by (simp add: children_first_def nth_eq_iff_index_eq)
  qed
  show "descending g (g_order g @ boundary_list g)"
  proof -
    have "distinct (g_order g)"
      unfolding order(1) distinct_map using order(3) inj_on_subset [OF inj order(4)]
      by (simp add: children_first_def order(2))
    moreover have "b \<notin> set (g_order g)" if "g_boundary g = Some b" for b
      using that nob order(1,2) by auto
    moreover have "sorted_wrt (\<lambda>a b. (b, a) \<notin> (g_edges g)\<^sup>*) (g_order g)"
      unfolding sorted_wrt_iff_nth_less
    proof (intro allI impI notI)
      fix i j assume ij: "i < j" "j < length (g_order g)" and p: "(g_order g ! j, g_order g ! i) \<in> (g_edges g)\<^sup>*"
      have l: "i < length order" "j < length order" using ij order(1) by auto
      have "order ! i \<in> ?R" using l order(2) nth_mem by blast
      from path [OF p [unfolded order(1) nth_map [OF l(1)] nth_map [OF l(2)]] l(2)] nob [OF this]
      obtain k' where "k' \<ge> j" "k' < length order" "wn_id (?ns ! (order ! i)) = wn_id (?ns ! (order ! k'))" by auto
      with nth [OF l(1)] ij(1) show False by fastforce
    qed
    moreover have "(b, a) \<notin> (g_edges g)\<^sup>*" if "g_boundary g = Some b" "a \<in> set (g_order g)" for a b
      using stop [of b a] that calculation(2) by blast
    ultimately show ?thesis by (auto simp: descending_def boundary_list_def sorted_wrt_append split: option.splits)
  qed
  show "x \<in> set (g_order g @ boundary_list g)"
    if t: "tip \<in> set (g_order g @ boundary_list g)" "(tip, x) \<in> (g_edges g)\<^sup>*"
  proof (cases "g_boundary g = Some tip")
    case True
    with stop [OF t(2)] show ?thesis by (simp add: boundary_list_def)
  next
    case False
    with t(1) have "tip \<in> set (g_order g)" by (auto simp: boundary_list_def split: option.splits)
    then obtain k where "k < length order" "tip = wn_id (?ns ! (order ! k))"
      using order(1) by (auto simp: in_set_conv_nth)
    with path [of k x] t(2) have "(\<exists>k'<length order. x = wn_id (?ns ! (order ! k'))) \<or> g_boundary g = Some x" by blast
    then show ?thesis using order(1) by (auto simp: boundary_list_def)
  qed
qed

text \<open>
  On the graph that discovery assembles, the merge bases of tips inside it are exactly the
  common ancestors that no other common ancestor descends to.
\<close>

lemma interval_bases:
  assumes "interval_ok (d_nodes d) boundary (d_tips d)" "nodes_recorded (d_nodes d) boundary"
    "interval boundary d = Inr g" "tips \<noteq> []" "set tips \<subseteq> set (g_order g @ boundary_list g)"
  shows "set (bases g tips) = nearest g (common_ancestors g tips)"
proof (rule bases_nearest [OF interval_descending(1) [OF assms(1-3)] assms(4)])
  obtain tip rest where tips: "tips = tip # rest" using assms(4) by (cases tips) auto
  then show "common_ancestors g tips \<subseteq> set (g_order g @ boundary_list g)"
    using interval_descending(2) [OF assms(1-3), of tip] assms(5) by (auto simp: common_ancestors_def)
qed

theorem interval_bases_witness:
  "\<exists>g. interval (Some 2) joined = Inr g \<and> set (bases g [[0], [1]]) = nearest g (common_ancestors g [[0], [1]])"
proof -
  have ok: "interval_ok (d_nodes joined) (Some 2) (d_tips joined)"
    using joined_ok by (simp add: interval_ok_def graph_ok_def) (simp add: joined_def)
  have rec: "nodes_recorded (d_nodes joined) (Some 2)"
    by (auto simp: nodes_recorded_def joined_def joined_node_def inj_on_def less_Suc_eq numeral_eq_Suc)
  have "(case interval (Some 2) joined of Inl e \<Rightarrow> None | Inr g \<Rightarrow> Some (g_order g)) = Some [[0], [1]]"
    by code_simp
  then obtain g where g: "interval (Some 2) joined = Inr g" "g_order g = [[0], [1]]"
    by (cases "interval (Some 2) joined") auto
  from interval_bases [OF ok rec g(1), of "[[0], [1]]"] g show ?thesis by auto
qed

end
