(* ===== verification/Walk_Discovery.thy ===== *)
theory Walk_Discovery
  imports Walk_Order "HOL-Library.Code_Target_Nat"
begin

text \<open>
  What the search keeps true of the discovered graph, and with it the promise of a discovery: when
  it returns a boundary, every path of the history from a tip to a root commit leads through it.
\<close>

section \<open>Operations that leave the graph alone\<close>

text \<open>The part of a state that components, sizes and waiting children do not touch.\<close>

definition node_shape :: "wnode \<Rightarrow> str \<times> commit option \<times> nat list \<times> nat" where
  "node_shape n = (wn_id n, wn_commit n, wn_parents n, wn_children n)"

definition shape :: "discovery \<Rightarrow> (str \<times> commit option \<times> nat list \<times> nat) list \<times> (str \<rightharpoonup> nat) \<times> nat list" where
  "shape d = (map node_shape (d_nodes d), d_ids d, d_tips d)"

lemma shape_upd [simp]: "(\<And>n. node_shape (f n) = node_shape n) \<Longrightarrow> shape (upd_node i f d) = shape d"
  by (cases "i < length (d_nodes d)")
    (simp_all add: shape_def upd_node_def map_update list_update_beyond list_update_same_conv)

lemma node_shape_simps [simp]:
  "node_shape (n\<lparr>wn_component := c\<rparr>) = node_shape n" "node_shape (n\<lparr>wn_size := s\<rparr>) = node_shape n"
  "node_shape (n\<lparr>wn_selected := b\<rparr>) = node_shape n" "node_shape (n\<lparr>wn_pending := k\<rparr>) = node_shape n"
  "node_shape (n\<lparr>wn_waiting := w\<rparr>) = node_shape n"
  by (simp_all add: node_shape_def)

lemma shape_fields [simp]:
  "shape (d\<lparr>d_ready := r\<rparr>) = shape d" "shape (d\<lparr>d_bytes := k\<rparr>) = shape d"
  "shape (d\<lparr>d_tip_components := k\<rparr>) = shape d" "shape (d\<lparr>d_failed := F\<rparr>) = shape d"
  "shape (d\<lparr>d_failure := f\<rparr>) = shape d"
  by (simp_all add: shape_def)

lemma component_shape: "component ns i = Inr (r, ns') \<Longrightarrow> map node_shape ns' = map node_shape ns"
proof (induction ns i rule: component.induct)
  case (1 ns i)
  have upd: "map node_shape (ns[i := (ns ! i)\<lparr>wn_component := c\<rparr>]) = map node_shape ns" for c
    by (cases "i < length ns") (simp_all add: map_update list_update_beyond list_update_same_conv)
  from 1(2) show ?case
    by (subst (asm) component.simps) (auto simp: Let_def upward_def upd split: if_splits dest!: 1(1) [OF refl])
qed

lemma find_component_shape: "find_component i d = Inr (r, d') \<Longrightarrow> shape d' = shape d"
  by (auto simp: find_component_def shape_def dest!: component_shape split: sum.splits prod.splits)

lemma transfer_shape [simp]: "shape (transfer a c d) = shape d"
  by (simp add: transfer_def Let_def)

lemma link_shape [simp]: "shape (link a b d) = shape d"
proof -
  have "shape (fold (transfer a) cs d) = shape d" for cs d
    by (induction cs arbitrary: d) simp_all
  then show ?thesis by (simp add: link_def Let_def)
qed

lemma join_shape: "join_nodes a b d = Inr d' \<Longrightarrow> shape d' = shape d"
  by (auto simp: join_nodes_def dest!: find_component_shape split: if_splits)

lemma reduce_ready_shape: "reduce_ready d = Inr d' \<Longrightarrow> shape d' = shape d"
proof (induction d rule: reduce_ready.induct)
  case (1 d)
  show ?case
  proof (cases "d_ready d")
    case Nil
    with 1(2) show ?thesis by (subst (asm) reduce_ready.simps) simp
  next
    case (Cons i rest)
    with 1(2) obtain d1 where d1: "reduce_one i (d\<lparr>d_ready := rest\<rparr>) = Inr d1" "reduced d d1 (reduce_ready d1) = Inr d'"
      by (subst (asm) reduce_ready.simps) auto
    from d1(1) have "shape d1 = shape d"
      by (auto simp: reduce_one_def dest!: find_component_shape join_shape)
    moreover have "shape d' = shape d1"
      by (rule 1(1) [OF Cons]) (use d1 in \<open>auto simp: reduced_def split: if_splits\<close>)
    ultimately show ?thesis by simp
  qed
qed

text \<open>Facts of a state that only its shape decides.\<close>

lemma shape_nodes:
  assumes "shape d' = shape d"
  shows "length (d_nodes d') = length (d_nodes d)" "d_ids d' = d_ids d" "d_tips d' = d_tips d"
    and "i < length (d_nodes d) \<Longrightarrow> node_shape (d_nodes d' ! i) = node_shape (d_nodes d ! i)"
proof -
  from assms have m: "map node_shape (d_nodes d') = map node_shape (d_nodes d)" by (simp add: shape_def)
  then show l: "length (d_nodes d') = length (d_nodes d)" by (metis length_map)
  show "i < length (d_nodes d) \<Longrightarrow> node_shape (d_nodes d' ! i) = node_shape (d_nodes d ! i)"
    using m l by (metis nth_map)
qed (use assms in \<open>simp_all add: shape_def\<close>)

section \<open>The invariant of the search\<close>

text \<open>
  The nodes are the known commits, each read one expanded to its parents; \<open>open_node\<close> is the node
  being expanded, of which the parents \<open>qs\<close> are in.
\<close>

definition node_ok :: "(str \<Rightarrow> commit walk) \<Rightarrow> nat \<Rightarrow> wnode list \<Rightarrow> nat \<Rightarrow> bool" where
  "node_ok read m ns i \<longleftrightarrow> (m \<le> i \<longrightarrow> wn_commit (ns ! i) = None) \<and> (case wn_commit (ns ! i) of None \<Rightarrow> parents_of ns i = []
     | Some c \<Rightarrow> read (wn_id (ns ! i)) = Inr c \<and> ct_id c = wn_id (ns ! i) \<and>
         ct_parents c = map (\<lambda>p. wn_id (ns ! p)) (parents_of ns i))"

definition ids_ok :: "discovery \<Rightarrow> bool" where
  "ids_ok d \<longleftrightarrow> (\<forall>oid i. d_ids d oid = Some i \<longleftrightarrow> i < length (d_nodes d) \<and> wn_id (d_nodes d ! i) = oid)"

definition search_inv :: "(str \<Rightarrow> commit walk) \<Rightarrow> nat \<Rightarrow> discovery \<Rightarrow> bool" where
  "search_inv read m d \<longleftrightarrow> graph_ok (d_nodes d) (d_tips d) \<and> ids_ok d \<and>
     (\<forall>i<length (d_nodes d). node_ok read m (d_nodes d) i)"

definition expand_inv :: "(str \<Rightarrow> commit walk) \<Rightarrow> nat \<times> str \<Rightarrow> str list \<Rightarrow> discovery \<Rightarrow> bool" where
  "expand_inv read ki qs d \<longleftrightarrow> (case ki of (k, oid) \<Rightarrow> wn_id (d_nodes d ! k) = oid \<and> graph_ok (d_nodes d) (d_tips d) \<and> ids_ok d \<and> k < length (d_nodes d) \<and>
     (\<forall>i<length (d_nodes d). i \<noteq> k \<longrightarrow> node_ok read (Suc k) (d_nodes d) i) \<and>
     wn_commit (d_nodes d ! k) = None \<and> map (\<lambda>p. wn_id (d_nodes d ! p)) (parents_of (d_nodes d) k) = qs)"

lemma graph_ok_shape: "shape d' = shape d \<Longrightarrow> graph_ok (d_nodes d) (d_tips d) \<Longrightarrow> graph_ok (d_nodes d') (d_tips d')"
proof -
  assume s: "shape d' = shape d" and ok: "graph_ok (d_nodes d) (d_tips d)"
  note n = shape_nodes [OF s]
  have p: "parents_of (d_nodes d') i = parents_of (d_nodes d) i" "wn_children (d_nodes d' ! i) = wn_children (d_nodes d ! i)"
    if "i < length (d_nodes d)" for i
    using n(4) [OF that] by (simp_all add: node_shape_def)
  have "in_edges (d_nodes d') {..<length (d_nodes d)} q = in_edges (d_nodes d) {..<length (d_nodes d)} q" for q
    using p by (simp add: in_edges_def)
  then show ?thesis using ok p n unfolding graph_ok_def by simp
qed

lemma expand_inv_shape: "shape d' = shape d \<Longrightarrow> expand_inv read (k, kid) qs d \<Longrightarrow> expand_inv read (k, kid) qs d'"
proof -
  assume s: "shape d' = shape d" and inv: "expand_inv read (k, kid) qs d"
  note n = shape_nodes [OF s]
  have k: "node_shape (d_nodes d' ! k) = node_shape (d_nodes d ! k)" using n(4) inv by (simp add: expand_inv_def)
  have pr: "set (parents_of (d_nodes d) i) \<subseteq> {..<length (d_nodes d)}" if "i < length (d_nodes d)" for i
    using inv that by (auto simp: expand_inv_def graph_ok_def)
  have ident: "wn_id (d_nodes d' ! i) = wn_id (d_nodes d ! i)" if "i < length (d_nodes d)" for i
    using n(4) [OF that] by (simp add: node_shape_def)
  have ids: "map (\<lambda>p. wn_id (d_nodes d' ! p)) (parents_of (d_nodes d) i) = map (\<lambda>p. wn_id (d_nodes d ! p)) (parents_of (d_nodes d) i)"
    if "i < length (d_nodes d)" for i
    using pr [OF that] ident by auto
  have node: "node_ok read (Suc k) (d_nodes d') i = node_ok read (Suc k) (d_nodes d) i" if "i < length (d_nodes d)" for i
  proof -
    have "wn_id (d_nodes d' ! i) = wn_id (d_nodes d ! i)" "wn_commit (d_nodes d' ! i) = wn_commit (d_nodes d ! i)"
      "parents_of (d_nodes d') i = parents_of (d_nodes d) i"
      using n(4) [OF that] by (simp_all add: node_shape_def)
    then show ?thesis unfolding node_ok_def using ids [OF that] by (simp only:)
  qed
  have "ids_ok d'" using inv n ident by (auto simp: ids_ok_def expand_inv_def)
  then show ?thesis
    using inv graph_ok_shape [OF s] n(1) k node ids unfolding expand_inv_def
    by (auto simp: node_shape_def)
qed

lemma search_inv_expand: "search_inv read m d \<Longrightarrow> m \<le> Suc k \<Longrightarrow> k < length (d_nodes d) \<Longrightarrow> wn_commit (d_nodes d ! k) = None \<Longrightarrow>
    expand_inv read (k, wn_id (d_nodes d ! k)) [] d"
  by (auto simp: search_inv_def expand_inv_def node_ok_def)

text \<open>Adding a node, and linking a commit to a parent.\<close>

lemma in_edges_append:
  assumes "\<forall>i<length ns. set (parents_of ns i) \<subseteq> {..<length ns}" "wn_parents n = []"
  shows "in_edges (ns @ [n]) {..<length (ns @ [n])} q = in_edges ns {..<length ns} q"
    "in_edges ns {..<length ns} (length ns) = 0"
proof -
  have "in_edges (ns @ [n]) {..<length ns} q = in_edges ns {..<length ns} q"
    unfolding in_edges_def by (rule sum.cong) (simp_all add: nth_append)
  with assms(2) show "in_edges (ns @ [n]) {..<length (ns @ [n])} q = in_edges ns {..<length ns} q"
    by (simp add: in_edges_def)
  show "in_edges ns {..<length ns} (length ns) = 0" using assms(1) by (auto simp: in_edges_0)
qed

definition linked :: "nat \<Rightarrow> nat \<Rightarrow> discovery \<Rightarrow> discovery" where
  "linked k p d = upd_node p (\<lambda>n. n\<lparr>wn_children := wn_children n + 1\<rparr>)
     (upd_node k (\<lambda>n. n\<lparr>wn_parents := wn_parents n @ [p]\<rparr>) d)"

lemma linked_nodes:
  assumes "k < length (d_nodes d)" "p < length (d_nodes d)"
  shows "length (d_nodes (linked k p d)) = length (d_nodes d)" "d_ids (linked k p d) = d_ids d" "d_tips (linked k p d) = d_tips d"
    and "parents_of (d_nodes (linked k p d)) i = (if i = k then parents_of (d_nodes d) k @ [p] else parents_of (d_nodes d) i)"
    and "wn_children (d_nodes (linked k p d) ! i) = (if i = p then wn_children (d_nodes d ! p) + 1 else wn_children (d_nodes d ! i))"
    and "wn_id (d_nodes (linked k p d) ! i) = wn_id (d_nodes d ! i)"
    and "wn_commit (d_nodes (linked k p d) ! i) = wn_commit (d_nodes d ! i)"
  using assms by (auto simp: linked_def upd_node_def nth_list_update)

text \<open>The graph while a new parent \<open>p\<close> may not have its child yet.\<close>

definition graph_open :: "nat \<Rightarrow> discovery \<Rightarrow> bool" where
  "graph_open p d \<longleftrightarrow>
     (\<forall>i<length (d_nodes d). set (parents_of (d_nodes d) i) \<subseteq> {..<length (d_nodes d)}) \<and>
     (\<forall>q<length (d_nodes d). wn_children (d_nodes d ! q) = in_edges (d_nodes d) {..<length (d_nodes d)} q) \<and>
     distinct (d_tips d) \<and> set (d_tips d) \<subseteq> {..<length (d_nodes d)} \<and> p < length (d_nodes d) \<and>
     (\<forall>q<length (d_nodes d). wn_children (d_nodes d ! q) = 0 \<longrightarrow> q = p \<or> q \<in> set (d_tips d))"

lemma graph_linked:
  assumes "graph_open p d" "k < length (d_nodes d)"
  shows "graph_ok (d_nodes (linked k p d)) (d_tips (linked k p d))"
proof -
  let ?N = "length (d_nodes d)"
  have p: "p < ?N" using assms(1) by (simp add: graph_open_def)
  note n = linked_nodes [OF assms(2) p]
  have "in_edges (d_nodes (linked k p d)) {..<?N} q = in_edges (d_nodes d) {..<?N} q + (if q = p then 1 else 0)" for q
    using assms(2) by (simp add: in_edges_remove [of "{..<?N}" k] n) (simp add: in_edges_def n)
  then show ?thesis
    using assms p unfolding graph_ok_def graph_open_def by (auto simp: n)
qed

lemma linked_expand_inv:
  assumes "graph_open p d" "ids_ok d" "k < length (d_nodes d)" "p < length (d_nodes d)" "wn_id (d_nodes d ! p) = oid"
    "\<forall>i<length (d_nodes d). i \<noteq> k \<longrightarrow> node_ok read (Suc k) (d_nodes d) i" "wn_commit (d_nodes d ! k) = None"
    "map (\<lambda>p. wn_id (d_nodes d ! p)) (parents_of (d_nodes d) k) = qs" "wn_id (d_nodes d ! k) = kid"
  shows "expand_inv read (k, kid) (qs @ [oid]) (linked k p d)"
  using assms graph_linked [OF assms(1,3)]
  unfolding expand_inv_def ids_ok_def node_ok_def linked_nodes [OF assms(3,4)] by (auto split: option.splits)

lemma wcharge_shape: "wcharge k d = Inr d' \<Longrightarrow> shape d' = shape d"
  by (auto simp: wcharge_def Let_def)

definition new_node :: "str \<Rightarrow> nat \<Rightarrow> wnode" where
  "new_node oid i = \<lparr>wn_id = oid, wn_commit = None, wn_parents = [], wn_children = 0,
     wn_component = i, wn_size = 1, wn_selected = False, wn_pending = 0, wn_waiting = {}\<rparr>"

lemma add_node_nodes:
  assumes "add_node oid d = Inr (p, d')"
  shows "p = length (d_nodes d)" "d_nodes d' = d_nodes d @ [new_node oid p]" "d_ids d' = (d_ids d)(oid \<mapsto> p)" "d_tips d' = d_tips d"
  using assms by (auto simp: add_node_def wcharge_def Let_def new_node_def)

lemma add_node_open:
  assumes "add_node oid d = Inr (p, d')" "graph_ok (d_nodes d) (d_tips d)" "ids_ok d" "d_ids d oid = None"
  shows "graph_open p d'" "ids_ok d'"
proof -
  note n = add_node_nodes [OF assms(1)]
  have range: "\<forall>i<length (d_nodes d). set (parents_of (d_nodes d) i) \<subseteq> {..<length (d_nodes d)}"
    using assms(2) by (simp add: graph_ok_def)
  have new: "wn_parents (new_node oid p) = []" "wn_children (new_node oid p) = 0" by (simp_all add: new_node_def)
  note e = in_edges_append [OF range new(1)]
  let ?N = "length (d_nodes d)"
  have len: "length (d_nodes d') = Suc ?N" using n by simp
  have old: "d_nodes d' ! i = d_nodes d ! i" if "i < ?N" for i using that n by (simp add: nth_append)
  have at: "d_nodes d' ! ?N = new_node oid p" using n by simp
  have edges: "in_edges (d_nodes d') {..<Suc ?N} q = in_edges (d_nodes d) {..<?N} q" for q
    using e(1) n by simp
  show "graph_open p d'"
    unfolding graph_open_def len
  proof (intro conjI allI impI)
    fix i assume "i < Suc ?N"
    then consider "i < ?N" | "i = ?N" by linarith
    then show "set (parents_of (d_nodes d') i) \<subseteq> {..<Suc ?N}"
      using range by cases (fastforce simp: old at new)+
  next
    fix q assume "q < Suc ?N"
    then consider "q < ?N" | "q = ?N" by linarith
    then show "wn_children (d_nodes d' ! q) = in_edges (d_nodes d') {..<Suc ?N} q"
      using assms(2) e(2) by cases (simp_all add: old at new edges graph_ok_def)
    assume "wn_children (d_nodes d' ! q) = 0"
    then show "q = p \<or> q \<in> set (d_tips d')"
      using \<open>q < Suc ?N\<close> assms(2) n(1,4) by (cases "q = ?N") (auto simp: old graph_ok_def)
  qed (use assms(2) n in \<open>auto simp: graph_ok_def\<close>)
  have "wn_id (d_nodes d ! i) \<noteq> oid" if "i < ?N" for i
    using assms(3,4) that unfolding ids_ok_def by (metis option.distinct(1))
  then show "ids_ok d'"
    using assms(3,4) n unfolding ids_ok_def by (auto simp: nth_append new_node_def less_Suc_eq)
qed

lemma parent_node_open:
  assumes "parent_node oid d = Inr (p, d')" "expand_inv read (k, kid) qs d"
  shows "graph_open p d' \<and> ids_ok d' \<and> k < length (d_nodes d') \<and> p < length (d_nodes d') \<and> wn_id (d_nodes d' ! p) = oid \<and>
    (\<forall>i<length (d_nodes d'). i \<noteq> k \<longrightarrow> node_ok read (Suc k) (d_nodes d') i) \<and> wn_commit (d_nodes d' ! k) = None \<and>
    map (\<lambda>p. wn_id (d_nodes d' ! p)) (parents_of (d_nodes d') k) = qs \<and> wn_id (d_nodes d' ! k) = kid"
proof (cases "d_ids d oid")
  case (Some i)
  with assms have "p = i" "d' = d" by (simp_all add: parent_node_def)
  with Some assms(2) show ?thesis by (auto simp: expand_inv_def graph_open_def graph_ok_def ids_ok_def)
next
  case None
  with assms(1) have add: "add_node oid d = Inr (p, d')" by (simp add: parent_node_def)
  note n = add_node_nodes [OF add]
  note inv = assms(2) [unfolded expand_inv_def]
  have pr: "set (parents_of (d_nodes d) i) \<subseteq> {..<length (d_nodes d)}" if "i < length (d_nodes d)" for i
    using inv that by (auto simp: graph_ok_def)
  have old: "d_nodes d' ! i = d_nodes d ! i" if "i < length (d_nodes d)" for i
    using that n by (simp add: nth_append)
  have ids: "map (\<lambda>p. wn_id (d_nodes d' ! p)) (parents_of (d_nodes d) i) = map (\<lambda>p. wn_id (d_nodes d ! p)) (parents_of (d_nodes d) i)"
    if "i < length (d_nodes d)" for i
    by (rule map_cong [OF refl]) (use pr [OF that] old in auto)
  have "node_ok read (Suc k) (d_nodes d') i = node_ok read (Suc k) (d_nodes d) i" if "i < length (d_nodes d)" for i
    unfolding node_ok_def old [OF that] ids [OF that] by (rule refl)
  moreover have "node_ok read (Suc k) (d_nodes d') p" using n by (simp add: node_ok_def new_node_def)
  ultimately show ?thesis
    using add_node_open [OF add _ _ None] inv n old ids by (auto simp: less_Suc_eq new_node_def)
qed

lemma expand_parent_inv:
  assumes "expand_parent k oid d = Inr d'" "expand_inv read (k, kid) qs d"
  shows "expand_inv read (k, kid) (qs @ [oid]) d'"
proof -
  from assms(1) obtain d1 d2 p where d1: "wcharge 64 d = Inr d1" and d2: "parent_node oid d1 = Inr (p, d2)"
    and d': "\<exists>c d3. find_component p (linked k p d2) = Inr (c, d3) \<and> shape d' = shape d3"
    by (auto simp: expand_parent_def Let_def linked_def split: if_splits)
  have "expand_inv read (k, kid) qs d1" by (rule expand_inv_shape [OF wcharge_shape [OF d1] assms(2)])
  from parent_node_open [OF d2 this] have "expand_inv read (k, kid) (qs @ [oid]) (linked k p d2)"
    by (intro linked_expand_inv) auto
  moreover from d' have "shape d' = shape (linked k p d2)" by (auto dest: find_component_shape)
  ultimately show ?thesis using expand_inv_shape by blast
qed

lemma expand_parents_inv:
  "expand_parents k ps d = Inr d' \<Longrightarrow> expand_inv read (k, kid) qs d \<Longrightarrow> expand_inv read (k, kid) (qs @ ps) d'"
proof (induction ps arbitrary: qs d)
  case (Cons p ps)
  from Cons.prems(1) obtain d1 where "expand_parent k p d = Inr d1" "expand_parents k ps d1 = Inr d'" by auto
  with Cons.IH [of d1 "qs @ [p]"] expand_parent_inv [of k p d d1 read kid qs] Cons.prems(2) show ?case by simp
qed auto

lemma retain_inv:
  assumes "retain_commit k c d = Inr d'" "expand_inv read (k, kid) (ct_parents c) d" "read kid = Inr c"
  shows "search_inv read (Suc k) d'"
proof -
  from assms(1) obtain d1 where d1: "shape d1 = shape d" "d' = upd_node k (\<lambda>n. n\<lparr>wn_commit := Some c\<rparr>) d1"
    and c: "ct_id c = wn_id (d_nodes d ! k)"
    by (auto simp: retain_commit_def dest: wcharge_shape)
  have inv: "expand_inv read (k, kid) (ct_parents c) d1" by (rule expand_inv_shape [OF d1(1) assms(2)])
  note v = this [unfolded expand_inv_def]
  have n: "length (d_nodes d') = length (d_nodes d1)" "d_ids d' = d_ids d1" "d_tips d' = d_tips d1"
    "parents_of (d_nodes d') i = parents_of (d_nodes d1) i" "wn_children (d_nodes d' ! i) = wn_children (d_nodes d1 ! i)"
    "wn_id (d_nodes d' ! i) = wn_id (d_nodes d1 ! i)"
    "wn_commit (d_nodes d' ! i) = (if i = k then Some c else wn_commit (d_nodes d1 ! i))" for i
    using v by (auto simp: d1(2) upd_node_def nth_list_update)
  have "wn_id (d_nodes d1 ! k) = wn_id (d_nodes d ! k)"
    using shape_nodes(4) [OF d1(1), of k] assms(2) by (simp add: expand_inv_def node_shape_def)
  then have "node_ok read (Suc k) (d_nodes d') i" if "i < length (d_nodes d1)" for i
    using v that c assms(3) unfolding node_ok_def n by (auto split: option.splits)
  then show ?thesis
    using v unfolding search_inv_def ids_ok_def graph_ok_def in_edges_def n by auto
qed

lemma search_inv_shape: "shape d' = shape d \<Longrightarrow> search_inv read m d \<Longrightarrow> search_inv read m d'"
proof -
  assume s: "shape d' = shape d" and inv: "search_inv read m d"
  note n = shape_nodes [OF s]
  have ident: "wn_id (d_nodes d' ! j) = wn_id (d_nodes d ! j)" if "j < length (d_nodes d)" for j
    using n(4) [OF that] by (simp add: node_shape_def)
  have "node_ok read m (d_nodes d') i" if i: "i < length (d_nodes d)" for i
  proof -
    have "set (parents_of (d_nodes d) i) \<subseteq> {..<length (d_nodes d)}"
      using inv i by (auto simp: search_inv_def graph_ok_def)
    then have ids: "map (\<lambda>p. wn_id (d_nodes d' ! p)) (parents_of (d_nodes d) i) = map (\<lambda>p. wn_id (d_nodes d ! p)) (parents_of (d_nodes d) i)"
      using ident by auto
    have "wn_id (d_nodes d' ! i) = wn_id (d_nodes d ! i)" "wn_commit (d_nodes d' ! i) = wn_commit (d_nodes d ! i)"
      "parents_of (d_nodes d') i = parents_of (d_nodes d) i"
      using n(4) [OF i] by (simp_all add: node_shape_def)
    then have "node_ok read m (d_nodes d') i = node_ok read m (d_nodes d) i"
      unfolding node_ok_def using ids by (simp only:)
    with inv i show ?thesis by (simp add: search_inv_def)
  qed
  moreover have "ids_ok d'"
    using inv n ident by (auto simp: ids_ok_def search_inv_def)
  ultimately show ?thesis
    using inv graph_ok_shape [OF s] n(1) by (simp add: search_inv_def)
qed

lemma expand_search_inv:
  assumes "expand k c d = Inr d'" "search_inv read k d" "k < length (d_nodes d)" "read (wn_id (d_nodes d ! k)) = Inr c"
  shows "search_inv read (Suc k) d'"
proof -
  from assms(1) obtain d1 d2 r where e: "expand_parents k (ct_parents c) d = Inr d1" "retain_commit k c d1 = Inr d2"
    "reduce_ready r = Inr d'" "shape r = shape d2"
    by (auto simp: expand_def split: if_splits)
  let ?kid = "wn_id (d_nodes d ! k)"
  have "wn_commit (d_nodes d ! k) = None" using assms(2,3) by (simp add: search_inv_def node_ok_def)
  with expand_parents_inv [OF e(1) search_inv_expand [OF assms(2) _ assms(3)]]
  have inv: "expand_inv read (k, ?kid) (ct_parents c) d1" by simp
  from retain_inv [OF e(2) inv assms(4)] have "search_inv read (Suc k) d2" .
  with search_inv_shape reduce_ready_shape [OF e(3)] e(4) show ?thesis by metis
qed

section \<open>The start of a discovery\<close>

definition tips_named :: "str list \<Rightarrow> discovery \<Rightarrow> bool" where
  "tips_named tips d \<longleftrightarrow> set tips = (\<lambda>i. wn_id (d_nodes d ! i)) ` set (d_tips d)"

lemma add_tip_inv:
  assumes add: "add_node oid d = Inr (p, d1)" and new: "d_ids d oid = None" and inv: "search_inv read 0 d"
    and d': "d' = upd_node p (\<lambda>n. n\<lparr>wn_selected := True\<rparr>) (d1\<lparr>d_tips := d_tips d1 @ [p], d_tip_components := k\<rparr>)"
  shows "search_inv read 0 d'" "tips_named seen d \<Longrightarrow> tips_named (seen @ [oid]) d'"
proof -
  note n = add_node_nodes [OF add]
  have ok: "graph_ok (d_nodes d) (d_tips d)" "ids_ok d" using inv by (simp_all add: search_inv_def)
  note open_ok = add_node_open [OF add ok new]
  let ?d = "d1\<lparr>d_tips := d_tips d1 @ [p], d_tip_components := k\<rparr>"
  have tips: "set (d_tips d) \<subseteq> {..<length (d_nodes d)}" using ok by (simp add: graph_ok_def)
  then have "graph_ok (d_nodes ?d) (d_tips ?d)"
    using open_ok(1) n(1,4) by (auto simp: graph_open_def graph_ok_def)
  moreover have "ids_ok ?d" using open_ok(2) by (simp add: ids_ok_def)
  moreover have "node_ok read 0 (d_nodes ?d) i" if "i < length (d_nodes ?d)" for i
    using inv that n by (auto simp: search_inv_def node_ok_def nth_append new_node_def less_Suc_eq split: option.splits)
  ultimately have "search_inv read 0 ?d" by (simp add: search_inv_def)
  moreover have s: "shape d' = shape ?d" using d' by simp
  ultimately show "search_inv read 0 d'" using search_inv_shape by blast
  show "tips_named (seen @ [oid]) d'" if t: "tips_named seen d"
  proof -
    have "wn_id (d_nodes d' ! i) = wn_id (d_nodes ?d ! i)" if "i < length (d_nodes ?d)" for i
      using shape_nodes(4) [OF s that] by (simp add: node_shape_def)
    then have "(\<lambda>i. wn_id (d_nodes d' ! i)) ` set (d_tips d @ [p]) = (\<lambda>i. wn_id (d_nodes d1 ! i)) ` set (d_tips d @ [p])"
      by (intro image_cong) (use tips n in auto)
    moreover have "(\<lambda>i. wn_id (d_nodes d1 ! i)) ` set (d_tips d) = (\<lambda>i. wn_id (d_nodes d ! i)) ` set (d_tips d)"
      by (rule image_cong) (use tips n in \<open>auto simp: nth_append\<close>)
    moreover have "wn_id (d_nodes d1 ! p) = oid" using n by (simp add: new_node_def)
    ultimately show ?thesis using t n(4) shape_nodes(3) [OF s] by (auto simp: tips_named_def)
  qed
qed

lemma add_tips_inv:
  "add_tips tips d = Inr d' \<Longrightarrow> search_inv read 0 d \<Longrightarrow> tips_named seen d \<Longrightarrow> (\<And>oid. d_ids d oid \<noteq> None \<Longrightarrow> oid \<in> set seen) \<Longrightarrow>
    search_inv read 0 d' \<and> tips_named (seen @ tips) d'"
proof (induction tips arbitrary: d seen)
  case (Cons tip tips)
  show ?case
  proof (cases "d_ids d tip")
    case None
    with Cons.prems(1) obtain p d1 where add: "add_node tip d = Inr (p, d1)"
      and rest: "add_tips tips (upd_node p (\<lambda>n. n\<lparr>wn_selected := True\<rparr>)
          (d1\<lparr>d_tips := d_tips d1 @ [p], d_tip_components := d_tip_components d1 + 1\<rparr>)) = Inr d'"
      by auto
    have "d_ids (upd_node p (\<lambda>n. n\<lparr>wn_selected := True\<rparr>)
          (d1\<lparr>d_tips := d_tips d1 @ [p], d_tip_components := d_tip_components d1 + 1\<rparr>)) oid \<noteq> None \<Longrightarrow> oid \<in> set (seen @ [tip])" for oid
      using add_node_nodes(3) [OF add] Cons.prems(4) [of oid] by (auto simp: upd_node_def split: if_splits)
    from Cons.IH [OF rest add_tip_inv(1) [OF add None Cons.prems(2) refl] add_tip_inv(2) [OF add None Cons.prems(2) refl Cons.prems(3)] this]
    show ?thesis by simp
  next
    case (Some i)
    with Cons.prems(4) have "tip \<in> set seen" by auto
    with Cons.prems(3) have "tips_named (seen @ [tip]) d" by (auto simp: tips_named_def)
    with Cons.IH [of d "seen @ [tip]"] Cons.prems Some show ?thesis by auto
  qed
qed auto

lemma new_discovery_inv:
  assumes "new_discovery tips = Inr d"
  shows "search_inv read 0 d" "tips_named tips d" "d_tips d \<noteq> []"
proof -
  let ?d0 = "\<lparr>d_nodes = [], d_ids = Map.empty, d_tips = [], d_tip_components = 0, d_ready = [],
    d_bytes = 0, d_failed = {}, d_failure = None\<rparr>"
  have "search_inv read 0 ?d0" "tips_named [] ?d0"
    by (simp_all add: search_inv_def graph_ok_def ids_ok_def tips_named_def)
  with add_tips_inv [of tips ?d0 d read "[]"] assms
  show "search_inv read 0 d" "tips_named tips d" "d_tips d \<noteq> []" by (auto simp: new_discovery_def)
qed

section \<open>What a discovery promises\<close>

definition history :: "(str \<Rightarrow> commit walk) \<Rightarrow> (str \<times> str) set" where
  "history read = {(a, p). \<exists>c. read a = Inr c \<and> p \<in> set (ct_parents c)}"

lemma finish_boundary:
  assumes "finish read source (Some b) d = Inr g"
  shows "g_boundary g = Some (wn_id (d_nodes d ! b))"
proof -
  have i: "interval boundary d = Inr g \<Longrightarrow> g_boundary g = map_option (\<lambda>i. wn_id (d_nodes d ! i)) boundary" for boundary d
    by (auto simp: interval_def Let_def)
  have r: "read_boundary read b d = Inr d' \<Longrightarrow> wn_id (d_nodes d' ! b) = wn_id (d_nodes d ! b)" for d'
    by (cases "b < length (d_nodes d)")
      (auto simp: read_boundary_def retain_commit_def wcharge_def Let_def upd_node_def list_update_beyond
        split: option.splits prod.splits sum.splits if_splits)
  from assms obtain d' where "interval (Some b) d' = Inr g" "wn_id (d_nodes d' ! b) = wn_id (d_nodes d ! b)"
    by (auto simp: finish_def split: if_splits sum.splits dest: r)
  with i show ?thesis by auto
qed

text \<open>A cut of the discovered graph cuts the history.\<close>

lemma cut_history:
  assumes inv: "search_inv read m d" and cut: "all_path_cut (d_nodes d) (d_tips d) b" and t: "t \<in> set (d_tips d)"
    and path: "(wn_id (d_nodes d ! t), e) \<in> (history read - {wn_id (d_nodes d ! b)} \<times> UNIV)\<^sup>*"
    and e: "read e = Inr c" "ct_parents c = []"
  shows "e = wn_id (d_nodes d ! b)"
proof -
  let ?ns = "d_nodes d"
  have closed: "parents_of ?ns i = [] \<Longrightarrow> (t, i) \<in> (links ?ns - {b} \<times> UNIV)\<^sup>* \<Longrightarrow> i = b" for i
    using cut t by (auto simp: all_path_cut_def)
  have "\<exists>i<length ?ns. wn_id (?ns ! i) = e \<and> (t, i) \<in> (links ?ns - {b} \<times> UNIV)\<^sup>*"
    using path
  proof (induction rule: rtrancl_induct)
    case base
    then show ?case using inv t by (auto simp: search_inv_def graph_ok_def)
  next
    case (step x y)
    then obtain i where i: "i < length ?ns" "wn_id (?ns ! i) = x" "(t, i) \<in> (links ?ns - {b} \<times> UNIV)\<^sup>*" by blast
    from step(2) have x: "x \<noteq> wn_id (?ns ! b)" "(x, y) \<in> history read" by auto
    with i have ib: "i \<noteq> b" by auto
    have ok: "node_ok read m ?ns i" using inv i by (simp add: search_inv_def)
    have "parents_of ?ns i \<noteq> []" using closed i(3) ib by blast
    with ok obtain c where c: "read x = Inr c" "ct_parents c = map (\<lambda>p. wn_id (?ns ! p)) (parents_of ?ns i)"
      using i(2) by (auto simp: node_ok_def split: option.splits)
    with x(2) obtain p where p: "p \<in> set (parents_of ?ns i)" "y = wn_id (?ns ! p)" by (auto simp: history_def)
    then have "(i, p) \<in> links ?ns - {b} \<times> UNIV" "p < length ?ns"
      using i ib inv by (auto simp: links_def search_inv_def graph_ok_def)
    moreover from i(3) this(1) have "(t, p) \<in> (links ?ns - {b} \<times> UNIV)\<^sup>*" by (rule rtrancl.rtrancl_into_rtrancl)
    ultimately show ?case using p(2) by blast
  qed
  then obtain i where i: "i < length ?ns" "wn_id (?ns ! i) = e" "(t, i) \<in> (links ?ns - {b} \<times> UNIV)\<^sup>*" by blast
  have "node_ok read m ?ns i" using inv i by (simp add: search_inv_def)
  with i e have "parents_of ?ns i = []" by (auto simp: node_ok_def split: option.splits)
  with closed i show ?thesis by blast
qed

definition passes :: "(str \<Rightarrow> commit walk) \<Rightarrow> str list \<Rightarrow> str \<Rightarrow> bool" where
  "passes read tips b \<longleftrightarrow> (\<forall>tip \<in> set tips. \<forall>e c. (tip, e) \<in> (history read - {b} \<times> UNIV)\<^sup>* \<longrightarrow>
     read e = Inr c \<longrightarrow> ct_parents c = [] \<longrightarrow> e = b)"

text \<open>Expanding keeps the tips and the identities of the nodes.\<close>

definition grows :: "discovery \<Rightarrow> discovery \<Rightarrow> bool" where
  "grows d d' \<longleftrightarrow> d_tips d' = d_tips d \<and> length (d_nodes d) \<le> length (d_nodes d') \<and>
     (\<forall>i<length (d_nodes d). wn_id (d_nodes d' ! i) = wn_id (d_nodes d ! i))"

lemma grows_trans: "grows a b \<Longrightarrow> grows b c \<Longrightarrow> grows a c"
  by (auto simp: grows_def)

lemma grows_shape: "shape d' = shape d \<Longrightarrow> grows d d'"
  using shape_nodes [of d' d] by (simp add: grows_def node_shape_def)

lemma grows_upd: "(\<And>n. wn_id (f n) = wn_id n) \<Longrightarrow> grows d (upd_node i f d)"
  by (cases "i < length (d_nodes d)") (auto simp: grows_def upd_node_def nth_list_update list_update_beyond)

lemma grows_expand_parent:
  assumes "expand_parent k oid d = Inr d'"
  shows "grows d d'"
proof -
  from assms obtain d1 d2 p where d1: "wcharge 64 d = Inr d1" and d2: "parent_node oid d1 = Inr (p, d2)"
    and d': "\<exists>c d3. find_component p (linked k p d2) = Inr (c, d3) \<and> shape d' = shape d3"
    by (auto simp: expand_parent_def Let_def linked_def split: if_splits)
  have "grows d1 d2"
  proof (cases "d_ids d1 oid")
    case None
    with d2 have "add_node oid d1 = Inr (p, d2)" by (simp add: parent_node_def)
    from add_node_nodes [OF this] show ?thesis by (simp add: grows_def nth_append)
  qed (use d2 in \<open>simp add: parent_node_def grows_def\<close>)
  moreover have "grows d2 (linked k p d2)"
    unfolding linked_def by (rule grows_trans [OF grows_upd grows_upd]) simp_all
  ultimately show ?thesis
    using grows_shape [OF wcharge_shape [OF d1]] d' grows_shape find_component_shape by (metis grows_trans)
qed

lemma grows_expand:
  assumes "expand k c d = Inr d'"
  shows "grows d d'"
proof -
  have ps: "expand_parents k ps d = Inr d' \<Longrightarrow> grows d d'" for ps d d'
  proof (induction ps arbitrary: d)
    case (Cons p ps)
    then obtain d1 where "expand_parent k p d = Inr d1" "expand_parents k ps d1 = Inr d'" by auto
    with Cons.IH grows_expand_parent grows_trans show ?case by blast
  qed (simp add: grows_def)
  from assms obtain d1 d2 r where e: "expand_parents k (ct_parents c) d = Inr d1" "retain_commit k c d1 = Inr d2"
    "reduce_ready r = Inr d'" "shape r = shape d2"
    by (auto simp: expand_def split: if_splits)
  obtain d3 where d3: "shape d3 = shape d1" "d2 = upd_node k (\<lambda>n. n\<lparr>wn_commit := Some c\<rparr>) d3"
    using e(2) by (auto simp: retain_commit_def dest: wcharge_shape)
  have "grows d3 d2" unfolding d3(2) by (rule grows_upd) simp
  with ps [OF e(1)] grows_shape [OF d3(1)] grows_shape [of d' d2] reduce_ready_shape [OF e(3)] e(4) show ?thesis
    by (metis grows_trans)
qed

lemma grows_tips: "grows d d' \<Longrightarrow> graph_ok (d_nodes d) (d_tips d) \<Longrightarrow> tips_named tips d \<Longrightarrow> tips_named tips d'"
  unfolding tips_named_def grows_def graph_ok_def by (metis (no_types, lifting) image_cong lessThan_iff subsetD)

lemma cut_passes:
  assumes "search_inv read m d" "all_path_cut (d_nodes d) (d_tips d) b" "tips_named tips d"
  shows "passes read tips (wn_id (d_nodes d ! b))"
  unfolding passes_def
proof (intro ballI allI impI)
  fix tip e c assume "tip \<in> set tips" and p: "(tip, e) \<in> (history read - {wn_id (d_nodes d ! b)} \<times> UNIV)\<^sup>*"
    and e: "read e = Inr c" "ct_parents c = []"
  then obtain t where "t \<in> set (d_tips d)" "tip = wn_id (d_nodes d ! t)" using assms(3) by (auto simp: tips_named_def)
  with cut_history [OF assms(1,2) _ _ e] p show "e = wn_id (d_nodes d ! b)" by blast
qed

lemma search_boundary:
  "search read source m d = Inr g \<Longrightarrow> search_inv read m d \<Longrightarrow> length (d_tips d) \<noteq> 1 \<Longrightarrow> tips_named tips d \<Longrightarrow>
    g_boundary g = Some b \<Longrightarrow> passes read tips b"
proof (induction read source m d rule: search.induct)
  case (1 read source m d)
  show ?case
  proof (cases "m < length (d_nodes d)")
    case False
    with 1(3,7) show ?thesis
      by (subst (asm) search.simps) (auto simp: finish_def interval_def Let_def split: option.splits sum.splits)
  next
    case True
    note m = this
    show ?thesis
    proof (cases "read (wn_id (d_nodes d ! m))")
      case (Inl e)
      let ?d = "d\<lparr>d_failed := insert m (d_failed d), d_failure := (if d_failure d = None then Some (m, e) else d_failure d)\<rparr>"
      have lim: "m < node_limit" and run: "search read source (m + 1) ?d = Inr g"
        using 1(3) m Inl by (subst (asm) search.simps, simp)+
      have s: "shape ?d = shape d" by simp
      have "node_ok read (m + 1) (d_nodes d) i" if "node_ok read m (d_nodes d) i" for i
        using that by (auto simp: node_ok_def split: option.splits)
      then have "search_inv read (m + 1) d" using 1(4) by (simp add: search_inv_def)
      from 1(1) [OF m lim Inl run search_inv_shape [OF s this]] 1(5-7) show ?thesis by (simp add: tips_named_def)
    next
      case (Inr c)
      from 1(3) m Inr obtain d1 where lim: "m < node_limit" and e: "expand m c d = Inr d1"
        and run: "(if d_tip_components d1 = 1 then
                (case cut d1 of
                   Inl e \<Rightarrow> Inl (e, d1)
                 | Inr None \<Rightarrow> Inl (CyclicAncestry, d1)
                 | Inr (Some boundary) \<Rightarrow> finish read source (Some boundary) d1)
              else search read source (m + 1) d1) = Inr g"
        by (subst (asm) search.simps) auto
      have inv: "search_inv read (m + 1) d1" using expand_search_inv [OF e 1(4) m Inr] by simp
      have gr: "d_tips d1 = d_tips d" "tips_named tips d1"
        using grows_expand [OF e] grows_tips 1(4,6) by (auto simp: grows_def search_inv_def)
      show ?thesis
      proof (cases "d_tip_components d1 = 1")
        case True
        with run obtain bi where bi: "cut d1 = Inr (Some bi)" "finish read source (Some bi) d1 = Inr g"
          by (auto split: sum.splits option.splits)
        have "all_path_cut (d_nodes d1) (d_tips d1) bi"
          using cut_spec [of d1] inv 1(5) gr(1) bi(1) by (simp add: search_inv_def)
        from cut_passes [OF inv this gr(2)] finish_boundary [OF bi(2)] 1(7) show ?thesis by simp
      next
        case False
        from 1(2) [OF m lim Inr e False _ inv _ gr(2) 1(7)] run False 1(5) gr(1) show ?thesis by simp
      qed
    qed
  qed
qed

text \<open>
  C1: when a discovery returns a boundary, every path of the history from a tip to a root commit
  leads through it.
\<close>

theorem discover_boundary:
  assumes "discover read tips head source st = (st', Inr g)" "g_boundary g = Some b"
    "tip \<in> set tips" "(tip, e) \<in> (history read - {b} \<times> UNIV)\<^sup>*" "read e = Inr c" "ct_parents c = []"
  shows "e = b"
proof -
  from assms(1) obtain d g' where d: "new_discovery tips = Inr d" "run_discovery read source d = Inr g'"
    and g: "g_boundary g = g_boundary g'"
    by (auto simp: discover_def Let_def split: sum.splits option.splits)
  have start: "search_inv read 0 d" "tips_named tips d" using new_discovery_inv [OF d(1)] by blast+
  have "passes read tips b"
  proof (cases "length (d_tips d) = 1")
    case True
    then obtain t where t: "d_tips d = [t]" by (auto simp: length_Suc_conv)
    with d(2) have "finish read source (Some t) d = Inr g'" by (simp add: run_discovery_def)
    from finish_boundary [OF this] g assms(2) have "b = wn_id (d_nodes d ! t)" by simp
    with start(2) t have "set tips = {b}" by (simp add: tips_named_def)
    then show ?thesis by (auto simp: passes_def elim: converse_rtranclE)
  next
    case False
    with d(2) have "search read source 0 d = Inr g'" by (simp add: run_discovery_def)
    from search_boundary [OF this start(1) False start(2)] g assms(2) show ?thesis by simp
  qed
  with assms show ?thesis by (auto simp: passes_def)
qed

text \<open>A history of two tips with a common root.\<close>

definition forked_history :: "str \<Rightarrow> commit walk" where
  "forked_history oid =
     (if oid = [1] \<or> oid = [2] then Inr \<lparr>ct_id = oid, ct_tree = [], ct_parents = [[3]], ct_date = [], ct_subject = []\<rparr>
      else if oid = [3] then Inr \<lparr>ct_id = oid, ct_tree = [], ct_parents = [], ct_date = [], ct_subject = []\<rparr>
      else Inl (ReadFailed oid))"

theorem discover_boundary_witness:
  "\<exists>st' g b. discover forked_history [[1], [2]] None False \<lparr>ws_complete = {}, ws_boundaries = {}\<rparr> = (st', Inr g) \<and>
    g_boundary g = Some b \<and> [3] = b"
proof -
  let ?run = "discover forked_history [[1], [2]] None False \<lparr>ws_complete = {}, ws_boundaries = {}\<rparr>"
  have "(case ?run of (st, Inr g) \<Rightarrow> g_boundary g | _ \<Rightarrow> None) = Some [3]"
    by code_simp
  then obtain st g where run: "?run = (st, Inr g)" "g_boundary g = Some [3]"
    by (auto split: prod.splits sum.splits)
  have "([1], [3]) \<in> history forked_history - {[3]} \<times> UNIV" by (simp add: history_def forked_history_def)
  then have path: "([1], [3]) \<in> (history forked_history - {[3]} \<times> UNIV)\<^sup>*" by blast
  have root: "forked_history [3] = Inr \<lparr>ct_id = [3], ct_tree = [], ct_parents = [], ct_date = [], ct_subject = []\<rparr>"
    by (simp add: forked_history_def)
  from discover_boundary [OF run _ path root] run show ?thesis by auto
qed

end
