(* ===== verification/Admission.thy ===== *)
theory Admission
  imports Text
begin

text \<open>
  Memory admission of \<^verbatim>\<open>src/src/memory.rs\<close>: the configured budgets, and the \<open>Budget\<close> that admits
  reservations of bytes and workers in order of arrival. The blocking \<^verbatim>\<open>reserve\<close> is its two
  parts: \<open>reserve_enter\<close> takes a ticket, and \<open>reserve_poll\<close> is one turn of the loop under the lock,
  after which the caller waits for a change. Times are what the clock gave.
\<close>

section \<open>Configured sizes\<close>

definition mib :: nat where "mib = 1024 * 1024"

definition checked_mul :: "nat \<Rightarrow> nat \<Rightarrow> nat option" where
  "checked_mul a b = (if a * b \<le> u64_max then Some (a * b) else None)"

datatype memory_error = NotPositive | AlreadyConfigured

text \<open>\<open>automatic\<close> is the size used when none is given, \<open>once\<close> the content of the \<^verbatim>\<open>OnceLock\<close>.\<close>

definition configured_bytes :: "nat \<Rightarrow> nat option \<Rightarrow> memory_error + nat" where
  "configured_bytes automatic mibs = (case mibs of
     Some n \<Rightarrow> (case checked_mul n mib of
         Some bytes \<Rightarrow> ensureE (0 < bytes) NotPositive (Inr bytes)
       | None \<Rightarrow> Inl NotPositive)
   | None \<Rightarrow> Inr automatic)"

definition configure_once :: "nat \<Rightarrow> nat option \<Rightarrow> nat option \<Rightarrow> memory_error + nat option" where
  "configure_once automatic mibs once = bindE (configured_bytes automatic mibs) (\<lambda>bytes.
     case once of None \<Rightarrow> Inr (Some bytes)
     | Some old \<Rightarrow> ensureE (old = bytes) AlreadyConfigured (Inr once))"

definition clamp :: "nat \<Rightarrow> nat \<Rightarrow> nat \<Rightarrow> nat" where
  "clamp x low high = (if x < low then low else if high < x then high else x)"

definition automatic_parser_budget :: "nat option \<Rightarrow> nat" where
  "automatic_parser_budget limit = (case limit of None \<Rightarrow> 256 * mib | Some bytes \<Rightarrow> clamp (bytes div 4) 1 (4096 * mib))"

definition automatic_cache_budget :: "nat option \<Rightarrow> nat" where
  "automatic_cache_budget limit = clamp ((case limit of None \<Rightarrow> 2048 * mib | Some bytes \<Rightarrow> bytes) div 4) 1 (2048 * mib)"

text \<open>
  The limits of a control group and its parents; a path is its components, \<open>read_file\<close> gives the
  text of a readable file. The root directory has no parent.
\<close>

definition lower_limit :: "(str list \<Rightarrow> str option) \<Rightarrow> str list \<Rightarrow> nat option \<Rightarrow> nat option" where
  "lower_limit read_file path limit = (case read_file path of
     None \<Rightarrow> limit
   | Some s \<Rightarrow> (case parse_bounded u64_max (trim s) of
       None \<Rightarrow> limit
     | Some bytes \<Rightarrow> Some (case limit of None \<Rightarrow> bytes | Some l \<Rightarrow> min l bytes)))"

function limit_from_cgroup :: "(str list \<Rightarrow> str option) \<Rightarrow> nat option \<Rightarrow> str list \<Rightarrow> str list \<Rightarrow> nat option" where
  "limit_from_cgroup read_file limit directory root =
     (if starts_with directory root then
        (let limit = lower_limit read_file (directory @ [lit ''memory.max''])
               (lower_limit read_file (directory @ [lit ''memory.high'']) limit)
         in if directory = [] then limit else limit_from_cgroup read_file limit (butlast directory) root)
      else limit)"
  by pat_completeness auto
termination
  by (relation "measure (\<lambda>(_, _, directory, _). length directory)") auto

declare limit_from_cgroup.simps [simp del]

section \<open>The budget\<close>

record budget =
  bg_capacity :: nat
  bg_workers :: nat

record admission_state =
  as_available :: nat
  as_workers :: nat
  as_next_ticket :: nat
  as_waiting :: "(nat \<times> nat) list"

record admission_stats =
  st_capacity_bytes :: nat
  st_reserved_bytes :: nat
  st_worker_limit :: nat
  st_active_workers :: nat
  st_waiting :: nat
  st_oldest_wait :: nat

record reservation =
  rs_bytes :: nat
  rs_worker :: bool

text \<open>The assertion that the capacity is positive fails as \<open>None\<close>.\<close>

definition budget_new :: "nat \<Rightarrow> nat \<Rightarrow> (budget \<times> admission_state) option" where
  "budget_new capacity workers = (if 0 < capacity then
     Some (\<lparr>bg_capacity = capacity, bg_workers = workers\<rparr>,
       \<lparr>as_available = capacity, as_workers = workers, as_next_ticket = 0, as_waiting = []\<rparr>)
     else None)"

definition worker_count :: "bool \<Rightarrow> nat" where
  "worker_count worker = (if worker then 1 else 0)"

definition clamp_request :: "budget \<Rightarrow> nat \<Rightarrow> nat" where
  "clamp_request b bytes = min (max bytes 1) (bg_capacity b)"

datatype reserve_error = WorkerAssertion | ReserveCancelled

definition reserve_enter :: "budget \<Rightarrow> bool \<Rightarrow> bool \<Rightarrow> nat \<Rightarrow> admission_state \<Rightarrow> reserve_error + nat \<times> admission_state" where
  "reserve_enter b worker cancelled now s =
     ensureE (\<not> worker \<or> 0 < bg_workers b) WorkerAssertion
       (ensureE (\<not> cancelled) ReserveCancelled
         (Inr (as_next_ticket s, s\<lparr>as_next_ticket := as_next_ticket s + 1,
            as_waiting := as_waiting s @ [(as_next_ticket s, now)]\<rparr>)))"

datatype poll = PollCancelled | PollAdmitted reservation | PollWait

definition reserve_poll :: "nat \<Rightarrow> nat \<Rightarrow> bool \<Rightarrow> bool \<Rightarrow> admission_state \<Rightarrow> poll \<times> admission_state" where
  "reserve_poll ticket bytes worker cancelled s =
     (if cancelled then (PollCancelled, s\<lparr>as_waiting := filter (\<lambda>(i, _). i \<noteq> ticket) (as_waiting s)\<rparr>)
      else if as_waiting s \<noteq> [] \<and> fst (hd (as_waiting s)) = ticket \<and> bytes \<le> as_available s \<and>
          (\<not> worker \<or> 0 < as_workers s)
      then (PollAdmitted \<lparr>rs_bytes = bytes, rs_worker = worker\<rparr>,
        s\<lparr>as_waiting := tl (as_waiting s), as_available := as_available s - bytes,
          as_workers := as_workers s - worker_count worker\<rparr>)
      else (PollWait, s))"

definition budget_stats :: "budget \<Rightarrow> nat \<Rightarrow> admission_state \<Rightarrow> admission_stats" where
  "budget_stats b now s =
     \<lparr>st_capacity_bytes = bg_capacity b, st_reserved_bytes = bg_capacity b - as_available s,
      st_worker_limit = bg_workers b, st_active_workers = bg_workers b - as_workers s,
      st_waiting = length (as_waiting s),
      st_oldest_wait = (if as_waiting s = [] then 0 else now - snd (hd (as_waiting s)))\<rparr>"

definition release_worker :: "reservation \<Rightarrow> admission_state \<Rightarrow> reservation \<times> admission_state" where
  "release_worker r s = (if rs_worker r
     then (r\<lparr>rs_worker := False\<rparr>, s\<lparr>as_workers := as_workers s + 1\<rparr>) else (r, s))"

definition shrink_to :: "nat \<Rightarrow> reservation \<Rightarrow> admission_state \<Rightarrow> reservation \<times> admission_state" where
  "shrink_to bytes r s =
     (let retained = min bytes (rs_bytes r); released = rs_bytes r - retained
      in if released \<noteq> 0 then (r\<lparr>rs_bytes := retained\<rparr>, s\<lparr>as_available := as_available s + released\<rparr>) else (r, s))"

definition drop_reservation :: "reservation \<Rightarrow> admission_state \<Rightarrow> admission_state" where
  "drop_reservation r s = s\<lparr>as_available := as_available s + rs_bytes r, as_workers := as_workers s + worker_count (rs_worker r)\<rparr>"

section \<open>Requests\<close>

definition expansion :: "bool \<Rightarrow> nat" where
  "expansion assembly = (if assembly then 8 else 32)"

definition file_request :: "nat \<Rightarrow> bool \<Rightarrow> nat" where
  "file_request bytes assembly = saturating_mul bytes (expansion assembly)"

definition batch_request :: "nat \<Rightarrow> nat \<Rightarrow> nat \<Rightarrow> bool \<Rightarrow> nat" where
  "batch_request whole largest encoded_limit assembly =
     min (saturating_mul whole (expansion assembly))
       (saturating_add (saturating_mul largest (expansion assembly)) (saturating_mul encoded_limit 8))"

definition source_request :: "nat \<Rightarrow> nat" where
  "source_request bytes = saturating_mul bytes 4"

definition source_capacity :: "nat \<Rightarrow> nat" where
  "source_capacity parser_bytes = max (parser_bytes div 4) 1"

section \<open>The system of callers\<close>

text \<open>
  Callers waiting with their ticket and request, live reservations, and the tickets admitted so
  far. A step is one critical section of a caller.
\<close>

record admission =
  ad_state :: admission_state
  ad_requests :: "nat \<rightharpoonup> nat \<times> bool"
  ad_live :: "reservation list"
  ad_admitted :: "nat list"

inductive admission_step :: "budget \<Rightarrow> admission \<Rightarrow> admission \<Rightarrow> bool" for b where
  enter: "reserve_enter b worker False now (ad_state a) = Inr (ticket, s) \<Longrightarrow>
    admission_step b a (a\<lparr>ad_state := s, ad_requests := (ad_requests a)(ticket \<mapsto> (clamp_request b bytes, worker))\<rparr>)"
| poll_admit: "ad_requests a ticket = Some (bytes, worker) \<Longrightarrow>
    reserve_poll ticket bytes worker False (ad_state a) = (PollAdmitted r, s) \<Longrightarrow>
    admission_step b a (a\<lparr>ad_state := s, ad_requests := (ad_requests a)(ticket := None), ad_live := r # ad_live a,
      ad_admitted := ad_admitted a @ [ticket]\<rparr>)"
| poll_cancel: "ad_requests a ticket = Some (bytes, worker) \<Longrightarrow>
    reserve_poll ticket bytes worker True (ad_state a) = (PollCancelled, s) \<Longrightarrow>
    admission_step b a (a\<lparr>ad_state := s, ad_requests := (ad_requests a)(ticket := None)\<rparr>)"
| release: "ad_live a = rs @ r # rs' \<Longrightarrow> release_worker r (ad_state a) = (r', s) \<Longrightarrow>
    admission_step b a (a\<lparr>ad_state := s, ad_live := rs @ r' # rs'\<rparr>)"
| shrink: "ad_live a = rs @ r # rs' \<Longrightarrow> shrink_to bytes r (ad_state a) = (r', s) \<Longrightarrow>
    admission_step b a (a\<lparr>ad_state := s, ad_live := rs @ r' # rs'\<rparr>)"
| drop_live: "ad_live a = rs @ r # rs' \<Longrightarrow>
    admission_step b a (a\<lparr>ad_state := drop_reservation r (ad_state a), ad_live := rs @ rs'\<rparr>)"

definition admission_start :: "admission_state \<Rightarrow> admission" where
  "admission_start s = \<lparr>ad_state = s, ad_requests = Map.empty, ad_live = [], ad_admitted = []\<rparr>"

section \<open>Invariant systems\<close>

text \<open>
  A state machine with a property that holds at the start and that every step keeps: it holds of
  every state that is reached.
\<close>

locale invariant_system =
  fixes start :: "'s \<Rightarrow> bool" and step :: "'s \<Rightarrow> 's \<Rightarrow> bool" and inv :: "'s \<Rightarrow> bool"
  assumes start_inv: "start s \<Longrightarrow> inv s"
    and step_inv: "step s t \<Longrightarrow> inv s \<Longrightarrow> inv t"
begin

lemma reach_inv:
  assumes "step\<^sup>*\<^sup>* s t" "start s"
  shows "inv t"
  using assms by (induction rule: rtranclp_induct) (auto intro: start_inv step_inv)

lemma kept:
  assumes "step\<^sup>*\<^sup>* s t" "inv s"
  shows "inv t"
  using assms by (induction rule: rtranclp_induct) (auto intro: step_inv)

end

section \<open>What admission keeps true\<close>

definition live_bytes :: "admission \<Rightarrow> nat" where
  "live_bytes a = sum_list (map rs_bytes (ad_live a))"

definition live_workers :: "admission \<Rightarrow> nat" where
  "live_workers a = sum_list (map (worker_count \<circ> rs_worker) (ad_live a))"

definition admission_ok :: "budget \<Rightarrow> admission \<Rightarrow> bool" where
  "admission_ok b a \<longleftrightarrow> 0 < bg_capacity b \<and>
     as_available (ad_state a) + live_bytes a = bg_capacity b \<and>
     as_workers (ad_state a) + live_workers a = bg_workers b \<and>
     sorted_wrt (<) (ad_admitted a @ map fst (as_waiting (ad_state a))) \<and>
     (\<forall>t \<in> set (ad_admitted a) \<union> fst ` set (as_waiting (ad_state a)). t < as_next_ticket (ad_state a)) \<and>
     dom (ad_requests a) = fst ` set (as_waiting (ad_state a)) \<and>
     (\<forall>(bytes, worker) \<in> ran (ad_requests a). 0 < bytes \<and> bytes \<le> bg_capacity b \<and> (worker \<longrightarrow> 0 < bg_workers b))"

lemma start_ok: "budget_new capacity workers = Some (b, s) \<Longrightarrow> admission_ok b (admission_start s)"
  by (auto simp: budget_new_def admission_start_def admission_ok_def live_bytes_def live_workers_def split: if_splits)

lemma enter_ok:
  assumes "reserve_enter b worker False now (ad_state a) = Inr (ticket, s)" "admission_ok b a"
  shows "admission_ok b (a\<lparr>ad_state := s, ad_requests := (ad_requests a)(ticket \<mapsto> (clamp_request b bytes, worker))\<rparr>)"
proof -
  have s: "ticket = as_next_ticket (ad_state a)" "worker \<longrightarrow> 0 < bg_workers b"
    "s = (ad_state a)\<lparr>as_next_ticket := ticket + 1, as_waiting := as_waiting (ad_state a) @ [(ticket, now)]\<rparr>"
    using assms(1) by (auto simp: reserve_enter_def)
  have "\<forall>t \<in> fst ` set (as_waiting (ad_state a)). t < as_next_ticket (ad_state a)"
    and dom: "dom (ad_requests a) = fst ` set (as_waiting (ad_state a))"
    using assms(2) unfolding admission_ok_def by blast+
  then have fresh: "ticket \<notin> dom (ad_requests a)" unfolding dom s(1) by blast
  have "sorted_wrt (<) (ad_admitted a @ map fst (as_waiting s))"
    using assms(2) s(1) unfolding s(3) by (auto simp: admission_ok_def sorted_wrt_append)
  moreover have "\<forall>t \<in> set (ad_admitted a) \<union> fst ` set (as_waiting s). t < as_next_ticket s"
    using assms(2) s(1) unfolding s(3) by (auto simp: admission_ok_def less_Suc_eq)
  moreover have "ran ((ad_requests a)(ticket \<mapsto> (clamp_request b bytes, worker))) =
      insert (clamp_request b bytes, worker) (ran (ad_requests a))"
    by (rule ran_map_upd) (use fresh in \<open>cases "ad_requests a ticket"; auto\<close>)
  moreover have "0 < clamp_request b bytes \<and> clamp_request b bytes \<le> bg_capacity b"
    using assms(2) by (simp add: clamp_request_def admission_ok_def)
  ultimately show ?thesis
    using assms(2) s by (simp add: admission_ok_def live_bytes_def live_workers_def)
qed

lemma leave_requests:
  assumes "admission_ok b a" "set ws = {x \<in> set (as_waiting (ad_state a)). fst x \<noteq> ticket}"
  shows "dom ((ad_requests a)(ticket := None)) = fst ` set ws"
    "ran ((ad_requests a)(ticket := None)) \<subseteq> ran (ad_requests a)"
  using assms by (auto simp: admission_ok_def ran_def image_iff split: if_splits)

lemma poll_cancel_ok:
  assumes "reserve_poll ticket bytes worker True (ad_state a) = (PollCancelled, s)" "admission_ok b a"
  shows "admission_ok b (a\<lparr>ad_state := s, ad_requests := (ad_requests a)(ticket := None)\<rparr>)"
proof -
  have s: "s = (ad_state a)\<lparr>as_waiting := filter (\<lambda>(i, _). i \<noteq> ticket) (as_waiting (ad_state a))\<rparr>"
    using assms(1) by (simp add: reserve_poll_def)
  have ws: "set (as_waiting s) = {x \<in> set (as_waiting (ad_state a)). fst x \<noteq> ticket}" by (auto simp: s)
  have "map fst (as_waiting s) = filter (\<lambda>i. i \<noteq> ticket) (map fst (as_waiting (ad_state a)))"
    by (simp add: s filter_map o_def case_prod_unfold)
  then have "sorted_wrt (<) (ad_admitted a @ map fst (as_waiting s))"
    using assms(2) by (auto simp: admission_ok_def sorted_wrt_append sorted_wrt_filter)
  with leave_requests [OF assms(2) ws] assms(2) ws show ?thesis
    by (auto simp: admission_ok_def live_bytes_def live_workers_def s)
qed

lemma poll_admit_ok:
  assumes "ad_requests a ticket = Some (bytes, worker)"
    "reserve_poll ticket bytes worker False (ad_state a) = (PollAdmitted r, s)" "admission_ok b a"
  shows "admission_ok b (a\<lparr>ad_state := s, ad_requests := (ad_requests a)(ticket := None), ad_live := r # ad_live a,
      ad_admitted := ad_admitted a @ [ticket]\<rparr>)"
proof -
  obtain now ws where w: "as_waiting (ad_state a) = (ticket, now) # ws" and fit: "bytes \<le> as_available (ad_state a)"
      "worker_count worker \<le> as_workers (ad_state a)"
    and r: "r = \<lparr>rs_bytes = bytes, rs_worker = worker\<rparr>"
    and s: "s = (ad_state a)\<lparr>as_waiting := ws, as_available := as_available (ad_state a) - bytes,
          as_workers := as_workers (ad_state a) - worker_count worker\<rparr>"
    using assms(2) by (cases "as_waiting (ad_state a)") (auto simp: reserve_poll_def worker_count_def split: if_splits)
  have sorted: "sorted_wrt (<) (ad_admitted a @ map fst (as_waiting (ad_state a)))" using assms(3) by (simp add: admission_ok_def)
  then have ws: "set ws = {x \<in> set (as_waiting (ad_state a)). fst x \<noteq> ticket}"
    unfolding w by (auto simp: sorted_wrt_append)
  from leave_requests [OF assms(3), of ws, OF ws] sorted assms(3) w fit
  show ?thesis unfolding s r by (auto simp: admission_ok_def live_bytes_def live_workers_def)
qed

lemma live_split: "ad_live a = rs @ r # rs' \<Longrightarrow> live_bytes a = sum_list (map rs_bytes rs) + rs_bytes r + sum_list (map rs_bytes rs')"
  "ad_live a = rs @ r # rs' \<Longrightarrow> live_workers a = sum_list (map (worker_count \<circ> rs_worker) rs) + worker_count (rs_worker r) +
    sum_list (map (worker_count \<circ> rs_worker) rs')"
  by (simp_all add: live_bytes_def live_workers_def)

text \<open>Releasing gives back what the reservation then holds less.\<close>

lemma live_change_ok:
  assumes "admission_ok b a" "ad_live a = rs @ r # rs'" "as_waiting s = as_waiting (ad_state a)"
    "as_next_ticket s = as_next_ticket (ad_state a)"
    "as_available s + sum_list (map rs_bytes ls) = as_available (ad_state a) + rs_bytes r"
    "as_workers s + sum_list (map (worker_count \<circ> rs_worker) ls) = as_workers (ad_state a) + worker_count (rs_worker r)"
  shows "admission_ok b (a\<lparr>ad_state := s, ad_live := rs @ ls @ rs'\<rparr>)"
  using assms live_split [OF assms(2)] by (auto simp: admission_ok_def live_bytes_def live_workers_def)

lemma admission_step_ok:
  assumes "admission_step b a a'" "admission_ok b a"
  shows "admission_ok b a'"
  using assms
proof (cases rule: admission_step.cases)
  case (enter worker now ticket s bytes)
  then show ?thesis using enter_ok assms(2) by simp
next
  case (poll_admit ticket bytes worker r s)
  then show ?thesis using poll_admit_ok assms(2) by simp
next
  case (poll_cancel ticket bytes worker s)
  then show ?thesis using poll_cancel_ok assms(2) by simp
next
  case (release rs r rs' r' s)
  have "admission_ok b (a\<lparr>ad_state := s, ad_live := rs @ [r'] @ rs'\<rparr>)"
    by (rule live_change_ok [OF assms(2) release(2)])
      (use release(3) in \<open>auto simp: release_worker_def worker_count_def split: if_splits\<close>)
  with release(1) show ?thesis by simp
next
  case (shrink rs r rs' bytes r' s)
  have "admission_ok b (a\<lparr>ad_state := s, ad_live := rs @ [r'] @ rs'\<rparr>)"
    by (rule live_change_ok [OF assms(2) shrink(2)])
      (use shrink(3) in \<open>auto simp: shrink_to_def Let_def split: if_splits\<close>)
  with shrink(1) show ?thesis by simp
next
  case (drop_live rs r rs')
  have "admission_ok b (a\<lparr>ad_state := drop_reservation r (ad_state a), ad_live := rs @ [] @ rs'\<rparr>)"
    by (rule live_change_ok [OF assms(2) drop_live(2)]) (simp_all add: drop_reservation_def)
  with drop_live(1) show ?thesis by simp
qed

interpretation admission: invariant_system "\<lambda>a. \<exists>capacity workers s. budget_new capacity workers = Some (b, s) \<and> a = admission_start s"
  "admission_step b" "admission_ok b" for b
  by unfold_locales (auto intro: start_ok admission_step_ok)

section \<open>Properties of admission\<close>

text \<open>
  C15: however callers enter, wait, cancel, shrink and drop, the live reservations never exceed the
  capacity nor the workers, what is free and what is held always add up, so that the statistics
  report exactly the bytes and workers held, and requests are admitted in the order of their tickets.
\<close>

theorem admission_accounts:
  assumes "budget_new capacity workers = Some (b, s)" "(admission_step b)\<^sup>*\<^sup>* (admission_start s) a"
  shows "as_available (ad_state a) + live_bytes a = capacity \<and> as_workers (ad_state a) + live_workers a = workers \<and>
    st_reserved_bytes (budget_stats b now (ad_state a)) = live_bytes a \<and>
    st_active_workers (budget_stats b now (ad_state a)) = live_workers a \<and>
    sorted_wrt (<) (ad_admitted a @ map fst (as_waiting (ad_state a)))"
proof -
  have "admission_ok b a" using admission.reach_inv [OF assms(2)] assms(1) by blast
  moreover have "bg_capacity b = capacity" "bg_workers b = workers"
    using assms(1) by (auto simp: budget_new_def split: if_splits)
  ultimately show ?thesis by (auto simp: admission_ok_def budget_stats_def)
qed

theorem admission_accounts_witness:
  "\<exists>b s. budget_new 10 1 = Some (b, s) \<and>
    as_available (ad_state (admission_start s)) + live_bytes (admission_start s) = 10"
  using admission_accounts [of 10 1, OF _ rtranclp.rtrancl_refl] by (simp add: budget_new_def)





end
