(* ===== verification/Unity_Version.thy ===== *)
theory Unity_Version
  imports Text
begin

text \<open>
  Unity versions of \<^verbatim>\<open>src/src/unity/version.rs\<close>: release branches \<^verbatim>\<open>major.minor\<close> and editor
  versions \<^verbatim>\<open>major.minor.patch\<close>, a channel letter and a revision, their parsers, printers and
  derived order. A \<^verbatim>\<open>u32\<close> is a number below \<open>2^32\<close>; parsing checks the bound.
\<close>

datatype release_branch = ReleaseBranch (rb_major: nat) (rb_minor: nat)

datatype unity_version = UnityVersion (uv_branch: release_branch) (uv_patch: nat) (uv_channel: nat) (uv_revision: nat)

datatype version_error = BranchForm | BranchOverride | BranchNumber | VersionForm | VersionNumber

definition u32_max :: nat where "u32_max = 4294967295"

definition parse_u32 :: "'e \<Rightarrow> str \<Rightarrow> 'e + nat" where
  "parse_u32 e s = (case parse_bounded u32_max s of None \<Rightarrow> Inl e | Some n \<Rightarrow> Inr n)"

definition parse_branch :: "str \<Rightarrow> version_error + release_branch" where
  "parse_branch s = (case split_once (\<lambda>c. c = 46) s of
     None \<Rightarrow> Inl BranchForm
   | Some (major, minor) \<Rightarrow> ensureE (major \<noteq> [] \<and> minor \<noteq> [] \<and> list_all is_digit (major @ minor)) BranchOverride
       (bindE (parse_u32 BranchNumber major) (\<lambda>major. bindE (parse_u32 BranchNumber minor) (\<lambda>minor.
         Inr (ReleaseBranch major minor)))))"

definition show_branch :: "release_branch \<Rightarrow> str" where
  "show_branch b = display_nat (rb_major b) @ [46] @ display_nat (rb_minor b)"

definition channel_letters :: str where "channel_letters = lit ''abfp''"

definition stable_version :: "unity_version \<Rightarrow> bool" where
  "stable_version v \<longleftrightarrow> 2 \<le> uv_channel v"

definition channel_of :: "nat \<Rightarrow> nat" where
  "channel_of c = (if c = ch CHR ''a'' then 0 else if c = ch CHR ''b'' then 1 else if c = ch CHR ''f'' then 2 else 3)"

definition parse_version :: "str \<Rightarrow> version_error + unity_version" where
  "parse_version s = (case split_once (\<lambda>c. c \<in> set channel_letters) s of
     None \<Rightarrow> Inl VersionForm
   | Some (prefix, revision) \<Rightarrow> (case rsplit_once 46 prefix of
       None \<Rightarrow> Inl VersionForm
     | Some (branch, patch) \<Rightarrow>
         let channel = channel_of (s ! length prefix)
         in ensureE (patch \<noteq> [] \<and> revision \<noteq> [] \<and> list_all is_digit (patch @ revision)) VersionForm
           (bindE (parse_branch branch) (\<lambda>branch. bindE (parse_u32 VersionNumber patch) (\<lambda>patch.
             bindE (parse_u32 VersionNumber revision) (\<lambda>revision.
               Inr (UnityVersion branch patch channel revision)))))))"

definition show_version :: "unity_version \<Rightarrow> str" where
  "show_version v = show_branch (uv_branch v) @ [46] @ display_nat (uv_patch v) @
     [channel_letters ! uv_channel v] @ display_nat (uv_revision v)"

section \<open>The derived order\<close>

instantiation release_branch :: linorder
begin

definition less_eq_release_branch :: "release_branch \<Rightarrow> release_branch \<Rightarrow> bool" where
  "less_eq_release_branch a b \<longleftrightarrow> rb_major a < rb_major b \<or> rb_major a = rb_major b \<and> rb_minor a \<le> rb_minor b"

definition less_release_branch :: "release_branch \<Rightarrow> release_branch \<Rightarrow> bool" where
  "less_release_branch a b \<longleftrightarrow> rb_major a < rb_major b \<or> rb_major a = rb_major b \<and> rb_minor a < rb_minor b"

instance
  by standard (auto simp: less_eq_release_branch_def less_release_branch_def intro: release_branch.expand)

end

instantiation unity_version :: linorder
begin

definition less_eq_unity_version :: "unity_version \<Rightarrow> unity_version \<Rightarrow> bool" where
  "less_eq_unity_version v w \<longleftrightarrow> uv_branch v < uv_branch w \<or> uv_branch v = uv_branch w \<and>
     (uv_patch v < uv_patch w \<or> uv_patch v = uv_patch w \<and>
       (uv_channel v < uv_channel w \<or> uv_channel v = uv_channel w \<and> uv_revision v \<le> uv_revision w))"

definition less_unity_version :: "unity_version \<Rightarrow> unity_version \<Rightarrow> bool" where
  "less_unity_version v w \<longleftrightarrow> uv_branch v < uv_branch w \<or> uv_branch v = uv_branch w \<and>
     (uv_patch v < uv_patch w \<or> uv_patch v = uv_patch w \<and>
       (uv_channel v < uv_channel w \<or> uv_channel v = uv_channel w \<and> uv_revision v < uv_revision w))"

instance
  by standard (auto simp: less_eq_unity_version_def less_unity_version_def intro: unity_version.expand)

end

section \<open>Round trips\<close>

lemma find_first_append: "list_all (\<lambda>c. \<not> p c) xs \<Longrightarrow> p y \<Longrightarrow> find_first p (xs @ y # ys) = Some (length xs)"
  by (induction xs) auto

lemma split_once_append: "list_all (\<lambda>c. \<not> p c) xs \<Longrightarrow> p y \<Longrightarrow> split_once p (xs @ y # ys) = Some (xs, ys)"
  by (simp add: split_once_def find_first_append)

lemma rsplit_once_append: "y \<notin> set ys \<Longrightarrow> rsplit_once y (xs @ y # ys) = Some (xs, ys)"
proof -
  assume "y \<notin> set ys"
  then have "list_all (\<lambda>c. c \<noteq> y) (rev ys)" by (auto simp: list_all_iff)
  from find_first_append [of "\<lambda>c. c = y", OF this] have "find_first (\<lambda>c. c = y) (rev (xs @ y # ys)) = Some (length ys)" by simp
  then show ?thesis by (simp add: rsplit_once_def)
qed

lemma display_free: "(\<And>c. is_digit c \<Longrightarrow> \<not> p c) \<Longrightarrow> list_all (\<lambda>c. \<not> p c) (display_nat n)"
  using display_nat_digits [of n] by (auto simp: list_all_iff)

lemma parse_u32_display: "n \<le> u32_max \<Longrightarrow> parse_u32 e (display_nat n) = Inr n"
  by (simp add: parse_u32_def parse_display_nat)

definition branch_ok :: "release_branch \<Rightarrow> bool" where
  "branch_ok b \<longleftrightarrow> rb_major b \<le> u32_max \<and> rb_minor b \<le> u32_max"

definition version_ok :: "unity_version \<Rightarrow> bool" where
  "version_ok v \<longleftrightarrow> branch_ok (uv_branch v) \<and> uv_patch v \<le> u32_max \<and> uv_channel v < 4 \<and> uv_revision v \<le> u32_max"

lemma parse_show_branch: "branch_ok b \<Longrightarrow> parse_branch (show_branch b) = Inr b"
proof -
  assume b: "branch_ok b"
  have "split_once (\<lambda>c. c = 46) (display_nat (rb_major b) @ 46 # display_nat (rb_minor b)) =
      Some (display_nat (rb_major b), display_nat (rb_minor b))"
    by (rule split_once_append) (auto intro: display_free simp: is_digit_def)
  with b display_nat_digits show ?thesis
    by (simp add: parse_branch_def show_branch_def branch_ok_def parse_u32_display)
qed

lemma channel_letter:
  assumes "k < 4"
  shows "channel_letters ! k \<in> set channel_letters \<and> channel_of (channel_letters ! k) = k"
proof -
  from assms have "k = 0 \<or> k = 1 \<or> k = 2 \<or> k = 3" by auto
  then show ?thesis by (auto simp: channel_letters_def channel_of_def lit_def)
qed

text \<open>
  Every version and every branch is read back from what it prints, and a printed version is
  never read as a branch.
\<close>

lemma version_roundtrip:
  assumes "version_ok v"
  shows "parse_version (show_version v) = Inr v \<and> parse_branch (show_branch (uv_branch v)) = Inr (uv_branch v) \<and>
    parse_branch (show_version v) = Inl BranchOverride"
proof -
  let ?b = "show_branch (uv_branch v)" and ?p = "display_nat (uv_patch v)" and ?r = "display_nat (uv_revision v)"
  let ?c = "channel_letters ! uv_channel v"
  have letters: "\<not> is_digit c \<and> c \<noteq> 46" if "c \<in> set channel_letters" for c
    using that by (auto simp: channel_letters_def lit_def is_digit_def)
  have show_v: "show_version v = (?b @ 46 # ?p) @ ?c # ?r" by (simp add: show_version_def)
  have chan: "?c \<in> set channel_letters" "channel_of ?c = uv_channel v"
    using channel_letter assms by (simp_all add: version_ok_def)
  have prefix: "list_all (\<lambda>c. c \<notin> set channel_letters) (?b @ 46 # ?p)"
    using letters display_nat_digits unfolding show_branch_def by (fastforce simp: list_all_iff)
  have "split_once (\<lambda>c. c \<in> set channel_letters) (show_version v) = Some (?b @ 46 # ?p, ?r)"
    unfolding show_v by (rule split_once_append [OF prefix chan(1)])
  moreover have "rsplit_once 46 (?b @ 46 # ?p) = Some (?b, ?p)"
    by (rule rsplit_once_append) (use display_nat_digits [of "uv_patch v"] in \<open>auto simp: list_all_iff is_digit_def\<close>)
  moreover have "show_version v ! length (?b @ 46 # ?p) = ?c" unfolding show_v by (rule nth_append_length)
  moreover have branch: "parse_branch ?b = Inr (uv_branch v)"
    using parse_show_branch assms by (simp add: version_ok_def)
  ultimately have "parse_version (show_version v) = Inr v"
    using assms display_nat_digits chan(2)
    by (cases v) (simp add: parse_version_def parse_u32_display version_ok_def)
  moreover have "parse_branch (show_version v) = Inl BranchOverride"
  proof -
    have "split_once (\<lambda>c. c = 46) (show_version v) = Some (display_nat (rb_major (uv_branch v)),
        display_nat (rb_minor (uv_branch v)) @ 46 # ?p @ ?c # ?r)"
      using split_once_append [of "\<lambda>c. c = 46" "display_nat (rb_major (uv_branch v))" 46] display_free [of "\<lambda>c. c = 46"]
      by (simp add: show_version_def show_branch_def is_digit_def)
    then show ?thesis by (simp add: parse_branch_def is_digit_def)
  qed
  ultimately show ?thesis using branch by blast
qed

theorem version_roundtrip_witness:
  "parse_version (show_version (UnityVersion (ReleaseBranch 2022 3) 18 2 1)) = Inr (UnityVersion (ReleaseBranch 2022 3) 18 2 1)"
  using version_roundtrip [of "UnityVersion (ReleaseBranch 2022 3) 18 2 1"]
  by (simp add: version_ok_def branch_ok_def u32_max_def)

end
