(* ===== verification/Names.thy ===== *)
theory Names
  imports Prelude "HOL-Library.List_Lexorder" "HOL-Library.Product_Lexorder"
begin

text \<open>
  The packed vocabularies of \<^verbatim>\<open>src/src/store/names.rs\<close>: \<open>build\<close> merges the sorted keys of several
  posting partitions into one dictionary of distinct terms with their partitions, within a memory
  limit, and the cache keeps the dictionaries used last. A term is its bytes, ordered bytewise. The
  keys of a partition in the database, the stored generations, the hash and the allocated size of a
  dictionary (\<^verbatim>\<open>capacity()\<close> of its buffers) are parameters. The binary heap is a sorted list.
\<close>

type_synonym key_term = "nat list"

record dictionary =
  dc_text :: "nat list"
  dc_term_ends :: "nat list"
  dc_partitions :: "nat list"
  dc_posting_ends :: "nat list"
  dc_postings :: "nat list"

definition u32_limit :: nat where "u32_limit = 2 ^ 32 - 1"

text \<open>The iterator \<open>terms\<close>: both end lists are read together, each end starting the next slice.\<close>

fun terms_from :: "dictionary \<Rightarrow> nat \<Rightarrow> nat \<Rightarrow> (nat \<times> nat) list \<Rightarrow> (key_term \<times> nat list) list" where
  "terms_from d text_at posting_at [] = []"
| "terms_from d text_at posting_at ((end_text, end_posting) # ends) =
     (slice (dc_text d) (text_at, end_text), slice (dc_postings d) (posting_at, end_posting)) #
     terms_from d end_text end_posting ends"

definition terms :: "dictionary \<Rightarrow> (key_term \<times> nat list) list" where
  "terms d = terms_from d 0 0 (zip (dc_term_ends d) (dc_posting_ends d))"

definition partition_at :: "dictionary \<Rightarrow> nat \<Rightarrow> nat" where
  "partition_at d i = dc_partitions d ! i"

datatype names_error = MissingTerm | PostingsOverflow

text \<open>\<open>None\<close>: the dictionary would not fit the limit or its 32-bit offsets.\<close>

type_synonym built = "names_error + dictionary option"

definition start_term :: "key_term \<Rightarrow> dictionary \<Rightarrow> dictionary option" where
  "start_term t d = (let e = length (dc_text d) + length t in
     if e \<le> u64_max \<and> e \<le> u32_limit
     then Some (d\<lparr>dc_text := dc_text d @ t, dc_term_ends := dc_term_ends d @ [e], dc_posting_ends := dc_posting_ends d @ [0]\<rparr>)
     else None)"

definition add_posting :: "nat \<Rightarrow> dictionary \<Rightarrow> names_error + dictionary" where
  "add_posting index d =
     (let postings = dc_postings d @ [index mod 2 ^ 32]
      in ensureE (dc_posting_ends d \<noteq> []) MissingTerm
        (ensureE (length postings \<le> u32_limit) PostingsOverflow
          (Inr (d\<lparr>dc_postings := postings, dc_posting_ends := (butlast (dc_posting_ends d)) @ [length postings]\<rparr>))))"

text \<open>One popped term: \<open>previous\<close> is the term before it.\<close>

definition add_term :: "(dictionary \<Rightarrow> nat) \<Rightarrow> nat \<Rightarrow> key_term \<times> nat \<Rightarrow> key_term option \<Rightarrow> dictionary \<Rightarrow> built" where
  "add_term size_of limit entry previous d = (case entry of (t, index) \<Rightarrow>
     if limit < saturating_add (size_of d) (length t + 12) then Inr None
     else (case (if previous \<noteq> Some t then start_term t d else Some d) of
         None \<Rightarrow> Inr None
       | Some d \<Rightarrow> bindE (add_posting index d) (\<lambda>d. Inr (if limit < size_of d then None else Some d))))"

fun push_next :: "nat \<Rightarrow> key_term list list \<Rightarrow> (key_term \<times> nat) list \<Rightarrow> key_term list list \<times> (key_term \<times> nat) list" where
  "push_next index cursors heap = (case cursors ! index of
     [] \<Rightarrow> (cursors, heap)
   | t # ts \<Rightarrow> (cursors[index := ts], insort (t, index) heap))"

lemma push_next_size:
  "push_next index cursors heap = (cursors', heap') \<Longrightarrow> index < length cursors \<Longrightarrow>
    sum_list (map length cursors') + length heap' = sum_list (map length cursors) + length heap"
proof (cases "cursors ! index")
  case (Cons t ts)
  assume a: "push_next index cursors heap = (cursors', heap')" "index < length cursors"
  have "sum_list (map length (cursors[index := ts])) + length (t # ts) = sum_list (map length cursors) + length ts"
    using a(2) Cons by (induction cursors arbitrary: index) (auto split: nat.splits simp: nth_Cons')
  with a Cons show ?thesis by auto
qed auto

function build_loop :: "(dictionary \<Rightarrow> nat) \<Rightarrow> nat \<Rightarrow> key_term list list \<Rightarrow> (key_term \<times> nat) list \<Rightarrow> key_term option \<Rightarrow> dictionary \<Rightarrow> built" where
  "build_loop size_of limit cursors heap previous d = (case heap of
     [] \<Rightarrow> Inr (Some d)
   | (t, index) # heap \<Rightarrow> bindE (add_term size_of limit (t, index) previous d) (\<lambda>r. case r of
       None \<Rightarrow> Inr None
     | Some d \<Rightarrow>
         if index < length cursors
         then (case push_next index cursors heap of (cursors, heap) \<Rightarrow> build_loop size_of limit cursors heap (Some t) d)
         else Inl MissingTerm))"
  by pat_completeness auto
termination
  by (relation "measure (\<lambda>(_, _, cursors, heap, _). sum_list (map length cursors) + length heap)")
    (auto dest!: push_next_size [OF sym] simp del: push_next.simps)

declare build_loop.simps [simp del]

text \<open>The first term of every partition that has one.\<close>

fun fill_heap :: "nat \<Rightarrow> key_term list list \<Rightarrow> key_term list list \<times> (key_term \<times> nat) list" where
  "fill_heap index [] = ([], [])"
| "fill_heap index (c # cs) = (case fill_heap (index + 1) cs of (cursors, heap) \<Rightarrow>
     (case c of [] \<Rightarrow> ([] # cursors, heap) | t # ts \<Rightarrow> (ts # cursors, insort (t, index) heap)))"

definition build :: "(dictionary \<Rightarrow> nat) \<Rightarrow> nat \<Rightarrow> (nat \<times> key_term list) list \<Rightarrow> built" where
  "build size_of limit partitions =
     (if limit < saturating_mul (length partitions) 256 \<or> u32_limit < length partitions then Inr None
      else (case fill_heap 0 (map snd partitions) of (cursors, heap) \<Rightarrow>
        build_loop size_of limit cursors heap None
          \<lparr>dc_text = [], dc_term_ends = [], dc_partitions = map fst partitions, dc_posting_ends = [], dc_postings = []\<rparr>))"

section \<open>The cache\<close>

text \<open>Entries from the one used last to the one used first; \<open>bytes\<close> is what they are charged.\<close>

record names_cache =
  nc_entries :: "(nat list \<times> dictionary option \<times> nat) list"
  nc_bytes :: nat

definition lru_get :: "nat list \<Rightarrow> names_cache \<Rightarrow> dictionary option option \<times> names_cache" where
  "lru_get key c = (case map_of (nc_entries c) key of
     None \<Rightarrow> (None, c)
   | Some (v, n) \<Rightarrow> (Some v, c\<lparr>nc_entries := (key, v, n) # filter (\<lambda>e. fst e \<noteq> key) (nc_entries c)\<rparr>))"

function make_room :: "nat \<Rightarrow> nat \<Rightarrow> names_cache \<Rightarrow> names_cache" where
  "make_room need limit c =
     (if limit < saturating_add (nc_bytes c) need then
        (if nc_entries c = [] then c
         else make_room need limit \<lparr>nc_entries = butlast (nc_entries c), nc_bytes = nc_bytes c - snd (snd (last (nc_entries c)))\<rparr>)
      else c)"
  by pat_completeness auto
termination
  by (relation "measure (\<lambda>(_, _, c). length (nc_entries c))") auto

declare make_room.simps [simp del]

definition lru_insert :: "nat list \<Rightarrow> dictionary option \<Rightarrow> nat \<Rightarrow> nat \<Rightarrow> names_cache \<Rightarrow> dictionary option \<times> names_cache" where
  "lru_insert key v n limit c = (case lru_get key c of
     (Some old, c) \<Rightarrow> (old, c)
   | (None, c) \<Rightarrow>
       let c = make_room n limit c
       in (v, \<lparr>nc_entries = (key, v, n) # nc_entries c, nc_bytes = nc_bytes c + n\<rparr>))"

text \<open>\<^verbatim>\<open>to_be_bytes\<close> of a \<^verbatim>\<open>u64\<close>, and the hashed key of a query.\<close>

definition be_bytes :: "nat \<Rightarrow> nat list" where
  "be_bytes n = map (\<lambda>k. n div 256 ^ (7 - k) mod 256) [0..<8]"

fun generations_key :: "(nat \<Rightarrow> nat list option) \<Rightarrow> nat list \<Rightarrow> nat list option" where
  "generations_key generation [] = Some []"
| "generations_key generation (p # ps) =
     (let g = (case generation p of None \<Rightarrow> replicate 8 0 | Some g \<Rightarrow> g)
      in if length g \<noteq> 8 then None
         else map_option (\<lambda>k. be_bytes p @ g @ k) (generations_key generation ps))"

definition dictionary_key :: "(nat list \<Rightarrow> nat list) \<Rightarrow> (nat \<Rightarrow> nat list option) \<Rightarrow> nat \<Rightarrow> nat list \<Rightarrow> bool \<Rightarrow> nat list option" where
  "dictionary_key hash generation namespace partitions occurrences =
     map_option (\<lambda>k. hash (be_bytes namespace @ [if occurrences then 1 else 0] @ k)) (generations_key generation partitions)"

text \<open>
  The query of a dictionary without other callers between its two critical sections; \<open>keys\<close> are the
  committed keys of a partition.
\<close>

definition dictionary_for :: "(dictionary \<Rightarrow> nat) \<Rightarrow> nat \<Rightarrow> (nat list \<Rightarrow> nat list) \<Rightarrow> (nat \<Rightarrow> nat list option) \<Rightarrow> nat \<Rightarrow>
    (nat \<Rightarrow> key_term list) \<Rightarrow> nat list \<Rightarrow> bool \<Rightarrow> names_cache \<Rightarrow> names_error + dictionary option \<times> names_cache" where
  "dictionary_for size_of budget hash generation namespace keys partitions occurrences c =
     (case dictionary_key hash generation namespace partitions occurrences of
        None \<Rightarrow> Inr (None, c)
      | Some key \<Rightarrow> (case lru_get key c of
          (Some v, c) \<Rightarrow> Inr (v, c)
        | (None, c) \<Rightarrow>
            let limit = budget div 8
            in bindE (build size_of limit (map (\<lambda>p. (p, keys p)) partitions)) (\<lambda>v.
                 Inr (lru_insert key v (case v of None \<Rightarrow> 128 | Some d \<Rightarrow> size_of d) limit c))))"

end
