(* ===== verification/Names_Correct.thy ===== *)
theory Names_Correct
  imports Names "HOL-Library.Multiset" "HOL-Library.Code_Target_Nat"
begin

text \<open>
  A dictionary that is built lists every term of its partitions once, in order, each with exactly
  the partitions that have it; and the cache is charged what its entries cost, within its limit.
\<close>

section \<open>The merge\<close>

function merged :: "key_term list list \<Rightarrow> (key_term \<times> nat) list \<Rightarrow> (key_term \<times> nat) list" where
  "merged cursors heap = (case heap of [] \<Rightarrow> []
     | (t, i) # heap \<Rightarrow> if i < length cursors
         then (t, i) # (case push_next i cursors heap of (cursors, heap) \<Rightarrow> merged cursors heap) else [])"
  by pat_completeness auto
termination
  by (relation "measure (\<lambda>x. sum_list (map length (fst x)) + length (snd x))")
    (auto simp: push_next_size [OF surjective_pairing] simp del: push_next.simps)

declare merged.simps [simp del]

fun add_terms :: "(dictionary \<Rightarrow> nat) \<Rightarrow> nat \<Rightarrow> (key_term \<times> nat) list \<Rightarrow> key_term option \<Rightarrow> dictionary \<Rightarrow> built" where
  "add_terms size_of limit [] previous d = Inr (Some d)"
| "add_terms size_of limit (e # es) previous d = bindE (add_term size_of limit e previous d) (\<lambda>r. case r of
     None \<Rightarrow> Inr None | Some d \<Rightarrow> add_terms size_of limit es (Some (fst e)) d)"

lemma build_loop_merged:
  "\<forall>e \<in> set heap. snd e < length cursors \<Longrightarrow>
    build_loop size_of limit cursors heap previous d = add_terms size_of limit (merged cursors heap) previous d"
proof (induction size_of limit cursors heap previous d rule: build_loop.induct)
  case (1 size_of limit cursors heap previous d)
  show ?case
  proof (cases heap)
    case Nil
    then show ?thesis by (subst build_loop.simps, subst merged.simps) simp
  next
    case (Cons e rest)
    obtain t i where e: "e = (t, i)" by (cases e)
    note Cons = Cons [unfolded e]
    have i: "i < length cursors" using 1(2) Cons by simp
    obtain cursors' heap' where p: "push_next i cursors rest = (cursors', heap')" by (cases "push_next i cursors rest")
    have range: "\<forall>e \<in> set heap'. snd e < length cursors'"
      using p 1(2) Cons i by (fastforce split: list.splits simp: set_insort_key)
    have m: "merged cursors heap = (t, i) # merged cursors' heap'"
      using Cons i p by (subst merged.simps) simp
    have "build_loop size_of limit cursors' heap' (Some t) d1 = add_terms size_of limit (merged cursors' heap') (Some t) d1"
      if "add_term size_of limit (t, i) previous d = Inr (Some d1)" for d1
      by (rule 1(1) [OF Cons refl that refl i p [symmetric] range])
    then show ?thesis unfolding m using Cons i p
      by (subst build_loop.simps) (auto simp: bindE_def split: sum.splits option.splits)
  qed
qed

text \<open>The heap holds, for every partition with terms left, one term before them.\<close>

definition heap_ok :: "key_term list list \<Rightarrow> (key_term \<times> nat) list \<Rightarrow> bool" where
  "heap_ok cursors heap \<longleftrightarrow> sorted heap \<and> distinct (map snd heap) \<and> (\<forall>e \<in> set heap. snd e < length cursors) \<and>
     (\<forall>i<length cursors. sorted_wrt (<) (cursors ! i) \<and>
        (\<forall>t \<in> set (cursors ! i). \<exists>u. (u, i) \<in> set heap \<and> u < t))"

definition remaining :: "key_term list list \<Rightarrow> (key_term \<times> nat) list \<Rightarrow> (key_term \<times> nat) set" where
  "remaining cursors heap = set heap \<union> {(t, i). i < length cursors \<and> t \<in> set (cursors ! i)}"

lemma heap_min: "heap_ok cursors (e # heap) \<Longrightarrow> x \<in> remaining cursors (e # heap) \<Longrightarrow> x \<noteq> e \<Longrightarrow> e < x"
proof -
  assume ok: "heap_ok cursors (e # heap)" and x: "x \<in> remaining cursors (e # heap)" "x \<noteq> e"
  have le: "e \<le> y" if "y \<in> set (e # heap)" for y using ok that by (auto simp: heap_ok_def)
  show "e < x"
  proof (cases "x \<in> set (e # heap)")
    case True
    with le x(2) show ?thesis by (simp add: order.strict_iff_order)
  next
    case False
    obtain t i where xi: "x = (t, i)" by (cases x)
    with x False have "i < length cursors" "t \<in> set (cursors ! i)" by (auto simp: remaining_def)
    moreover have "\<forall>i<length cursors. \<forall>t \<in> set (cursors ! i). \<exists>u. (u, i) \<in> set (e # heap) \<and> u < t"
      using ok unfolding heap_ok_def by blast
    ultimately obtain u where u: "(u, i) \<in> set (e # heap)" "u < t" by blast
    then have "(u, i) < x" using xi by (simp add: less_prod_def)
    with le [OF u(1)] show ?thesis by simp
  qed
qed

lemma push_next_ok:
  assumes "heap_ok cursors ((t, i) # heap)" "push_next i cursors heap = (cursors', heap')"
  shows "heap_ok cursors' heap' \<and> remaining cursors' heap' = remaining cursors ((t, i) # heap) - {(t, i)} \<and>
    length cursors' = length cursors"
proof -
  note v = assms(1) [unfolded heap_ok_def]
  have i: "i < length cursors" using v by simp
  have fresh: "(u, i) \<notin> set heap" for u using v by force
  have notin: "t \<notin> set (cursors ! i)" using v i fresh by fastforce
  show ?thesis
  proof (cases "cursors ! i")
    case Nil
    with assms(2) have eq: "cursors' = cursors" "heap' = heap" by auto
    have "heap_ok cursors heap"
      using v Nil unfolding heap_ok_def by (auto) (metis empty_iff list.set(1))
    moreover have "remaining cursors heap = remaining cursors ((t, i) # heap) - {(t, i)}"
      using fresh notin by (auto simp: remaining_def)
    ultimately show ?thesis using eq by simp
  next
    case (Cons u us)
    with assms(2) have eq: "cursors' = cursors[i := us]" "heap' = insort (u, i) heap" by auto
    have us: "sorted_wrt (<) (u # us)" using v i Cons by metis
    have other: "\<forall>x \<in> set (cursors ! j). \<exists>w. (w, j) \<in> set heap \<and> w < x" if "j < length cursors" "j \<noteq> i" for j
      using v that by auto
    have "heap_ok cursors' heap'"
      unfolding heap_ok_def eq
    proof (intro conjI)
      show "sorted (insort (u, i) heap)" using v by (simp add: sorted_insort)
      have "mset (map snd (insort (u, i) heap)) = mset (map snd ((t, i) # heap))" by (simp only: mset_map mset_insort) simp
      then show "distinct (map snd (insort (u, i) heap))" using v mset_eq_imp_distinct_iff by blast
      show "\<forall>e \<in> set (insort (u, i) heap). snd e < length (cursors[i := us])" using v i by (auto simp: set_insort_key)
      show "\<forall>j<length (cursors[i := us]). sorted_wrt (<) (cursors[i := us] ! j) \<and>
          (\<forall>x \<in> set (cursors[i := us] ! j). \<exists>w. (w, j) \<in> set (insort (u, i) heap) \<and> w < x)"
      proof (intro allI impI)
        fix j assume "j < length (cursors[i := us])"
        then show "sorted_wrt (<) (cursors[i := us] ! j) \<and>
          (\<forall>x \<in> set (cursors[i := us] ! j). \<exists>w. (w, j) \<in> set (insort (u, i) heap) \<and> w < x)"
          using us other v by (cases "j = i") (auto simp: set_insort_key)
      qed
    qed
    moreover have "remaining cursors' heap' = remaining cursors ((t, i) # heap) - {(t, i)}"
    proof -
      have "(x, j) \<in> remaining cursors' heap' \<longleftrightarrow> (x, j) \<in> remaining cursors ((t, i) # heap) - {(t, i)}" for x j
        using Cons i fresh notin unfolding eq
        by (cases "j = i") (auto simp: remaining_def set_insort_key nth_list_update)
      then show ?thesis by auto
    qed
    ultimately show ?thesis using eq by simp
  qed
qed

lemma merged_sorted:
  "heap_ok cursors heap \<Longrightarrow> sorted_wrt (<) (merged cursors heap) \<and> set (merged cursors heap) = remaining cursors heap"
proof (induction cursors heap rule: merged.induct)
  case (1 cursors heap)
  show ?case
  proof (cases heap)
    case Nil
    with 1(2) show ?thesis by (auto simp: merged.simps [of cursors "[]"] remaining_def heap_ok_def)
  next
    case (Cons e rest)
    obtain t i where e: "e = (t, i)" by (cases e)
    note Cons = Cons [unfolded e]
    have i: "i < length cursors" using 1(2) Cons by (simp add: heap_ok_def)
    obtain cursors' heap' where p: "push_next i cursors rest = (cursors', heap')" by (cases "push_next i cursors rest")
    have m: "merged cursors heap = (t, i) # merged cursors' heap'"
      using Cons i p by (subst merged.simps) simp
    note ok = push_next_ok [OF 1(2) [unfolded Cons] p]
    have IH: "sorted_wrt (<) (merged cursors' heap') \<and> set (merged cursors' heap') = remaining cursors' heap'"
      by (rule 1(1) [OF Cons refl i p [symmetric]]) (use ok in simp)
    have "(t, i) < x" if "x \<in> remaining cursors' heap'" for x
      using heap_min [OF 1(2) [unfolded Cons], of x] that ok by auto
    moreover have "(t, i) \<in> remaining cursors heap" using Cons by (simp add: remaining_def)
    ultimately show ?thesis unfolding m using IH ok Cons by auto
  qed
qed

section \<open>The packed form\<close>

fun ends_from :: "nat \<Rightarrow> 'a list list \<Rightarrow> nat list" where
  "ends_from n [] = []"
| "ends_from n (x # xs) = (n + length x) # ends_from (n + length x) xs"

lemma ends_from_snoc: "ends_from n (xs @ [x]) = ends_from n xs @ [n + length (concat xs) + length x]"
  by (induction xs arbitrary: n) (auto simp: add.assoc)

lemma length_ends_from [simp]: "length (ends_from n xs) = length xs"
  by (induction xs arbitrary: n) auto

definition packs :: "dictionary \<Rightarrow> (key_term \<times> nat list) list \<Rightarrow> bool" where
  "packs d gs \<longleftrightarrow> dc_text d = concat (map fst gs) \<and> dc_postings d = concat (map snd gs) \<and>
     dc_term_ends d = ends_from 0 (map fst gs) \<and> dc_posting_ends d = ends_from 0 (map snd gs)"

lemma slice_append_left: "slice (xs @ ys @ zs) (length xs, length xs + length ys) = ys"
  by (simp add: slice_def)

lemma terms_from_packs:
  "dc_text d = ts @ concat (map fst gs) \<Longrightarrow> dc_postings d = ps @ concat (map snd gs) \<Longrightarrow>
    terms_from d (length ts) (length ps) (zip (ends_from (length ts) (map fst gs)) (ends_from (length ps) (map snd gs))) = gs"
proof (induction gs arbitrary: ts ps)
  case (Cons g gs)
  from Cons.IH [of "ts @ fst g" "ps @ snd g"] Cons.prems show ?case
    by (cases g) (simp add: slice_append_left)
qed simp

lemma terms_packs: "packs d gs \<Longrightarrow> terms d = gs"
  using terms_from_packs [of d "[]" gs "[]"] by (simp add: packs_def terms_def)

text \<open>Grouping a sequence of pairs by term, as the loop does.\<close>

definition group_add :: "(key_term \<times> nat list) list \<Rightarrow> key_term \<times> nat \<Rightarrow> (key_term \<times> nat list) list" where
  "group_add gs e = (if gs \<noteq> [] \<and> fst (last gs) = fst e then butlast gs @ [(fst e, snd (last gs) @ [snd e])]
     else gs @ [(fst e, [snd e])])"

definition last_term :: "(key_term \<times> nat list) list \<Rightarrow> key_term option" where
  "last_term gs = (if gs = [] then None else Some (fst (last gs)))"

lemma add_term_packs:
  assumes "packs d gs" "snd e < 2 ^ 32" "add_term size_of limit e (last_term gs) d = Inr (Some d')"
  shows "packs d' (group_add gs e)" "last_term (group_add gs e) = Some (fst e)" "dc_partitions d' = dc_partitions d"
    "size_of d' \<le> limit"
proof -
  obtain t i where e: "e = (t, i)" by (cases e)
  have i: "i mod 2 ^ 32 = i" using assms(2) e by simp
  note p = assms(1) [unfolded packs_def]
  show "size_of d' \<le> limit" using assms(3) e by (auto simp: add_term_def split: if_splits option.splits)
  show "last_term (group_add gs e) = Some (fst e)" by (auto simp: last_term_def group_add_def)
  have "packs d' (group_add gs e) \<and> dc_partitions d' = dc_partitions d"
  proof (cases "last_term gs = Some t")
    case True
    then obtain gs' js where gs: "gs = gs' @ [(t, js)]"
      by (cases gs rule: rev_cases) (auto simp: last_term_def)
    from assms(3) e True have "add_posting i d = Inr d'"
      by (auto simp: add_term_def split: if_splits)
    with p i show ?thesis unfolding gs e
      by (auto simp: add_posting_def Let_def packs_def group_add_def ends_from_snoc)
  next
    case False
    then have other: "\<not> (gs \<noteq> [] \<and> fst (last gs) = t)" by (auto simp: last_term_def)
    from assms(3) e False obtain d1 where "start_term t d = Some d1" "add_posting i d1 = Inr d'"
      by (auto simp: add_term_def split: if_splits option.splits)
    with p i other show ?thesis unfolding e
      by (auto simp: start_term_def add_posting_def Let_def packs_def group_add_def ends_from_snoc split: if_splits)
  qed
  then show "packs d' (group_add gs e)" "dc_partitions d' = dc_partitions d" by auto
qed

lemma add_terms_packs:
  "packs d gs \<Longrightarrow> \<forall>e \<in> set es. snd e < 2 ^ 32 \<Longrightarrow> add_terms size_of limit es (last_term gs) d = Inr (Some d') \<Longrightarrow>
    packs d' (foldl group_add gs es) \<and> dc_partitions d' = dc_partitions d \<and> (es \<noteq> [] \<longrightarrow> size_of d' \<le> limit)"
proof (induction es arbitrary: d gs)
  case (Cons e es)
  from Cons.prems(3) obtain d1 where d1: "add_term size_of limit e (last_term gs) d = Inr (Some d1)"
    "add_terms size_of limit es (Some (fst e)) d1 = Inr (Some d')"
    by (auto split: option.splits)
  have e: "snd e < 2 ^ 32" using Cons.prems(2) by simp
  note a = add_term_packs [OF Cons.prems(1) e d1(1)]
  from Cons.IH [OF a(1)] Cons.prems(2) d1(2) a show ?case by (cases es) auto
qed auto

lemma group_sorted:
  assumes "sorted (map fst es)"
  shows "foldl group_add [] es = map (\<lambda>t. (t, map snd (filter (\<lambda>e. fst e = t) es))) (remdups_adj (map fst es)) \<and>
    last_term (foldl group_add [] es) = (if es = [] then None else Some (fst (last es)))"
  using assms
proof (induction es rule: rev_induct)
  case (snoc e es)
  let ?g = "\<lambda>es t. (t, map snd (filter (\<lambda>e. fst e = t) es))"
  have IH: "foldl group_add [] es = map (?g es) (remdups_adj (map fst es))"
    "last_term (foldl group_add [] es) = (if es = [] then None else Some (fst (last es)))"
    using snoc.IH snoc.prems by (auto simp: sorted_append)
  show ?case
  proof (cases "es = []")
    case True
    then show ?thesis by (simp add: group_add_def last_term_def)
  next
    case False
    have all: "fst x \<le> fst e" if "x \<in> set es" for x using snoc.prems that by (auto simp: sorted_append)
    have last: "fst (last (foldl group_add [] es)) = fst (last es)" "foldl group_add [] es \<noteq> []"
      using IH(2) False by (auto simp: last_term_def split: if_splits)
    let ?r = "remdups_adj (map fst es)"
    have r: "?r \<noteq> []" "last ?r = fst (last es)" using False by (simp_all add: last_map)
    have dist: "distinct ?r" using snoc.prems by (simp add: sorted_append distinct_remdups_adj_sorted)
    show ?thesis
    proof (cases "fst (last es) = fst e")
      case True
      obtain r' where r': "?r = r' @ [fst e]" using r True by (metis append_butlast_last_id)
      have ne: "t \<noteq> fst e" if "t \<in> set r'" for t using dist that r' by auto
      have r2: "remdups_adj (map fst (es @ [e])) = r' @ [fst e]" using True False r' by (simp add: remdups_adj_snoc last_map)
      have G: "foldl group_add [] es = map (?g es) r' @ [?g es (fst e)]" using IH(1) r' by simp
      have "foldl group_add [] (es @ [e]) = map (?g es) r' @ [(fst e, snd (?g es (fst e)) @ [snd e])]"
        unfolding foldl_append G by (simp add: group_add_def)
      also have "\<dots> = map (?g (es @ [e])) (r' @ [fst e])" using ne by auto
      finally show ?thesis unfolding r2 by (simp add: last_term_def)
    next
      case new: False
      have fresh: "fst e \<notin> set (map fst es)"
      proof
        assume "fst e \<in> set (map fst es)"
        then obtain x where "x \<in> set es" "fst x = fst e" by auto
        moreover have "fst x \<le> fst (last es)" if "x \<in> set es" for x
          using snoc.prems that False by (cases es rule: rev_cases) (auto simp: sorted_append)
        moreover have "fst (last es) \<le> fst e" using all False by simp
        ultimately show False using new by (metis antisym)
      qed
      then have none: "filter (\<lambda>x. fst x = fst e) es = []" by (intro filter_False) (metis image_eqI set_map)
      have r2: "remdups_adj (map fst (es @ [e])) = ?r @ [fst e]"
        using new False by (simp add: remdups_adj_snoc last_map)
      have ne: "fst e \<noteq> t" if "t \<in> set ?r" for t using fresh that by auto
      have "foldl group_add [] (es @ [e]) = foldl group_add [] es @ [(fst e, [snd e])]"
        using last new by (simp add: group_add_def)
      also have "\<dots> = map (?g (es @ [e])) (?r @ [fst e])" using ne none unfolding IH(1) by auto
      finally show ?thesis unfolding r2 by (simp add: last_term_def)
    qed
  qed
qed (simp add: last_term_def)

section \<open>The dictionary\<close>

lemma fill_heap_shape:
  "fill_heap k cs = (cursors, heap) \<Longrightarrow> cursors = map tl cs \<and> sorted heap \<and> distinct (map snd heap) \<and>
    (\<forall>t i. (t, i) \<in> set heap \<longleftrightarrow> k \<le> i \<and> i < k + length cs \<and> cs ! (i - k) \<noteq> [] \<and> t = hd (cs ! (i - k)))"
proof (induction k cs arbitrary: cursors heap rule: fill_heap.induct)
  case (2 k c cs)
  obtain cursors1 heap1 where f: "fill_heap (k + 1) cs = (cursors1, heap1)" by (cases "fill_heap (k + 1) cs")
  note IH = 2(1) [OF f]
  have later: "(u, i) \<in> set heap1 \<Longrightarrow> k < i" for u i using IH by force
  have at: "cs ! (i - Suc k) = (c # cs) ! (i - k)" if "k < i" for i
    using that by (simp add: nth_Cons' Suc_diff_Suc)
  show ?case
  proof (cases c)
    case Nil
    with 2(2) f have eq: "cursors = [] # cursors1" "heap = heap1" by auto
    have "(u, i) \<in> set heap \<longleftrightarrow> k \<le> i \<and> i < k + length (c # cs) \<and> (c # cs) ! (i - k) \<noteq> [] \<and> u = hd ((c # cs) ! (i - k))" for u i
      using IH Nil at later unfolding eq by (cases "i = k") (auto simp: Suc_le_eq)
    then show ?thesis using IH Nil by (auto simp: eq)
  next
    case (Cons t ts)
    with 2(2) f have eq: "cursors = ts # cursors1" "heap = insort (t, k) heap1" by auto
    have "mset (map snd (insort (t, k) heap1)) = mset (k # map snd heap1)" by (simp only: mset_map mset_insort) simp
    moreover have "distinct (k # map snd heap1)" using IH later by force
    ultimately have "distinct (map snd heap)" unfolding eq using mset_eq_imp_distinct_iff by blast
    moreover have "(u, i) \<in> set heap \<longleftrightarrow> k \<le> i \<and> i < k + length (c # cs) \<and> (c # cs) ! (i - k) \<noteq> [] \<and> u = hd ((c # cs) ! (i - k))" for u i
      using IH Cons at unfolding eq by (cases "i = k") (auto simp: set_insort_key Suc_le_eq)
    ultimately show ?thesis using IH Cons by (auto simp: eq sorted_insort)
  qed
qed simp

lemma fill_heap_ok:
  assumes "\<forall>c \<in> set cs. sorted_wrt (<) c" "fill_heap 0 cs = (cursors, heap)"
  shows "heap_ok cursors heap" "remaining cursors heap = {(t, i). i < length cs \<and> t \<in> set (cs ! i)}"
proof -
  note f = fill_heap_shape [OF assms(2)]
  have split: "cs ! i = [] \<or> (cs ! i = hd (cs ! i) # tl (cs ! i) \<and> sorted_wrt (<) (hd (cs ! i) # tl (cs ! i)))" if "i < length cs" for i
  proof -
    have "sorted_wrt (<) (cs ! i)" using assms(1) that nth_mem by blast
    then show ?thesis by (cases "cs ! i") auto
  qed
  have "sorted_wrt (<) (cursors ! i) \<and> (\<forall>t \<in> set (cursors ! i). \<exists>u. (u, i) \<in> set heap \<and> u < t)" if "i < length cursors" for i
    using f split [of i] that by auto
  then show "heap_ok cursors heap" using f by (auto simp: heap_ok_def)
  have "(t, i) \<in> remaining cursors heap \<longleftrightarrow> i < length cs \<and> t \<in> set (cs ! i)" for t i
  proof (cases "i < length cs \<and> cs ! i \<noteq> []")
    case True
    then obtain u us where "cs ! i = u # us" by (cases "cs ! i") auto
    with True f show ?thesis by (auto simp: remaining_def)
  next
    case False
    with f show ?thesis by (auto simp: remaining_def)
  qed
  then show "remaining cursors heap = {(t, i). i < length cs \<and> t \<in> set (cs ! i)}" by auto
qed

text \<open>
  C14: a dictionary that is built lists every term of the given partitions exactly once and in order,
  each with exactly the partitions that have it, in order, and stays within the limit.
\<close>

theorem build_terms:
  assumes "build size_of limit partitions = Inr (Some d)" "list_all (\<lambda>p. sorted_wrt (<) (snd p)) partitions"
  shows "terms d = map (\<lambda>t. (t, filter (\<lambda>i. t \<in> set (snd (partitions ! i))) [0..<length partitions]))
      (sorted_list_of_set (\<Union>p \<in> set partitions. set (snd p))) \<and>
    dc_partitions d = map fst partitions \<and> (terms d \<noteq> [] \<longrightarrow> size_of d \<le> limit)"
proof -
  let ?cs = "map snd partitions"
  let ?d = "\<lparr>dc_text = [], dc_term_ends = [], dc_partitions = map fst partitions, dc_posting_ends = [], dc_postings = []\<rparr>"
  obtain cursors heap where f: "fill_heap 0 ?cs = (cursors, heap)" by (cases "fill_heap 0 ?cs")
  have sorted: "\<forall>c \<in> set ?cs. sorted_wrt (<) c" using assms(2) by (simp add: list_all_iff)
  note ok = fill_heap_ok [OF sorted f]
  let ?P = "merged cursors heap"
  have P: "sorted_wrt (<) ?P" "set ?P = {(t, i). i < length partitions \<and> t \<in> set (snd (partitions ! i))}"
    using merged_sorted [OF ok(1)] ok(2) by (auto simp: set_eq_iff)
  have small: "length partitions \<le> u32_limit" using assms(1) by (auto simp: build_def split: if_splits)
  have run: "add_terms size_of limit ?P None ?d = Inr (Some d)"
    using assms(1) f build_loop_merged [of heap cursors] ok(1) by (auto simp: build_def heap_ok_def split: if_splits)
  have "\<forall>e \<in> set ?P. snd e < 2 ^ 32" using P(2) small by (auto simp: u32_limit_def)
  moreover have "packs ?d []" by (simp add: packs_def)
  ultimately have d: "packs d (foldl group_add [] ?P)" "dc_partitions d = map fst partitions" "?P \<noteq> [] \<longrightarrow> size_of d \<le> limit"
    using add_terms_packs [of ?d "[]" ?P size_of limit d] run by (auto simp: last_term_def)
  have fst_sorted: "sorted (map fst ?P)"
    unfolding sorted_map by (rule sorted_wrt_mono_rel [OF _ P(1)]) (auto simp: less_prod_def)
  let ?all = "\<Union>p \<in> set partitions. set (snd p)"
  have all: "?all = fst ` set ?P"
  proof (rule set_eqI)
    fix t
    have "t \<in> ?all \<longleftrightarrow> (\<exists>i<length partitions. t \<in> set (snd (partitions ! i)))"
      by (simp only: UN_iff Bex_def in_set_conv_nth) blast
    also have "\<dots> \<longleftrightarrow> t \<in> fst ` set ?P" unfolding P(2) by (auto simp: image_iff)
    finally show "t \<in> ?all \<longleftrightarrow> t \<in> fst ` set ?P" .
  qed
  have "remdups_adj (map fst ?P) = sorted_list_of_set (\<Union>p \<in> set partitions. set (snd p))"
  proof (rule sorted_distinct_set_unique)
    show "sorted (remdups_adj (map fst ?P))" using fst_sorted by simp
    show "distinct (remdups_adj (map fst ?P))" by (rule distinct_remdups_adj_sorted [OF fst_sorted])
    show "set (remdups_adj (map fst ?P)) = set (sorted_list_of_set (\<Union>p \<in> set partitions. set (snd p)))"
      using all by simp
  qed simp_all
  moreover have "map snd (filter (\<lambda>e. fst e = t) ?P) = filter (\<lambda>i. t \<in> set (snd (partitions ! i))) [0..<length partitions]" for t
  proof (rule strict_sorted_equal)
    have "sorted_wrt (<) (filter (\<lambda>e. fst e = t) ?P)" using P(1) by (rule sorted_wrt_filter)
    then show "sorted_wrt (<) (map snd (filter (\<lambda>e. fst e = t) ?P))"
      unfolding sorted_wrt_map by (rule sorted_wrt_mono_rel [rotated]) (auto simp: less_prod_def)
    show "sorted_wrt (<) (filter (\<lambda>i. t \<in> set (snd (partitions ! i))) [0..<length partitions])"
      by (rule sorted_wrt_filter) simp
    show "set (map snd (filter (\<lambda>e. fst e = t) ?P)) = set (filter (\<lambda>i. t \<in> set (snd (partitions ! i))) [0..<length partitions])"
      using P(2) by force
  qed
  ultimately have "foldl group_add [] ?P = map (\<lambda>t. (t, filter (\<lambda>i. t \<in> set (snd (partitions ! i))) [0..<length partitions]))
      (sorted_list_of_set (\<Union>p \<in> set partitions. set (snd p)))"
    using group_sorted [OF fst_sorted] by simp
  moreover have "terms d = foldl group_add [] ?P" by (rule terms_packs [OF d(1)])
  moreover have "?P \<noteq> []" if "terms d \<noteq> []" using that calculation(2) by auto
  ultimately show ?thesis using d by auto
qed


lemma build_terms_witness:
  "terms (the (case build (\<lambda>_. 0) 600 [(7, [[97, 98], [99]]), (9, [[97, 98]])] of Inr d \<Rightarrow> d | Inl _ \<Rightarrow> None))
     = [([97, 98], [0, 1]), ([99], [0])]"
proof -
  have b: "build (\<lambda>_. 0) 600 [(7, [[97, 98], [99]]), (9, [[97, 98]])] =
      Inr (Some \<lparr>dc_text = [97, 98, 99], dc_term_ends = [2, 3], dc_partitions = [7, 9], dc_posting_ends = [2, 3], dc_postings = [0, 1, 0]\<rparr>)"
    by code_simp
  have s: "(\<Union>p \<in> set [(7, [[97, 98], [99]]), (9, [[97, 98]])]. set (snd p)) = set [[97, 98], [99 :: nat]]" by auto
  have l: "sorted_list_of_set (set [[97, 98], [99 :: nat]]) = [[97, 98], [99]]" by (rule sorted_list_of_set.idem_if_sorted_distinct) simp_all
  have ap: "list_all (\<lambda>p. sorted_wrt (<) (snd p)) [(7, [[97, 98], [99 :: nat]]), (9, [[97, 98]])]" by simp
  have p: "map (\<lambda>t. (t, filter (\<lambda>i. t \<in> set (snd ([(7, [[97, 98], [99 :: nat]]), (9, [[97, 98]])] ! i))) [0..<length [(7, [[97, 98], [99]]), (9, [[97, 98]])]]))
      [[97, 98], [99]] = [([97, 98], [0, 1]), ([99], [0])]" by (simp add: upt_rec)
  show ?thesis using build_terms [OF b ap] unfolding b s l p by simp
qed


section \<open>The cache\<close>

text \<open>The charge is the sum of the entries', whose keys differ.\<close>

definition charged :: "names_cache \<Rightarrow> bool" where
  "charged c \<longleftrightarrow> distinct (map fst (nc_entries c)) \<and> nc_bytes c = sum_list (map (snd \<circ> snd) (nc_entries c))"

lemma sum_list_filter_key:
  "distinct (map fst xs) \<Longrightarrow> map_of xs k = Some (v, n :: nat) \<Longrightarrow>
    sum_list (map (snd \<circ> snd) xs) = n + sum_list (map (snd \<circ> snd) (filter (\<lambda>e. fst e \<noteq> k) xs))"
proof (induction xs)
  case (Cons x xs)
  show ?case
  proof (cases "fst x = k")
    case True
    then have "filter (\<lambda>e. fst e \<noteq> k) xs = xs" using Cons.prems(1) by (auto simp: filter_id_conv image_iff)
    then show ?thesis using True Cons.prems(2) by (cases x) (auto simp del: filter_id_conv)
  next
    case False
    then show ?thesis using Cons by (cases x) auto
  qed
qed simp

lemma lru_get_charged: "charged c \<Longrightarrow> charged (snd (lru_get key c))"
  using sum_list_filter_key [of "nc_entries c" key]
  by (auto simp: charged_def lru_get_def distinct_map inj_on_def split: option.splits)

lemma lru_get_bytes: "nc_bytes (snd (lru_get key c)) = nc_bytes c"
  by (simp add: lru_get_def split: option.splits)

lemma lru_get_miss: "fst (lru_get key c) = None \<longleftrightarrow> key \<notin> fst ` set (nc_entries c)"
proof (cases "map_of (nc_entries c) key")
  case None
  then show ?thesis by (simp add: lru_get_def flip: map_of_eq_None_iff)
next
  case (Some e)
  then have "key \<in> fst ` set (nc_entries c)" by (auto dest!: map_of_SomeD intro: rev_image_eqI)
  then show ?thesis using Some by (simp add: lru_get_def split: prod.splits)
qed

lemma make_room_charged:
  "charged c \<Longrightarrow> limit < u64_max \<Longrightarrow> charged (make_room need limit c) \<and>
    set (nc_entries (make_room need limit c)) \<subseteq> set (nc_entries c) \<and>
    (nc_bytes (make_room need limit c) + need \<le> limit \<or> nc_entries (make_room need limit c) = [])"
proof (induction need limit c rule: make_room.induct)
  case (1 need limit c)
  show ?case
  proof (cases "limit < saturating_add (nc_bytes c) need \<and> nc_entries c \<noteq> []")
    case True
    then obtain es e where es: "nc_entries c = es @ [e]" by (metis append_butlast_last_id)
    have "charged \<lparr>nc_entries = butlast (nc_entries c), nc_bytes = nc_bytes c - snd (snd (last (nc_entries c)))\<rparr>"
      using 1(2) es by (simp add: charged_def)
    note IH = 1(1) [OF conjunct1 [OF True] conjunct2 [OF True] this 1(3)]
    have "set (butlast (nc_entries c)) \<subseteq> set (nc_entries c)" by (auto dest: in_set_butlastD)
    with IH True show ?thesis by (subst (1 2 3 4) make_room.simps) auto
  next
    case False
    with 1(2,3) show ?thesis by (subst (1 2 3 4) make_room.simps) (auto simp: saturating_add_def min_def split: if_splits)
  qed
qed

text \<open>
  A query of a dictionary, whether it hits, builds or gives up, leaves the cache charged with
  exactly the sizes of its entries under different keys, and within an eighth of the budget unless
  the one entry left is larger by itself.
\<close>

lemma dictionary_cache_bounded:
  assumes "dictionary_for size_of budget hash generation namespace keys partitions occurrences c = Inr (v, c')"
    "charged c" "budget \<le> u64_max"
    "nc_bytes c \<le> budget div 8 \<or> length (nc_entries c) \<le> 1"
  shows "charged c' \<and> (nc_bytes c' \<le> budget div 8 \<or> length (nc_entries c') \<le> 1)"
proof (cases "dictionary_key hash generation namespace partitions occurrences")
  case None
  with assms show ?thesis by (auto simp: dictionary_for_def)
next
  case (Some key)
  obtain hit c1 where g: "lru_get key c = (hit, c1)" by (cases "lru_get key c")
  have c1: "charged c1" "nc_bytes c1 = nc_bytes c" "hit = None \<longleftrightarrow> key \<notin> fst ` set (nc_entries c)"
    using lru_get_charged [OF assms(2), of key] lru_get_bytes [of key c] lru_get_miss [of key c] g by auto
  show ?thesis
  proof (cases hit)
    case None
    then have e: "c1 = c" "key \<notin> fst ` set (nc_entries c)" "lru_get key c = (None, c)"
      using g c1(3) by (auto simp: lru_get_def split: option.splits)
    obtain w n where "lru_insert key w n (budget div 8) c = (v, c')"
      using assms(1) Some e by (auto simp: dictionary_for_def Let_def)
    then have c': "c' = \<lparr>nc_entries = (key, w, n) # nc_entries (make_room n (budget div 8) c),
        nc_bytes = nc_bytes (make_room n (budget div 8) c) + n\<rparr>"
      using e(3) by (auto simp: lru_insert_def Let_def)
    have "budget div 8 < u64_max" using assms(3) by (simp add: u64_max_def)
    note m = make_room_charged [OF assms(2) this, of n]
    have "key \<notin> fst ` set (nc_entries (make_room n (budget div 8) c))" using m e(2) by blast
    then show ?thesis using m c' by (auto simp: charged_def)
  next
    case (Some w)
    then have "c' = c1" using assms(1) \<open>dictionary_key _ _ _ _ _ = Some key\<close> g by (simp add: dictionary_for_def)
    moreover have "length (nc_entries c1) \<le> length (nc_entries c)"
    proof -
      have "distinct (map fst (nc_entries c1))" "distinct (map fst (nc_entries c))" using c1(1) assms(2) by (auto simp: charged_def)
      moreover have "fst ` set (nc_entries c1) \<subseteq> fst ` set (nc_entries c)"
        using g by (auto simp: lru_get_def image_iff split: option.splits dest!: map_of_SomeD)
      ultimately show ?thesis
        by (metis card_mono distinct_card finite_imageI finite_set length_map set_map)
    qed
    ultimately show ?thesis using c1 assms(4) by auto
  qed
qed

lemma dictionary_cache_bounded_witness:
  "\<exists>v c'. dictionary_for (\<lambda>_. 300) 8000 (\<lambda>k. k) (\<lambda>_. None) 1 (\<lambda>_. [[97]]) [7] False
      \<lparr>nc_entries = [([1], None, 900)], nc_bytes = 900\<rparr> = Inr (v, c') \<and>
    nc_bytes c' = 300 \<and> charged c' \<and> (nc_bytes c' \<le> 8000 div 8 \<or> length (nc_entries c') \<le> 1)"
proof -
  let ?c = "\<lparr>nc_entries = [([1], None, 900)], nc_bytes = 900\<rparr>"
  let ?r = "dictionary_for (\<lambda>_. 300) 8000 (\<lambda>k. k) (\<lambda>_. None) 1 (\<lambda>_. [[97]]) [7] False ?c"
  have "(case ?r of Inr (v, c) \<Rightarrow> nc_bytes c = 300 | Inl e \<Rightarrow> False)" by code_simp
  then obtain v c' where r: "?r = Inr (v, c')" "nc_bytes c' = 300" by (auto split: sum.splits)
  show ?thesis using dictionary_cache_bounded [OF r(1)] r by (auto simp: charged_def u64_max_def)
qed

end
