(* ===== verification/Unified_Correct.thy ===== *)
theory Unified_Correct
  imports Unified
begin

text \<open>
  The diff of two texts, read back by the conventions of the format, turns the one into the other.
  The library states how edits link two lists, what a hunk holds, and that the reader takes a
  written hunk apart again.
\<close>

section \<open>Linked lists\<close>

text \<open>From \<open>(x, y)\<close> to \<open>(X, Y)\<close> the lists agree outside the edits.\<close>

fun linked :: "'a list \<Rightarrow> 'a list \<Rightarrow> nat \<Rightarrow> nat \<Rightarrow> edit list \<Rightarrow> nat \<Rightarrow> nat \<Rightarrow> bool" where
  "linked a b x y [] X Y \<longleftrightarrow> x \<le> X \<and> y \<le> Y \<and> X \<le> length a \<and> Y \<le> length b \<and> X - x = Y - y \<and>
     slice a (x, X) = slice b (y, Y)"
| "linked a b x y (e # es) X Y \<longleftrightarrow> x \<le> fst (ed_old e) \<and> y \<le> fst (ed_new e) \<and>
     fst (ed_old e) \<le> snd (ed_old e) \<and> fst (ed_new e) \<le> snd (ed_new e) \<and>
     fst (ed_old e) - x = fst (ed_new e) - y \<and>
     slice a (x, fst (ed_old e)) = slice b (y, fst (ed_new e)) \<and>
     linked a b (snd (ed_old e)) (snd (ed_new e)) es X Y"

lemma linked_le: "linked a b x y es X Y \<Longrightarrow> x \<le> X \<and> y \<le> Y \<and> X \<le> length a \<and> Y \<le> length b"
  by (induction es arbitrary: x y) fastforce+

lemma slice_extend:
  "slice a (c, x) = slice b (d, y) \<Longrightarrow> c \<le> x \<Longrightarrow> d \<le> y \<Longrightarrow> x < length a \<Longrightarrow> y < length b \<Longrightarrow> a ! x = b ! y \<Longrightarrow>
    slice a (c, x + 1) = slice b (d, y + 1)"
  using slice_append_slice [of c x "x + 1" a] slice_append_slice [of d y "y + 1" b] by (simp add: slice_Suc)

lemma linked_edit_walk:
  assumes "ascending (ps @ [(length a, length b)])" "\<forall>(i, j)\<in>set ps. i < length a \<and> j < length b \<and> a ! i = b ! j"
    and "\<forall>(i, j)\<in>set (ps @ [(length a, length b)]). x \<le> i \<and> y \<le> j"
    and "c \<le> x" "d \<le> y" "x - c = y - d" "slice a (c, x) = slice b (d, y)"
  shows "linked a b c d (edit_walk x y (ps @ [(length a, length b)])) (length a) (length b)"
  using assms
proof (induction ps arbitrary: x y c d)
  case Nil
  then show ?case by auto
next
  case (Cons p ps)
  obtain i j where p: "p = (i, j)" by force
  from Cons.prems p have ij: "x \<le> i" "y \<le> j" "i < length a" "j < length b" "a ! i = b ! j" by auto
  have up: "ascending (ps @ [(length a, length b)])" "\<forall>(i, j)\<in>set ps. i < length a \<and> j < length b \<and> a ! i = b ! j"
    "\<forall>(i', j')\<in>set (ps @ [(length a, length b)]). i + 1 \<le> i' \<and> j + 1 \<le> j'"
    using Cons.prems(1,2) p by (auto simp: ascending_def)
  show ?case
  proof (cases "x < i \<or> y < j")
    case True
    have "linked a b i j (edit_walk (i + 1) (j + 1) (ps @ [(length a, length b)])) (length a) (length b)"
      by (rule Cons.IH [OF up]) (use ij in \<open>simp_all add: slice_Suc\<close>)
    then show ?thesis using True p ij Cons.prems(4-7) by simp
  next
    case False
    with ij have eq: "x = i" "y = j" by auto
    have "linked a b c d (edit_walk (i + 1) (j + 1) (ps @ [(length a, length b)])) (length a) (length b)"
      by (rule Cons.IH [OF up]) (use ij Cons.prems(4-7) eq slice_extend [of a c i b d j] in auto)
    then show ?thesis using False p by simp
  qed
qed

lemma linked_edits: "linked a b 0 0 (edits a b) (length a) (length b)"
proof -
  let ?ps = "aligned_pairs a b"
  have al: "ascending ?ps" "\<forall>(i, j)\<in>set ?ps. i < length a \<and> j < length b \<and> a ! i = b ! j"
    using aligned_pairs_alignment [of a b] by (auto simp: alignment_def)
  then have "ascending (?ps @ [(length a, length b)])"
    by (auto simp: ascending_def sorted_wrt_append)
  from linked_edit_walk [OF this al(2), of 0 0 0 0] show ?thesis by (simp add: edits_def)
qed

text \<open>Cutting the kept run before the next edit.\<close>

definition next_old :: "edit list \<Rightarrow> nat \<Rightarrow> nat" where
  "next_old es X = (case es of [] \<Rightarrow> X | e # _ \<Rightarrow> fst (ed_old e))"

lemma slice_prefix:
  assumes "slice a (x, X) = slice b (y, Y)" "x + k \<le> X" "y + k \<le> Y" "X \<le> length a" "Y \<le> length b" "X - x = Y - y"
  shows "slice a (x, x + k) = slice b (y, y + k)" "slice a (x + k, X) = slice b (y + k, Y)"
proof -
  have "slice a (x, x + k) @ slice a (x + k, X) = slice b (y, y + k) @ slice b (y + k, Y)"
    using assms slice_append_slice [of x "x + k" X a] slice_append_slice [of y "y + k" Y b] by simp
  moreover have "length (slice a (x, x + k)) = length (slice b (y, y + k))" using assms by simp
  ultimately show "slice a (x, x + k) = slice b (y, y + k)" "slice a (x + k, X) = slice b (y + k, Y)" by auto
qed

lemma linked_cut:
  assumes "linked a b x y es X Y" "k \<le> next_old es X - x"
  shows "linked a b x y [] (x + k) (y + k)" "linked a b (x + k) (y + k) es X Y"
proof -
  have "linked a b x y [] (x + k) (y + k) \<and> linked a b (x + k) (y + k) es X Y"
  proof (cases es)
    case Nil
    then show ?thesis using assms slice_prefix [of a x X b y Y k] by (auto simp: next_old_def)
  next
    case (Cons e es')
    have "snd (ed_old e) \<le> length a" "snd (ed_new e) \<le> length b"
      using linked_le [of a b "snd (ed_old e)" "snd (ed_new e)" es' X Y] assms(1) Cons by auto
    then show ?thesis
      using assms slice_prefix [of a x "fst (ed_old e)" b y "fst (ed_new e)" k] Cons by (auto simp: next_old_def)
  qed
  then show "linked a b x y [] (x + k) (y + k)" "linked a b (x + k) (y + k) es X Y" by auto
qed

lemma linked_append:
  assumes "linked a b x y (h @ r) X Y" "h \<noteq> []" "k \<le> next_old r X - snd (ed_old (last h))"
  shows "linked a b x y h (snd (ed_old (last h)) + k) (snd (ed_new (last h)) + k) \<and>
    linked a b (snd (ed_old (last h)) + k) (snd (ed_new (last h)) + k) r X Y"
  using assms
proof (induction h arbitrary: x y)
  case (Cons e h)
  show ?case
  proof (cases "h = []")
    case True
    then show ?thesis
      using Cons.prems linked_cut [of a b "snd (ed_old e)" "snd (ed_new e)" r X Y k] by simp
  next
    case False
    then show ?thesis using Cons by auto
  qed
qed simp

section \<open>The lines of a hunk\<close>

definition render_ops :: "(nat \<times> str) list \<Rightarrow> str" where
  "render_ops ops = concat (map (\<lambda>(c, t). diff_line c t) ops)"

lemma render_ops_append [simp]: "render_ops (xs @ ys) = render_ops xs @ render_ops ys"
  by (simp add: render_ops_def)

lemma render_ops_map [simp]: "render_ops (map (Pair c) ts) = concat (map (diff_line c) ts)"
  by (simp add: render_ops_def o_def)

fun hunk_ops :: "str list \<Rightarrow> str list \<Rightarrow> nat \<Rightarrow> edit list \<Rightarrow> nat \<Rightarrow> (nat \<times> str) list" where
  "hunk_ops a b x [] X = map (Pair 32) (slice a (x, X))"
| "hunk_ops a b x (e # es) X = map (Pair 32) (slice a (x, fst (ed_old e))) @ map (Pair 45) (slice a (ed_old e)) @
     map (Pair 43) (slice b (ed_new e)) @ hunk_ops a b (snd (ed_old e)) es X"

lemma hunk_edits_ops:
  "hunk_edits a b x es = (out, c) \<Longrightarrow> out @ concat (map (diff_line 32) (slice a (c, X))) = render_ops (hunk_ops a b x es X)"
  by (induction es arbitrary: x out) (auto split: prod.splits)

lemma sides [simp]:
  "old_side (xs @ ys) = old_side xs @ old_side ys" "new_side (xs @ ys) = new_side xs @ new_side ys"
  "old_side (map (Pair c) ts) = (if c = 43 then [] else ts)" "new_side (map (Pair c) ts) = (if c = 45 then [] else ts)"
  by (auto simp: old_side_def new_side_def filter_map o_def)

lemma slice_around:
  "x \<le> fst r \<Longrightarrow> fst r \<le> snd r \<Longrightarrow> snd r \<le> X \<Longrightarrow> X \<le> length a \<Longrightarrow>
    slice a (x, X) = slice a (x, fst r) @ slice a r @ slice a (snd r, X)"
  by (cases r) (simp add: slice_append_slice)

lemma hunk_ops_sides:
  "linked a b x y es X Y \<Longrightarrow> old_side (hunk_ops a b x es X) = slice a (x, X) \<and> new_side (hunk_ops a b x es X) = slice b (y, Y)"
proof (induction es arbitrary: x y)
  case (Cons e es)
  have le: "snd (ed_old e) \<le> X \<and> snd (ed_new e) \<le> Y \<and> X \<le> length a \<and> Y \<le> length b"
    using Cons.prems linked_le [of a b "snd (ed_old e)" "snd (ed_new e)" es X Y] by simp
  have "slice a (x, X) = slice a (x, fst (ed_old e)) @ slice a (ed_old e) @ slice a (snd (ed_old e), X)"
    by (rule slice_around) (use Cons.prems le in auto)
  moreover have "slice b (y, Y) = slice b (y, fst (ed_new e)) @ slice b (ed_new e) @ slice b (snd (ed_new e), Y)"
    by (rule slice_around) (use Cons.prems le in auto)
  ultimately show ?case using Cons.IH [of "snd (ed_old e)" "snd (ed_new e)"] Cons.prems by simp
qed auto

lemma set_slice: "set (slice xs r) \<subseteq> set xs"
  unfolding slice_def by (meson in_set_dropD in_set_takeD subsetI)

lemma hunk_ops_set:
  "p \<in> set (hunk_ops a b x es X) \<Longrightarrow> fst p \<in> {32, 43, 45} \<and> snd p \<in> set a \<union> set b"
  by (induction es arbitrary: x) (auto dest: subsetD [OF set_slice])

section \<open>Reading what was written\<close>

lemma ends_with_single: "ends_with t [c] \<longleftrightarrow> t \<noteq> [] \<and> last t = c"
  by (cases t rule: rev_cases) (auto simp: ends_with_def)

lemma line_shape:
  assumes "line_ok t"
  obtains "ends_with t [10]" "10 \<notin> set (butlast t)" "t = butlast t @ [10]" | "\<not> ends_with t [10]" "10 \<notin> set t"
  using assms by (cases t rule: rev_cases) (auto simp: line_ok_def ends_with_single)

lemma split_no_newline: "split_inclusive (no_newline @ rest) = no_newline # split_inclusive rest"
  unfolding no_newline_def
  using split_inclusive_line [of "92 # lit '' No newline at end of file''" rest] by (simp add: lit_def)

lemma split_diff_line:
  assumes "line_ok t" "c \<noteq> 10"
  shows "split_inclusive (diff_line c t @ rest) =
    (if ends_with t [10] then (c # t) # split_inclusive rest else (c # t @ [10]) # no_newline # split_inclusive rest)"
  using assms(1)
proof (cases rule: line_shape)
  case 1
  then show ?thesis using split_inclusive_line [of "c # butlast t" rest] assms(2)
    by (auto simp: diff_line_def) (metis append.assoc append_Cons append_Nil)
next
  case 2
  then show ?thesis using split_inclusive_line [of "c # t" "no_newline @ rest"] assms(2)
    by (simp add: diff_line_def split_no_newline)
qed

lemma split_inclusive_head: "s \<noteq> [] \<Longrightarrow> \<exists>l ls. split_inclusive s = l # ls \<and> l \<noteq> [] \<and> hd l = hd s"
  by (cases s) (auto split: list.splits)

lemma render_ops_Cons: "render_ops ((c, t) # ops) = diff_line c t @ render_ops ops"
  by (simp add: render_ops_def)

lemma read_rendered:
  assumes "\<forall>p \<in> set ops. fst p \<in> {32, 43, 45} \<and> line_ok (snd p)" "rest = [] \<or> hd rest = 64"
  shows "read_lines (split_inclusive (render_ops ops @ rest)) = (ops, split_inclusive rest)"
  using assms(1)
proof (induction ops)
  case Nil
  show ?case
  proof (cases "rest = []")
    case True
    then show ?thesis by (simp add: render_ops_def)
  next
    case False
    then obtain l ls where "split_inclusive rest = l # ls" "l \<noteq> []" "hd l = 64"
      using split_inclusive_head [of rest] assms(2) by auto
    then show ?thesis by (cases ls) (auto simp: render_ops_def tagged_def)
  qed
next
  case (Cons p ops)
  obtain c t where p: "p = (c, t)" by (cases p)
  with Cons.prems have c: "c = 32 \<or> c = 43 \<or> c = 45" and t: "line_ok t" by auto
  let ?more = "render_ops ops @ rest"
  have IH: "read_lines (split_inclusive ?more) = (ops, split_inclusive rest)" using Cons by simp
  show ?case
  proof (cases "ends_with t [10]")
    case True
    have s: "split_inclusive (render_ops (p # ops) @ rest) = (c # t) # split_inclusive ?more"
      using split_diff_line [OF t, of c ?more] True c by (auto simp: p render_ops_Cons)
    show ?thesis
    proof (cases "?more = []")
      case True
      then have e: "ops = []" "rest = []" by (cases ops, auto simp: render_ops_def diff_line_def)+
      then show ?thesis using s c by (auto simp: p tagged_def render_ops_def)
    next
      case False
      then obtain l ls where l: "split_inclusive ?more = l # ls" "l \<noteq> []" "hd l = hd ?more"
        using split_inclusive_head by blast
      have "hd ?more \<noteq> 92"
      proof (cases ops)
        case Nil
        then show ?thesis using False assms(2) by (auto simp: render_ops_def)
      next
        case (Cons q qs)
        then show ?thesis using Cons.prems \<open>\<forall>p \<in> set (p # ops). _\<close> by (cases q) (auto simp: render_ops_Cons diff_line_def)
      qed
      then have "l \<noteq> no_newline" using l by (auto simp: no_newline_def)
      then show ?thesis using s l IH c by (auto simp: p tagged_def)
    qed
  next
    case False
    have "split_inclusive (render_ops (p # ops) @ rest) = (c # t @ [10]) # no_newline # split_inclusive ?more"
      using split_diff_line [OF t, of c ?more] False c by (auto simp: p render_ops_Cons)
    then show ?thesis using IH c by (auto simp: p tagged_def)
  qed
qed

section \<open>Headers\<close>

lemma display_nat_free: "c < 48 \<Longrightarrow> c \<notin> set (display_nat n)"
  using display_nat_digits [of n] by (auto simp: list_all_iff is_digit_def)

lemma show_range_free: "c < 48 \<Longrightarrow> c \<noteq> 44 \<Longrightarrow> c \<notin> set (show_range s l)"
  by (auto simp: show_range_def lit_def display_nat_free)

lemma read_range_show: "1 \<le> s \<Longrightarrow> read_range (show_range s l) = Some (s, l)"
proof -
  have "split_on 44 (display_nat n @ 44 # display_nat l) = [display_nat n, display_nat l]" for n
    by (subst split_on_append) (simp_all add: display_nat_free split_on_plain)
  moreover have "split_on 44 (display_nat s) = [display_nat s]" by (rule split_on_plain) (simp add: display_nat_free)
  ultimately show "1 \<le> s \<Longrightarrow> ?thesis" by (simp add: show_range_def read_range_def display_nat_value lit_def)
qed

definition header_words :: "nat \<Rightarrow> nat \<Rightarrow> range \<Rightarrow> range \<Rightarrow> str list" where
  "header_words old_start new_start ar br =
     [lit ''@@'', 45 # show_range (old_start + fst ar) (range_len ar), 43 # show_range (new_start + fst br) (range_len br), lit ''@@'' @ [10]]"

lemma hunk_header_words: "hunk_header old_start new_start ar br = join [32] (header_words old_start new_start ar br)"
  by (simp add: hunk_header_def header_words_def lit_def)

lemma read_header_show:
  assumes "1 \<le> old_start" "1 \<le> new_start"
  shows "read_header (hunk_header old_start new_start ar br) = Some ((old_start + fst ar, range_len ar), (new_start + fst br, range_len br))"
proof -
  have "split_on 32 (hunk_header old_start new_start ar br) = header_words old_start new_start ar br"
    unfolding hunk_header_words
    by (rule split_on_join) (auto simp: header_words_def lit_def show_range_free)
  then show ?thesis using assms by (simp add: read_header_def header_words_def read_range_show lit_def)
qed

lemma split_hunk_header:
  "split_inclusive (hunk_header old_start new_start ar br @ rest) = hunk_header old_start new_start ar br # split_inclusive rest"
proof -
  let ?h = "lit ''@@ -'' @ show_range (old_start + fst ar) (range_len ar) @ lit '' +'' @
     show_range (new_start + fst br) (range_len br) @ lit '' @@''"
  have "10 \<notin> set ?h" by (simp add: lit_def show_range_free)
  from split_inclusive_line [OF this, of rest] show ?thesis by (simp add: hunk_header_def)
qed

section \<open>The whole diff\<close>

lemma hunk_split_gap:
  "hunk_split es = (h, r) \<Longrightarrow> r \<noteq> [] \<Longrightarrow> 6 < next_old r X - snd (ed_old (last h))"
proof (induction es arbitrary: h r rule: hunk_split.induct)
  case (3 e f es)
  show ?case
  proof (cases "fst (ed_old f) - snd (ed_old e) \<le> 6")
    case True
    obtain h' r' where s: "hunk_split (f # es) = (h', r')" by force
    have "h' \<noteq> []" using hunk_split_ne [OF s] by simp
    then show ?thesis using 3 True s by auto
  next
    case False
    then show ?thesis using 3 by (auto simp: next_old_def)
  qed
qed auto

lemma linked_next:
  "linked a b x y es X Y \<Longrightarrow> es \<noteq> [] \<Longrightarrow> x \<le> fst (ed_old (hd es)) \<and> y \<le> fst (ed_new (hd es)) \<and>
    fst (ed_old (hd es)) - x = fst (ed_new (hd es)) - y"
  by (cases es) auto

text \<open>The hunk's context on both sides stays clear of what was written and what comes after.\<close>

lemma hunk_context:
  assumes "linked a b x y es (length a) (length b)" "es \<noteq> []" "hunk_split es = (h, r)"
    and "x = 0 \<and> y = 0 \<or> 3 \<le> fst (ed_old (hd es)) - x"
    and "hunk_ranges a b h = ((p, q), (p', q'))"
  shows "linked a b x y [] p p'" "linked a b p p' h q q'" "linked a b q q' r (length a) (length b)"
    "r = [] \<or> 3 \<le> fst (ed_old (hd r)) - q"
proof -
  let ?o = "fst (ed_old (hd es))" and ?n = "fst (ed_new (hd es))"
  let ?lead = "min (min ?o ?n) 3"
  let ?eo = "snd (ed_old (last h))" and ?en = "snd (ed_new (last h))"
  let ?trail = "min (min (length a - ?eo) (length b - ?en)) 3"
  have es: "es = h @ r" "h \<noteq> []" using hunk_split_append hunk_split_ne assms by blast+
  then have hd: "hd h = hd es" by simp
  note first = linked_next [OF assms(1,2)]
  have pq: "p = ?o - ?lead" "q = ?eo + ?trail" "p' = ?n - ?lead" "q' = ?en + ?trail"
    using assms(5) hd by (auto simp: hunk_ranges_def Let_def)
  have lead: "?lead \<le> ?o - x" using assms(4) first by auto
  have shift: "n - l = y + (m - l)" if "m = n - y" "y \<le> n" "l \<le> m" for n m l y :: nat using that by simp
  have p: "p = x + (?o - x - ?lead)" unfolding pq(1) by (rule shift) (use first lead in blast)+
  have p': "p' = y + (?o - x - ?lead)" unfolding pq(3) by (rule shift) (use first lead in blast)+
  have "?o - x - ?lead \<le> next_old es (length a) - x" using assms(2) by (cases es) (auto simp: next_old_def)
  from linked_cut [OF assms(1) this] have 1: "linked a b x y [] p p'" "linked a b p p' (h @ r) (length a) (length b)"
    unfolding p p' es by simp_all
  have trail: "?trail \<le> next_old r (length a) - ?eo"
  proof (cases "r = []")
    case True
    then show ?thesis by (simp add: next_old_def)
  next
    case False
    from hunk_split_gap [OF assms(3) False, of "length a"] show ?thesis by simp
  qed
  from linked_append [OF 1(2) es(2) this] have 2: "linked a b p p' h q q'" "linked a b q q' r (length a) (length b)"
    unfolding pq by simp_all
  show "linked a b x y [] p p'" "linked a b p p' h q q'" "linked a b q q' r (length a) (length b)" using 1 2 by auto
  show "r = [] \<or> 3 \<le> fst (ed_old (hd r)) - q"
  proof (cases r)
    case (Cons f fs)
    then have "6 < fst (ed_old f) - ?eo" using hunk_split_gap [OF assms(3), of "length a"] by (simp add: next_old_def)
    moreover have "?trail \<le> 3" by simp
    ultimately show ?thesis unfolding pq Cons list.sel by linarith
  qed simp
qed

lemma unified_loop_head: "unified_loop a b old_start new_start es = [] \<or> hd (unified_loop a b old_start new_start es) = 64"
  by (subst (1 2) unified_loop.simps) (auto simp: show_hunk_def hunk_header_def lit_def split: prod.splits)

lemma show_hunk_ops:
  assumes "hunk_ranges a b h = ((p, q), (p', q'))"
  shows "show_hunk a b old_start new_start h = hunk_header old_start new_start (p, q) (p', q') @ render_ops (hunk_ops a b p h q)"
  using hunk_edits_ops [of a b p h _ _ q] by (auto simp: show_hunk_def assms split: prod.splits)

lemma patch_unified_loop:
  assumes "linked a b x y es (length a) (length b)" "x = 0 \<and> y = 0 \<or> es = [] \<or> 3 \<le> fst (ed_old (hd es)) - x"
    and "list_all line_ok a" "list_all line_ok b" "1 \<le> old_start" "1 \<le> new_start"
  shows "patch old_start new_start (split_inclusive (unified_loop a b old_start new_start es)) a x (slice b (0, y)) = Some b"
  using assms
proof (induction a b old_start new_start es arbitrary: x y rule: unified_loop.induct)
  case (1 a b old_start new_start es)
  show ?case
  proof (cases "es = []")
    case True
    then have "slice b (0, y) @ drop x a = b" using 1(2) slice_append_slice [of 0 y "length b" b]
      by (auto simp: slice_to_end)
    then show ?thesis using True by (subst unified_loop.simps, subst patch.simps) simp
  next
    case False
    obtain h r where hr: "hunk_split es = (h, r)" by force
    obtain p q p' q' where rg: "hunk_ranges a b h = ((p, q), (p', q'))" by (metis surj_pair)
    have start: "x = 0 \<and> y = 0 \<or> 3 \<le> fst (ed_old (hd es)) - x" using 1(3) False by blast
    note C = hunk_context [OF 1(2) False hr start rg]
    let ?ops = "hunk_ops a b p h q" and ?rest = "unified_loop a b old_start new_start r"
    let ?head = "hunk_header old_start new_start (p, q) (p', q')"
    have whole: "unified_loop a b old_start new_start es = ?head @ render_ops ?ops @ ?rest"
      using False hr show_hunk_ops [OF rg] by (subst unified_loop.simps) simp
    have "\<forall>p \<in> set ?ops. fst p \<in> {32, 43, 45} \<and> line_ok (snd p)"
      using hunk_ops_set [of _ a b p h q] 1(4,5) by (fastforce simp: list_all_iff)
    note read = read_rendered [OF this unified_loop_head]
    have IH: "patch old_start new_start (split_inclusive ?rest) a q (slice b (0, q')) = Some b"
      using 1(1) [OF False, of q q'] C(3,4) 1(4-7) hr by auto
    have both: "old_side ?ops = slice a (p, q)" "new_side ?ops = slice b (p', q')"
      using hunk_ops_sides [OF C(2)] by auto
    have le: "x \<le> p" "p \<le> q" "q \<le> length a" "y \<le> p'" "p' \<le> q'" "q' \<le> length b" "p - x = p' - y" "slice a (x, p) = slice b (y, p')"
      using C(1) linked_le [OF C(2)] by auto
    have out: "slice b (0, y) @ slice a (x, p) = slice b (0, p')" "slice b (0, p') @ slice b (p', q') = slice b (0, q')"
      using le slice_append_slice [of 0 y p' b] slice_append_slice [of 0 p' q' b] by auto
    have "read_header ?head = Some ((old_start + p, q - p), (new_start + p', q' - p'))"
      using read_header_show [OF 1(6,7)] by simp
    then show ?thesis
      unfolding whole split_hunk_header
      using read both le out IH by (subst patch.simps) (simp add: Let_def flip: append_assoc)
  qed
qed

text \<open>
  C6: the unified diff of two texts is empty exactly when they are equal, and otherwise a reader of
  the format, which checks every position, length and line of every hunk, rebuilds the new text
  from the diff and the old text, wherever the two excerpts start in their files.
\<close>

theorem unified_patches:
  assumes "1 \<le> old_start" "1 \<le> new_start"
  shows "(unified old new old_start new_start old_path new_path = [] \<longleftrightarrow> old = new) \<and>
    apply_diff old_start new_start (file_header old_path new_path)
      (unified old new old_start new_start old_path new_path) old = Some new"
proof -
  let ?a = "split_inclusive old" and ?b = "split_inclusive new"
  let ?body = "unified_loop ?a ?b old_start new_start (edits ?a ?b)"
  have ok: "list_all line_ok ?a" "list_all line_ok ?b" by (auto simp: list_all_iff split_inclusive_lines)
  have p: "patch old_start new_start (split_inclusive ?body) ?a 0 [] = Some ?b"
    using patch_unified_loop [OF linked_edits _ ok assms] by simp
  have "file_header old_path new_path \<noteq> []" by (simp add: file_header_def)
  moreover have "edits ?a ?b = [] \<longleftrightarrow> old = new" by (simp add: edits_Nil_iff split_inclusive_inject)
  ultimately show ?thesis using p
    by (auto simp: unified_def Let_def apply_diff_def strip_prefix_def concat_split_inclusive)
qed

theorem unified_patches_witness:
  "unified (lit ''x = 1;'') (lit ''x  = 1;'' @ [10]) 10 20 (lit ''a/x'') (lit ''b/x'') \<noteq> [] \<and>
   apply_diff 10 20 (file_header (lit ''a/x'') (lit ''b/x''))
     (unified (lit ''x = 1;'') (lit ''x  = 1;'' @ [10]) 10 20 (lit ''a/x'') (lit ''b/x'')) (lit ''x = 1;'') = Some (lit ''x  = 1;'' @ [10])"
  using unified_patches [of 10 20] by (simp add: lit_def)

text \<open>The counts of a record are the lines added and removed by the edits.\<close>

lemma counts_sum:
  "counts old new = (sum_list (map (range_len \<circ> ed_new) (edits (split_inclusive old) (split_inclusive new))),
     sum_list (map (range_len \<circ> ed_old) (edits (split_inclusive old) (split_inclusive new))))"
proof -
  have "foldl (\<lambda>(plus, minus) e. (plus + range_len (ed_new e), minus + range_len (ed_old e))) (p, m) es =
      (p + sum_list (map (range_len \<circ> ed_new) es), m + sum_list (map (range_len \<circ> ed_old) es))" for p m es
    by (induction es arbitrary: p m) auto
  from this [of 0 0] show ?thesis by (simp add: counts_def)
qed

end
