(* ===== verification/Paging.thy ===== *)
theory Paging
  imports Text
begin

text \<open>
  The pages and labels of \<^verbatim>\<open>src/src/history/render.rs\<close>. Text is the list of its UTF-8 bytes here,
  as the offsets of the code count them. A client that follows the continuation lines of the pages
  reads back the whole canonical text.
\<close>

type_synonym bytes = "nat list"

definition page_bytes :: nat where "page_bytes = 24 * 1024"

definition is_boundary :: "bytes \<Rightarrow> nat \<Rightarrow> bool" where
  "is_boundary bs i \<longleftrightarrow> i = 0 \<or> i = length bs \<or> i < length bs \<and> \<not> continuation (bs ! i)"

text \<open>The loop that steps back to a boundary.\<close>

fun floor_boundary :: "bytes \<Rightarrow> nat \<Rightarrow> nat" where
  "floor_boundary bs 0 = 0"
| "floor_boundary bs (Suc n) = (if is_boundary bs (Suc n) then Suc n else floor_boundary bs n)"

definition label :: "bytes \<Rightarrow> nat \<Rightarrow> bytes" where
  "label t budget = (if length t \<le> budget then t
     else take (floor_boundary t budget) t @ utf8_char 0x2026 @ lit '' [label shortened]'')"

text \<open>\<^verbatim>\<open>rfind\<close>: the position of the last occurrence.\<close>

definition rfind :: "bytes \<Rightarrow> bytes \<Rightarrow> nat option" where
  "rfind p w = (case filter (\<lambda>i. starts_with (drop i w) p) (rev [0..<length w]) of [] \<Rightarrow> None | i # _ \<Rightarrow> Some i)"

fun cut_page :: "bytes list \<Rightarrow> bytes \<Rightarrow> nat \<Rightarrow> nat \<Rightarrow> nat" where
  "cut_page [] window offset e = e"
| "cut_page (p # ps) window offset e = (case rfind p window of
     None \<Rightarrow> cut_page ps window offset e
   | Some i \<Rightarrow> if offset < offset + i + 1 then offset + i + 1 else cut_page ps window offset e)"

definition separators :: "bytes list" where
  "separators = [10 # lit ''diff --git '', 10 # lit ''@@ '', [10]]"

definition page_budget :: "bytes \<Rightarrow> nat" where
  "page_budget header = page_bytes - (length header + 256)"

definition page_end :: "bytes \<Rightarrow> bytes \<Rightarrow> nat \<Rightarrow> nat" where
  "page_end header canonical offset =
     (let e = floor_boundary canonical (min (saturating_add offset (page_budget header)) (length canonical))
      in if e < length canonical then cut_page separators (slice canonical (offset, e)) offset e else e)"

datatype page_error = BeyondEnd | InsideCharacter | HeaderTooLong

definition page_next :: "bytes \<Rightarrow> nat \<Rightarrow> bytes" where
  "page_next canonical e = (if e < length canonical then lit ''more offset:'' @ display_nat e else lit ''end'')"

definition is_fragment :: "bytes \<Rightarrow> nat \<Rightarrow> nat \<Rightarrow> bool" where
  "is_fragment canonical offset e \<longleftrightarrow> 0 < offset \<and> \<not> ends_with (take offset canonical) [10] \<or>
     e < length canonical \<and> \<not> ends_with (take e canonical) [10]"

definition page_head :: "bytes \<Rightarrow> bytes \<Rightarrow> nat \<Rightarrow> nat \<Rightarrow> bytes" where
  "page_head header canonical offset e =
     header @ 10 # lit ''bytes '' @ display_nat offset @ lit ''..'' @ display_nat e @ lit ''/'' @
     display_nat (length canonical) @ (if is_fragment canonical offset e then lit '' fragment'' else [])"

definition page :: "bytes \<Rightarrow> bytes \<Rightarrow> nat \<Rightarrow> page_error + bytes" where
  "page header canonical offset =
     ensureE (offset \<le> length canonical) BeyondEnd
       (ensureE (is_boundary canonical offset) InsideCharacter
         (ensureE (256 \<le> page_budget header) HeaderTooLong
           (let e = page_end header canonical offset
            in Inr (page_head header canonical offset e @ 10 # page_next canonical e @ 10 # 10 # slice canonical (offset, e)))))"

section \<open>A client\<close>

text \<open>The first blank line ends the head of a page; the last line of the head says how to go on.\<close>

fun split_blank :: "bytes \<Rightarrow> (bytes \<times> bytes) option" where
  "split_blank (c # d # s) = (if c = 10 \<and> d = 10 then Some ([], s)
     else (case split_blank (d # s) of None \<Rightarrow> None | Some (h, b) \<Rightarrow> Some (c # h, b)))"
| "split_blank _ = None"

definition continue_at :: "bytes \<Rightarrow> nat option" where
  "continue_at head = (case strip_prefix (last (split_on 10 head)) (lit ''more offset:'') of
     None \<Rightarrow> None | Some n \<Rightarrow> parse_usize n)"

fun read_pages :: "nat \<Rightarrow> bytes \<Rightarrow> bytes \<Rightarrow> nat \<Rightarrow> bytes option" where
  "read_pages 0 header canonical offset = None"
| "read_pages (Suc fuel) header canonical offset = (case page header canonical offset of
     Inl _ \<Rightarrow> None
   | Inr p \<Rightarrow> (case split_blank p of
       None \<Rightarrow> None
     | Some (head, body) \<Rightarrow> (case continue_at head of
         None \<Rightarrow> Some body
       | Some next_at \<Rightarrow> map_option ((@) body) (read_pages fuel header canonical next_at))))"

section \<open>Boundaries\<close>

lemma floor_boundary_le: "floor_boundary bs n \<le> n"
  by (induction n) (auto simp: le_Suc_eq)

lemma floor_boundary_is: "is_boundary bs (floor_boundary bs n)"
  by (induction n) (auto simp: is_boundary_def)

lemma floor_boundary_greatest: "is_boundary bs m \<Longrightarrow> m \<le> n \<Longrightarrow> m \<le> floor_boundary bs n"
  by (induction n) (auto simp: le_Suc_eq)

lemma hd_utf8: "s \<noteq> [] \<Longrightarrow> \<not> continuation (hd (utf8 s))"
  by (cases s) (auto simp: utf8_char_def continuation_def)

lemma boundary_shift: "is_boundary (utf8 s) i \<Longrightarrow> is_boundary (utf8_char c @ utf8 s) (length (utf8_char c) + i)"
  using hd_utf8 [of s] by (cases "s = []") (auto simp: is_boundary_def nth_append hd_conv_nth)

lemma boundary_near: "n \<le> length (utf8 s) \<Longrightarrow> \<exists>m. m \<le> n \<and> n \<le> m + 3 \<and> is_boundary (utf8 s) m"
proof (induction s arbitrary: n)
  case (Cons c s)
  have len: "length (utf8_char c) \<le> 4" by (simp add: utf8_char_def)
  show ?case
  proof (cases "n < length (utf8_char c)")
    case True
    then show ?thesis using len by (intro exI [of _ 0]) (simp add: is_boundary_def)
  next
    case False
    have "n - length (utf8_char c) \<le> length (utf8 s)" using Cons.prems by simp
    from Cons.IH [OF this] obtain m where "m \<le> n - length (utf8_char c)" "n - length (utf8_char c) \<le> m + 3" "is_boundary (utf8 s) m"
      by blast
    then show ?thesis using boundary_shift [of s m c] False by (intro exI [of _ "length (utf8_char c) + m"]) auto
  qed
qed (simp add: is_boundary_def)

lemma boundary_after_ascii: "k < length (utf8 s) \<Longrightarrow> utf8 s ! k < 0x80 \<Longrightarrow> is_boundary (utf8 s) (k + 1)"
proof (induction s arbitrary: k)
  case (Cons c s)
  show ?case
  proof (cases "k < length (utf8_char c)")
    case True
    then have "utf8_char c ! k < 0x80" using Cons.prems by (simp add: nth_append)
    have "length (utf8_char c) = 1 \<and> k = 0"
    proof (rule utf8_char_cases [of c])
      fix b bs
      assume u: "utf8_char c = b # bs" "list_all continuation bs" "c < 0x80 \<Longrightarrow> b = c \<and> bs = []" "0x80 \<le> c \<Longrightarrow> 0xc0 \<le> b"
      have "k = 0"
      proof (rule ccontr)
        assume "k \<noteq> 0"
        then have "utf8_char c ! k \<in> set bs" using True u(1) by (cases k) auto
        then show False using u(2) \<open>utf8_char c ! k < 0x80\<close> by (auto simp: list_all_iff continuation_def)
      qed
      moreover have "c < 0x80"
      proof (rule ccontr)
        assume "\<not> c < 0x80"
        then show False using u(1,4) \<open>k = 0\<close> \<open>utf8_char c ! k < 0x80\<close> by simp
      qed
      ultimately show ?thesis using u(1,3) by simp
    qed
    then show ?thesis using boundary_shift [of s 0 c] by (simp add: is_boundary_def)
  next
    case False
    then show ?thesis using Cons.IH [of "k - length (utf8_char c)"] Cons.prems
      boundary_shift [of s "k - length (utf8_char c) + 1" c] by (simp add: nth_append)
  qed
qed simp

section \<open>The end of a page\<close>

lemma rfind_Some: "rfind p w = Some i \<Longrightarrow> i < length w \<and> starts_with (drop i w) p"
proof -
  assume "rfind p w = Some i"
  then obtain js where "filter (\<lambda>i. starts_with (drop i w) p) (rev [0..<length w]) = i # js"
    by (auto simp: rfind_def split: list.splits)
  then have "i \<in> set (filter (\<lambda>i. starts_with (drop i w) p) (rev [0..<length w]))" by simp
  then show ?thesis by simp
qed

lemma cut_page_cases:
  "\<forall>p \<in> set ps. p \<noteq> [] \<and> hd p = 10 \<Longrightarrow>
    cut_page ps w offset e = e \<or> (\<exists>i<length w. w ! i = 10 \<and> cut_page ps w offset e = offset + i + 1)"
proof (induction ps)
  case (Cons p ps)
  show ?case
  proof (cases "rfind p w")
    case (Some i)
    then have i: "i < length w" "starts_with (drop i w) p" using rfind_Some by auto
    then obtain q where "p = 10 # q" using Cons.prems by (cases p) auto
    then have "w ! i = 10" using i by (simp add: Cons_nth_drop_Suc [symmetric])
    then show ?thesis using i Some by auto
  qed (use Cons in auto)
qed simp

lemma page_end_ok:
  assumes c: "canonical = utf8 s" "length canonical \<le> u64_max" "offset \<le> length canonical"
    and b: "is_boundary canonical offset" "256 \<le> page_budget header"
  shows "page_end header canonical offset \<le> length canonical" "is_boundary canonical (page_end header canonical offset)"
    "page_end header canonical offset \<le> offset + page_budget header" "offset \<le> page_end header canonical offset"
    "offset < length canonical \<Longrightarrow> offset < page_end header canonical offset"
proof -
  let ?top = "min (saturating_add offset (page_budget header)) (length canonical)"
  let ?e = "floor_boundary canonical ?top" and ?p = "page_end header canonical offset"
  have sat: "saturating_add offset (page_budget header) = offset + page_budget header \<or>
      length canonical \<le> saturating_add offset (page_budget header)"
    using c by (auto simp: saturating_add_def min_def)
  have top: "offset \<le> ?top" "?top \<le> offset + page_budget header" "?top = length canonical \<or> ?top = offset + page_budget header"
    using sat c(3) by (auto simp: saturating_add_def)
  obtain m where m: "m \<le> ?top" "?top \<le> m + 3" "is_boundary canonical m"
    using boundary_near [of ?top s] c(1) by auto
  have e: "?e \<le> ?top" "is_boundary canonical ?e" "offset \<le> ?e" "m \<le> ?e"
    using floor_boundary_le [of canonical ?top] floor_boundary_is floor_boundary_greatest [OF b(1) top(1)]
      floor_boundary_greatest [OF m(3,1)] by blast+
  have full: "?top = length canonical \<Longrightarrow> ?e = length canonical"
    using floor_boundary_greatest [of canonical "length canonical" ?top] e(1) by (simp add: is_boundary_def)
  have strict: "offset < ?e" if "offset < length canonical"
    using top(3) full m(2) e(4) b(2) that by linarith
  have seps: "\<forall>p \<in> set separators. p \<noteq> [] \<and> hd p = 10" by (simp add: separators_def)
  have "?p = (if ?e < length canonical then cut_page separators (slice canonical (offset, ?e)) offset ?e else ?e)"
    by (simp add: page_end_def Let_def)
  with cut_page_cases [OF seps, of "slice canonical (offset, ?e)" offset ?e]
  consider "?p = ?e" | i where "i < length (slice canonical (offset, ?e))" "slice canonical (offset, ?e) ! i = 10" "?p = offset + i + 1"
    by metis
  then have "?p \<le> ?e \<and> is_boundary canonical ?p \<and> offset \<le> ?p \<and> (offset < length canonical \<longrightarrow> offset < ?p)"
  proof cases
    case 2
    have le: "?e \<le> length canonical" using e(1) by simp
    have i: "offset + i < ?e" using 2(1) le by simp
    have "canonical ! (offset + i) = 10" using 2(2) i le by (simp add: slice_def)
    then have "is_boundary canonical (offset + i + 1)" using boundary_after_ascii [of "offset + i" s] c(1) i le by simp
    then show ?thesis using 2(3) i by simp
  qed (use e strict in auto)
  then show "?p \<le> length canonical" "is_boundary canonical ?p" "?p \<le> offset + page_budget header" "offset \<le> ?p"
    "offset < length canonical \<Longrightarrow> offset < ?p"
    using e(1) top(2) by auto
qed

section \<open>Reading the pages\<close>

fun no_blank :: "bytes \<Rightarrow> bool" where
  "no_blank (c # d # s) \<longleftrightarrow> \<not> (c = 10 \<and> d = 10) \<and> no_blank (d # s)"
| "no_blank _ \<longleftrightarrow> True"

lemma no_blank_append:
  "no_blank xs \<Longrightarrow> no_blank ys \<Longrightarrow> xs = [] \<or> ys = [] \<or> last xs \<noteq> 10 \<or> hd ys \<noteq> 10 \<Longrightarrow> no_blank (xs @ ys)"
proof (induction xs rule: no_blank.induct, goal_cases)
  case (3 c)
  then show ?case by (cases ys) auto
qed auto

lemma no_blank_free: "10 \<notin> set xs \<Longrightarrow> no_blank xs"
  by (induction xs rule: no_blank.induct) auto

lemma split_blank_at: "no_blank h \<Longrightarrow> h = [] \<or> last h \<noteq> 10 \<Longrightarrow> split_blank (h @ 10 # 10 # b) = Some (h, b)"
  by (induction h rule: no_blank.induct) auto

lemma split_on_last: "d \<notin> set y \<Longrightarrow> last (split_on d (x @ d # y)) = y"
proof -
  assume d: "d \<notin> set y"
  have "\<exists>ps. ps \<noteq> [] \<and> split_on d (x @ d # y) = ps @ [y]"
  proof (induction x)
    case Nil
    then show ?case using d by (intro exI [of _ "[[]]"]) (simp add: split_on_plain)
  next
    case (Cons c x)
    then obtain p ps where "split_on d (x @ d # y) = (p # ps) @ [y]" by (metis neq_Nil_conv)
    then show ?case by (cases "c = d") (auto intro: exI [of _ "[] # p # ps"] exI [of _ "(c # p) # ps"])
  qed
  then show ?thesis by auto
qed

lemma digits_free [simp]: "10 \<notin> set (display_nat n)"
  using display_nat_digits [of n] by (auto simp: list_all_iff is_digit_def)

lemma display_nat_length: "n < 10 ^ k \<Longrightarrow> 0 < k \<Longrightarrow> length (display_nat n) \<le> k"
proof (induction n arbitrary: k rule: display_nat.induct)
  case (1 n)
  show ?case
  proof (cases "n < 10")
    case True
    then show ?thesis using 1 by (subst display_nat.simps) simp
  next
    case False
    then obtain j where k: "k = Suc j" "0 < j" using 1(2,3) by (cases k; cases "k - 1") auto
    then have "n div 10 < 10 ^ j" using 1(2) by (simp add: less_mult_imp_div_less mult.commute)
    then show ?thesis using 1(1) [OF False _ k(2)] False k by (subst display_nat.simps) simp
  qed
qed

lemma display_u64: "n \<le> u64_max \<Longrightarrow> length (display_nat n) \<le> 20"
  by (rule display_nat_length) (simp_all add: u64_max_def)

definition header_ok :: "bytes \<Rightarrow> bool" where
  "header_ok header \<longleftrightarrow> no_blank header \<and> (header = [] \<or> last header \<noteq> 10) \<and> length header + 512 \<le> page_bytes"

lemma header_budget: "header_ok header \<Longrightarrow> 256 \<le> page_budget header"
  unfolding header_ok_def page_budget_def by linarith

definition head_tail :: "bytes \<Rightarrow> nat \<Rightarrow> nat \<Rightarrow> bytes" where
  "head_tail canonical offset e = lit ''bytes '' @ display_nat offset @ lit ''..'' @ display_nat e @ lit ''/'' @
     display_nat (length canonical) @ (if is_fragment canonical offset e then lit '' fragment'' else [])"

lemma page_head_split: "page_head header canonical offset e = header @ 10 # head_tail canonical offset e"
  by (simp add: page_head_def head_tail_def)

lemma head_tail_free: "10 \<notin> set (head_tail canonical offset e)" "head_tail canonical offset e \<noteq> []"
  by (simp_all add: head_tail_def lit_def)

lemma page_next_free: "10 \<notin> set (page_next canonical e)" "page_next canonical e \<noteq> []"
  by (simp_all add: page_next_def lit_def)

lemma last_free: "10 \<notin> set xs \<Longrightarrow> xs \<noteq> [] \<Longrightarrow> last xs \<noteq> 10"
  by (metis last_in_set)

lemma no_blank_line: "10 \<notin> set xs \<Longrightarrow> xs \<noteq> [] \<Longrightarrow> no_blank (10 # xs)"
  by (cases xs) (auto simp: no_blank_free)

lemma page_split:
  assumes "header_ok header" "length canonical \<le> u64_max"
  shows "split_blank (page_head header canonical offset e @ 10 # page_next canonical e @ 10 # 10 # body) =
      Some (page_head header canonical offset e @ 10 # page_next canonical e, body)"
    "continue_at (page_head header canonical offset e @ 10 # page_next canonical e) =
      (if e < length canonical then Some e else None)"
proof -
  let ?n = "page_next canonical e" and ?t = "head_tail canonical offset e"
  have "no_blank (header @ (10 # ?t) @ 10 # ?n)"
    by (intro no_blank_append no_blank_line page_next_free head_tail_free)
      (use assms last_free [OF head_tail_free] head_tail_free in \<open>auto simp: header_ok_def\<close>)
  then show "split_blank (page_head header canonical offset e @ 10 # ?n @ 10 # 10 # body) =
      Some (page_head header canonical offset e @ 10 # ?n, body)"
    using split_blank_at [of "page_head header canonical offset e @ 10 # ?n" body] last_free [OF page_next_free]
    by (simp add: page_head_split page_next_free)
  have "last (split_on 10 (page_head header canonical offset e @ 10 # ?n)) = ?n"
    by (rule split_on_last) (rule page_next_free)
  then show "continue_at (page_head header canonical offset e @ 10 # ?n) =
      (if e < length canonical then Some e else None)"
    using assms(2) by (auto simp: continue_at_def page_next_def strip_prefix_def lit_def parse_display_nat)
qed

lemma page_step:
  assumes "header_ok header" "canonical = utf8 s" "length canonical \<le> u64_max" "offset \<le> length canonical" "is_boundary canonical offset"
  shows "page header canonical offset = Inr (page_head header canonical offset (page_end header canonical offset) @
      10 # page_next canonical (page_end header canonical offset) @ 10 # 10 # slice canonical (offset, page_end header canonical offset))"
  using assms header_budget [OF assms(1)] by (simp add: page_def Let_def)

lemma read_pages_from:
  assumes "header_ok header" "canonical = utf8 s" "length canonical \<le> u64_max"
  shows "offset \<le> length canonical \<Longrightarrow> is_boundary canonical offset \<Longrightarrow> length canonical - offset < fuel \<Longrightarrow>
    read_pages fuel header canonical offset = Some (drop offset canonical)"
proof (induction fuel arbitrary: offset)
  case (Suc fuel)
  let ?e = "page_end header canonical offset"
  note p = page_step [OF assms Suc.prems(1,2)]
  note e = page_end_ok [OF assms(2,3) Suc.prems(1,2) header_budget [OF assms(1)]]
  note split = page_split [OF assms(1,3)]
  show ?case
  proof (cases "?e < length canonical")
    case True
    have "length canonical - ?e < fuel" using Suc.prems(3) e(5) True e(4) by linarith
    then have "read_pages fuel header canonical ?e = Some (drop ?e canonical)" using Suc.IH e(1,2) by blast
    moreover have "slice canonical (offset, ?e) @ drop ?e canonical = drop offset canonical"
      using slice_append_slice [of offset ?e "length canonical" canonical] e by (simp add: slice_to_end)
    ultimately show ?thesis using p split True by simp
  next
    case False
    then have "slice canonical (offset, ?e) = drop offset canonical" using e(1) by (simp add: slice_to_end)
    then show ?thesis using p split False by simp
  qed
qed simp

text \<open>
  C11: a client that asks for the pages of a text in turn, each from the offset the page before it
  names, needs at most one page per byte and one more, and reads back exactly the text; and no
  page exceeds 24 KiB. This holds for every text in UTF-8 and every header that has no blank line
  and leaves 512 bytes.
\<close>

theorem pages_reconstruct:
  assumes "header_ok header" "canonical = utf8 s" "length canonical \<le> u64_max"
  shows "read_pages (length canonical + 1) header canonical 0 = Some canonical \<and>
    (page header canonical offset = Inr p \<longrightarrow> length p \<le> page_bytes)"
proof (intro conjI impI)
  show "read_pages (length canonical + 1) header canonical 0 = Some canonical"
    using read_pages_from [OF assms, of 0 "length canonical + 1"] by (simp add: is_boundary_def del: read_pages.simps)
  assume "page header canonical offset = Inr p"
  then have ok: "offset \<le> length canonical" "is_boundary canonical offset" by (simp_all add: page_def)
  let ?e = "page_end header canonical offset"
  note e = page_end_ok [OF assms(2,3) ok header_budget [OF assms(1)]]
  have "p = page_head header canonical offset ?e @ 10 # page_next canonical ?e @ 10 # 10 # slice canonical (offset, ?e)"
    using page_step [OF assms ok] \<open>page _ _ _ = Inr p\<close> by simp
  then have len: "length p = length header + 1 + length (head_tail canonical offset ?e) + 1 + length (page_next canonical ?e) + 2 + (?e - offset)"
    using e by (simp add: page_head_split)
  have num: "length (display_nat offset) \<le> 20" "length (display_nat ?e) \<le> 20" "length (display_nat (length canonical)) \<le> 20"
    using ok(1) e(1) assms(3) by (auto intro!: display_u64)
  have "length (head_tail canonical offset ?e) \<le> 78" using num by (simp add: head_tail_def)
  moreover have "length (page_next canonical ?e) \<le> 32" using num by (simp add: page_next_def)
  moreover have "?e - offset \<le> page_budget header" using e(3) by simp
  moreover have "page_budget header + length header + 256 = page_bytes"
    using assms(1) unfolding header_ok_def page_budget_def by linarith
  ultimately show "length p \<le> page_bytes" using len by linarith
qed

theorem pages_reconstruct_witness:
  "\<exists>p. page (lit ''at pinned'') (lit ''No changes.'' @ [10]) 3 = Inr p \<and> length p \<le> page_bytes \<and>
    read_pages (length (lit ''No changes.'' @ [10]) + 1) (lit ''at pinned'') (lit ''No changes.'' @ [10]) 0 = Some (lit ''No changes.'' @ [10])"
proof -
  have "header_ok (lit ''at pinned'')" by (simp add: header_ok_def lit_def page_bytes_def)
  moreover have "lit ''No changes.'' @ [10] = utf8 (lit ''No changes.'' @ [10])" by (simp add: lit_def utf8_char_def)
  moreover have "length (lit ''No changes.'' @ [10]) \<le> u64_max" by (simp add: u64_max_def)
  ultimately have t: "read_pages (length (lit ''No changes.'' @ [10]) + 1) (lit ''at pinned'') (lit ''No changes.'' @ [10]) 0 = Some (lit ''No changes.'' @ [10]) \<and>
      (page (lit ''at pinned'') (lit ''No changes.'' @ [10]) 3 = Inr p \<longrightarrow> length p \<le> page_bytes)" for p
    by (rule pages_reconstruct)
  have "is_boundary (lit ''No changes.'' @ [10]) 3" by (simp add: is_boundary_def lit_def continuation_def)
  then have "\<exists>p. page (lit ''at pinned'') (lit ''No changes.'' @ [10]) 3 = Inr p"
    by (simp add: page_def page_budget_def page_bytes_def Let_def)
  with t show ?thesis by blast
qed

text \<open>A shortened label stays within its budget and the marker, and ends between characters.\<close>

lemma label_length: "length (label t budget) \<le> max (length t) (budget + 21)" "length t \<le> budget \<Longrightarrow> label t budget = t"
  using floor_boundary_le [of t budget] by (auto simp: label_def utf8_char_def max_def)

end
