(* ===== verification/Regions.thy ===== *)
theory Regions
  imports Text "HOL-Library.List_Lexorder" "HOL-Library.Product_Lexorder" "HOL-Library.Option_ord"
begin

text \<open>
  The selected regions of \<^verbatim>\<open>src/src/history/regions.rs\<close> and the states and links over them of
  \<^verbatim>\<open>src/src/history/matching.rs\<close>. Joining states keeps every alternative once; it is shown to be
  the union of what the states say.
\<close>

section \<open>Regions\<close>

record region =
  rg_path :: str
  rg_blob :: str
  rg_file_mode :: "nat option"
  rg_span :: range
  rg_body :: range
  rg_name :: str
  rg_owner :: str
  rg_kind :: str
  rg_parameters :: "str list"
  rg_written :: str
  rg_guard :: nat
  rg_weak :: bool
  rg_fragment :: bool

definition region_range :: "region \<Rightarrow> nat \<Rightarrow> range" where
  "region_range r source_len = (if rg_kind r = lit ''file'' then (0, source_len) else rg_span r)"

definition region_body_range :: "region \<Rightarrow> nat \<Rightarrow> range" where
  "region_body_range r source_len = (if rg_kind r = lit ''file'' then (0, source_len) else rg_body r)"

definition region_key :: "region \<Rightarrow> str \<times> str \<times> nat \<times> nat" where
  "region_key r = (rg_path r, rg_blob r, fst (rg_span r), snd (rg_span r))"

definition same_alternative :: "region \<Rightarrow> region \<Rightarrow> bool" where
  "same_alternative a b \<longleftrightarrow> region_key a = region_key b \<and> rg_file_mode a = rg_file_mode b \<and>
     rg_body a = rg_body b \<and> rg_name a = rg_name b \<and> rg_kind a = rg_kind b \<and>
     rg_parameters a = rg_parameters b \<and> rg_written a = rg_written b \<and> rg_fragment a = rg_fragment b"

definition region_signature :: "region \<Rightarrow> str" where
  "region_signature r =
     (if rg_kind r \<in> lit ` {''method'', ''function'', ''constructor'', ''operator''}
      then rg_name r @ lit ''('' @ join (lit '','') (rg_parameters r) @ lit '')'' else rg_name r)"

definition passage :: "str \<Rightarrow> str \<Rightarrow> range \<Rightarrow> region" where
  "passage path blob span = \<lparr>rg_path = path, rg_blob = blob, rg_file_mode = None, rg_span = span, rg_body = span,
     rg_name = [], rg_owner = [], rg_kind = lit ''text'', rg_parameters = [], rg_written = [], rg_guard = 1,
     rg_weak = False, rg_fragment = False\<rparr>"

definition whole_region :: "str \<Rightarrow> str \<Rightarrow> nat \<Rightarrow> region" where
  "whole_region path blob mode = (passage path blob (0, 0))\<lparr>rg_file_mode := Some mode, rg_kind := lit ''file''\<rparr>"

datatype region_value = ValueAbsent | ValuePresent str

definition value_text :: "region_value \<Rightarrow> str" where
  "value_text v = (case v of ValueAbsent \<Rightarrow> [] | ValuePresent t \<Rightarrow> t)"

section \<open>Exclusions\<close>

record exclusion =
  ex_root :: str
  ex_original :: str
  ex_pattern :: str

type_synonym exclusion_order = "str \<times> str \<times> str"

definition exclusion_key :: "exclusion \<Rightarrow> exclusion_order" where
  "exclusion_key e = (ex_root e, ex_original e, ex_pattern e)"

lemma exclusion_key_inject [simp]: "exclusion_key e = exclusion_key f \<longleftrightarrow> e = f"
  by (cases e; cases f) (simp add: exclusion_key_def)

section \<open>States\<close>

record state =
  sa_regions :: "region list"
  sa_paths :: "str list"
  sa_exclusions :: "exclusion list"
  sa_scope_unresolved :: bool
  sa_ancestry_unresolved :: bool
  sa_absent :: bool
  sa_uncertain :: bool

definition empty_state :: state where
  "empty_state = \<lparr>sa_regions = [], sa_paths = [], sa_exclusions = [], sa_scope_unresolved = False,
     sa_ancestry_unresolved = False, sa_absent = False, sa_uncertain = False\<rparr>"

definition absent_state :: state where
  "absent_state = empty_state\<lparr>sa_absent := True\<rparr>"

definition is_absent :: "state \<Rightarrow> bool" where
  "is_absent s \<longleftrightarrow> sa_absent s \<and> sa_regions s = [] \<and> sa_paths s = []"

definition same_occurrences :: "state \<Rightarrow> state \<Rightarrow> bool" where
  "same_occurrences s t \<longleftrightarrow> sa_absent s = sa_absent t \<and> sa_paths s = sa_paths t \<and>
     sa_exclusions s = sa_exclusions t \<and> sa_regions s = sa_regions t"

text \<open>The order of \<open>normalize\<close>, as the tuple that its chained comparison compares.\<close>

type_synonym region_order =
  "(str \<times> str \<times> nat \<times> nat) \<times> nat option \<times> str \<times> str \<times> str list \<times> str \<times> nat \<times> nat \<times> bool"

definition region_order :: "region \<Rightarrow> region_order" where
  "region_order r = (region_key r, rg_file_mode r, rg_name r, rg_kind r, rg_parameters r, rg_written r,
     fst (rg_body r), snd (rg_body r), rg_fragment r)"

text \<open>\<^verbatim>\<open>dedup_by\<close>: an element like the last one kept is merged into it.\<close>

fun dedup_regions :: "region list \<Rightarrow> region list" where
  "dedup_regions [] = []"
| "dedup_regions [r] = [r]"
| "dedup_regions (b # a # rs) =
     (if same_alternative a b then dedup_regions (b\<lparr>rg_weak := rg_weak b \<or> rg_weak a\<rparr> # rs)
      else b # dedup_regions (a # rs))"

definition normalize_state :: "state \<Rightarrow> state" where
  "normalize_state s =
     (let regions = dedup_regions (sort_key region_order (sa_regions s));
          paths = remdups_adj (sort (sa_paths s));
          exclusions = remdups_adj (sort_key exclusion_key (sa_exclusions s))
      in s\<lparr>sa_regions := regions, sa_paths := paths, sa_exclusions := exclusions,
        sa_uncertain := sa_uncertain s \<or> sa_scope_unresolved s \<or> sa_ancestry_unresolved s \<or>
          list_ex rg_weak regions \<or> sa_absent s \<and> (regions \<noteq> [] \<or> paths \<noteq> [])\<rparr>)"

definition join_state :: "state \<Rightarrow> state \<Rightarrow> state" where
  "join_state s t = normalize_state
     \<lparr>sa_regions = sa_regions s @ sa_regions t, sa_paths = sa_paths s @ sa_paths t,
      sa_exclusions = sa_exclusions s @ sa_exclusions t,
      sa_scope_unresolved = (sa_scope_unresolved s \<or> sa_scope_unresolved t),
      sa_ancestry_unresolved = (sa_ancestry_unresolved s \<or> sa_ancestry_unresolved t),
      sa_absent = (sa_absent s \<or> sa_absent t), sa_uncertain = (sa_uncertain s \<or> sa_uncertain t)\<rparr>"

section \<open>Links\<close>

datatype relation = RelContinue | RelRename | RelMove | RelExtract | RelCopy | RelWrapper | RelText

record link =
  lk_from :: region
  lk_to :: region
  lk_relation :: relation
  lk_uncertain :: bool
  lk_absence_alternative :: bool
  lk_reason :: str

definition arrow :: str where "arrow = [0x2192]"

definition link_event :: "link \<Rightarrow> str" where
  "link_event l = (case lk_relation l of
     RelContinue \<Rightarrow> []
   | RelRename \<Rightarrow> lit ''rename '' @ region_signature (lk_to l) @ arrow @ region_signature (lk_from l)
   | RelMove \<Rightarrow> lit ''move '' @ rg_path (lk_to l) @ arrow @ rg_path (lk_from l)
   | RelExtract \<Rightarrow> lit ''extract '' @ region_signature (lk_to l) @ arrow @ region_signature (lk_from l)
   | RelCopy \<Rightarrow> lit ''copy '' @ rg_path (lk_to l) @ arrow @ rg_path (lk_from l)
   | RelWrapper \<Rightarrow> lit ''extract '' @ region_signature (lk_to l) @ arrow @ region_signature (lk_from l) @ lit ''; retained wrapper''
   | RelText \<Rightarrow> lit ''text-move '' @ rg_path (lk_to l) @ arrow @ rg_path (lk_from l))"

definition link_label :: "link \<Rightarrow> str option" where
  "link_label l =
     (if lk_relation l = RelContinue
      then (if lk_uncertain l then Some (lit ''~edit '' @ lk_reason l) else None)
      else Some ((if lk_uncertain l then lit ''~'' else []) @ link_event l @ lit '' '' @ lk_reason l))"

section \<open>What a state says\<close>

lemma same_alternative_order: "same_alternative a b \<longleftrightarrow> region_order a = region_order b"
  by (auto simp: same_alternative_def region_order_def prod_eq_iff)

text \<open>The alternatives of a list of regions, and those of them that have a weak region.\<close>

definition alternatives :: "region list \<Rightarrow> region_order set \<times> region_order set" where
  "alternatives rs = (region_order ` set rs, region_order ` set (filter rg_weak rs))"

lemma order_weak [simp]: "region_order (r\<lparr>rg_weak := w\<rparr>) = region_order r"
  by (simp add: region_order_def region_key_def)

lemma alternatives_merge:
  "region_order a = region_order b \<Longrightarrow>
    alternatives (b\<lparr>rg_weak := rg_weak b \<or> rg_weak a\<rparr> # rs) = alternatives (b # a # rs)"
  by (simp add: alternatives_def insert_absorb2)

lemma alternatives_Cons:
  "alternatives rs = alternatives rs' \<Longrightarrow> alternatives (r # rs) = alternatives (r # rs')"
  by (simp add: alternatives_def)

lemma dedup_alternatives: "alternatives (dedup_regions rs) = alternatives rs"
proof (induction rs rule: dedup_regions.induct)
  case (3 b a rs)
  show ?case
  proof (cases "same_alternative a b")
    case True
    then show ?thesis using 3(1) alternatives_merge [of a b rs] by (simp add: same_alternative_order)
  next
    case False
    then have "dedup_regions (b # a # rs) = b # dedup_regions (a # rs)" by simp
    then show ?thesis using alternatives_Cons [OF 3(2) [OF False]] by simp
  qed
qed simp_all

lemma dedup_orders: "sorted (map region_order rs) \<Longrightarrow>
    sorted_wrt (<) (map region_order (dedup_regions rs)) \<and> region_order ` set (dedup_regions rs) = region_order ` set rs"
proof (induction rs rule: dedup_regions.induct)
  case (3 b a rs)
  show ?case
  proof (cases "same_alternative a b")
    case True
    then have ab: "region_order a = region_order b" by (simp only: same_alternative_order)
    have "sorted (map region_order (b\<lparr>rg_weak := rg_weak b \<or> rg_weak a\<rparr> # rs))" using 3(3) by simp
    note IH = 3(1) [OF True this]
    have "dedup_regions (b # a # rs) = dedup_regions (b\<lparr>rg_weak := rg_weak b \<or> rg_weak a\<rparr> # rs)" using True by simp
    then show ?thesis using IH ab by simp
  next
    case False
    then have b: "region_order b < region_order a" using 3(3) by (simp add: same_alternative_order less_le)
    have IH: "sorted_wrt (<) (map region_order (dedup_regions (a # rs)))"
        "region_order ` set (dedup_regions (a # rs)) = region_order ` set (a # rs)"
      using 3(2) False 3(3) by simp_all
    have "region_order b < k" if "k \<in> region_order ` set (dedup_regions (a # rs))" for k
    proof -
      have "k = region_order a \<or> k \<in> region_order ` set rs" using that unfolding IH(2) by simp
      then have "region_order a \<le> k" using 3(3) by auto
      then show ?thesis using b by (rule order.strict_trans2 [rotated])
    qed
    then show ?thesis using IH False by (simp add: image_iff)
  qed
qed simp_all

lemma dedup_strict: "sorted_wrt (<) (map region_order rs) \<Longrightarrow> dedup_regions rs = rs"
  by (induction rs rule: dedup_regions.induct) (auto simp: same_alternative_order)

lemma alternatives_set: "set rs = set rs' \<Longrightarrow> alternatives rs = alternatives rs'"
  by (simp add: alternatives_def)

section \<open>Joining\<close>

text \<open>What a state says: its alternatives, paths, exclusions and marks.\<close>

record meaning =
  me_alternatives :: "region_order set"
  me_weak :: "region_order set"
  me_paths :: "str set"
  me_exclusions :: "exclusion set"
  me_scope_unresolved :: bool
  me_ancestry_unresolved :: bool
  me_absent :: bool
  me_uncertain :: bool

definition state_meaning :: "state \<Rightarrow> meaning" where
  "state_meaning s = \<lparr>me_alternatives = fst (alternatives (sa_regions s)), me_weak = snd (alternatives (sa_regions s)),
     me_paths = set (sa_paths s), me_exclusions = set (sa_exclusions s), me_scope_unresolved = sa_scope_unresolved s,
     me_ancestry_unresolved = sa_ancestry_unresolved s, me_absent = sa_absent s, me_uncertain = sa_uncertain s\<rparr>"

text \<open>Every doubt makes a state uncertain, and so does absence beside a region or a path.\<close>

definition settle :: "meaning \<Rightarrow> meaning" where
  "settle m = m\<lparr>me_uncertain := me_uncertain m \<or> me_scope_unresolved m \<or> me_ancestry_unresolved m \<or> me_weak m \<noteq> {} \<or>
     me_absent m \<and> (me_alternatives m \<noteq> {} \<or> me_paths m \<noteq> {})\<rparr>"

definition both :: "meaning \<Rightarrow> meaning \<Rightarrow> meaning" where
  "both m n = \<lparr>me_alternatives = me_alternatives m \<union> me_alternatives n, me_weak = me_weak m \<union> me_weak n,
     me_paths = me_paths m \<union> me_paths n, me_exclusions = me_exclusions m \<union> me_exclusions n,
     me_scope_unresolved = (me_scope_unresolved m \<or> me_scope_unresolved n),
     me_ancestry_unresolved = (me_ancestry_unresolved m \<or> me_ancestry_unresolved n),
     me_absent = (me_absent m \<or> me_absent n), me_uncertain = (me_uncertain m \<or> me_uncertain n)\<rparr>"

definition state_sorted :: "state \<Rightarrow> bool" where
  "state_sorted s \<longleftrightarrow> sorted_wrt (<) (map region_order (sa_regions s)) \<and> sorted_wrt (<) (sa_paths s) \<and>
     sorted_wrt (<) (map exclusion_key (sa_exclusions s))"

lemma alternatives_sort [simp]: "alternatives (sort_key f rs) = alternatives rs"
  by (simp add: alternatives_def)

lemma alternatives_append: "alternatives (rs @ qs) =
    (fst (alternatives rs) \<union> fst (alternatives qs), snd (alternatives rs) \<union> snd (alternatives qs))"
  by (simp add: alternatives_def image_Un)

lemma weak_alternatives: "list_ex rg_weak rs \<longleftrightarrow> snd (alternatives rs) \<noteq> {}"
  by (auto simp: alternatives_def list_ex_iff filter_empty_conv)

lemma empty_alternatives: "rs = [] \<longleftrightarrow> fst (alternatives rs) = {}"
  by (simp add: alternatives_def)

lemma empty_paths: "ps = [] \<longleftrightarrow> set ps = {}"
  by simp

lemma normalize_fields:
  "sa_regions (normalize_state s) = dedup_regions (sort_key region_order (sa_regions s))"
  "sa_paths (normalize_state s) = remdups_adj (sort (sa_paths s))"
  "sa_exclusions (normalize_state s) = remdups_adj (sort_key exclusion_key (sa_exclusions s))"
  "sa_scope_unresolved (normalize_state s) = sa_scope_unresolved s"
  "sa_ancestry_unresolved (normalize_state s) = sa_ancestry_unresolved s"
  "sa_absent (normalize_state s) = sa_absent s"
  by (simp_all add: normalize_state_def Let_def)

lemma normalize_uncertain:
  "sa_uncertain (normalize_state s) \<longleftrightarrow> sa_uncertain s \<or> sa_scope_unresolved s \<or> sa_ancestry_unresolved s \<or>
     list_ex rg_weak (sa_regions (normalize_state s)) \<or>
     sa_absent s \<and> (sa_regions (normalize_state s) \<noteq> [] \<or> sa_paths (normalize_state s) \<noteq> [])"
  by (simp add: normalize_state_def Let_def)

lemma normalize_meaning: "state_meaning (normalize_state s) = settle (state_meaning s)"
proof -
  let ?rs = "dedup_regions (sort_key region_order (sa_regions s))"
  have a: "alternatives ?rs = alternatives (sa_regions s)" by (simp add: dedup_alternatives)
  have p: "set (remdups_adj (sort (sa_paths s))) = set (sa_paths s)" by simp
  have e: "set (remdups_adj (sort_key exclusion_key (sa_exclusions s))) = set (sa_exclusions s)" by simp
  have w: "list_ex rg_weak ?rs \<longleftrightarrow> snd (alternatives (sa_regions s)) \<noteq> {}"
    "?rs \<noteq> [] \<longleftrightarrow> fst (alternatives (sa_regions s)) \<noteq> {}"
    "remdups_adj (sort (sa_paths s)) \<noteq> [] \<longleftrightarrow> set (sa_paths s) \<noteq> {}"
    using weak_alternatives [of ?rs] empty_alternatives [of ?rs] empty_paths [of "remdups_adj (sort (sa_paths s))"]
    unfolding a p by blast+
  show ?thesis
    by (simp only: state_meaning_def normalize_fields normalize_uncertain w a p e settle_def meaning.update_convs
      meaning.select_convs)
qed

lemma strict_remdups: "sorted xs \<Longrightarrow> sorted_wrt (<) (remdups_adj xs)"
  by (simp add: strict_sorted_iff distinct_remdups_adj_sorted)

lemma strict_remdups_key:
  assumes "inj f" "sorted (map f xs)"
  shows "sorted_wrt (<) (map f (remdups_adj xs))"
proof -
  have "map f (remdups_adj xs) = remdups_adj (map f xs)" using assms(1) by (simp add: remdups_adj_map_injective)
  then show ?thesis using strict_remdups [OF assms(2)] by simp
qed

lemma normalize_sorted: "state_sorted (normalize_state s)"
proof -
  have "inj exclusion_key" by (rule injI) simp
  then show ?thesis
    using dedup_orders [of "sort_key region_order (sa_regions s)"] strict_remdups [of "sort (sa_paths s)"]
      strict_remdups_key [of exclusion_key "sort_key exclusion_key (sa_exclusions s)"]
    unfolding state_sorted_def normalize_state_def Let_def by simp
qed

text \<open>
  C32: joining two states gives the sorted list of their distinct alternatives, paths and exclusions,
  and says exactly what the two say together, uncertain when either is, when a mark or a weak
  alternative leaves a doubt, and when absence stands beside a region or a path; so the order and
  the number of joins never matter to what a state says.
\<close>

theorem join_meaning:
  "state_sorted (join_state s t) \<and>
   state_meaning (join_state s t) = settle (both (state_meaning s) (state_meaning t))"
proof (rule conjI)
  show "state_sorted (join_state s t)" unfolding join_state_def by (rule normalize_sorted)
  show "state_meaning (join_state s t) = settle (both (state_meaning s) (state_meaning t))"
    unfolding join_state_def normalize_meaning
    by (simp add: state_meaning_def both_def alternatives_append)
qed

text \<open>Normalizing again changes nothing.\<close>

lemma sort_key_strict: "sorted_wrt (<) (map f xs) \<Longrightarrow> sort_key f xs = xs"
  by (rule sort_key_id_if_sorted) (auto simp: strict_sorted_iff)

lemma remdups_strict: "sorted_wrt (<) (map (f :: 'a \<Rightarrow> 'b::linorder) xs) \<Longrightarrow> remdups_adj xs = xs"
  by (rule remdups_adj_distinct) (simp add: strict_sorted_iff distinct_map)

lemma normalize_idempotent: "normalize_state (normalize_state s) = normalize_state s"
proof -
  let ?n = "normalize_state s"
  have n: "state_sorted ?n" by (rule normalize_sorted)
  have r: "dedup_regions (sort_key region_order (sa_regions ?n)) = sa_regions ?n"
    using n by (simp add: state_sorted_def sort_key_strict dedup_strict)
  have p: "remdups_adj (sort (sa_paths ?n)) = sa_paths ?n"
    using n sort_key_strict [of "\<lambda>x. x" "sa_paths ?n"] remdups_strict [of "\<lambda>x. x" "sa_paths ?n"] by (simp add: state_sorted_def)
  have e: "remdups_adj (sort_key exclusion_key (sa_exclusions ?n)) = sa_exclusions ?n"
    using n remdups_strict [of exclusion_key "sa_exclusions ?n"] by (simp add: state_sorted_def sort_key_strict)
  have "sa_uncertain (normalize_state ?n) \<longleftrightarrow> sa_uncertain ?n"
    unfolding normalize_uncertain [of ?n] normalize_uncertain [of s] normalize_fields(4-6) unfolding normalize_fields(1,2) [of ?n] r p
    by blast
  then show ?thesis
    by (intro state.equality) (simp_all only: normalize_fields [of ?n] r p e, simp_all add: normalize_fields)
qed

lemma settle_both:
  "settle (both (settle m) n) = settle (both m n)" "settle (both m (settle n)) = settle (both m n)"
  "both m n = both n m" "both (both m n) k = both m (both n k)"
  by (auto simp: settle_def both_def)

end
