(* ===== verification/Comparison.thy ===== *)
theory Comparison
  imports Regions Unified Sources
begin

text \<open>
  The canonical comparison of \<^verbatim>\<open>src/src/history/render.rs\<close>: which old region stands against which
  new one, and the text of every pair. Reading a blob and fetching blobs ahead are parameters. A
  slice or an index out of range, which panics, is the error \<open>ComparePanic\<close>.
\<close>

datatype file_change = FcMove | FcCopy | FcReverseCopy

record file_pair =
  fp_old :: nat
  fp_new :: nat
  fp_change :: file_change
  fp_uncertain :: bool

datatype 'e compare_error = DiffTooLarge | ComparePanic | SourceError 'e

definition canonical_limit :: nat where "canonical_limit = 64 * 1024 * 1024"

section \<open>Metadata\<close>

fun octal_digits :: "nat \<Rightarrow> str" where
  "octal_digits n = (if n < 8 then [48 + n] else octal_digits (n div 8) @ [48 + n mod 8])"

declare octal_digits.simps [simp del]

text \<open>\<^verbatim>\<open>{:06o}\<close>\<close>

definition octal6 :: "nat \<Rightarrow> str" where
  "octal6 n = (let ds = octal_digits n in replicate (6 - length ds) 48 @ ds)"

definition spaced_arrow :: str where "spaced_arrow = 32 # arrow @ [32]"

definition mode_change :: "region \<Rightarrow> region \<Rightarrow> str option" where
  "mode_change old new = (case (rg_file_mode old, rg_file_mode new) of
     (Some m, Some m') \<Rightarrow>
       (if m \<noteq> m' then Some (lit ''mode '' @
           (if rg_path old = rg_path new then rg_path new else rg_path old @ spaced_arrow @ rg_path new) @
           lit '' '' @ octal6 m @ arrow @ octal6 m')
        else None)
   | _ \<Rightarrow> None)"

section \<open>The text of a pair\<close>

text \<open>\<^verbatim>\<open>&text[a..b]\<close>\<close>

definition slice_text :: "str \<Rightarrow> range \<Rightarrow> str option" where
  "slice_text t r = (case char_prefix t (fst r) of
     None \<Rightarrow> None
   | Some p \<Rightarrow> if fst r \<le> snd r then char_prefix (drop (length p) t) (snd r - fst r) else None)"

definition read_region :: "(str \<Rightarrow> str \<Rightarrow> 'e + str) \<Rightarrow> region option \<Rightarrow> 'e compare_error + str \<times> nat" where
  "read_region source region = (case region of
     None \<Rightarrow> Inr ([], 1)
   | Some r \<Rightarrow> (case source (rg_path r) (rg_blob r) of
       Inl e \<Rightarrow> Inl (SourceError e)
     | Inr t \<Rightarrow> (case (slice_text t (region_range r (byte_len t)), position t (fst (rg_span r))) of
         (Some s, Some (row, _)) \<Rightarrow> Inr (s, row)
       | _ \<Rightarrow> Inl ComparePanic)))"

definition option_list :: "'a option \<Rightarrow> 'a list" where
  "option_list x = (case x of None \<Rightarrow> [] | Some v \<Rightarrow> [v])"

text \<open>Whether a check holds of both regions of a pair.\<close>

definition both_regions :: "(region \<Rightarrow> region \<Rightarrow> bool) \<Rightarrow> region option \<Rightarrow> region option \<Rightarrow> bool" where
  "both_regions f old new = (case (old, new) of (Some a, Some b) \<Rightarrow> f a b | _ \<Rightarrow> False)"

definition side_name :: "str \<Rightarrow> region option \<Rightarrow> str" where
  "side_name p r = (case r of None \<Rightarrow> lit ''/dev/null'' | Some r \<Rightarrow> p @ rg_path r)"

definition unchanged_pair :: "region option \<Rightarrow> region option \<Rightarrow> bool" where
  "unchanged_pair old new \<longleftrightarrow> both_regions (\<lambda>a b. rg_path a = rg_path b \<and> rg_blob a = rg_blob b \<and> rg_span a = rg_span b \<and>
     rg_kind a = rg_kind b \<and> rg_name a = rg_name b) old new"

definition pair_mode :: "region option \<Rightarrow> region option \<Rightarrow> str option" where
  "pair_mode old new = (case (old, new) of (Some a, Some b) \<Rightarrow> mode_change a b | _ \<Rightarrow> None)"

definition read_pair :: "(str list \<Rightarrow> 'e option) \<Rightarrow> (str \<Rightarrow> str \<Rightarrow> 'e + str) \<Rightarrow> region option \<Rightarrow> region option \<Rightarrow>
    'e compare_error + (str \<times> nat) \<times> (str \<times> nat)" where
  "read_pair prefetch source old new =
     (if both_regions (\<lambda>a b. rg_kind a = lit ''file'' \<and> rg_kind b = lit ''file'' \<and> rg_blob a = rg_blob b) old new
      then Inr (([], 1), ([], 1))
      else (case prefetch (map rg_blob (option_list old @ option_list new)) of
         Some e \<Rightarrow> Inl (SourceError e)
       | None \<Rightarrow> bindE (read_region source old) (\<lambda>a. bindE (read_region source new) (\<lambda>b. Inr (a, b)))))"

definition move_note :: "file_pair option \<Rightarrow> region \<Rightarrow> region \<Rightarrow> str" where
  "move_note file a b =
     (let (event, from_path, to_path, suffix) = (case map_option fp_change file of
          Some FcCopy \<Rightarrow> (lit ''copy'', rg_path a, rg_path b, [])
        | Some FcReverseCopy \<Rightarrow> (lit ''copy'', rg_path b, rg_path a, lit '' (reverse comparison)'')
        | _ \<Rightarrow> (lit ''move'', rg_path a, rg_path b, []))
      in lit ''# '' @ (case file of Some p \<Rightarrow> if fp_uncertain p then lit ''~'' else [] | None \<Rightarrow> []) @ event @ lit '' '' @
        from_path @ spaced_arrow @ to_path @ suffix @ [10])"

definition identity_notes :: "file_pair option \<Rightarrow> region option \<Rightarrow> region option \<Rightarrow> str" where
  "identity_notes file old new = (case (old, new) of
     (Some a, Some b) \<Rightarrow>
       (if rg_path a \<noteq> rg_path b then move_note file a b else []) @
       (if rg_name a \<noteq> rg_name b
        then lit ''# rename '' @ region_signature a @ spaced_arrow @ region_signature b @ [10] else [])
   | _ \<Rightarrow> [])"

definition fragment_notes :: "region list \<Rightarrow> str" where
  "fragment_notes rs = concat (map (\<lambda>r. if rg_fragment r
     then lit ''# fragment '' @ rg_path r @ lit '' bytes '' @ display_nat (fst (rg_span r)) @ lit ''..'' @
       display_nat (snd (rg_span r)) @ [10] else []) rs)"

definition pair_text :: "str \<times> nat \<Rightarrow> str \<times> nat \<Rightarrow> region option \<Rightarrow> region option \<Rightarrow> file_pair option \<Rightarrow> str" where
  "pair_text a b old new file =
     (let old_name = side_name (lit ''a/'') old; new_name = side_name (lit ''b/'') new;
          mode = pair_mode old new;
          changed_identity = both_regions (\<lambda>a b. rg_path a \<noteq> rg_path b \<or> rg_name a \<noteq> rg_name b) old new;
          changed_existence = ((old = None) \<noteq> (new = None))
      in if fst a \<noteq> fst b \<or> changed_identity \<or> changed_existence \<or> mode \<noteq> None
         then lit ''diff --git '' @ old_name @ lit '' '' @ new_name @ [10] @
           (case mode of None \<Rightarrow> [] | Some m \<Rightarrow> lit ''# '' @ m @ [10]) @
           identity_notes file old new @ fragment_notes (option_list old @ option_list new) @
           (if changed_existence \<and> fst a = fst b then file_header old_name new_name
            else unified (fst a) (fst b) (snd a) (snd b) old_name new_name)
         else [])"

definition append_pair :: "(str list \<Rightarrow> 'e option) \<Rightarrow> (str \<Rightarrow> str \<Rightarrow> 'e + str) \<Rightarrow> str \<Rightarrow> region option \<Rightarrow> region option \<Rightarrow>
    file_pair option \<Rightarrow> 'e compare_error + str" where
  "append_pair prefetch source out old new file =
     (if unchanged_pair old new \<and> pair_mode old new = None then Inr out
      else bindE (read_pair prefetch source old new) (\<lambda>(a, b).
        let out = out @ pair_text a b old new file
        in ensureE (byte_len out \<le> canonical_limit) DiffTooLarge (Inr out)))"

section \<open>The pairs\<close>

text \<open>\<^verbatim>\<open>max_by_key\<close>: the last of the greatest.\<close>

definition max_by :: "('a \<Rightarrow> 'a \<Rightarrow> bool) \<Rightarrow> 'a list \<Rightarrow> 'a option" where
  "max_by le xs = foldl (\<lambda>m x. case m of None \<Rightarrow> Some x | Some y \<Rightarrow> if le y x then Some x else Some y) None xs"

definition region_score :: "region \<Rightarrow> region \<Rightarrow> nat" where
  "region_score r current = (if rg_path r = rg_path current then 4 else 0) +
     (if rg_name r = rg_name current then 2 else 0) + (if rg_blob r = rg_blob current then 1 else 0)"

definition rank_le :: "region list \<Rightarrow> region \<Rightarrow> nat \<Rightarrow> nat \<Rightarrow> bool" where
  "rank_le old current i j \<longleftrightarrow>
     region_score (old ! i) current < region_score (old ! j) current \<or>
     region_score (old ! i) current = region_score (old ! j) current \<and> region_key (old ! j) \<le> region_key (old ! i)"

definition file_paths :: "region list \<Rightarrow> str \<Rightarrow> nat list" where
  "file_paths old path = filter (\<lambda>i. rg_kind (old ! i) = lit ''file'' \<and> rg_path (old ! i) = path) [0..<length old]"

fun file_table :: "file_pair list \<Rightarrow> file_pair option list \<Rightarrow> 'e compare_error + file_pair option list" where
  "file_table [] table = Inr table"
| "file_table (p # ps) table = ensureE (fp_new p < length table) ComparePanic (file_table ps (table[fp_new p := Some p]))"

definition choose_old :: "region list \<Rightarrow> nat \<Rightarrow> bool list \<Rightarrow> region \<Rightarrow> file_pair option \<Rightarrow> 'e compare_error + nat option" where
  "choose_old old news consumed current file =
     (if rg_kind current = lit ''file'' then
        (case max_by (rank_le old current) (filter (\<lambda>i. \<not> consumed ! i) (file_paths old (rg_path current))) of
           Some i \<Rightarrow> Inr (Some i)
         | None \<Rightarrow> (case file of
             None \<Rightarrow> Inr None
           | Some p \<Rightarrow> ensureE (fp_old p < length old) ComparePanic
               (Inr (if consumed ! fp_old p then None else Some (fp_old p)))))
      else Inr (max_by (rank_le old current) (filter (\<lambda>i. \<not> consumed ! i \<and>
          (rg_path (old ! i) = rg_path current \<or> rg_kind (old ! i) \<noteq> lit ''file'' \<and>
            (rg_blob (old ! i) = rg_blob current \<or> length old = 1 \<and> news = 1 \<or> rg_name (old ! i) = rg_name current)))
          [0..<length old])))"

definition consume :: "nat option \<Rightarrow> bool list \<Rightarrow> bool list" where
  "consume i consumed = (case i of None \<Rightarrow> consumed | Some i \<Rightarrow> consumed[i := True])"

fun compare_new :: "(str list \<Rightarrow> 'e option) \<Rightarrow> (str \<Rightarrow> str \<Rightarrow> 'e + str) \<Rightarrow> region list \<Rightarrow> region list \<Rightarrow> file_pair option list \<Rightarrow>
    nat list \<Rightarrow> bool list \<Rightarrow> str \<Rightarrow> 'e compare_error + bool list \<times> str" where
  "compare_new prefetch source old new table [] consumed out = Inr (consumed, out)"
| "compare_new prefetch source old new table (j # js) consumed out =
     bindE (choose_old old (length new) consumed (new ! j) (table ! j)) (\<lambda>i.
       bindE (append_pair prefetch source out (map_option ((!) old) i) (Some (new ! j)) (table ! j)) (\<lambda>out.
         compare_new prefetch source old new table js (consume i consumed) out))"

fun compare_old :: "(str list \<Rightarrow> 'e option) \<Rightarrow> (str \<Rightarrow> str \<Rightarrow> 'e + str) \<Rightarrow> region list \<Rightarrow> bool list \<Rightarrow>
    nat list \<Rightarrow> str \<Rightarrow> 'e compare_error + str" where
  "compare_old prefetch source old consumed [] out = Inr out"
| "compare_old prefetch source old consumed (i # js) out =
     (if consumed ! i then compare_old prefetch source old consumed js out
      else bindE (append_pair prefetch source out (Some (old ! i)) None None)
        (\<lambda>out. compare_old prefetch source old consumed js out))"

definition opaque_note :: "str \<Rightarrow> str" where
  "opaque_note path = lit ''diff --git a/'' @ path @ lit '' b/'' @ path @ [10] @
     lit ''# source object changed; contents excluded by committed attributes in one snapshot'' @ [10]"

fun opaque_notes :: "str list \<Rightarrow> str \<Rightarrow> 'e compare_error + str" where
  "opaque_notes [] out = Inr out"
| "opaque_notes (p # ps) out = (let out = out @ opaque_note p
     in ensureE (byte_len out \<le> canonical_limit) DiffTooLarge (opaque_notes ps out))"

definition comparison :: "(str list \<Rightarrow> 'e option) \<Rightarrow> (str \<Rightarrow> str \<Rightarrow> 'e + str) \<Rightarrow> region list \<Rightarrow> region list \<Rightarrow> file_pair list \<Rightarrow>
    str list \<Rightarrow> str list \<Rightarrow> 'e compare_error + str" where
  "comparison prefetch source old new files notes opaque =
     bindE (opaque_notes opaque (concat (map (\<lambda>n. lit ''# '' @ n @ [10]) notes))) (\<lambda>out.
     bindE (file_table files (replicate (length new) None)) (\<lambda>table.
     bindE (compare_new prefetch source old new table [0..<length new] (replicate (length old) False) out) (\<lambda>(consumed, out).
     bindE (compare_old prefetch source old consumed [0..<length old] out) (\<lambda>out.
       let out = (if out = [] then lit ''No changes.'' @ [10] else out)
       in ensureE (byte_len out \<le> canonical_limit) DiffTooLarge (Inr out)))))"

end
