(* ===== verification/Comparison_Complete.thy ===== *)
theory Comparison_Complete
  imports Comparison
begin

text \<open>
  A comparison that is returned shows every region of both sides exactly once, pairs whole files of
  different paths only on evidence the caller gave, and stays within its limit.
\<close>

section \<open>What a pair shows\<close>

definition file_for :: "file_pair list \<Rightarrow> nat \<Rightarrow> file_pair option" where
  "file_for files j = (let ps = filter (\<lambda>p. fp_new p = j) files in if ps = [] then None else Some (last ps))"

type_synonym index_pair = "nat option \<times> nat option"

text \<open>The text \<open>t\<close> that a pair of indices adds.\<close>

definition shown :: "(str list \<Rightarrow> 'e option) \<Rightarrow> (str \<Rightarrow> str \<Rightarrow> 'e + str) \<Rightarrow> region list \<Rightarrow> region list \<Rightarrow>
    (nat \<Rightarrow> file_pair option) \<Rightarrow> index_pair \<Rightarrow> str \<Rightarrow> bool" where
  "shown prefetch source old new file p t =
     (let a = map_option ((!) old) (fst p); b = map_option ((!) new) (snd p); f = Option.bind (snd p) file
      in if unchanged_pair a b \<and> pair_mode a b = None then t = []
         else (case read_pair prefetch source a b of Inl _ \<Rightarrow> False | Inr (x, y) \<Rightarrow> t = pair_text x y a b f))"

definition paired :: "region list \<Rightarrow> region list \<Rightarrow> file_pair list \<Rightarrow> nat \<Rightarrow> nat \<Rightarrow> bool" where
  "paired old new files i j \<longleftrightarrow> i < length old \<and>
     (rg_kind (old ! i) = lit ''file'' \<or> rg_kind (new ! j) = lit ''file'' \<longrightarrow>
       rg_path (old ! i) = rg_path (new ! j) \<or> (\<exists>p \<in> set files. fp_old p = i \<and> fp_new p = j))"

definition firsts :: "index_pair list \<Rightarrow> nat list" where
  "firsts ps = List.map_filter fst ps"

definition seconds :: "index_pair list \<Rightarrow> nat list" where
  "seconds ps = List.map_filter snd ps"

lemma firsts_simps [simp]: "firsts [] = []" "firsts ((None, j) # ps) = firsts ps"
  "firsts ((Some i, j) # ps) = i # firsts ps" "firsts (ps @ qs) = firsts ps @ firsts qs"
  "firsts (map (\<lambda>i. (Some i, None)) js) = js"
  by (simp_all add: firsts_def map_filter_def o_def)

lemma seconds_simps [simp]: "seconds [] = []" "seconds ((i, None) # ps) = seconds ps"
  "seconds ((i, Some j) # ps) = j # seconds ps" "seconds (ps @ qs) = seconds ps @ seconds qs"
  "seconds (map (\<lambda>i. (Some i, None)) js) = []"
  by (simp_all add: seconds_def map_filter_def o_def)

section \<open>The loops\<close>

lemma max_by_mem: "max_by le xs = Some x \<Longrightarrow> x \<in> set xs"
proof -
  have "foldl (\<lambda>m x. case m of None \<Rightarrow> Some x | Some y \<Rightarrow> if le y x then Some x else Some y) m xs = Some x \<Longrightarrow>
      m = Some x \<or> x \<in> set xs" for m
  proof (induction xs arbitrary: m)
    case (Cons y ys)
    from Cons.IH [of "case m of None \<Rightarrow> Some y | Some z \<Rightarrow> if le z y then Some y else Some z"] Cons.prems
    show ?case by (auto split: option.splits if_splits)
  qed simp
  from this [of None] show "max_by le xs = Some x \<Longrightarrow> ?thesis" by (simp add: max_by_def)
qed

lemma choose_old_ok:
  assumes "choose_old old news consumed current file = Inr (Some i)"
  shows "i < length old \<and> \<not> consumed ! i \<and>
    (rg_kind (old ! i) = lit ''file'' \<or> rg_kind current = lit ''file'' \<longrightarrow>
      rg_path (old ! i) = rg_path current \<or> (\<exists>p. file = Some p \<and> fp_old p = i))"
proof (cases "rg_kind current = lit ''file''")
  case True
  show ?thesis
  proof (cases "max_by (rank_le old current) (filter (\<lambda>i. \<not> consumed ! i) (file_paths old (rg_path current)))")
    case None
    then show ?thesis using assms True by (auto simp: choose_old_def split: option.splits if_splits)
  next
    case (Some k)
    then show ?thesis using assms True max_by_mem [OF Some] by (auto simp: choose_old_def file_paths_def)
  qed
next
  case False
  then have "max_by (rank_le old current) (filter (\<lambda>i. \<not> consumed ! i \<and>
      (rg_path (old ! i) = rg_path current \<or> rg_kind (old ! i) \<noteq> lit ''file'' \<and>
        (rg_blob (old ! i) = rg_blob current \<or> length old = 1 \<and> news = 1 \<or> rg_name (old ! i) = rg_name current)))
      [0..<length old]) = Some i" using assms by (simp add: choose_old_def)
  from max_by_mem [OF this] show ?thesis using False by auto
qed

lemma append_pair_shown:
  assumes "append_pair prefetch source out (map_option ((!) old) i) (map_option ((!) new) j) (Option.bind j pick) = Inr out'"
  shows "\<exists>t. out' = out @ t \<and> shown prefetch source old new pick (i, j) t"
proof (cases "unchanged_pair (map_option ((!) old) i) (map_option ((!) new) j) \<and> pair_mode (map_option ((!) old) i) (map_option ((!) new) j) = None")
  case True
  then show ?thesis using assms by (intro exI [of _ "[]"]) (auto simp: append_pair_def shown_def)
next
  case False
  then obtain x y where xy: "read_pair prefetch source (map_option ((!) old) i) (map_option ((!) new) j) = Inr (x, y)"
    using assms(1) unfolding append_pair_def if_not_P [OF False] by (auto split: prod.splits)
  show ?thesis
    using assms(1) False unfolding append_pair_def if_not_P [OF False] xy shown_def
    by (intro exI [of _ "pair_text x y (map_option ((!) old) i) (map_option ((!) new) j) (Option.bind j pick)"]) (auto simp: Let_def xy)
qed

lemma compare_new_pairs:
  fixes prefetch :: "str list \<Rightarrow> 'e option"
  assumes "compare_new prefetch source old new table js consumed out = Inr (consumed', out')"
    "length consumed = length old" "\<forall>j \<in> set js. table ! j = file_for files j"
  shows "\<exists>ps ts. seconds ps = js \<and> (None, None) \<notin> set ps \<and> distinct (firsts ps) \<and>
    (\<forall>i \<in> set (firsts ps). \<not> consumed ! i) \<and> length consumed' = length old \<and>
    (\<forall>i<length old. consumed' ! i \<longleftrightarrow> consumed ! i \<or> i \<in> set (firsts ps)) \<and>
    (\<forall>i j. (Some i, Some j) \<in> set ps \<longrightarrow> paired old new files i j) \<and> (\<forall>i \<in> set (firsts ps). i < length old) \<and>
    list_all2 (shown prefetch source old new (file_for files)) ps ts \<and> out' = out @ concat ts"
  using assms
proof (induction js arbitrary: consumed out)
  case Nil
  then show ?case by (intro exI [of _ "[]"]) auto
next
  case (Cons j js)
  from Cons.prems(1) obtain i out1 where step:
      "(choose_old old (length new) consumed (new ! j) (table ! j) :: 'e compare_error + nat option) = Inr i"
      "append_pair prefetch source out (map_option ((!) old) i) (Some (new ! j)) (table ! j) = Inr out1"
      "compare_new prefetch source old new table js (consume i consumed) out1 = Inr (consumed', out')"
    by auto
  have tj: "table ! j = file_for files j" using Cons.prems(3) by simp
  obtain t where t: "out1 = out @ t" "shown prefetch source old new (file_for files) (i, Some j) t"
    using append_pair_shown [of prefetch source out old i new "Some j" "file_for files" out1] step(2) tj by auto
  have len: "length (consume i consumed) = length old" using Cons.prems(2) by (simp add: consume_def split: option.splits)
  from Cons.IH [OF step(3) len] Cons.prems(3) obtain ps ts where IH: "seconds ps = js" "(None, None) \<notin> set ps"
      "distinct (firsts ps)" "\<forall>i' \<in> set (firsts ps). \<not> consume i consumed ! i'" "length consumed' = length old"
      "\<forall>i'<length old. consumed' ! i' \<longleftrightarrow> consume i consumed ! i' \<or> i' \<in> set (firsts ps)"
      "\<forall>i j. (Some i, Some j) \<in> set ps \<longrightarrow> paired old new files i j" "\<forall>i \<in> set (firsts ps). i < length old"
      "list_all2 (shown prefetch source old new (file_for files)) ps ts" "out' = out1 @ concat ts"
    by auto
  show ?case
  proof (cases i)
    case None
    then show ?thesis using IH t by (intro exI [of _ "(i, Some j) # ps"] exI [of _ "t # ts"]) (auto simp: consume_def)
  next
    case (Some k)
    note ok = choose_old_ok [OF step(1) [unfolded Some]]
    have k: "consume i consumed ! i' \<longleftrightarrow> consumed ! i' \<or> i' = k" if "i' < length old" for i'
      using Some that Cons.prems(2) by (cases "i' = k") (auto simp: consume_def)
    have "\<exists>p \<in> set files. fp_old p = k \<and> fp_new p = j" if "table ! j = Some p" "fp_old p = k" for p
    proof -
      have "p \<in> set (filter (\<lambda>p. fp_new p = j) files)"
        using that(1) tj last_in_set by (force simp: file_for_def Let_def split: if_splits)
      then show ?thesis using that(2) by auto
    qed
    then have "paired old new files k j" using ok by (auto simp: paired_def)
    then show ?thesis using IH t ok k Some
      by (intro exI [of _ "(i, Some j) # ps"] exI [of _ "t # ts"]) auto
  qed
qed

lemma compare_old_pairs:
  assumes "compare_old prefetch source old consumed js out = Inr out'"
  shows "\<exists>ts. list_all2 (shown prefetch source old new pick) (map (\<lambda>i. (Some i, None)) (filter (\<lambda>i. \<not> consumed ! i) js)) ts \<and>
    out' = out @ concat ts"
  using assms
proof (induction js arbitrary: out)
  case (Cons i js)
  show ?case
  proof (cases "consumed ! i")
    case True
    then show ?thesis using Cons by simp
  next
    case False
    then obtain out1 where step: "append_pair prefetch source out (Some (old ! i)) None None = Inr out1"
        "compare_old prefetch source old consumed js out1 = Inr out'" using Cons.prems by auto
    have "append_pair prefetch source out (map_option ((!) old) (Some i)) (map_option ((!) new) None) (Option.bind None pick) = Inr out1"
      using step(1) by simp
    from append_pair_shown [OF this] obtain t where t: "out1 = out @ t" "shown prefetch source old new pick (Some i, None) t"
      by blast
    from Cons.IH [OF step(2)] obtain ts where ts: "list_all2 (shown prefetch source old new pick)
          (map (\<lambda>i. (Some i, None)) (filter (\<lambda>i. \<not> consumed ! i) js)) ts"
        "out' = out1 @ concat ts" by auto
    show ?thesis by (rule exI [of _ "t # ts"]) (use ts t False in simp)
  qed
qed simp

lemma file_table_for:
  assumes "file_table files table = Inr table'" "j < length table"
  shows "table' ! j = (if file_for files j = None then table ! j else file_for files j) \<and> length table' = length table"
  using assms
proof (induction files arbitrary: table)
  case (Cons p files)
  then have "fp_new p < length table" by simp
  then show ?case using Cons by (auto simp: file_for_def Let_def nth_list_update)
qed (simp add: file_for_def)

lemma opaque_notes_text: "(opaque_notes ps out :: 'e compare_error + str) = Inr out' \<Longrightarrow> out' = out @ concat (map opaque_note ps)"
proof (induction ps arbitrary: out)
  case (Cons p ps)
  then have "(opaque_notes ps (out @ opaque_note p) :: 'e compare_error + str) = Inr out'" by (simp add: Let_def)
  from Cons.IH [OF this] show ?case by simp
qed simp

definition comparison_notes :: "str list \<Rightarrow> str list \<Rightarrow> str" where
  "comparison_notes notes opaque = concat (map (\<lambda>n. lit ''# '' @ n @ [10]) notes) @ concat (map opaque_note opaque)"

text \<open>
  C8: a comparison that succeeds shows pairs that name every new region exactly once, in order, and
  every old region exactly once; a whole file is only paired with one of its path or on the evidence
  given; the text is the notes and then the text of each pair, "No changes." when that is empty; and
  it never exceeds 64 MiB.
\<close>

theorem comparison_complete:
  fixes prefetch :: "str list \<Rightarrow> 'e option"
  assumes "comparison prefetch source old new files notes opaque = Inr out"
  shows "\<exists>pairs texts. seconds pairs = [0..<length new] \<and> distinct (firsts pairs) \<and> set (firsts pairs) = {0..<length old} \<and>
    (None, None) \<notin> set pairs \<and> (\<forall>i j. (Some i, Some j) \<in> set pairs \<longrightarrow> paired old new files i j) \<and>
    list_all2 (shown prefetch source old new (file_for files)) pairs texts \<and>
    out = (if comparison_notes notes opaque @ concat texts = [] then lit ''No changes.'' @ [10]
      else comparison_notes notes opaque @ concat texts) \<and> byte_len out \<le> canonical_limit"
proof -
  let ?done = "replicate (length old) False"
  from assms obtain out0 table consumed out1 out2 where steps:
      "(opaque_notes opaque (concat (map (\<lambda>n. lit ''# '' @ n @ [10]) notes)) :: 'e compare_error + str) = Inr out0"
      "(file_table files (replicate (length new) None) :: 'e compare_error + file_pair option list) = Inr table"
      "compare_new prefetch source old new table [0..<length new] ?done out0 = Inr (consumed, out1)"
      "compare_old prefetch source old consumed [0..<length old] out1 = Inr out2"
      "out = (if out2 = [] then lit ''No changes.'' @ [10] else out2)" "byte_len out \<le> canonical_limit"
    unfolding comparison_def by (auto simp: Let_def)
  have out0: "out0 = comparison_notes notes opaque" using opaque_notes_text [OF steps(1)] by (simp add: comparison_notes_def)
  have "\<forall>j \<in> set [0..<length new]. table ! j = file_for files j" using file_table_for [OF steps(2)] by simp
  from compare_new_pairs [OF steps(3) _ this] obtain ps ts where ps: "seconds ps = [0..<length new]" "(None, None) \<notin> set ps"
      "distinct (firsts ps)" "\<forall>i<length old. consumed ! i \<longleftrightarrow> ?done ! i \<or> i \<in> set (firsts ps)"
      "\<forall>i j. (Some i, Some j) \<in> set ps \<longrightarrow> paired old new files i j" "\<forall>i \<in> set (firsts ps). i < length old"
      "list_all2 (shown prefetch source old new (file_for files)) ps ts" "out1 = out0 @ concat ts"
    by auto
  let ?rest = "filter (\<lambda>i. \<not> consumed ! i) [0..<length old]"
  from compare_old_pairs [OF steps(4), of new "file_for files"] obtain us where us:
      "list_all2 (shown prefetch source old new (file_for files)) (map (\<lambda>i. (Some i, None)) ?rest) us" "out2 = out1 @ concat us"
    by blast
  have rest: "set ?rest = {0..<length old} - set (firsts ps)" using ps(4) by auto
  show ?thesis
  proof (intro exI conjI)
    show "seconds (ps @ map (\<lambda>i. (Some i, None)) ?rest) = [0..<length new]" using ps(1) by simp
    show "distinct (firsts (ps @ map (\<lambda>i. (Some i, None)) ?rest))" using ps(3) rest by auto
    show "set (firsts (ps @ map (\<lambda>i. (Some i, None)) ?rest)) = {0..<length old}"
      unfolding firsts_simps set_append rest using ps(6) by auto
    show "list_all2 (shown prefetch source old new (file_for files)) (ps @ map (\<lambda>i. (Some i, None)) ?rest) (ts @ us)"
      using ps(7) us(1) by (rule list_all2_appendI)
    show "out = (if comparison_notes notes opaque @ concat (ts @ us) = [] then lit ''No changes.'' @ [10]
        else comparison_notes notes opaque @ concat (ts @ us))"
      using steps(5) us(2) ps(8) out0 by simp
  qed (use ps(2,5) steps(6) in auto)
qed

text \<open>Two files that did not change, under a note.\<close>

definition sample_files :: "region list" where
  "sample_files = [whole_region [97] [1] 33188, whole_region [98] [2] 33188]"

definition sample_comparison :: "unit compare_error + str" where
  "sample_comparison = comparison (\<lambda>_. None) (\<lambda>path blob. Inr []) sample_files sample_files [] [[110]] []"

lemma append_same: "append_pair prefetch source out (Some r) (Some r) pick = Inr out"
  by (simp add: append_pair_def unchanged_pair_def both_regions_def pair_mode_def mode_change_def split: option.splits)

lemma sample_choose:
  "(choose_old sample_files 2 [False, False] (sample_files ! 0) None :: unit compare_error + nat option) = Inr (Some 0)"
  "(choose_old sample_files 2 [True, False] (sample_files ! 1) None :: unit compare_error + nat option) = Inr (Some 1)"
  by (simp_all add: choose_old_def file_paths_def max_by_def sample_files_def whole_region_def passage_def upt_rec)

lemma sample_comparison_text: "sample_comparison = Inr (lit ''# n'' @ [10])"
proof -
  have len: "length sample_files = 2" by (simp add: sample_files_def)
  have "compare_new (\<lambda>_. None) (\<lambda>path blob. (Inr [] :: unit + str)) sample_files sample_files [None, None] [0, 1] [False, False] out =
      Inr ([True, True], out)" for out
    by (simp only: compare_new.simps len nth_Cons_0 nth_Cons_numeral One_nat_def nth_Cons_Suc sample_choose [unfolded One_nat_def]
      bindE_simps option.map append_same consume_def option.case list_update_code)
  then have "compare_new (\<lambda>_. None) (\<lambda>path blob. (Inr [] :: unit + str)) sample_files sample_files (replicate 2 None) [0..<2]
      (replicate 2 False) out = Inr ([True, True], out)" for out
    by (simp add: numeral_2_eq_2)
  then show ?thesis
    unfolding sample_comparison_def comparison_def len by (simp add: upt_rec lit_def canonical_limit_def utf8_char_def)
qed

theorem comparison_complete_witness:
  "sample_comparison = Inr (lit ''# n'' @ [10]) \<and> (\<exists>pairs texts. seconds pairs = [0, 1] \<and> set (firsts pairs) = {0, 1} \<and>
    list_all2 (shown (\<lambda>_. None) (\<lambda>path blob. (Inr [] :: unit + str)) sample_files sample_files (file_for [])) pairs texts)"
proof -
  from comparison_complete [OF sample_comparison_text [unfolded sample_comparison_def]] obtain pairs texts where p:
      "seconds pairs = [0..<length sample_files]" "set (firsts pairs) = {0..<length sample_files}"
      "list_all2 (shown (\<lambda>_. None) (\<lambda>path blob. (Inr [] :: unit + str)) sample_files sample_files (file_for [])) pairs texts"
    by blast
  have len: "length sample_files = 2" by (simp add: sample_files_def)
  have "seconds pairs = [0, 1]" using p(1) unfolding len by (simp add: numeral_2_eq_2)
  moreover have "set (firsts pairs) = {0, 1}" using p(2) unfolding len by (simp add: atLeast0_lessThan_Suc numeral_2_eq_2 insert_commute)
  ultimately show ?thesis using p(3) sample_comparison_text by blast
qed

end
