(* ===== verification/Trace.thy ===== *)
theory Trace
  imports Walk Comparison
begin

text \<open>
  The tracing of a selection through an interval of commits, \<^verbatim>\<open>src/src/history/mod.rs\<close>: states are
  mapped from children to parents in the order of the graph, then absences are completed forward
  over branches; every step gives a record of what the edge changed. Mapping a state over one edge
  and reading the text of a region are parameters, and so are the bytes a state holds and the
  errors of the store. Cancellation is not modelled. A missing map entry, which panics, is
  \<open>TracePanic\<close>, and \<open>TraceStuck\<close> a loop of the merge filter that would not end.
\<close>

section \<open>Records\<close>

record history_record =
  hr_changed :: bool
  hr_plus :: nat
  hr_minus :: nat
  hr_counted :: bool
  hr_uncertain :: bool
  hr_scope_unresolved :: bool
  hr_ancestry_unresolved :: bool
  hr_partial :: bool
  hr_suppressed :: bool
  hr_notes :: "str set"

definition empty_record :: history_record where
  "empty_record = \<lparr>hr_changed = False, hr_plus = 0, hr_minus = 0, hr_counted = False, hr_uncertain = False,
     hr_scope_unresolved = False, hr_ancestry_unresolved = False, hr_partial = False, hr_suppressed = False, hr_notes = {}\<rparr>"

record trace =
  tr_states :: "str \<rightharpoonup> state"
  tr_records :: "str \<rightharpoonup> history_record"

record mapping =
  mp_state :: state
  mp_links :: "link list"

definition absent_mapping :: mapping where
  "absent_mapping = \<lparr>mp_state = absent_state, mp_links = []\<rparr>"

datatype 'e trace_error = TracePanic | TraceStuck | TraceTooLarge | UnfinishedComparison str str 'e | UnfinishedBridge str str 'e
  | UnmappedParent str | AbsenceDisagrees str | CompetingPredecessors str | RecordError "'e compare_error" | MapError 'e

text \<open>What tracing uses of the tracker.\<close>

record 'e tracker =
  tk_map :: "commit \<Rightarrow> commit \<Rightarrow> state \<Rightarrow> 'e + mapping"
  tk_text :: "region \<Rightarrow> 'e + str"
  tk_prefetch :: "str list \<Rightarrow> 'e option"
  tk_source :: "str \<Rightarrow> str \<Rightarrow> 'e + str"
  tk_bytes :: "state \<Rightarrow> nat"

definition map_error :: "('e \<Rightarrow> 'f) \<Rightarrow> 'e + 'a \<Rightarrow> 'f + 'a" where
  "map_error f r = (case r of Inl e \<Rightarrow> Inl (f e) | Inr x \<Rightarrow> Inr x)"

definition single_value :: "'e tracker \<Rightarrow> state \<Rightarrow> 'e trace_error + region_value option" where
  "single_value tk s =
     (if sa_uncertain s then Inr None
      else (case (sa_regions s, sa_absent s) of
          ([], True) \<Rightarrow> if sa_paths s = [] then Inr (Some ValueAbsent) else Inr None
        | ([r], False) \<Rightarrow> bindE (map_error MapError (tk_text tk r)) (\<lambda>t. Inr (Some (ValuePresent t)))
        | _ \<Rightarrow> Inr None))"

section \<open>File pairs from links\<close>

fun link_pairs :: "region list \<Rightarrow> region list \<Rightarrow> link list \<Rightarrow> file_pair list" where
  "link_pairs old new [] = []"
| "link_pairs old new (l # ls) =
     (if lk_absence_alternative l \<or> rg_kind (lk_from l) \<noteq> lit ''file'' \<or> rg_kind (lk_to l) \<noteq> lit ''file'' \<or>
         rg_path (lk_from l) = rg_path (lk_to l)
      then link_pairs old new ls
      else (case (find_first (\<lambda>r. same_alternative r (lk_to l)) old, find_first (\<lambda>r. same_alternative r (lk_from l)) new) of
          (Some i, Some j) \<Rightarrow>
            if list_ex (\<lambda>r. rg_path r = rg_path (old ! i)) new \<or> list_ex (\<lambda>r. rg_path r = rg_path (new ! j)) old
            then link_pairs old new ls
            else \<lparr>fp_old = i, fp_new = j, fp_change = (if lk_relation l = RelCopy then FcCopy else FcMove),
                fp_uncertain = lk_uncertain l\<rparr> # link_pairs old new ls
        | _ \<Rightarrow> link_pairs old new ls))"

text \<open>\<open>before\<close> and \<open>after\<close> count the pairs of each side; only unrivalled pairs are kept.\<close>

definition linked_files :: "region list \<Rightarrow> region list \<Rightarrow> link list \<Rightarrow> file_pair list" where
  "linked_files old new links =
     (let pairs = link_pairs old new links
      in filter (\<lambda>p. length (filter (\<lambda>q. fp_old q = fp_old p) pairs) = 1 \<and>
          length (filter (\<lambda>q. fp_new q = fp_new p) pairs) = 1) pairs)"

section \<open>Edge records\<close>

definition link_notes :: "link \<Rightarrow> str set" where
  "link_notes l =
     (if lk_absence_alternative l
      then {lit ''add '' @ rg_path (lk_from l) @ lit '' (path only; predecessor unresolved)''} else {}) \<union>
     set_option (link_label l) \<union> set_option (mode_change (lk_to l) (lk_from l))"

text \<open>The lines of a diff that count as added or removed.\<close>

definition count_lines :: "str \<Rightarrow> str \<Rightarrow> str \<Rightarrow> nat" where
  "count_lines mark header t = length (filter (\<lambda>l. starts_with l mark \<and> \<not> starts_with l header) (split_inclusive t))"

definition identical_files :: "state \<Rightarrow> state \<Rightarrow> bool" where
  "identical_files old new = (case (sa_regions old, sa_regions new) of
     ([a], [b]) \<Rightarrow> rg_kind a = lit ''file'' \<and> rg_kind b = lit ''file'' \<and> rg_blob a = rg_blob b \<and>
       \<not> sa_absent old \<and> \<not> sa_absent new
   | _ \<Rightarrow> False)"

definition edge_counts :: "'e tracker \<Rightarrow> state \<Rightarrow> state \<Rightarrow> str \<Rightarrow> history_record \<Rightarrow> 'e trace_error + history_record" where
  "edge_counts tk old new canonical r =
     (if identical_files old new then Inr (r\<lparr>hr_counted := \<not> hr_uncertain r\<rparr>)
      else bindE (single_value tk old) (\<lambda>a. bindE (single_value tk new) (\<lambda>b.
        case (a, b) of
          (Some a, Some b) \<Rightarrow> (case counts (value_text a) (value_text b) of (added, removed) \<Rightarrow>
            Inr (r\<lparr>hr_plus := added, hr_minus := removed\<rparr>))
        | _ \<Rightarrow> if hr_uncertain r then Inr (r\<lparr>hr_counted := False\<rparr>)
            else Inr (r\<lparr>hr_counted := True, hr_plus := count_lines (lit ''+'') (lit ''+++ '') canonical,
              hr_minus := count_lines (lit ''-'') (lit ''--- '') canonical\<rparr>))))"

definition edge_record :: "'e tracker \<Rightarrow> state \<Rightarrow> mapping \<Rightarrow> 'e trace_error + history_record" where
  "edge_record tk s m =
     (let prior = mp_state m;
          r = empty_record\<lparr>hr_uncertain := sa_uncertain s \<or> sa_uncertain prior,
            hr_scope_unresolved := sa_scope_unresolved s \<or> sa_scope_unresolved prior,
            hr_ancestry_unresolved := sa_ancestry_unresolved s \<or> sa_ancestry_unresolved prior,
            hr_counted := True, hr_notes := \<Union> (link_notes ` set (mp_links m))\<rparr>
      in if list_ex lk_absence_alternative (mp_links m) then Inr (r\<lparr>hr_changed := True, hr_counted := False\<rparr>)
         else bindE (map_error RecordError (comparison (tk_prefetch tk) (tk_source tk) (sa_regions prior) (sa_regions s)
             (linked_files (sa_regions prior) (sa_regions s) (mp_links m)) [] [])) (\<lambda>canonical.
           let r = r\<lparr>hr_changed := canonical \<noteq> lit ''No changes.'' @ [10] \<or> hr_notes r \<noteq> {}\<rparr>
           in if \<not> hr_changed r then Inr r
              else bindE (edge_counts tk prior s canonical r) (\<lambda>r.
                Inr (if hr_notes r = {} then r\<lparr>hr_notes := {if sa_regions prior = [] then lit ''add''
                  else if sa_regions s = [] then lit ''delete'' else lit ''edit''}\<rparr> else r))))"

definition combine :: "history_record \<Rightarrow> history_record \<Rightarrow> history_record" where
  "combine r other = r\<lparr>hr_changed := hr_changed r \<or> hr_changed other, hr_uncertain := hr_uncertain r \<or> hr_uncertain other,
     hr_scope_unresolved := hr_scope_unresolved r \<or> hr_scope_unresolved other,
     hr_ancestry_unresolved := hr_ancestry_unresolved r \<or> hr_ancestry_unresolved other,
     hr_notes := hr_notes r \<union> hr_notes other, hr_counted := False\<rparr>"

definition add_record :: "history_record option \<Rightarrow> history_record \<Rightarrow> history_record option" where
  "add_record r edge = Some (case r of None \<Rightarrow> edge | Some r \<Rightarrow> combine r edge)"

section \<open>Backwards\<close>

definition trace_memory :: nat where "trace_memory = 128 * 1024 * 1024"

definition retain_state :: "'e tracker \<Rightarrow> nat \<Rightarrow> state \<Rightarrow> 'e trace_error + nat" where
  "retain_state tk bytes s = (let bytes = saturating_add bytes (tk_bytes tk s)
     in ensureE (bytes \<le> trace_memory) TraceTooLarge (Inr bytes))"

definition graph_commit :: "graph \<Rightarrow> str \<Rightarrow> 'e trace_error + commit" where
  "graph_commit g oid = (case map_of (g_commits g) oid of None \<Rightarrow> Inl TracePanic | Some c \<Rightarrow> Inr c)"

definition set_state :: "str \<Rightarrow> state \<Rightarrow> trace \<Rightarrow> trace" where
  "set_state oid s t = t\<lparr>tr_states := (tr_states t)(oid \<mapsto> s)\<rparr>"

definition set_record :: "str \<Rightarrow> history_record \<Rightarrow> trace \<Rightarrow> trace" where
  "set_record oid r t = t\<lparr>tr_records := (tr_records t)(oid \<mapsto> r)\<rparr>"

fun back_parents :: "'e tracker \<Rightarrow> graph \<Rightarrow> bool \<Rightarrow> commit \<Rightarrow> state \<Rightarrow> str list \<Rightarrow> history_record option \<Rightarrow> trace \<Rightarrow>
    'e trace_error + history_record option \<times> trace" where
  "back_parents tk g records c s [] r t = Inr (r, t)"
| "back_parents tk g records c s (p # ps) r t =
     bindE (graph_commit g p) (\<lambda>parent.
     bindE (map_error (UnfinishedComparison (ct_id c) p) (tk_map tk c parent s)) (\<lambda>m.
     bindE (if records then bindE (edge_record tk s m) (\<lambda>edge. Inr (add_record r edge)) else Inr r) (\<lambda>r.
       back_parents tk g records c s ps r
         (set_state p (join_state (case tr_states t p of None \<Rightarrow> empty_state | Some old \<Rightarrow> old) (mp_state m)) t))))"

definition back_step :: "'e tracker \<Rightarrow> graph \<Rightarrow> bool \<Rightarrow> str \<Rightarrow> trace \<times> nat \<Rightarrow> 'e trace_error + trace \<times> nat" where
  "back_step tk g records oid tb = (case tb of (t, bytes) \<Rightarrow> (case tr_states t oid of
     None \<Rightarrow> Inr (t, bytes)
   | Some s \<Rightarrow> bindE (retain_state tk bytes s) (\<lambda>bytes.
       if is_absent s then Inr (t, bytes)
       else bindE (graph_commit g oid) (\<lambda>c.
         bindE (back_parents tk g records c s (ct_parents c) None t) (\<lambda>(r, t).
           if records then bindE (case r of Some r \<Rightarrow> Inr r | None \<Rightarrow> edge_record tk s absent_mapping) (\<lambda>r.
             Inr (set_record oid r t, bytes))
           else Inr (t, bytes))))))"

section \<open>Forwards\<close>

fun bridge_states :: "'e tracker \<Rightarrow> graph \<Rightarrow> commit \<Rightarrow> (str \<times> state) list \<Rightarrow> state \<Rightarrow> 'e trace_error + state" where
  "bridge_states tk g child [] s = Inr s"
| "bridge_states tk g child ((p, prior) # ps) s =
     bindE (graph_commit g p) (\<lambda>parent.
     bindE (map_error (UnfinishedBridge p (ct_id child)) (tk_map tk parent child prior)) (\<lambda>m.
       bridge_states tk g child ps (join_state s (mp_state m))))"

fun bridge_records :: "'e tracker \<Rightarrow> graph \<Rightarrow> str \<Rightarrow> commit \<Rightarrow> state \<Rightarrow> (str \<times> state) list \<Rightarrow> history_record option \<Rightarrow>
    'e trace_error + history_record option" where
  "bridge_records tk g oid child s [] r = Inr r"
| "bridge_records tk g oid child s ((p, prior) # ps) r =
     bindE (if is_absent s \<or> is_absent prior then Inr \<lparr>mp_state = prior, mp_links = []\<rparr>
        else bindE (graph_commit g p) (\<lambda>parent. bindE (map_error MapError (tk_map tk child parent s)) (\<lambda>m.
          let expected = (if sa_ancestry_unresolved s then prior\<lparr>sa_absent := sa_absent prior \<or> sa_absent s\<rparr> else prior)
          in ensureE (same_occurrences (mp_state m) expected) (CompetingPredecessors oid) (Inr m)))) (\<lambda>m.
     bindE (edge_record tk s m) (\<lambda>edge. bridge_records tk g oid child s ps (add_record r edge)))"

definition inherit_marks :: "state option \<Rightarrow> state \<Rightarrow> state" where
  "inherit_marks previous s = (case previous of None \<Rightarrow> s
   | Some p \<Rightarrow> s\<lparr>sa_uncertain := sa_uncertain s \<or> sa_uncertain p, sa_scope_unresolved := sa_scope_unresolved s \<or> sa_scope_unresolved p,
       sa_ancestry_unresolved := sa_ancestry_unresolved s \<or> sa_ancestry_unresolved p\<rparr>)"

definition known_parents :: "trace \<Rightarrow> str list \<Rightarrow> (str \<times> state) list" where
  "known_parents t ps = List.map_filter (\<lambda>p. map_option (Pair p) (tr_states t p)) ps"

definition forward_step :: "'e tracker \<Rightarrow> graph \<Rightarrow> bool \<Rightarrow> str \<Rightarrow> trace \<times> nat \<Rightarrow> 'e trace_error + trace \<times> nat" where
  "forward_step tk g records oid tb = (case tb of (t, bytes) \<Rightarrow>
     (if (case tr_states t oid of None \<Rightarrow> False | Some s \<Rightarrow> \<not> is_absent s) then Inr (t, bytes)
      else bindE (graph_commit g oid) (\<lambda>child.
        let parents = known_parents t (ct_parents child)
        in if parents = [] then Inr (t, bytes)
           else if length parents \<noteq> length (ct_parents child)
           then ensureE (list_all (\<lambda>(_, s). is_absent s) parents) (UnmappedParent oid) (Inr (t, bytes))
           else bindE (bridge_states tk g child parents empty_state) (\<lambda>s.
             ensureE (tr_states t oid = None \<or> is_absent s) (AbsenceDisagrees oid)
               (let s = inherit_marks (tr_states t oid) s
                in bindE (if records then bridge_records tk g oid child s parents None else Inr None) (\<lambda>r.
                  let t = (case r of None \<Rightarrow> t | Some r \<Rightarrow> set_record oid r t)
                  in bindE (retain_state tk bytes s) (\<lambda>bytes. Inr (set_state oid s t, bytes))))))))"

definition forwards :: "'e tracker \<Rightarrow> graph \<Rightarrow> bool \<Rightarrow> trace \<times> nat \<Rightarrow> 'e trace_error + trace \<times> nat" where
  "forwards tk g records = foldE (forward_step tk g records) (rev (g_order g))"

definition back_pass :: "'e tracker \<Rightarrow> graph \<Rightarrow> str \<Rightarrow> state \<Rightarrow> bool \<Rightarrow> 'e trace_error + trace \<times> nat" where
  "back_pass tk g at_id s records =
     foldE (back_step tk g records) (g_order g) (\<lparr>tr_states = [at_id \<mapsto> s], tr_records = Map.empty\<rparr>, 0)"

definition backwards :: "'e tracker \<Rightarrow> graph \<Rightarrow> str \<Rightarrow> state \<Rightarrow> bool \<Rightarrow> 'e trace_error + trace" where
  "backwards tk g at_id s records =
     bindE (back_pass tk g at_id s records) (\<lambda>(t, bytes).
     bindE (case Option.bind (g_boundary g) (tr_states t) of None \<Rightarrow> Inr bytes | Some s \<Rightarrow> retain_state tk bytes s) (\<lambda>bytes.
     bindE (forwards tk g records (t, bytes)) (\<lambda>(t, _). Inr t)))"

end
