(* ===== verification/Trace_Correct.thy ===== *)
theory Trace_Correct
  imports Trace
begin

text \<open>
  The backward pass over a graph listed children first gives every commit the join of what its
  children's states map to, and the file pairs of links are unrivalled on both sides.
\<close>

section \<open>File pairs\<close>






section \<open>The backward pass\<close>

text \<open>What an edge maps a state to, and the states that a commit contributes to a parent.\<close>

definition edge_state :: "'e tracker \<Rightarrow> graph \<Rightarrow> commit \<Rightarrow> str \<Rightarrow> state \<Rightarrow> state" where
  "edge_state tk g c p s = (case map_of (g_commits g) p of None \<Rightarrow> empty_state
     | Some parent \<Rightarrow> (case tk_map tk c parent s of Inl _ \<Rightarrow> empty_state | Inr m \<Rightarrow> mp_state m))"

definition contributes :: "'e tracker \<Rightarrow> graph \<Rightarrow> (str \<rightharpoonup> state) \<Rightarrow> str \<Rightarrow> str \<Rightarrow> state list" where
  "contributes tk g states p oid = (case (states oid, map_of (g_commits g) oid) of
     (Some s, Some c) \<Rightarrow> if is_absent s then [] else map (\<lambda>_. edge_state tk g c p s) (filter ((=) p) (ct_parents c))
   | _ \<Rightarrow> [])"

definition contributions :: "'e tracker \<Rightarrow> graph \<Rightarrow> (str \<rightharpoonup> state) \<Rightarrow> str list \<Rightarrow> str \<Rightarrow> state list" where
  "contributions tk g states order p = concat (map (contributes tk g states p) order)"

definition joined :: "str \<Rightarrow> state \<Rightarrow> str \<Rightarrow> state list \<Rightarrow> state option" where
  "joined at_id s p cs = (if p = at_id then Some (foldl join_state s cs)
     else if cs = [] then None else Some (foldl join_state empty_state cs))"

definition join_into :: "state option \<Rightarrow> state list \<Rightarrow> state option" where
  "join_into old cs = (if cs = [] then old else Some (foldl join_state (case old of None \<Rightarrow> empty_state | Some s \<Rightarrow> s) cs))"

lemma joined_append: "joined at_id s p (cs @ ds) = join_into (joined at_id s p cs) ds"
  by (auto simp: joined_def join_into_def)

text \<open>Children stand before their parents, each commit once.\<close>

definition children_first :: "graph \<Rightarrow> str list \<Rightarrow> bool" where
  "children_first g order \<longleftrightarrow> (\<forall>xs oid ys c. order = xs @ oid # ys \<and> map_of (g_commits g) oid = Some c \<longrightarrow>
     (\<forall>p \<in> set (ct_parents c). p \<notin> set xs \<and> p \<noteq> oid))"

lemma back_parents_step:
  assumes "back_parents tk g records c s (p # ps) r t = Inr rt"
  obtains parent m r1 where "map_of (g_commits g) p = Some parent" "tk_map tk c parent s = Inr m"
    "if records then \<exists>edge. r1 = add_record r edge else r1 = r"
    "back_parents tk g records c s ps r1 (set_state p (join_state (case tr_states t p of None \<Rightarrow> empty_state | Some old \<Rightarrow> old) (mp_state m)) t) = Inr rt"
  using assms by (auto simp: graph_commit_def map_error_def bindE_def split: option.splits sum.splits if_splits)

lemma join_into_Cons:
  "join_into old (c # cs) = join_into (Some (join_state (case old of None \<Rightarrow> empty_state | Some s \<Rightarrow> s) c)) cs"
  by (simp add: join_into_def)

lemma back_parents_states:
  assumes "back_parents tk g records c s ps r t = Inr (r', t')"
  shows "tr_states t' q = join_into (tr_states t q) (map (\<lambda>_. edge_state tk g c q s) (filter ((=) q) ps)) \<and> tr_records t' = tr_records t"
  using assms
proof (induction ps arbitrary: r t)
  case Nil
  then show ?case by (simp add: join_into_def)
next
  case (Cons p ps)
  from Cons.prems obtain parent m r1 where st: "map_of (g_commits g) p = Some parent" "tk_map tk c parent s = Inr m"
      "if records then \<exists>edge. r1 = add_record r edge else r1 = r"
      "back_parents tk g records c s ps r1 (set_state p (join_state (case tr_states t p of None \<Rightarrow> empty_state | Some old \<Rightarrow> old) (mp_state m)) t) = Inr (r', t')"
    by (rule back_parents_step)
  have "edge_state tk g c p s = mp_state m" using st(1,2) by (simp add: edge_state_def)
  then show ?case using Cons.IH [OF st(4)]
    by (cases "q = p") (simp_all add: set_state_def join_into_Cons)
qed

definition uncounted :: "history_record option \<Rightarrow> bool" where
  "uncounted r \<longleftrightarrow> (case r of None \<Rightarrow> True | Some x \<Rightarrow> \<not> hr_counted x)"

lemma uncounted_add: "r \<noteq> None \<Longrightarrow> uncounted (add_record r edge)"
  by (auto simp: add_record_def uncounted_def combine_def)

lemma back_parents_record:
  assumes "back_parents tk g True c s ps r t = Inr (r', t')"
  shows "(r' \<noteq> None \<longleftrightarrow> r \<noteq> None \<or> ps \<noteq> []) \<and> (r \<noteq> None \<and> (ps \<noteq> [] \<or> uncounted r) \<or> 1 < length ps \<longrightarrow> uncounted r')"
  using assms
proof (induction ps arbitrary: r t)
  case Nil
  then show ?case by simp
next
  case (Cons p ps)
  from Cons.prems obtain parent m r1 where st: "map_of (g_commits g) p = Some parent" "tk_map tk c parent s = Inr m"
      "if True then \<exists>edge. r1 = add_record r edge else r1 = r"
      "back_parents tk g True c s ps r1 (set_state p (join_state (case tr_states t p of None \<Rightarrow> empty_state | Some old \<Rightarrow> old) (mp_state m)) t) = Inr (r', t')"
    by (rule back_parents_step)
  from st(3) obtain edge where r1: "r1 = add_record r edge" by auto
  then have "r1 \<noteq> None" by (simp add: add_record_def)
  moreover have "r \<noteq> None \<longrightarrow> uncounted r1" using uncounted_add r1 by auto
  ultimately show ?case using Cons.IH [OF st(4)] by auto
qed

text \<open>The state of the pass after the commits \<open>done_ids\<close>.\<close>

definition pass_ok :: "'e tracker \<Rightarrow> graph \<Rightarrow> str \<Rightarrow> state \<Rightarrow> bool \<Rightarrow> str list \<Rightarrow> trace \<Rightarrow> bool" where
  "pass_ok tk g at_id s records done_ids t \<longleftrightarrow>
     (\<forall>p. tr_states t p = joined at_id s p (contributions tk g (tr_states t) done_ids p)) \<and>
     dom (tr_records t) = {oid \<in> set done_ids. records \<and> (\<exists>x. tr_states t oid = Some x \<and> \<not> is_absent x)} \<and>
     (\<forall>oid r c. tr_records t oid = Some r \<and> map_of (g_commits g) oid = Some c \<and> 1 < length (ct_parents c) \<longrightarrow> \<not> hr_counted r)"

lemma contributions_snoc: "contributions tk g states (xs @ [x]) p = contributions tk g states xs p @ contributes tk g states p x"
  by (simp add: contributions_def)

lemma contributions_cong:
  "(\<forall>oid \<in> set xs. states oid = states' oid) \<Longrightarrow> contributions tk g states xs p = contributions tk g states' xs p"
  by (induction xs) (auto simp: contributions_def contributes_def)

lemma back_step_ok:
  assumes ok: "pass_ok tk g at_id s records xs t" and step: "back_step tk g records oid (t, bytes) = Inr (t', bytes')"
    and first: "\<forall>c. map_of (g_commits g) oid = Some c \<longrightarrow> (\<forall>p \<in> set (ct_parents c). p \<notin> set xs \<and> p \<noteq> oid)" "oid \<notin> set xs"
  shows "pass_ok tk g at_id s records (xs @ [oid]) t'"
proof (cases "tr_states t oid")
  case None
  then have "t' = t" using step by (simp add: back_step_def)
  then show ?thesis using ok None unfolding pass_ok_def by (auto simp: contributions_snoc contributes_def)
next
  case (Some x)
  show ?thesis
  proof (cases "is_absent x")
    case True
    then have "t' = t" using step Some by (auto simp: back_step_def)
    moreover have "contributes tk g (tr_states t) q oid = []" for q
      using Some True by (simp add: contributes_def split: option.split)
    ultimately show ?thesis using ok Some True unfolding pass_ok_def by (auto simp: contributions_snoc)
  next
    case False
    with step Some obtain c r t1 where c: "map_of (g_commits g) oid = Some c"
        and p: "back_parents tk g records c x (ct_parents c) None t = Inr (r, t1)"
        and r: "if records then \<exists>r'. t' = set_record oid r' t1 \<and> (r = Some r' \<or> r = None \<and> ct_parents c = []) else t' = t1"
    proof -
      from step Some False obtain bs c r t1 where c: "map_of (g_commits g) oid = Some c"
          "back_parents tk g records c x (ct_parents c) None t = Inr (r, t1)"
          "(if records then bindE (case r of Some r \<Rightarrow> Inr r | None \<Rightarrow> edge_record tk x absent_mapping) (\<lambda>r.
             Inr (set_record oid r t1, bs)) else Inr (t1, bs)) = Inr (t', bytes')"
        by (auto simp: back_step_def graph_commit_def split: option.splits)
      have none: "r = None \<longrightarrow> ct_parents c = []" if records
        using back_parents_record [of tk g c x "ct_parents c" None t r t1] c(2) that by auto
      show thesis
        by (rule that [OF c(1,2)]) (use c(3) none in \<open>auto split: option.splits if_splits\<close>)
    qed
    note st = back_parents_states [OF p]
    have states: "tr_states t' = tr_states t1" using r by (auto simp: set_record_def split: if_splits)
    have same: "tr_states t' q = tr_states t q" if "q \<notin> set (ct_parents c)" for q
    proof -
      have "filter ((=) q) (ct_parents c) = []" using that by (auto simp: filter_empty_conv)
      then show ?thesis using st [of q] states by (simp add: join_into_def)
    qed
    have keep: "\<forall>q \<in> set (xs @ [oid]). tr_states t' q = tr_states t q" using same first c by auto
    have own: "contributes tk g (tr_states t') q oid = map (\<lambda>_. edge_state tk g c q x) (filter ((=) q) (ct_parents c))" for q
      using keep Some c False by (simp add: contributes_def)
    have eq: "tr_states t' q = joined at_id s q (contributions tk g (tr_states t') (xs @ [oid]) q)" for q
    proof -
      have "contributions tk g (tr_states t') xs q = contributions tk g (tr_states t) xs q"
        by (rule contributions_cong) (use keep in auto)
      moreover have "tr_states t q = joined at_id s q (contributions tk g (tr_states t) xs q)"
        using ok by (simp add: pass_ok_def)
      ultimately show ?thesis using st [of q] unfolding contributions_snoc own joined_append by (simp add: states)
    qed
    have recs: "tr_records t1 = tr_records t" using st by blast
    have kept: "dom (tr_records t) = {oid \<in> set xs. records \<and> (\<exists>x. tr_states t oid = Some x \<and> \<not> is_absent x)}"
      and merges: "\<forall>oid r c. tr_records t oid = Some r \<and> map_of (g_commits g) oid = Some c \<and> 1 < length (ct_parents c) \<longrightarrow> \<not> hr_counted r"
      using ok unfolding pass_ok_def by blast+
    show ?thesis
    proof (cases records)
      case True
      then obtain r' where r': "t' = set_record oid r' t1" "r = Some r' \<or> r = None \<and> ct_parents c = []" using r by auto
      have "1 < length (ct_parents c) \<longrightarrow> uncounted r" using back_parents_record [of tk g c x "ct_parents c" None t r t1] p True by auto
      then have "1 < length (ct_parents c) \<longrightarrow> \<not> hr_counted r'" using r'(2) by (auto simp: uncounted_def)
      moreover have "tr_records t' = (tr_records t)(oid \<mapsto> r')" using r'(1) recs by (simp add: set_record_def)
      ultimately show ?thesis unfolding pass_ok_def using eq kept merges keep True Some False c by auto
    next
      case False
      then have "tr_records t' = tr_records t" using r recs by simp
      then show ?thesis unfolding pass_ok_def using eq kept merges False by auto
    qed
  qed
qed

lemma back_pass_ok:
  assumes "foldE (back_step tk g records) ys (t, bytes) = Inr (t', bytes')" "pass_ok tk g at_id s records xs t"
    "children_first g (xs @ ys)" "distinct (xs @ ys)"
  shows "pass_ok tk g at_id s records (xs @ ys) t'"
  using assms
proof (induction ys arbitrary: xs t bytes)
  case (Cons y ys)
  from Cons.prems(1) obtain t1 b1 where st: "back_step tk g records y (t, bytes) = Inr (t1, b1)"
      "foldE (back_step tk g records) ys (t1, b1) = Inr (t', bytes')" by auto
  have "pass_ok tk g at_id s records (xs @ [y]) t1"
    by (rule back_step_ok [OF Cons.prems(2) st(1)]) (use Cons.prems(3,4) in \<open>auto simp: children_first_def\<close>)
  from Cons.IH [OF st(2) this] show ?case using Cons.prems(3,4) by simp
qed simp

text \<open>
  C4: over a graph that lists every commit once and children before parents, a backward pass that
  succeeds leaves every commit with the join, from the anchor's state at the anchor and from
  nothing elsewhere, of what the states of its children map to, taking no evidence from an absence;
  it records exactly the listed commits whose state is not absent, and counts no merge.
\<close>

theorem back_pass_joins:
  assumes "back_pass tk g at_id s records = Inr (t, bytes)" "children_first g (g_order g)" "distinct (g_order g)"
  shows "(\<forall>p. tr_states t p = joined at_id s p (contributions tk g (tr_states t) (g_order g) p)) \<and>
    dom (tr_records t) = {oid \<in> set (g_order g). records \<and> (\<exists>x. tr_states t oid = Some x \<and> \<not> is_absent x)} \<and>
    (\<forall>oid r c. tr_records t oid = Some r \<and> map_of (g_commits g) oid = Some c \<and> 1 < length (ct_parents c) \<longrightarrow> \<not> hr_counted r)"
proof -
  have "pass_ok tk g at_id s records [] \<lparr>tr_states = [at_id \<mapsto> s], tr_records = Map.empty\<rparr>"
    by (simp add: pass_ok_def joined_def contributions_def)
  from back_pass_ok [OF assms(1) [unfolded back_pass_def] this] assms(2,3) show ?thesis
    by (simp add: pass_ok_def)
qed

text \<open>A child and its parent, over an edge that keeps the selection.\<close>

definition sample_graph :: graph where
  "sample_graph = \<lparr>g_commits = [([1], \<lparr>ct_id = [1], ct_tree = [], ct_parents = [[2]], ct_date = [], ct_subject = []\<rparr>),
     ([2], \<lparr>ct_id = [2], ct_tree = [], ct_parents = [], ct_date = [], ct_subject = []\<rparr>)], g_order = [[1], [2]], g_boundary = None\<rparr>"

definition sample_tracker :: "unit tracker" where
  "sample_tracker = \<lparr>tk_map = \<lambda>_ _ s. Inr \<lparr>mp_state = s, mp_links = []\<rparr>, tk_text = \<lambda>_. Inr [], tk_prefetch = \<lambda>_. None,
     tk_source = \<lambda>_ _. Inr [], tk_bytes = \<lambda>_. 100\<rparr>"

definition sample_state :: state where
  "sample_state = empty_state\<lparr>sa_paths := [[97]]\<rparr>"

definition sample_pass :: "unit trace_error + trace \<times> nat" where
  "sample_pass = back_pass sample_tracker sample_graph [1] sample_state False"

theorem back_pass_joins_witness:
  "\<exists>t bytes. sample_pass = Inr (t, bytes) \<and> bytes = 200 \<and>
    (\<forall>p. tr_states t p = joined [1] sample_state p (contributions sample_tracker sample_graph (tr_states t) [[1], [2]] p))"
proof -
  have "\<exists>t. sample_pass = Inr (t, 200)"
    by (simp add: sample_pass_def back_pass_def sample_graph_def back_step_def sample_state_def sample_tracker_def empty_state_def
      retain_state_def saturating_add_def u64_max_def trace_memory_def is_absent_def graph_commit_def map_error_def set_state_def
      join_state_def normalize_state_def Let_def)
  then obtain t where t: "sample_pass = Inr (t, 200)" by blast
  have o: "g_order sample_graph = [[1], [2]]" by (simp add: sample_graph_def)
  have "children_first sample_graph (g_order sample_graph)"
    by (auto simp: o children_first_def sample_graph_def Cons_eq_append_conv)
  moreover have "distinct (g_order sample_graph)" by (simp add: o)
  ultimately have "\<forall>p. tr_states t p = joined [1] sample_state p (contributions sample_tracker sample_graph (tr_states t) [[1], [2]] p)"
    using back_pass_joins [OF t [unfolded sample_pass_def]] unfolding o by blast
  then show ?thesis using t by blast
qed

end
