(* ===== verification/Merges.thy ===== *)
theory Merges
  imports Trace
begin

text \<open>
  The merge filter of \<^verbatim>\<open>src/src/history/merges.rs\<close>: at every merge with one base, the edits of a
  parent that the merge left out are followed back through that parent's own commits, whose records
  are suppressed or reduced. A chain of single parents that returned to a commit, which an acyclic
  history excludes, would loop forever in the code and is \<open>TraceStuck\<close> here.
\<close>

section \<open>Edits and masks\<close>

record line_edit =
  le_base :: range
  le_replacement :: "str list"

definition split_edit :: "str list \<Rightarrow> edit \<Rightarrow> line_edit list" where
  "split_edit ls e =
     (if range_len (ed_old e) = range_len (ed_new e)
      then map (\<lambda>k. \<lparr>le_base = (fst (ed_old e) + k, fst (ed_old e) + k + 1), le_replacement = [ls ! (fst (ed_new e) + k)]\<rparr>)
        [0..<range_len (ed_old e)]
      else [\<lparr>le_base = ed_old e, le_replacement = slice ls (ed_new e)\<rparr>])"

definition line_edits :: "str list \<Rightarrow> str \<Rightarrow> line_edit list" where
  "line_edits base v = (let ls = split_inclusive v in concat (map (split_edit ls) (edits base ls)))"

definition overlap :: "range \<Rightarrow> range \<Rightarrow> bool" where
  "overlap a b \<longleftrightarrow> (if range_empty a \<or> range_empty b then fst a \<le> snd b \<and> fst b \<le> snd a
     else fst a < snd b \<and> fst b < snd a)"

definition inside_mask :: "range \<Rightarrow> range \<Rightarrow> bool" where
  "inside_mask e m \<longleftrightarrow> (if range_empty m then range_empty e \<and> fst e = fst m
     else if range_empty e then fst m < fst e \<and> fst e < snd m
     else fst m \<le> fst e \<and> snd e \<le> snd m)"

fun retained_from :: "str list \<Rightarrow> nat \<Rightarrow> line_edit list \<Rightarrow> str" where
  "retained_from base cursor [] = concat (drop cursor base)"
| "retained_from base cursor (e # es) = concat (slice base (cursor, fst (le_base e))) @ concat (le_replacement e) @
     retained_from base (snd (le_base e)) es"

definition retained :: "str list \<Rightarrow> line_edit list \<Rightarrow> range list \<Rightarrow> str" where
  "retained base es masks = retained_from base 0 (filter (\<lambda>e. \<not> list_ex (inside_mask (le_base e)) masks) es)"

section \<open>Marks on records\<close>

definition upd_record :: "str \<Rightarrow> (history_record \<Rightarrow> history_record) \<Rightarrow> trace \<Rightarrow> trace" where
  "upd_record oid f t = t\<lparr>tr_records := (tr_records t)(oid := map_option f (tr_records t oid))\<rparr>"

definition doubt :: "str \<Rightarrow> history_record \<Rightarrow> history_record" where
  "doubt note r = r\<lparr>hr_uncertain := True, hr_notes := insert note (hr_notes r)\<rparr>"

definition suppress :: "history_record \<Rightarrow> history_record" where
  "suppress r = r\<lparr>hr_suppressed := True\<rparr>"

definition doubt_all :: "str \<Rightarrow> str set \<Rightarrow> trace \<Rightarrow> trace" where
  "doubt_all note ids t =
     t\<lparr>tr_records := (\<lambda>oid. if oid \<in> ids then map_option (doubt note) (tr_records t oid) else tr_records t oid)\<rparr>"

definition single_mode :: "state \<Rightarrow> nat option" where
  "single_mode s = (if sa_uncertain s \<or> sa_absent s then None
     else (case sa_regions s of [r] \<Rightarrow> rg_file_mode r | _ \<Rightarrow> None))"

definition mode_note :: str where "mode_note = lit ''mode attribution unresolved''"

definition mode_unresolved :: "graph \<Rightarrow> str set \<Rightarrow> str \<Rightarrow> trace \<Rightarrow> trace" where
  "mode_unresolved g exclusive current t = doubt_all mode_note (ancestors g current \<inter> exclusive) t"

text \<open>The record of the commit that changed the mode, which names the change in its notes.\<close>

definition reject_mode_record :: "region \<Rightarrow> region \<Rightarrow> bool \<Rightarrow> history_record \<Rightarrow> history_record" where
  "reject_mode_record old new path_retained r = (case mode_change old new of
     None \<Rightarrow> r
   | Some note \<Rightarrow>
       if \<not> hr_uncertain r \<and> note \<in> hr_notes r then
         (let r = r\<lparr>hr_notes := hr_notes r - {note}\<rparr>;
              r = (if rg_path old \<noteq> rg_path new \<and> \<not> path_retained then doubt (lit ''move attribution unresolved'') r else r)
          in if hr_notes r = {} \<and> hr_counted r \<and> hr_plus r = 0 \<and> hr_minus r = 0 then suppress r
             else r\<lparr>hr_partial := True\<rparr>)
       else r)"

function reject_mode :: "graph \<Rightarrow> str set \<Rightarrow> nat \<Rightarrow> bool \<Rightarrow> str set \<Rightarrow> str \<Rightarrow> trace \<Rightarrow> 'e trace_error + trace" where
  "reject_mode g exclusive base path_retained seen current t =
     (if current \<notin> exclusive then Inr t
      else (case Option.bind (tr_states t current) (\<lambda>s. map_option (Pair s) (single_mode s)) of
        None \<Rightarrow> Inr (mode_unresolved g exclusive current t)
      | Some (s, mode) \<Rightarrow>
          if mode = base then Inr t
          else bindE (graph_commit g current) (\<lambda>c. case ct_parents c of
            [p] \<Rightarrow> (case Option.bind (tr_states t p) (\<lambda>s. map_option (Pair s) (single_mode s)) of
                None \<Rightarrow> Inr (mode_unresolved g exclusive current t)
              | Some (prior, prior_mode) \<Rightarrow>
                  if prior_mode \<noteq> mode
                  then Inr (upd_record current (reject_mode_record (hd (sa_regions prior)) (hd (sa_regions s)) path_retained) t)
                  else if current \<in> seen then Inl TraceStuck
                  else reject_mode g exclusive base path_retained (insert current seen) p t)
          | _ \<Rightarrow> Inr (mode_unresolved g exclusive current t))))"
  by pat_completeness auto

text \<open>A commit that was looked up leaves fewer unseen ones.\<close>

definition unseen :: "graph \<Rightarrow> str set \<Rightarrow> nat" where
  "unseen g seen = card (fst ` set (g_commits g) - seen)"

lemma unseen_insert: "graph_commit g oid = Inr c \<Longrightarrow> oid \<notin> seen \<Longrightarrow> unseen g (insert oid seen) < unseen g seen"
proof -
  assume c: "graph_commit g oid = Inr c" and new: "oid \<notin> seen"
  have "oid \<in> fst ` set (g_commits g)"
    using c by (auto simp: graph_commit_def intro: rev_image_eqI dest!: map_of_SomeD split: option.splits)
  then have "fst ` set (g_commits g) - insert oid seen \<subset> fst ` set (g_commits g) - seen" using new by blast
  then show ?thesis by (simp add: unseen_def psubset_card_mono)
qed

termination reject_mode
  by (relation "measure (\<lambda>(g, _, _, _, seen, _). unseen g seen)") (auto simp: unseen_insert)

function reject_deletion :: "graph \<Rightarrow> str set \<Rightarrow> str set \<Rightarrow> str \<Rightarrow> trace \<Rightarrow> 'e trace_error + str option \<times> trace" where
  "reject_deletion g exclusive seen current t =
     (if current \<notin> exclusive then Inr (None, t)
      else (case tr_states t current of
        None \<Rightarrow> Inr (None, t)
      | Some s \<Rightarrow>
          if \<not> is_absent s \<or> sa_uncertain s then Inr (None, t)
          else bindE (graph_commit g current) (\<lambda>c. case ct_parents c of
            [p] \<Rightarrow> (case tr_states t p of
                None \<Rightarrow> Inr (None, t)
              | Some prior \<Rightarrow>
                  if sa_uncertain prior then Inr (None, t)
                  else if is_absent prior
                  then (if current \<in> seen then Inl TraceStuck else reject_deletion g exclusive (insert current seen) p t)
                  else if sa_absent prior \<or> length (sa_regions prior) \<noteq> 1 \<or> sa_paths prior \<noteq> [] then Inr (None, t)
                  else if tr_records t current = None then Inr (None, t)
                  else Inr (Some p, upd_record current suppress t))
          | _ \<Rightarrow> Inr (None, t))))"
  by pat_completeness auto
termination
  by (relation "measure (\<lambda>(g, _, seen, _). unseen g seen)") (auto simp: unseen_insert)

declare reject_mode.simps [simp del] reject_deletion.simps [simp del]

section \<open>Following rejected edits\<close>

definition mode_changed :: "state \<Rightarrow> state \<Rightarrow> bool" where
  "mode_changed prior s = (case (sa_regions prior, sa_regions s) of
     (a # _, b # _) \<Rightarrow> (case (rg_file_mode a, rg_file_mode b) of (Some m, Some n) \<Rightarrow> m \<noteq> n | _ \<Rightarrow> False)
   | _ \<Rightarrow> False)"

definition reject_edit_record :: "str \<Rightarrow> str \<Rightarrow> bool \<Rightarrow> history_record \<Rightarrow> history_record" where
  "reject_edit_record kept_before kept_after moded r =
     (if kept_before = kept_after \<and> \<not> moded then suppress r
      else (case counts kept_before kept_after of (added, removed) \<Rightarrow>
        r\<lparr>hr_partial := True, hr_plus := added, hr_minus := removed\<rparr>))"

definition changed_edits :: "line_edit list \<Rightarrow> line_edit list \<Rightarrow> line_edit list" where
  "changed_edits current_edits prior_edits =
     filter (\<lambda>e. e \<notin> set prior_edits) current_edits @ filter (\<lambda>e. e \<notin> set current_edits) prior_edits"

definition nested_note :: str where "nested_note = lit ''nested or alternative merge attribution unresolved''"

definition live_masks :: "line_edit list \<Rightarrow> range list \<Rightarrow> range list" where
  "live_masks es masks = filter (\<lambda>m. list_ex (\<lambda>e. overlap (le_base e) m) es) masks"

definition reject_edit_step :: "str list \<Rightarrow> line_edit list \<Rightarrow> line_edit list \<Rightarrow> range list \<Rightarrow> bool \<Rightarrow> str \<Rightarrow> trace \<Rightarrow> trace" where
  "reject_edit_step base current_edits prior_edits masks moded current t =
     (let masks = live_masks current_edits masks
      in if list_ex (\<lambda>e. list_ex (inside_mask (le_base e)) masks) (changed_edits current_edits prior_edits)
         then upd_record current (reject_edit_record (retained base prior_edits masks)
           (retained base current_edits masks) moded) t
         else t)"

function reject_edits :: "'e tracker \<Rightarrow> graph \<Rightarrow> str list \<Rightarrow> str set \<Rightarrow> (str \<times> range list) set \<Rightarrow> str \<Rightarrow> range list \<Rightarrow> trace \<Rightarrow>
    'e trace_error + trace" where
  "reject_edits tk g base exclusive visited current masks t =
     (if current \<notin> exclusive \<or> (current, masks) \<in> visited then Inr t
      else (case tr_states t current of
        None \<Rightarrow> Inr t
      | Some s \<Rightarrow> bindE (single_value tk s) (\<lambda>v. case v of
          None \<Rightarrow> Inr t
        | Some v \<Rightarrow>
            if live_masks (line_edits base (value_text v)) masks = [] then Inr t
            else bindE (graph_commit g current) (\<lambda>c.
              if length (ct_parents c) \<noteq> 1 \<or> sa_uncertain s
              then Inr (doubt_all nested_note (ancestors g current \<inter> exclusive) t)
              else (case tr_states t (hd (ct_parents c)) of
                None \<Rightarrow> Inr t
              | Some prior \<Rightarrow> bindE (single_value tk prior) (\<lambda>w. case w of
                  None \<Rightarrow> Inr t
                | Some w \<Rightarrow>
                    reject_edits tk g base exclusive (insert (current, masks) visited) (hd (ct_parents c))
                      (live_masks (line_edits base (value_text v)) masks)
                      (reject_edit_step base (line_edits base (value_text v)) (line_edits base (value_text w)) masks
                        (mode_changed prior s) current t)))))))"
  by pat_completeness clarify

lemma unvisited_insert:
  assumes "graph_commit g oid = Inr c" "(oid, m) \<notin> visited"
  shows "unseen g {x. (x, m) \<in> insert (oid, m) visited} < unseen g {x. (x, m) \<in> visited}"
proof -
  have "{x. (x, m) \<in> insert (oid, m) visited} = insert oid {x. (x, m) \<in> visited}" by auto
  then show ?thesis using unseen_insert [OF assms(1)] assms(2) by simp
qed

termination reject_edits
proof (relation "measures [\<lambda>(tk, g, base, exclusive, visited, current, masks, t). length masks,
    \<lambda>(tk, g, base, exclusive, visited, current, masks, t). unseen g {x. (x, masks) \<in> visited}]", goal_cases)
  case 1
  show ?case by simp
next
  case (2 tk g base exclusive visited current masks t s v v' c prior w w')
  have "live_masks (line_edits base (value_text v')) masks = masks \<or>
      length (live_masks (line_edits base (value_text v')) masks) < length masks"
    unfolding live_masks_def by (metis filter_id_conv length_filter_less)
  then show ?case
  proof
    assume m: "live_masks (line_edits base (value_text v')) masks = masks"
    have "unseen g {x. (x, masks) \<in> insert (current, masks) visited} < unseen g {x. (x, masks) \<in> visited}"
      by (rule unvisited_insert) (use 2 in auto)
    then show ?thesis using m by (simp del: insert_iff)
  qed simp
qed

declare reject_edits.simps [simp del]

section \<open>Merges\<close>

definition value_at :: "'e tracker \<Rightarrow> trace \<Rightarrow> str \<Rightarrow> 'e trace_error + region_value option" where
  "value_at tk t oid = (case tr_states t oid of None \<Rightarrow> Inr None | Some s \<Rightarrow> single_value tk s)"

definition same_identity :: "state \<Rightarrow> state option \<Rightarrow> bool" where
  "same_identity s parent = (case parent of
     None \<Rightarrow> False
   | Some p \<Rightarrow> sa_absent p = sa_absent s \<and> length (sa_regions p) = length (sa_regions s) \<and>
       list_all (\<lambda>(a, b). rg_path a = rg_path b \<and> rg_name a = rg_name b \<and> rg_kind a = rg_kind b \<and>
         rg_file_mode a = rg_file_mode b) (zip (sa_regions p) (sa_regions s)))"

definition exclusive_commits :: "graph \<Rightarrow> str list \<Rightarrow> nat \<Rightarrow> str set" where
  "exclusive_commits g parents index =
     fold (\<lambda>k s. if k = index then s else s - ancestors g (parents ! k)) [0..<length parents] (ancestors g (parents ! index))"

definition unresolved_note :: str where
  "unresolved_note = lit ''merge attribution unresolved (alternative regions or bases)''"

definition deletion_note :: str where "deletion_note = lit ''deletion lineage attribution unresolved''"

definition overlap_note :: str where "overlap_note = lit ''merge-overlap attribution unresolved''"

text \<open>The deletions of the parents that a present merge rejected; \<open>vs\<close> and \<open>tips\<close> are updated.\<close>

fun drop_deletions :: "'e tracker \<Rightarrow> graph \<Rightarrow> str list \<Rightarrow> nat list \<Rightarrow> region_value option list \<times> str list \<times> trace \<Rightarrow>
    'e trace_error + region_value option list \<times> str list \<times> trace" where
  "drop_deletions tk g parents [] st = Inr st"
| "drop_deletions tk g parents (k # ks) st = (case st of (vs, tips, t) \<Rightarrow>
     if vs ! k = Some ValueAbsent then
       bindE (reject_deletion g (exclusive_commits g parents k) {} (parents ! k) t) (\<lambda>(r, t). case r of
         Some tip \<Rightarrow> bindE (value_at tk t tip) (\<lambda>v. drop_deletions tk g parents ks (vs[k := v], tips[k := tip], t))
       | None \<Rightarrow> drop_deletions tk g parents ks
           (vs[k := None], tips, doubt_all deletion_note (exclusive_commits g parents k) t))
     else drop_deletions tk g parents ks (vs, tips, t))"

definition overlaps_any :: "line_edit list \<Rightarrow> line_edit \<Rightarrow> bool" where
  "overlaps_any merged e \<longleftrightarrow> list_ex (\<lambda>m. overlap (le_base m) (le_base e)) merged"

definition reject_parent :: "'e tracker \<Rightarrow> graph \<Rightarrow> str list \<Rightarrow> str list \<Rightarrow> str list \<Rightarrow> line_edit list \<Rightarrow> region_value option list \<Rightarrow>
    nat \<Rightarrow> trace \<Rightarrow> 'e trace_error + trace" where
  "reject_parent tk g parents tips base merged vs k t =
     (let es = (case vs ! k of None \<Rightarrow> [] | Some v \<Rightarrow> line_edits base (value_text v));
          rejected = map le_base (filter (\<lambda>e. \<not> overlaps_any merged e) es);
          exclusive = exclusive_commits g parents k;
          t = (if list_ex (\<lambda>e. e \<notin> set merged \<and> overlaps_any merged e) es then doubt_all overlap_note exclusive t else t)
      in if rejected = [] then Inr t else reject_edits tk g base exclusive {} (tips ! k) rejected t)"

definition reject_parent_mode :: "graph \<Rightarrow> str list \<Rightarrow> str list \<Rightarrow> nat \<Rightarrow> nat \<Rightarrow> str \<Rightarrow> nat \<Rightarrow> trace \<Rightarrow> 'e trace_error + trace" where
  "reject_parent_mode g parents tips base_mode merged_mode merged_path k t =
     (case Option.bind (tr_states t (tips ! k)) (\<lambda>s. map_option (Pair s) (single_mode s)) of
        None \<Rightarrow> Inr t
      | Some (s, mode) \<Rightarrow>
          if merged_mode = base_mode \<and> mode \<noteq> base_mode
          then reject_mode g (exclusive_commits g parents k) base_mode (rg_path (hd (sa_regions s)) = merged_path) {} (tips ! k) t
          else Inr t)"

text \<open>The part after the values of merge, base and parents are known.\<close>

definition reject_merge :: "'e tracker \<Rightarrow> graph \<Rightarrow> str \<Rightarrow> state \<Rightarrow> str list \<Rightarrow> state \<Rightarrow> str \<Rightarrow> bool \<Rightarrow> region_value \<Rightarrow>
    region_value option list \<Rightarrow> str list \<Rightarrow> trace \<Rightarrow> 'e trace_error + trace" where
  "reject_merge tk g oid s parents base_state base_text continues merged vs tips t =
     (let base = split_inclusive base_text;
          merged_edits = line_edits base (value_text merged);
          parent_edits = map (\<lambda>v. line_edits base (case v of None \<Rightarrow> [] | Some v \<Rightarrow> value_text v)) vs;
          t = (if continues \<and> list_all (\<lambda>e. list_ex (\<lambda>es. e \<in> set es) parent_edits) merged_edits
            then upd_record oid suppress t else t)
      in bindE (foldE (reject_parent tk g parents tips base merged_edits vs) [0..<length tips] t) (\<lambda>t.
        case (single_mode base_state, single_mode s) of
          (Some base_mode, Some merged_mode) \<Rightarrow>
            foldE (reject_parent_mode g parents tips base_mode merged_mode (rg_path (hd (sa_regions s)))) [0..<length tips] t
        | _ \<Rightarrow> Inr t))"

text \<open>What the parents contribute, once the deletions that a present merge rejected are gone.\<close>

definition contributed :: "'e tracker \<Rightarrow> graph \<Rightarrow> str list \<Rightarrow> region_value \<Rightarrow> region_value option list \<Rightarrow> trace \<Rightarrow>
    'e trace_error + region_value option list \<times> str list \<times> trace" where
  "contributed tk g parents m vs t =
     (if m = ValueAbsent then Inr (vs, parents, t) else drop_deletions tk g parents [0..<length parents] (vs, parents, t))"

definition merge_base :: "'e tracker \<Rightarrow> graph \<Rightarrow> str \<Rightarrow> state \<Rightarrow> str list \<Rightarrow> bool \<Rightarrow> region_value option \<Rightarrow>
    region_value option list \<Rightarrow> trace \<Rightarrow> 'e trace_error + trace" where
  "merge_base tk g oid s parents continues merged vs t = (case (bases g parents, merged) of
     ([base_id], Some m) \<Rightarrow>
       if None \<in> set vs \<or> sa_uncertain s then Inr (upd_record oid (doubt unresolved_note) t)
       else (case tr_states t base_id of
           None \<Rightarrow> Inr t
         | Some base_state \<Rightarrow> bindE (single_value tk base_state) (\<lambda>b. case b of
             Some (ValuePresent base_text) \<Rightarrow> bindE (contributed tk g parents m vs t) (\<lambda>(vs, tips, t).
               if None \<in> set vs then Inr t
               else reject_merge tk g oid s parents base_state base_text continues m vs tips t)
           | _ \<Rightarrow> Inr t))
   | _ \<Rightarrow> Inr (upd_record oid (doubt unresolved_note) t))"

definition merge_step :: "'e tracker \<Rightarrow> graph \<Rightarrow> str \<Rightarrow> trace \<Rightarrow> 'e trace_error + trace" where
  "merge_step tk g oid t = bindE (graph_commit g oid) (\<lambda>c.
     case tr_states t oid of
       None \<Rightarrow> Inr t
     | Some s \<Rightarrow>
       if length (ct_parents c) < 2 then Inr t
       else bindE (single_value tk s) (\<lambda>merged.
         bindE (mapE (value_at tk t) (ct_parents c)) (\<lambda>vs.
           merge_base tk g oid s (ct_parents c) (list_ex (\<lambda>p. same_identity s (tr_states t p)) (ct_parents c)) merged vs
             (if \<not> sa_uncertain s \<and> merged \<noteq> None \<and>
                 list_ex (\<lambda>(p, v). v = merged \<and> same_identity s (tr_states t p)) (zip (ct_parents c) vs)
              then upd_record oid suppress t else t))))"

definition merge_filter :: "'e tracker \<Rightarrow> graph \<Rightarrow> trace \<Rightarrow> 'e trace_error + trace" where
  "merge_filter tk g = foldE (merge_step tk g) (g_order g)"

end
