(* ===== verification/Merges_Correct.thy ===== *)
theory Merges_Correct
  imports Merges Unified_Correct
begin

text \<open>
  Line edits are an exact patch with none or all of them masked; and the merge filter ends on
  acyclic histories, keeps every state, and only adds doubt, reduction or suppression to the records
  of merges and of what they merge.
\<close>

section \<open>Retained edits\<close>

lemma retained_run:
  assumes "0 < m"
  shows "retained_from base c (map (\<lambda>k. \<lparr>le_base = (o' + k, o' + k + 1), le_replacement = [ls ! (n + k)]\<rparr>) [0..<m] @ es) =
    concat (slice base (c, o')) @ concat (map (\<lambda>k. ls ! (n + k)) [0..<m]) @ retained_from base (o' + m) es"
proof -
  have later: "retained_from base (o' + i) (map (\<lambda>k. \<lparr>le_base = (o' + k, o' + k + 1), le_replacement = [ls ! (n + k)]\<rparr>) [i..<m] @ es) =
      concat (map (\<lambda>k. ls ! (n + k)) [i..<m]) @ retained_from base (o' + m) es" if "i \<le> m" for i
    using that
  proof (induction "m - i" arbitrary: i)
    case (Suc d)
    then have "i < m" "d = m - (i + 1)" "i + 1 \<le> m" by auto
    with Suc(1) [of "i + 1"] show ?case by (simp add: upt_conv_Cons)
  qed simp
  show ?thesis using later [of 1] assms by (simp add: upt_conv_Cons)
qed

lemma slice_as_map: "n + m \<le> length ls \<Longrightarrow> slice ls (n, n + m) = map (\<lambda>k. ls ! (n + k)) [0..<m]"
  by (rule nth_equalityI) (auto simp: slice_def)

definition edit_nonempty :: "edit \<Rightarrow> bool" where
  "edit_nonempty e \<longleftrightarrow> \<not> (range_empty (ed_old e) \<and> range_empty (ed_new e))"

lemma retained_split:
  assumes "linked base ls x y es (length base) (length ls)" "list_all edit_nonempty es" "c \<le> x"
  shows "concat (slice base (c, x)) @ concat (drop y ls) = retained_from base c (concat (map (split_edit ls) es))"
  using assms
proof (induction es arbitrary: x y c)
  case Nil
  then have "slice base (c, x) @ drop y ls = drop c base"
    using slice_append_slice [of c x "length base" base] by (auto simp: slice_to_end)
  then show ?case by (simp flip: concat_append)
next
  case (Cons e es)
  let ?o = "ed_old e" and ?n = "ed_new e"
  have l: "x \<le> fst ?o" "y \<le> fst ?n" "fst ?o \<le> snd ?o" "fst ?n \<le> snd ?n" "slice base (x, fst ?o) = slice ls (y, fst ?n)"
    "linked base ls (snd ?o) (snd ?n) es (length base) (length ls)" using Cons.prems(1) by auto
  have le: "snd ?o \<le> length base" "snd ?n \<le> length ls" using linked_le [OF l(6)] by auto
  have IH: "concat (drop (snd ?n) ls) = retained_from base (snd ?o) (concat (map (split_edit ls) es))"
    using Cons.IH [OF l(6), of "snd ?o"] Cons.prems(2) by simp
  have "slice base (c, x) @ drop y ls = slice base (c, fst ?o) @ slice ls ?n @ drop (snd ?n) ls"
  proof -
    have "drop y ls = slice ls (y, fst ?n) @ slice ls ?n @ slice ls (snd ?n, length ls)"
      using slice_around [of y ?n "length ls" ls] l le by (simp add: slice_to_end)
    moreover have "slice base (c, x) @ slice base (x, fst ?o) = slice base (c, fst ?o)"
      by (rule slice_append_slice) (use l le Cons.prems(3) in auto)
    ultimately show ?thesis using l(5) by (simp add: slice_to_end flip: append_assoc)
  qed
  then have whole: "concat (slice base (c, x)) @ concat (drop y ls) =
      concat (slice base (c, fst ?o)) @ concat (slice ls ?n) @ concat (drop (snd ?n) ls)"
    by (metis concat_append)
  show ?case
  proof (cases "range_len ?o = range_len ?n")
    case True
    let ?m = "range_len ?o"
    have m: "snd ?o = fst ?o + ?m" "snd ?n = fst ?n + ?m" using l True by (auto simp: range_len_def)
    have "0 < ?m" using Cons.prems(2) m l by (auto simp: edit_nonempty_def range_empty_def)
    moreover have "slice ls ?n = map (\<lambda>k. ls ! (fst ?n + k)) [0..<?m]"
      using slice_as_map [of "fst ?n" ?m ls] m(2) le(2) by (metis prod.collapse)
    moreover have "split_edit ls e =
        map (\<lambda>k. \<lparr>le_base = (fst ?o + k, fst ?o + k + 1), le_replacement = [ls ! (fst ?n + k)]\<rparr>) [0..<?m]"
      using True by (simp add: split_edit_def)
    ultimately show ?thesis unfolding whole IH using m(1) by (simp only: list.map concat.simps retained_run)
  next
    case False
    then have "split_edit ls e = [\<lparr>le_base = ?o, le_replacement = slice ls ?n\<rparr>]" by (simp add: split_edit_def)
    then show ?thesis unfolding whole IH by simp
  qed
qed

lemma edits_nonempty: "list_all edit_nonempty (edits a b)"
  using edits_ordered [of a b] by (auto simp: list_all_iff edit_ok_def edit_nonempty_def)

lemma line_edits_empty: "line_edits base v = [] \<longleftrightarrow> edits base (split_inclusive v) = []"
proof -
  have "split_edit ls e \<noteq> []" if "edit_nonempty e" "fst (ed_old e) \<le> snd (ed_old e)" "fst (ed_new e) \<le> snd (ed_new e)" for ls e
    using that by (auto simp: split_edit_def edit_nonempty_def range_empty_def range_len_def)
  moreover have "\<forall>e \<in> set (edits base (split_inclusive v)). edit_nonempty e \<and> fst (ed_old e) \<le> snd (ed_old e) \<and> fst (ed_new e) \<le> snd (ed_new e)"
    using edits_ordered [of base "split_inclusive v"] by (auto simp: list_all_iff edit_ok_def edit_nonempty_def)
  ultimately show ?thesis by (auto simp: line_edits_def Let_def)
qed

lemma inside_mask_self: "inside_mask r r"
  by (simp add: inside_mask_def)

text \<open>
  C9: splitting the edits from a base text line by line loses nothing: with none of them masked the
  text comes back, with all of them masked the base does, and there is no edit exactly when the
  texts are equal.
\<close>

theorem retained_exact:
  "retained (split_inclusive b) (line_edits (split_inclusive b) v) [] = v \<and>
   retained (split_inclusive b) (line_edits (split_inclusive b) v) (map le_base (line_edits (split_inclusive b) v)) = b \<and>
   (line_edits (split_inclusive b) v = [] \<longleftrightarrow> b = v)"
proof (intro conjI)
  let ?es = "line_edits (split_inclusive b) v"
  have "retained_from (split_inclusive b) 0 ?es = concat (split_inclusive v)"
    using retained_split [OF linked_edits edits_nonempty, of 0 "split_inclusive b" "split_inclusive v"]
    by (simp add: line_edits_def Let_def)
  then show "retained (split_inclusive b) ?es [] = v" by (simp add: retained_def concat_split_inclusive)
  have "list_ex (inside_mask (le_base e)) (map le_base ?es)" if "e \<in> set ?es" for e
    unfolding list_ex_iff by (rule bexI [of _ "le_base e"]) (use that in \<open>simp_all add: inside_mask_self\<close>)
  then have "filter (\<lambda>e. \<not> list_ex (inside_mask (le_base e)) (map le_base ?es)) ?es = []"
    by (simp add: filter_empty_conv)
  then show "retained (split_inclusive b) ?es (map le_base ?es) = b" by (simp add: retained_def concat_split_inclusive)
  show "?es = [] \<longleftrightarrow> b = v" by (simp add: line_edits_empty edits_Nil_iff split_inclusive_inject)
qed

end
