(* ===== verification/Merges_Frame.thy ===== *)
theory Merges_Frame
  imports Merges Walk_Bases
begin

text \<open>
  What the merge filter may touch: records of merges and of commits that one side of a merge alone
  reaches, whose doubt, reduction and suppression are only ever added; and that it ends on acyclic
  histories.
\<close>

section \<open>Records only lose weight\<close>

definition record_le :: "history_record \<Rightarrow> history_record \<Rightarrow> bool" where
  "record_le r r' \<longleftrightarrow> hr_changed r' = hr_changed r \<and> hr_counted r' = hr_counted r \<and>
     hr_scope_unresolved r' = hr_scope_unresolved r \<and> hr_ancestry_unresolved r' = hr_ancestry_unresolved r \<and>
     (hr_uncertain r \<longrightarrow> hr_uncertain r') \<and> (hr_partial r \<longrightarrow> hr_partial r') \<and> (hr_suppressed r \<longrightarrow> hr_suppressed r') \<and>
     (hr_partial r' \<or> hr_plus r' = hr_plus r \<and> hr_minus r' = hr_minus r) \<and>
     (hr_partial r' \<or> hr_suppressed r' \<or> hr_notes r \<subseteq> hr_notes r')"

definition frame :: "str set \<Rightarrow> trace \<Rightarrow> trace \<Rightarrow> bool" where
  "frame ids t t' \<longleftrightarrow> tr_states t' = tr_states t \<and>
     (\<forall>oid. rel_option record_le (tr_records t oid) (tr_records t' oid)) \<and>
     (\<forall>oid. oid \<notin> ids \<longrightarrow> tr_records t' oid = tr_records t oid)"

named_theorems record_marks

lemma record_le_refl [record_marks]: "record_le r r"
  by (simp add: record_le_def)

lemma record_le_doubt [record_marks]: "record_le r (doubt note r)"
  by (auto simp: record_le_def doubt_def)

lemma record_le_suppress [record_marks]: "record_le r (suppress r)"
  by (simp add: record_le_def suppress_def)

lemma record_le_mode [record_marks]: "record_le r (reject_mode_record old new kept r)"
  by (cases "mode_change old new") (auto simp: reject_mode_record_def record_le_def doubt_def suppress_def Let_def)

lemma record_le_edit [record_marks]: "record_le r (reject_edit_record a b moded r)"
  by (auto simp: reject_edit_record_def record_le_def suppress_def split: prod.split)

lemma record_le_trans: "record_le a b \<Longrightarrow> record_le b c \<Longrightarrow> record_le a c"
  unfolding record_le_def by (elim conjE) (intro conjI; metis subset_trans)

lemma frame_refl [simp]: "frame ids t t"
  by (simp add: frame_def option.rel_refl record_le_refl)

lemma frame_mono: "frame ids t t' \<Longrightarrow> ids \<subseteq> ids' \<Longrightarrow> frame ids' t t'"
  unfolding frame_def by blast

lemma frame_trans:
  assumes "frame ids t u" "frame ids u v"
  shows "frame ids t v"
proof -
  have "rel_option record_le (tr_records t oid) (tr_records v oid)" for oid
  proof -
    have "rel_option record_le (tr_records t oid) (tr_records u oid)" "rel_option record_le (tr_records u oid) (tr_records v oid)"
      using assms by (simp_all add: frame_def)
    then show ?thesis by (auto simp: option_rel_Some1 option_rel_Some2 intro: record_le_trans elim!: option.rel_cases)
  qed
  then show ?thesis using assms by (simp add: frame_def)
qed

lemma frame_upd: "oid \<in> ids \<Longrightarrow> (\<And>r. record_le r (f r)) \<Longrightarrow> frame ids t (upd_record oid f t)"
  by (auto simp: frame_def upd_record_def option.rel_map intro!: option.rel_refl record_le_refl)

lemma frame_doubt_all: "A \<subseteq> ids \<Longrightarrow> frame ids t (doubt_all note A t)"
  by (auto simp: frame_def doubt_all_def option.rel_map intro!: option.rel_refl record_le_refl record_le_doubt)

lemma frame_foldE:
  assumes "foldE f xs t = Inr t'" "\<And>x t t'. x \<in> set xs \<Longrightarrow> f x t = Inr t' \<Longrightarrow> frame ids t t'"
  shows "frame ids t t'"
  using assms
proof (induction xs arbitrary: t)
  case (Cons x xs)
  then obtain u where "f x t = Inr u" "foldE f xs u = Inr t'" by auto
  then show ?case using Cons.IH [of u] Cons.prems(2) by (meson frame_trans list.set_intros)
qed simp

section \<open>Following a rejected side\<close>

lemma reject_mode_frame: "(reject_mode g exclusive base kept seen current t :: 'e trace_error + trace) = Inr t' \<Longrightarrow> frame exclusive t t'"
proof (induction g exclusive base kept seen current t rule: reject_mode.induct [where 'a = 'e])
  case (1 g exclusive base kept seen current t)
  show ?case
    using "1.prems"
    by (subst (asm) reject_mode.simps)
      (auto simp: mode_unresolved_def intro!: frame_doubt_all frame_upd record_marks
        split: if_splits option.splits list.splits; rule "1.IH"; fastforce)
qed

lemma reject_deletion_frame:
  "(reject_deletion g exclusive seen current t :: 'e trace_error + str option \<times> trace) = Inr (r, t') \<Longrightarrow> frame exclusive t t'"
proof (induction g exclusive seen current t rule: reject_deletion.induct [where 'a = 'e])
  case (1 g exclusive seen current t)
  show ?case
    using "1.prems"
    by (subst (asm) reject_deletion.simps)
      (auto intro!: frame_upd record_marks split: if_splits option.splits list.splits; rule "1.IH"; fastforce)
qed

lemma reject_edit_step_frame: "current \<in> ids \<Longrightarrow> frame ids t (reject_edit_step base es ps masks moded current t)"
  by (simp add: reject_edit_step_def Let_def frame_upd record_marks)

lemma reject_edits_frame: "reject_edits tk g base exclusive visited current masks t = Inr t' \<Longrightarrow> frame exclusive t t'"
proof (induction tk g base exclusive visited current masks t rule: reject_edits.induct)
  case (1 tk g base exclusive visited current masks t)
  show ?case
  proof (cases "current \<notin> exclusive \<or> (current, masks) \<in> visited")
    case True
    then show ?thesis using "1.prems" by (subst (asm) reject_edits.simps) simp
  next
    case False
    then show ?thesis
      using "1.prems"
      by (subst (asm) reject_edits.simps)
        (auto intro!: frame_doubt_all split: if_splits option.splits; rule frame_trans [OF reject_edit_step_frame "1.IH"]; fastforce)
  qed
qed

section \<open>Only reading fails\<close>

text \<open>The parents of listed commits, the states' commits and the order's.\<close>

definition parent_edges :: "graph \<Rightarrow> (str \<times> str) set" where
  "parent_edges g = {(oid, p). \<exists>c. map_of (g_commits g) oid = Some c \<and> p \<in> set (ct_parents c)}"

definition known_states :: "graph \<Rightarrow> trace \<Rightarrow> bool" where
  "known_states g t \<longleftrightarrow> dom (tr_states t) \<subseteq> dom (map_of (g_commits g))"

definition only_reads :: "'e trace_error + 'a \<Rightarrow> bool" where
  "only_reads r \<longleftrightarrow> (\<forall>e. r = Inl e \<longrightarrow> (\<exists>x. e = MapError x))"

lemma only_reads_Inr [simp]: "only_reads (Inr x)"
  by (simp add: only_reads_def)

lemma only_reads_bind: "only_reads r \<Longrightarrow> (\<And>x. r = Inr x \<Longrightarrow> only_reads (f x)) \<Longrightarrow> only_reads (bindE r f)"
  by (cases r) (auto simp: only_reads_def)

lemma only_reads_commit: "oid \<in> dom (map_of (g_commits g)) \<Longrightarrow> only_reads (graph_commit g oid)"
  by (auto simp: graph_commit_def)

lemma only_reads_value: "only_reads (single_value tk s)"
  by (auto simp: only_reads_def single_value_def map_error_def split: if_splits list.splits bool.splits sum.splits)

lemma only_reads_known: "known_states g t \<Longrightarrow> tr_states t oid = Some s \<Longrightarrow> only_reads (graph_commit g oid)"
  by (rule only_reads_commit) (auto simp: known_states_def)

lemma only_reads_value_at: "only_reads (value_at tk t oid)"
  by (simp add: value_at_def only_reads_value split: option.split)

lemma only_reads_mapE: "(\<And>x. x \<in> set xs \<Longrightarrow> only_reads (f x)) \<Longrightarrow> only_reads (mapE f xs)"
  by (induction xs) (simp_all add: only_reads_bind)

lemma known_frame: "frame ids t t' \<Longrightarrow> known_states g t' = known_states g t"
  by (simp add: frame_def known_states_def)

lemma only_reads_foldE:
  assumes "\<And>x t. x \<in> set xs \<Longrightarrow> known_states g t \<Longrightarrow> only_reads (f x t)"
    "\<And>x t t'. x \<in> set xs \<Longrightarrow> f x t = Inr t' \<Longrightarrow> frame ids t t'" "known_states g t"
  shows "only_reads (foldE f xs t)"
  using assms
proof (induction xs arbitrary: t)
  case (Cons x xs)
  show ?case
    unfolding foldE.simps
  proof (rule only_reads_bind)
    fix u
    assume "f x t = Inr u"
    then have "known_states g u" using Cons.prems(2,3) known_frame by (meson list.set_intros(1))
    then show "only_reads (foldE f xs u)" by (rule Cons.IH [rotated 2]) (simp add: Cons.prems(1), rule Cons.prems(2), auto)
  qed (simp add: Cons.prems)
qed simp

text \<open>The commits already passed lie above the one at hand.\<close>

lemma seen_step:
  assumes "seen \<subseteq> {x. (x, current) \<in> (parent_edges g)\<^sup>+}" "(graph_commit g current :: 'e trace_error + commit) = Inr c" "ct_parents c = [p]"
  shows "insert current seen \<subseteq> {x. (x, p) \<in> (parent_edges g)\<^sup>+}"
proof -
  have "(current, p) \<in> parent_edges g" using assms(2,3) by (auto simp: parent_edges_def graph_commit_def split: option.splits)
  then show ?thesis using assms(1) by (auto intro: trancl_into_trancl)
qed

lemma unseen_current: "acyclic (parent_edges g) \<Longrightarrow> seen \<subseteq> {x. (x, current) \<in> (parent_edges g)\<^sup>+} \<Longrightarrow> current \<notin> seen"
  by (auto simp: acyclic_def)

lemma reject_mode_reads:
  assumes "acyclic (parent_edges g)"
  shows "known_states g t \<Longrightarrow> seen \<subseteq> {x. (x, current) \<in> (parent_edges g)\<^sup>+} \<Longrightarrow>
    only_reads (reject_mode g exclusive base kept seen current t :: 'e trace_error + trace)"
  using assms
proof (induction g exclusive base kept seen current t rule: reject_mode.induct [where 'a = 'e])
  case (1 g exclusive base kept seen current t)
  note unseen_current [OF "1.prems"(3,2), simp]
  show ?case
    by (subst reject_mode.simps)
      (auto simp: Option.bind_eq_Some_conv intro!: only_reads_bind only_reads_known [OF "1.prems"(1)] split: option.split list.split;
        rule "1.IH"; (rule seen_step [OF "1.prems"(2)])?; use "1.prems" in \<open>fastforce simp: Option.bind_eq_Some_conv\<close>)
qed

lemma reject_deletion_reads:
  assumes "acyclic (parent_edges g)"
  shows "known_states g t \<Longrightarrow> seen \<subseteq> {x. (x, current) \<in> (parent_edges g)\<^sup>+} \<Longrightarrow>
    only_reads (reject_deletion g exclusive seen current t :: 'e trace_error + str option \<times> trace)"
  using assms
proof (induction g exclusive seen current t rule: reject_deletion.induct [where 'a = 'e])
  case (1 g exclusive seen current t)
  note unseen_current [OF "1.prems"(3,2), simp]
  show ?case
    by (subst reject_deletion.simps)
      (auto intro!: only_reads_bind only_reads_known [OF "1.prems"(1)] split: option.split list.split;
        rule "1.IH"; (rule seen_step [OF "1.prems"(2)])?; use "1.prems" in fastforce)
qed

lemma reject_edits_reads: "known_states g t \<Longrightarrow> only_reads (reject_edits tk g base exclusive visited current masks t)"
proof (induction tk g base exclusive visited current masks t rule: reject_edits.induct)
  case (1 tk g base exclusive visited current masks t)
  have step: "known_states g (reject_edit_step base es ps masks moded current t)" for es ps moded
    using known_frame [OF reject_edit_step_frame] "1.prems" by blast
  show ?case
    by (subst reject_edits.simps)
      (auto intro!: only_reads_bind only_reads_value only_reads_known [OF "1.prems"] split: option.split;
        (rule refl)?; (rule "1.IH")?; use step in fastforce)
qed

section \<open>The sides of a merge\<close>

text \<open>What one side of a merge alone reaches.\<close>

definition merge_side :: "graph \<Rightarrow> str list \<Rightarrow> str set" where
  "merge_side g parents = {x. \<exists>k<length parents. (parents ! k, x) \<in> (g_edges g)\<^sup>* \<and>
     (\<forall>j<length parents. j \<noteq> k \<longrightarrow> (parents ! j, x) \<notin> (g_edges g)\<^sup>*)}"

definition merge_scope :: "graph \<Rightarrow> str \<Rightarrow> str set" where
  "merge_scope g oid = (case map_of (g_commits g) oid of
     Some c \<Rightarrow> if 2 \<le> length (ct_parents c) then insert oid (merge_side g (ct_parents c)) else {}
   | None \<Rightarrow> {})"

lemma exclusive_fold:
  "fold (\<lambda>j s. if j = k then s else s - ancestors g (parents ! j)) js A =
    {x \<in> A. \<forall>j \<in> set js. j \<noteq> k \<longrightarrow> (parents ! j, x) \<notin> (g_edges g)\<^sup>*}"
  by (induction js arbitrary: A) (auto simp: ancestors_reach)

lemma exclusive_side: "k < length parents \<Longrightarrow> exclusive_commits g parents k \<subseteq> merge_side g parents"
  by (auto simp: exclusive_commits_def exclusive_fold merge_side_def ancestors_reach)

lemma drop_deletions_frame:
  fixes tk :: "'e tracker"
  assumes "drop_deletions tk g parents ks (vs, tips, t) = Inr (vs', tips', t')" "set ks \<subseteq> {..<length parents}"
  shows "length tips' = length tips \<and> frame (merge_side g parents) t t'"
  using assms
proof (induction ks arbitrary: vs tips t)
  case (Cons k ks)
  have side: "exclusive_commits g parents k \<subseteq> merge_side g parents" using Cons.prems(2) by (simp add: exclusive_side)
  have IH: "length tips' = length tips \<and> frame (merge_side g parents) t t'"
    if "drop_deletions tk g parents ks (vs1, tips1, u) = Inr (vs', tips', t')" "length tips1 = length tips"
      "frame (merge_side g parents) t u" for vs1 tips1 u
    using Cons.IH [OF that(1)] Cons.prems(2) that(2) frame_trans [OF that(3)] by simp
  show ?case
  proof (cases "vs ! k = Some ValueAbsent")
    case True
    then obtain r u where d: "(reject_deletion g (exclusive_commits g parents k) {} (parents ! k) t
          :: 'e trace_error + str option \<times> trace) = Inr (r, u)"
      using Cons.prems(1) by auto
    have u: "frame (merge_side g parents) t u" using frame_mono [OF reject_deletion_frame [OF d] side] .
    have "frame (merge_side g parents) t (doubt_all n (exclusive_commits g parents k) u)" for n
      by (rule frame_trans [OF u frame_doubt_all [OF side]])
    note doubted = this
    show ?thesis
    proof (cases r)
      case None
      with Cons.prems(1) True d have "drop_deletions tk g parents ks
          (vs[k := None], tips, doubt_all deletion_note (exclusive_commits g parents k) u) = Inr (vs', tips', t')" by simp
      then show ?thesis by (rule IH) (simp_all add: doubted)
    next
      case (Some tip)
      with Cons.prems(1) True d obtain v where "drop_deletions tk g parents ks (vs[k := v], tips[k := tip], u) = Inr (vs', tips', t')"
        by auto
      then show ?thesis by (rule IH) (simp_all add: u)
    qed
  next
    case False
    then show ?thesis using Cons by simp
  qed
qed simp

lemma drop_deletions_reads:
  fixes tk :: "'e tracker"
  assumes "acyclic (parent_edges g)" "known_states g t"
  shows "only_reads (drop_deletions tk g parents ks (vs, tips, t))"
  using assms(2)
proof (induction ks arbitrary: vs tips t)
  case (Cons k ks)
  have "known_states g (doubt_all n A u)" if "known_states g u" for n A u
    using that known_frame [OF frame_doubt_all [OF order_refl]] by blast
  moreover have "known_states g u"
    if "(reject_deletion g A {} p t :: 'e trace_error + str option \<times> trace) = Inr (r, u)" for A p r u
    using known_frame [OF reject_deletion_frame [OF that]] Cons.prems by simp
  ultimately show ?case
    by (auto intro!: only_reads_bind reject_deletion_reads [OF assms(1)] only_reads_value_at Cons.IH Cons.prems split: option.split)
qed simp

lemma reject_parent_frame:
  assumes "reject_parent tk g parents tips base merged vs k t = Inr t'" "k < length parents"
  shows "frame (merge_side g parents) t t'"
proof -
  note side = exclusive_side [OF assms(2), of g]
  note doubted = frame_doubt_all [OF side, of t overlap_note]
  from assms(1) show ?thesis
    by (auto simp: reject_parent_def Let_def intro: doubted frame_trans [OF doubted] frame_mono [OF reject_edits_frame side]
      split: if_splits)
qed

lemma reject_parent_reads:
  assumes "known_states g t"
  shows "only_reads (reject_parent tk g parents tips base merged vs k t)"
proof -
  have "known_states g (doubt_all overlap_note (exclusive_commits g parents k) t)"
    using known_frame [OF frame_doubt_all [OF order_refl]] assms by blast
  then show ?thesis using assms by (simp add: reject_parent_def Let_def reject_edits_reads)
qed

lemma reject_parent_mode_frame:
  fixes t' :: trace
  assumes "(reject_parent_mode g parents tips bm mm path k t :: 'e trace_error + trace) = Inr t'" "k < length parents"
  shows "frame (merge_side g parents) t t'"
  using assms(1)
  by (auto simp: reject_parent_mode_def intro: frame_mono [OF reject_mode_frame exclusive_side [OF assms(2)]]
    split: option.splits if_splits)

lemma reject_parent_mode_reads:
  assumes "acyclic (parent_edges g)" "known_states g t"
  shows "only_reads (reject_parent_mode g parents tips bm mm path k t :: 'e trace_error + trace)"
  using assms by (auto simp: reject_parent_mode_def intro!: reject_mode_reads split: option.split)

section \<open>The filter\<close>

lemma frame_suppress: "oid \<in> ids \<Longrightarrow> frame ids t (if b then upd_record oid suppress t else t)"
  by (simp add: frame_upd record_marks)

lemma reject_merge_shape:
  obtains b es where "reject_merge tk g oid s parents bs bt cont merged vs tips t =
    bindE (foldE (reject_parent tk g parents tips (split_inclusive bt) es vs) [0..<length tips] (if b then upd_record oid suppress t else t))
      (\<lambda>t. case (single_mode bs, single_mode s) of
          (Some bm, Some mm) \<Rightarrow> foldE (reject_parent_mode g parents tips bm mm (rg_path (hd (sa_regions s)))) [0..<length tips] t
        | _ \<Rightarrow> Inr t)"
  unfolding reject_merge_def Let_def by blast

lemma reject_merge_frame:
  fixes tk :: "'e tracker"
  assumes "reject_merge tk g oid s parents bs bt cont merged vs tips t = Inr t'" "length tips = length parents"
  shows "frame (insert oid (merge_side g parents)) t t'"
proof -
  let ?ids = "insert oid (merge_side g parents)"
  obtain b es where shape: "reject_merge tk g oid s parents bs bt cont merged vs tips t =
      bindE (foldE (reject_parent tk g parents tips (split_inclusive bt) es vs) [0..<length tips] (if b then upd_record oid suppress t else t))
        (\<lambda>t. case (single_mode bs, single_mode s) of
            (Some bm, Some mm) \<Rightarrow> foldE (reject_parent_mode g parents tips bm mm (rg_path (hd (sa_regions s)))) [0..<length tips] t
          | _ \<Rightarrow> Inr t)"
    by (rule reject_merge_shape)
  from assms(1) obtain u where
      u: "foldE (reject_parent tk g parents tips (split_inclusive bt) es vs) [0..<length tips]
        (if b then upd_record oid suppress t else t) = Inr u"
    and r: "((case (single_mode bs, single_mode s) of
        (Some bm, Some mm) \<Rightarrow> foldE (reject_parent_mode g parents tips bm mm (rg_path (hd (sa_regions s)))) [0..<length tips] u
      | _ \<Rightarrow> Inr u) :: 'e trace_error + trace) = Inr t'"
    unfolding shape by auto
  have "frame ?ids (if b then upd_record oid suppress t else t) u"
    by (rule frame_mono [OF frame_foldE [OF u]], erule reject_parent_frame) (use assms(2) in auto)
  then have t: "frame ?ids t u" by (rule frame_trans [OF frame_suppress [OF insertI1]])
  have "frame ?ids u t'"
    if "(foldE (reject_parent_mode g parents tips bm mm path) [0..<length tips] u :: 'e trace_error + trace) = Inr t'" for bm mm path
    by (rule frame_mono [OF frame_foldE [OF that]], erule reject_parent_mode_frame) (use assms(2) in auto)
  then have "frame ?ids u t'" using r by (auto split: option.splits)
  then show ?thesis by (rule frame_trans [OF t])
qed

lemma reject_merge_reads:
  fixes tk :: "'e tracker"
  assumes "acyclic (parent_edges g)" "known_states g t" "length tips = length parents"
  shows "only_reads (reject_merge tk g oid s parents bs bt cont merged vs tips t)"
proof -
  have known: "known_states g (if b then upd_record oid suppress t else t)" for b
    using known_frame [OF frame_suppress [OF singletonI]] assms(2) by blast
  have "known_states g u" if "foldE (reject_parent tk g parents tips base es vs) [0..<length tips] t = Inr u" "known_states g t"
    for base es t u
  proof -
    have "frame (merge_side g parents) t u"
      by (rule frame_foldE [OF that(1)], erule reject_parent_frame) (use assms(3) in simp)
    then show ?thesis using that(2) by (simp add: known_frame)
  qed
  note parents_known = this
  obtain b es where r: "reject_merge tk g oid s parents bs bt cont merged vs tips t =
      bindE (foldE (reject_parent tk g parents tips (split_inclusive bt) es vs) [0..<length tips] (if b then upd_record oid suppress t else t))
        (\<lambda>t. case (single_mode bs, single_mode s) of
            (Some bm, Some mm) \<Rightarrow> foldE (reject_parent_mode g parents tips bm mm (rg_path (hd (sa_regions s)))) [0..<length tips] t
          | _ \<Rightarrow> Inr t)"
    by (rule reject_merge_shape)
  show ?thesis
    unfolding r
  proof (rule only_reads_bind)
    show "only_reads (foldE (reject_parent tk g parents tips (split_inclusive bt) es vs) [0..<length tips]
        (if b then upd_record oid suppress t else t))"
      by (rule only_reads_foldE [where ids = "merge_side g parents", OF reject_parent_reads reject_parent_frame known])
        (use assms(3) in auto)
    fix u
    assume "foldE (reject_parent tk g parents tips (split_inclusive bt) es vs) [0..<length tips]
        (if b then upd_record oid suppress t else t) = Inr u"
    from parents_known [OF this known] have u: "known_states g u" .
    have "only_reads (foldE (reject_parent_mode g parents tips bm mm path) [0..<length tips] u :: 'e trace_error + trace)" for bm mm path
      by (rule only_reads_foldE [where ids = "merge_side g parents", OF reject_parent_mode_reads [OF assms(1)] reject_parent_mode_frame u])
        (use assms(3) in auto)
    then show "only_reads ((case (single_mode bs, single_mode s) of
        (Some bm, Some mm) \<Rightarrow> foldE (reject_parent_mode g parents tips bm mm (rg_path (hd (sa_regions s)))) [0..<length tips] u
      | _ \<Rightarrow> Inr u) :: 'e trace_error + trace)"
      by (simp split: option.split)
  qed
qed

lemma contributed_frame:
  assumes "contributed tk g parents m vs t = Inr (vs', tips, t')"
  shows "length tips = length parents \<and> frame (merge_side g parents) t t'"
proof (cases "m = ValueAbsent")
  case False
  then have "drop_deletions tk g parents [0..<length parents] (vs, parents, t) = Inr (vs', tips, t')"
    using assms by (simp add: contributed_def)
  then show ?thesis by (rule drop_deletions_frame) auto
qed (use assms in \<open>simp add: contributed_def\<close>)

lemma merge_base_frame:
  assumes "merge_base tk g oid s parents cont merged vs t = Inr t'"
  shows "frame (insert oid (merge_side g parents)) t t'"
proof -
  let ?ids = "insert oid (merge_side g parents)"
  have doubted: "frame ?ids t (upd_record oid (doubt unresolved_note) t)" by (simp add: frame_upd record_marks)
  have kept: "length tips = length parents" "frame ?ids t u" if "contributed tk g parents m vs t = Inr (vs', tips, u)" for m vs' tips u
    using contributed_frame [OF that] frame_mono [of "merge_side g parents" t u ?ids] by auto
  have rejected: "frame ?ids t t'"
    if "contributed tk g parents m vs t = Inr (vs', tips, u)" "reject_merge tk g oid s parents bs bt cont m vs' tips u = Inr t'"
    for m vs' tips u bs bt
    using frame_trans [OF kept(2) reject_merge_frame [OF that(2) kept(1)]] that(1) by blast
  show ?thesis using assms
    by (auto simp: merge_base_def doubted split: option.splits list.splits if_splits region_value.splits)
      (rule kept(2), assumption, rule rejected)
qed

lemma merge_base_reads:
  fixes tk :: "'e tracker"
  assumes "acyclic (parent_edges g)" "known_states g t"
  shows "only_reads (merge_base tk g oid s parents cont merged vs t)"
proof -
  have "only_reads (contributed tk g parents m vs t)" for m
    by (simp add: contributed_def drop_deletions_reads [OF assms])
  moreover have "only_reads (reject_merge tk g oid s parents bs bt cont m vs' tips u)"
    if "contributed tk g parents m vs t = Inr (vs', tips, u)" for m vs' tips u bs bt
    using contributed_frame [OF that] assms by (auto intro!: reject_merge_reads simp: known_frame)
  ultimately show ?thesis
    by (auto simp: merge_base_def intro!: only_reads_bind only_reads_value split: option.split list.split region_value.split)
qed

lemma merge_step_frame:
  assumes "merge_step tk g oid t = Inr t'"
  shows "frame (merge_scope g oid) t t'"
proof -
  have "frame (merge_scope g oid) t t'"
    if c: "map_of (g_commits g) oid = Some c" "\<not> length (ct_parents c) < 2"
      and m: "merge_base tk g oid s (ct_parents c) cont merged vs (if b then upd_record oid suppress t else t) = Inr t'"
    for c s cont merged vs b
  proof -
    have "merge_scope g oid = insert oid (merge_side g (ct_parents c))" using c by (simp add: merge_scope_def)
    then show ?thesis using frame_trans [OF frame_suppress merge_base_frame [OF m]] by simp
  qed
  note merged = this
  show ?thesis using assms
    by (auto simp: merge_step_def graph_commit_def intro!: merged simp del: if_split split: option.splits if_splits)
qed

lemma merge_step_reads:
  fixes tk :: "'e tracker"
  assumes "acyclic (parent_edges g)" "known_states g t" "oid \<in> dom (map_of (g_commits g))"
  shows "only_reads (merge_step tk g oid t)"
proof -
  have "only_reads (merge_base tk g oid s ps cont merged vs (if b then upd_record oid suppress t else t))" for s ps cont merged vs b
    by (rule merge_base_reads [OF assms(1)]) (use known_frame [OF frame_suppress [OF singletonI]] assms(2) in blast)
  then show ?thesis
    unfolding merge_step_def using only_reads_commit [OF assms(3), where 'a = 'e]
    by (auto intro!: only_reads_bind only_reads_mapE only_reads_value only_reads_value_at simp del: if_split
      split: option.split if_split_asm)
qed

text \<open>
  C2: over an acyclic graph that knows the order's and the states' commits, filtering merges always
  ends and fails only where reading a text fails; it leaves every state as it is, and the record of
  every commit that is neither a merge nor reached by one side of a merge alone; elsewhere whatever
  it does not reduce or suppress keeps its counts and notes, and no doubt is lost.
\<close>

theorem merge_filter_frame:
  assumes "acyclic (parent_edges g)" "dom (tr_states t) \<subseteq> dom (map_of (g_commits g))"
    "set (g_order g) \<subseteq> dom (map_of (g_commits g))"
  shows "case merge_filter tk g t of
      Inl e \<Rightarrow> \<exists>x. e = MapError x
    | Inr t' \<Rightarrow> tr_states t' = tr_states t \<and>
        (\<forall>oid. rel_option record_le (tr_records t oid) (tr_records t' oid)) \<and>
        (\<forall>oid. oid \<notin> (\<Union>m \<in> set (g_order g). merge_scope g m) \<longrightarrow> tr_records t' oid = tr_records t oid)"
proof -
  let ?ids = "\<Union>m \<in> set (g_order g). merge_scope g m"
  have step: "frame ?ids u u'" if "oid \<in> set (g_order g)" "merge_step tk g oid u = Inr u'" for oid u u'
    by (rule frame_mono [OF merge_step_frame [OF that(2)]]) (use that(1) in blast)
  have "only_reads (merge_filter tk g t)"
    unfolding merge_filter_def
    by (rule only_reads_foldE [where g = g and ids = ?ids, OF merge_step_reads [OF assms(1)] step])
      (use assms(2,3) in \<open>auto simp: known_states_def\<close>)
  moreover have "frame ?ids t t'" if "merge_filter tk g t = Inr t'" for t'
    by (rule frame_foldE [OF that [unfolded merge_filter_def] step])
  ultimately show ?thesis unfolding only_reads_def frame_def by (cases "merge_filter tk g t") simp_all
qed

text \<open>A merge of two sides that both end in an absence.\<close>

definition sample_merge :: graph where
  "sample_merge = \<lparr>g_commits = map (\<lambda>(oid, ps). (oid, \<lparr>ct_id = oid, ct_tree = [], ct_parents = ps, ct_date = [], ct_subject = []\<rparr>))
     [([4], [[2], [3]]), ([2], [[1]]), ([3], [[1]]), ([1], [])], g_order = [[4], [3], [2], [1]], g_boundary = None\<rparr>"

definition sample_absent :: trace where
  "sample_absent = \<lparr>tr_states = [[4] \<mapsto> absent_state, [2] \<mapsto> absent_state, [3] \<mapsto> absent_state],
     tr_records = [[4] \<mapsto> empty_record, [2] \<mapsto> empty_record, [3] \<mapsto> empty_record]\<rparr>"

definition sample_reader :: "unit tracker" where
  "sample_reader = \<lparr>tk_map = \<lambda>_ _ s. Inr \<lparr>mp_state = s, mp_links = []\<rparr>, tk_text = \<lambda>_. Inr [], tk_prefetch = \<lambda>_. None,
     tk_source = \<lambda>_ _. Inr [], tk_bytes = \<lambda>_. 0\<rparr>"

lemma sample_merge_edges: "parent_edges sample_merge = {([4], [2]), ([4], [3]), ([2], [1]), ([3], [1])}"
  by (auto simp: parent_edges_def sample_merge_def split: if_splits)

lemma sample_merge_step:
  "merge_step sample_reader sample_merge [4] sample_absent = Inr (upd_record [4] suppress sample_absent)"
proof -
  have c: "(graph_commit sample_merge [4] :: unit trace_error + commit) =
      Inr \<lparr>ct_id = [4], ct_tree = [], ct_parents = [[2], [3]], ct_date = [], ct_subject = []\<rparr>"
    by (simp add: graph_commit_def sample_merge_def)
  have v: "single_value sample_reader absent_state = Inr (Some ValueAbsent)" by code_simp
  have s: "tr_states sample_absent [4] = Some absent_state" "tr_states sample_absent [2] = Some absent_state"
    "tr_states sample_absent [3] = Some absent_state" by (simp_all add: sample_absent_def)
  have b: "bases sample_merge [[2], [3]] = [[1]]" by code_simp
  have i: "same_identity absent_state (Some absent_state)" "\<not> sa_uncertain absent_state" by code_simp+
  have "tr_states (upd_record [4] suppress sample_absent) [1] = None" by (simp add: upd_record_def sample_absent_def)
  then show ?thesis using i by (simp add: merge_step_def c s v value_at_def merge_base_def b)
qed

theorem merge_filter_frame_witness:
  "\<exists>t'. merge_filter sample_reader sample_merge sample_absent = Inr t' \<and> tr_states t' = tr_states sample_absent \<and>
    map_option hr_suppressed (tr_records t' [4]) = Some True \<and> tr_records t' [1] = None"
proof -
  have single: "merge_step sample_reader sample_merge oid t = Inr t" if "oid \<in> {[1], [2], [3]}" for oid t
    using that by (auto simp: merge_step_def graph_commit_def sample_merge_def split: option.split)
  have "merge_filter sample_reader sample_merge sample_absent = Inr (upd_record [4] suppress sample_absent)"
    using sample_merge_step single by (simp add: merge_filter_def) (simp add: sample_merge_def)
  moreover have "acyclic (parent_edges sample_merge)"
    by (rule acyclic_subset [OF wf_acyclic [OF wf_measure [of "\<lambda>x. 5 - hd x"]]]) (auto simp: sample_merge_edges)
  ultimately show ?thesis
    using merge_filter_frame [of sample_merge sample_absent sample_reader]
    by (auto simp: sample_merge_def sample_absent_def upd_record_def suppress_def split: sum.splits)
qed

end
