(* ===== verification/History_Log.thy ===== *)
theory History_Log
  imports Merges Paging
begin

text \<open>
  The log command of \<^verbatim>\<open>src/src/history/mod.rs\<close>: the walk from a commit towards its roots, an interval at
  every merge and one edge elsewhere, and the page that receives the records, skips, counts and cuts
  them. Text is bytes, as in \<^theory_text>\<open>Paging\<close>. Reading a commit, the tracker and the display of an error are
  parameters; cancellation and prefetching windows are not modelled. The loop has fuel.
\<close>

section \<open>The page\<close>

record log_page =
  lp_text :: bytes
  lp_skip :: nat
  lp_limit :: nat
  lp_matched :: nat
  lp_emitted :: nat
  lp_deferred :: bool
  lp_scope :: bool
  lp_ancestry :: bool

definition file_ancestry :: bytes where
  "file_ancestry = lit ''ancestry: unresolved file identity (absence or candidate ancestry)''"

definition scope_unresolved :: bytes where
  "scope_unresolved = lit ''unresolved directory scope; following supported file relationships''"

definition new_page :: "bytes \<Rightarrow> nat \<Rightarrow> nat \<Rightarrow> log_page" where
  "new_page header skip limit = \<lparr>lp_text = header @ [10], lp_skip = skip, lp_limit = limit, lp_matched = 0, lp_emitted = 0,
     lp_deferred = False, lp_scope = False, lp_ancestry = False\<rparr>"

definition page_full :: "log_page \<Rightarrow> bool" where
  "page_full p \<longleftrightarrow> lp_deferred p \<or> lp_limit p \<le> lp_emitted p \<or> page_bytes \<le> length (lp_text p)"

fun join_notes :: "bytes list \<Rightarrow> bytes" where
  "join_notes [] = []"
| "join_notes [n] = n"
| "join_notes (n # ns) = n @ lit ''; '' @ join_notes ns"

definition record_notes :: "history_record \<Rightarrow> bytes" where
  "record_notes r =
     (let notes = sorted_list_of_set (hr_notes r);
          s = join_notes (map (\<lambda>n. label (utf8 n) 512) (take 8 notes)) @
            (if 8 < length notes then lit ''; '' @ display_nat (length notes - 8) @ lit '' further relationships'' else [])
      in if hr_uncertain r \<and> \<not> starts_with s (lit ''~'') then lit ''~'' @ s else s)"

definition row_line :: "commit \<Rightarrow> history_record option \<Rightarrow> bytes" where
  "row_line c record =
     (let subject = utf8 (take 300 (ct_subject c));
          head = utf8 (ct_id c) @ lit '' '' @ utf8 (ct_date c) @ lit '' ''
      in case record of
          Some r \<Rightarrow> head @ record_notes r @ (if hr_partial r then lit '' partial (rejected edits excluded)'' else []) @
            (if hr_counted r then lit '' +'' @ display_nat (hr_plus r) @ lit '' -'' @ display_nat (hr_minus r) else []) @
            lit '' '' @ subject @ [10]
        | None \<Rightarrow> head @ subject @ [10])"

type_synonym row = "commit \<times> history_record option"

definition row_scope :: "row \<Rightarrow> bool" where
  "row_scope row \<longleftrightarrow> (case snd row of None \<Rightarrow> False | Some r \<Rightarrow> hr_scope_unresolved r)"

definition row_ancestry :: "row \<Rightarrow> bool" where
  "row_ancestry row \<longleftrightarrow> (case snd row of None \<Rightarrow> False | Some r \<Rightarrow> hr_ancestry_unresolved r)"

definition row_hidden :: "row \<Rightarrow> bool" where
  "row_hidden row \<longleftrightarrow> (case snd row of None \<Rightarrow> False | Some r \<Rightarrow> \<not> hr_changed r \<or> hr_suppressed r)"

definition emit_line :: "bytes \<Rightarrow> log_page \<Rightarrow> log_page" where
  "emit_line line p =
     (let footer = 128 + (if lp_ancestry p then length file_ancestry + 1 else 0)
      in if 0 < lp_emitted p \<and> page_bytes < length (lp_text p) + length line + footer then p\<lparr>lp_deferred := True\<rparr>
         else p\<lparr>lp_text := lp_text p @ line, lp_emitted := lp_emitted p + 1\<rparr>)"

definition push_row :: "row \<Rightarrow> log_page \<Rightarrow> log_page" where
  "push_row row p =
     (let p = p\<lparr>lp_scope := lp_scope p \<or> row_scope row, lp_ancestry := lp_ancestry p \<or> row_ancestry row\<rparr>
      in if row_hidden row then p
         else (let p = p\<lparr>lp_matched := lp_matched p + 1\<rparr>
               in if lp_matched p \<le> lp_skip p then p else emit_line (row_line (fst row) (snd row)) p))"

definition page_tail :: "log_page \<Rightarrow> bool \<Rightarrow> bytes option \<Rightarrow> bytes" where
  "page_tail p further incomplete =
     (if lp_ancestry p then file_ancestry @ [10] else []) @
     (if lp_scope p \<and> (incomplete \<noteq> None \<or> further \<or> lp_deferred p) then lit ''coverage: '' @ scope_unresolved @ [10] else []) @
     (case incomplete of
        Some reason \<Rightarrow> lit ''incomplete: '' @ reason @ [10]
      | None \<Rightarrow> if further \<or> lp_deferred p then lit ''more skip:'' @ display_nat (saturating_add (lp_skip p) (lp_emitted p)) @ [10]
          else if lp_scope p then lit ''incomplete: '' @ scope_unresolved @ [10]
          else lit ''end'' @ [10])"

definition end_page :: "log_page \<Rightarrow> bool \<Rightarrow> bytes option \<Rightarrow> bytes" where
  "end_page p further incomplete = lp_text p @ page_tail p further incomplete"

section \<open>The walk\<close>

datatype 'e log_error = LogWalk walk_error | LogTrace "'e trace_error"
datatype log_failure = LogPanic | LogStuck

record 'e log_env =
  le_read :: "str \<Rightarrow> commit walk"
  le_tracker :: "'e tracker"
  le_show :: "'e log_error \<Rightarrow> bytes"
  le_repository :: bool

text \<open>The closed interval above a merge, and the records of the selection in it.\<close>

definition log_trace :: "'e log_env \<Rightarrow> graph \<Rightarrow> str \<Rightarrow> state \<Rightarrow> 'e log_error + trace option" where
  "log_trace env g oid s =
     (if le_repository env then Inr None
      else map_error LogTrace (bindE (backwards (le_tracker env) g oid s True) (\<lambda>t.
        bindE (merge_filter (le_tracker env) g t) (\<lambda>t. Inr (Some t)))))"

definition log_interval :: "'e log_env \<Rightarrow> commit \<Rightarrow> state \<Rightarrow> walk_store \<Rightarrow> walk_store \<times> ('e log_error + graph \<times> trace option)" where
  "log_interval env c s st = (case graph_merge (le_read env) c (\<not> le_repository env) st of
     (st, Inl e) \<Rightarrow> (st, Inl (LogWalk e))
   | (st, Inr g) \<Rightarrow> (st, bindE (log_trace env g (ct_id c) s) (\<lambda>t. Inr (g, t))))"

definition interval_previous :: "graph \<Rightarrow> trace option \<Rightarrow> state option" where
  "interval_previous g trace = Option.bind (g_boundary g) (\<lambda>oid. Option.bind trace (\<lambda>t. tr_states t oid))"

definition interval_more :: "bool \<Rightarrow> graph \<Rightarrow> state option \<Rightarrow> bool" where
  "interval_more repository g previous \<longleftrightarrow> g_boundary g \<noteq> None \<and>
     (repository \<or> (case previous of None \<Rightarrow> False | Some s \<Rightarrow> sa_regions s \<noteq> [] \<or> sa_paths s \<noteq> []))"

text \<open>What a commit of the interval pushes; a missing commit panics.\<close>

definition interval_row :: "graph \<Rightarrow> trace option \<Rightarrow> str \<Rightarrow> str \<Rightarrow> log_failure + row list" where
  "interval_row g trace head oid = (case trace of
     None \<Rightarrow> if oid = head then Inr [] else (case map_of (g_commits g) oid of None \<Rightarrow> Inl LogPanic | Some c \<Rightarrow> Inr [(c, None)])
   | Some t \<Rightarrow> (case tr_records t oid of
        None \<Rightarrow> Inr []
      | Some r \<Rightarrow> (case map_of (g_commits g) oid of None \<Rightarrow> Inl LogPanic | Some c \<Rightarrow> Inr [(c, Some r)])))"

text \<open>The finished text on the left, the page to go on with on the right.\<close>

fun push_interval :: "graph \<Rightarrow> trace option \<Rightarrow> str \<Rightarrow> bool \<Rightarrow> str list \<Rightarrow> log_page \<Rightarrow> log_failure + (bytes + log_page)" where
  "push_interval g trace head further [] p = Inr (Inr p)"
| "push_interval g trace head further (oid # ids) p =
     bindE (interval_row g trace head oid) (\<lambda>rows.
       let p = fold push_row rows p
       in if page_full p then Inr (Inl (end_page p (ids \<noteq> [] \<or> further) None)) else push_interval g trace head further ids p)"

text \<open>One edge to the first parent.\<close>

definition log_edge :: "'e log_env \<Rightarrow> commit \<Rightarrow> state \<Rightarrow> 'e log_error + row list \<times> (commit \<times> state) option" where
  "log_edge env c s =
     bindE (case ct_parents c of [] \<Rightarrow> Inr None | oid # _ \<Rightarrow> bindE (map_error LogWalk (le_read env oid)) (\<lambda>p. Inr (Some p))) (\<lambda>parent.
     bindE (if le_repository env then Inr \<lparr>mp_state = empty_state, mp_links = []\<rparr>
       else (case parent of Some p \<Rightarrow> map_error (\<lambda>e. LogTrace (MapError e)) (tk_map (le_tracker env) c p s)
         | None \<Rightarrow> Inr absent_mapping)) (\<lambda>m.
     bindE (if le_repository env then Inr []
       else bindE (map_error LogTrace (edge_record (le_tracker env) s m)) (\<lambda>r. Inr [(c, Some r)])) (\<lambda>rows.
     Inr (rows, map_option (\<lambda>p. (p, mp_state m)) parent))))"

definition mark_complete :: "str \<Rightarrow> walk_store \<Rightarrow> walk_store" where
  "mark_complete oid st = st\<lparr>ws_complete := insert oid (ws_complete st)\<rparr>"

definition mark_boundary :: "str \<Rightarrow> walk_store \<Rightarrow> walk_store" where
  "mark_boundary oid st = st\<lparr>ws_boundaries := insert oid (ws_boundaries st)\<rparr>"

type_synonym log_result = "log_failure + walk_store \<times> bytes"

fun log_loop :: "nat \<Rightarrow> 'e log_env \<Rightarrow> commit \<Rightarrow> state \<Rightarrow> log_page \<Rightarrow> walk_store \<Rightarrow> log_result" where
  "log_loop 0 env c s p st = Inl LogStuck"
| "log_loop (Suc n) env c s p st =
     (let p = (if le_repository env then push_row (c, None) p else p)
      in if le_repository env \<and> ct_parents c = [] then Inr (mark_complete (ct_id c) st, end_page p False None)
         else if le_repository env \<and> page_full p then Inr (st, end_page p True None)
         else if 1 < length (ct_parents c) then
           (case log_interval env c s st of
              (st, Inl e) \<Rightarrow> Inr (st, end_page p False (Some (le_show env e)))
            | (st, Inr (g, trace)) \<Rightarrow>
                let previous = interval_previous g trace;
                    further = interval_more (le_repository env) g previous
                in bindE (push_interval g trace (ct_id c) further (g_order g) p) (\<lambda>r. case r of
                     Inl t \<Rightarrow> Inr (st, t)
                   | Inr p \<Rightarrow>
                       if \<not> further then Inr (st, end_page p False None)
                       else (case boundary_commit (le_read env) g st of
                           (st, Inl e) \<Rightarrow> Inr (st, end_page p False (Some (le_show env (LogWalk e))))
                         | (st, Inr c) \<Rightarrow> log_loop n env c (case previous of None \<Rightarrow> empty_state | Some s \<Rightarrow> s) p st)))
         else (case log_edge env c s of
             Inl e \<Rightarrow> Inr (mark_boundary (ct_id c) st, end_page p False (Some (le_show env e)))
           | Inr (rows, step) \<Rightarrow>
               let p = fold push_row rows p
               in (case step of
                   None \<Rightarrow> Inr (mark_complete (ct_id c) st, end_page p False None)
                 | Some (parent, previous) \<Rightarrow>
                     if \<not> le_repository env \<and> sa_regions previous = [] \<and> sa_paths previous = [] then Inr (st, end_page p False None)
                     else if page_full p then Inr (st, end_page p True None)
                     else log_loop n env parent previous p st)))"

definition log_command :: "nat \<Rightarrow> 'e log_env \<Rightarrow> commit \<Rightarrow> state \<Rightarrow> bytes \<Rightarrow> nat \<Rightarrow> nat \<Rightarrow> walk_store \<Rightarrow> log_result" where
  "log_command n env c s header skip limit st = log_loop n env c s (new_page header skip limit) st"

end
