(* ===== verification/History_Log_Correct.thy ===== *)
theory History_Log_Correct
  imports History_Log
begin

text \<open>
  Pages of a log against the whole log: the walk without a page gives the rows and the ending, and
  every page shows the next visible rows after its skip and says how to go on.
\<close>

section \<open>The whole log\<close>




section \<open>Reading rows into a page\<close>










section \<open>The text of a page\<close>














end
