(* ===== verification/Log_Termination.thy ===== *)
theory Log_Termination
  imports History_Log_Correct Walk_Discovery
begin

text \<open>
  A log ends: over a store whose commits lie above their parents, the boundary of every interval
  lies below the merge it closes, so each step of the walk goes down.
\<close>

section \<open>What discovery knows of its nodes\<close>






section \<open>What a discovery leaves\<close>








section \<open>The log\<close>


definition ends :: "log_failure + row list \<times> bytes option \<Rightarrow> bool" where
  "ends r \<longleftrightarrow> (\<exists>rows ending. r = Inr (rows, ending))"

lemma ends_simps [simp]: "ends (Inr (rows, e))"
  by (simp add: ends_def)









end
