(* ===== verification/Fact_Cache.thy ===== *)
theory Fact_Cache
  imports Prelude "HOL-Library.Multiset"
begin

text \<open>
  The bounded cache of history facts, \<^verbatim>\<open>Lru\<close> of \<^verbatim>\<open>src/src/history/cache.rs\<close>. The ordered map of the
  \<^verbatim>\<open>lru\<close> crate is a parameter with its documented behaviour as hypothesis: a lookup and an insertion
  make a key the most recent one, and \<^verbatim>\<open>pop_lru\<close> removes the least recent. The eviction loop is a
  partial function, and an \<^verbatim>\<open>unwrap\<close> of nothing or a counter below zero is a panic.
\<close>

section \<open>The map\<close>

record ('c, 'k, 'v) lru_ops =
  lo_get :: "'k \<Rightarrow> 'c \<Rightarrow> 'v option \<times> 'c"
  lo_put :: "'k \<Rightarrow> 'v \<Rightarrow> 'c \<Rightarrow> 'c"
  lo_pop :: "'c \<Rightarrow> 'v option \<times> 'c"

text \<open>\<open>items\<close> lists keys and values from the most to the least recent.\<close>

definition promote :: "'k \<Rightarrow> ('k \<times> 'v) list \<Rightarrow> ('k \<times> 'v) list" where
  "promote k xs = (case map_of xs k of None \<Rightarrow> xs | Some v \<Rightarrow> (k, v) # filter (\<lambda>x. fst x \<noteq> k) xs)"

definition lru_laws :: "('c, 'k, 'v) lru_ops \<Rightarrow> ('c \<Rightarrow> ('k \<times> 'v) list) \<Rightarrow> bool" where
  "lru_laws ops items \<longleftrightarrow>
     (\<forall>k c. fst (lo_get ops k c) = map_of (items c) k \<and> items (snd (lo_get ops k c)) = promote k (items c)) \<and>
     (\<forall>k v c. items (lo_put ops k v c) = (k, v) # filter (\<lambda>x. fst x \<noteq> k) (items c)) \<and>
     (\<forall>c. if items c = [] then fst (lo_pop ops c) = None
        else fst (lo_pop ops c) = Some (snd (last (items c))) \<and> items (snd (lo_pop ops c)) = butlast (items c))"

section \<open>The cache\<close>

record 'c lru =
  lr_entries :: 'c
  lr_bytes :: nat
  lr_limit :: nat
  lr_hits :: nat
  lr_misses :: nat

datatype lru_panic = NothingToPop | BytesBelowZero

definition entry_bytes :: nat where "entry_bytes = 128"

definition lru_new :: "'c \<Rightarrow> nat \<Rightarrow> 'c lru" where
  "lru_new entries limit = \<lparr>lr_entries = entries, lr_bytes = 0, lr_limit = limit, lr_hits = 0, lr_misses = 0\<rparr>"

definition lru_get :: "('c, 'k, 'v \<times> nat) lru_ops \<Rightarrow> 'k \<Rightarrow> 'c lru \<Rightarrow> 'v option \<times> 'c lru" where
  "lru_get ops k l = (case lo_get ops k (lr_entries l) of
     (Some (v, _), c) \<Rightarrow> (Some v, l\<lparr>lr_entries := c, lr_hits := lr_hits l + 1\<rparr>)
   | (None, c) \<Rightarrow> (None, l\<lparr>lr_entries := c, lr_misses := lr_misses l + 1\<rparr>))"

partial_function (option) evict :: "('c, 'k, 'v \<times> nat) lru_ops \<Rightarrow> nat \<Rightarrow> 'c \<Rightarrow> nat \<Rightarrow> 'v list \<Rightarrow>
    (lru_panic + 'c \<times> nat \<times> 'v list) option" where
  "evict ops room c bytes retired =
     (if bytes \<le> room then Some (Inr (c, bytes, retired))
      else (case lo_pop ops c of
          (None, _) \<Rightarrow> Some (Inl NothingToPop)
        | (Some (v, b), c) \<Rightarrow> if bytes < b then Some (Inl BytesBelowZero) else evict ops room c (bytes - b) (retired @ [v])))"

definition lru_insert :: "('c, 'k, 'v \<times> nat) lru_ops \<Rightarrow> 'k \<Rightarrow> 'v \<Rightarrow> nat \<Rightarrow> 'c lru \<Rightarrow>
    (lru_panic + ('v \<times> 'v list) \<times> 'c lru) option" where
  "lru_insert ops k v cost l = (case lo_get ops k (lr_entries l) of
     (Some (old, _), c) \<Rightarrow> Some (Inr ((old, [v]), l\<lparr>lr_entries := c\<rparr>))
   | (None, c) \<Rightarrow>
       let l = l\<lparr>lr_entries := c\<rparr>; cost = saturating_add cost entry_bytes
       in if lr_limit l < cost then Some (Inr ((v, []), l))
          else (case evict ops (lr_limit l - cost) c (lr_bytes l) [] of
              None \<Rightarrow> None
            | Some (Inl e) \<Rightarrow> Some (Inl e)
            | Some (Inr (c, bytes, retired)) \<Rightarrow>
                Some (Inr ((v, retired), l\<lparr>lr_bytes := bytes + cost, lr_entries := lo_put ops k (v, cost) c\<rparr>))))"

section \<open>What the cache promises\<close>

definition weight :: "('k \<times> 'v \<times> nat) list \<Rightarrow> nat" where
  "weight xs = sum_list (map (\<lambda>x. snd (snd x)) xs)"

definition lru_ok :: "('c \<Rightarrow> ('k \<times> 'v \<times> nat) list) \<Rightarrow> 'c lru \<Rightarrow> bool" where
  "lru_ok items l \<longleftrightarrow> distinct (map fst (items (lr_entries l))) \<and> lr_bytes l = weight (items (lr_entries l)) \<and> lr_bytes l \<le> lr_limit l"

text \<open>The most recent entries that fit.\<close>

fun kept :: "nat \<Rightarrow> ('k \<times> 'v \<times> nat) list \<Rightarrow> ('k \<times> 'v \<times> nat) list" where
  "kept room [] = []"
| "kept room (x # xs) = (if snd (snd x) \<le> room then x # kept (room - snd (snd x)) xs else [])"

text \<open>What an insertion means for the entries: the first value of a key stays.\<close>

definition insert_spec :: "nat \<Rightarrow> 'k \<Rightarrow> 'v \<Rightarrow> nat \<Rightarrow> ('k \<times> 'v \<times> nat) list \<Rightarrow> ('k \<times> 'v \<times> nat) list" where
  "insert_spec limit k v cost xs =
     (if map_of xs k \<noteq> None then promote k xs
      else if limit < cost then xs
      else (k, v, cost) # kept (limit - cost) xs)"

lemma weight_simps [simp]: "weight [] = 0" "weight (x # xs) = snd (snd x) + weight xs" "weight (xs @ ys) = weight xs + weight ys"
  by (simp_all add: weight_def)

lemma kept_all: "weight xs \<le> room \<Longrightarrow> kept room xs = xs"
  by (induction room xs rule: kept.induct) auto

lemma kept_snoc: "room < weight (xs @ [x]) \<Longrightarrow> kept room (xs @ [x]) = kept room xs"
  by (induction room xs rule: kept.induct) auto

lemma kept_weight: "weight (kept room xs) \<le> room"
  by (induction room xs rule: kept.induct) auto

lemma kept_prefix: "kept room xs = take (length (kept room xs)) xs"
  by (induction room xs rule: kept.induct) auto

lemma kept_length: "length (kept room xs) \<le> length xs"
  by (induction room xs rule: kept.induct) auto

lemma weight_filter: "weight (filter P xs) + weight (filter (\<lambda>x. \<not> P x) xs) = weight xs"
  by (induction xs) auto

lemma filter_key: "distinct (map fst xs) \<Longrightarrow> map_of xs k = Some v \<Longrightarrow> filter (\<lambda>x. fst x = k) xs = [(k, v)]"
  by (induction xs) (auto simp: filter_empty_conv image_iff split: if_splits dest: map_of_SomeD)

lemma promote_same:
  fixes xs :: "('k \<times> 'v \<times> nat) list"
  assumes "distinct (map fst xs)"
  shows "distinct (map fst (promote k xs)) \<and> weight (promote k xs) = weight xs"
proof (cases "map_of xs k")
  case (Some v)
  have "weight (filter (\<lambda>x. fst x = k) xs) + weight (filter (\<lambda>x. fst x \<noteq> k) xs) = weight xs" by (rule weight_filter)
  then show ?thesis using Some assms filter_key [OF assms Some] by (auto simp: promote_def distinct_map_filter)
qed (use assms in \<open>simp add: promote_def\<close>)

lemma lru_laws_get:
  "lru_laws ops items \<Longrightarrow> fst (lo_get ops k c) = map_of (items c) k \<and> items (snd (lo_get ops k c)) = promote k (items c)"
  unfolding lru_laws_def by blast

lemma evict_keeps:
  assumes "lru_laws ops items" "bytes = weight (items c)"
  shows "\<exists>c'. evict ops room c bytes retired = Some (Inr (c', weight (kept room (items c)),
      retired @ rev (map (fst \<circ> snd) (drop (length (kept room (items c))) (items c))))) \<and> items c' = kept room (items c)"
  using assms(2)
proof (induction "items c" arbitrary: c bytes retired rule: rev_induct)
  case Nil
  then show ?case by (simp add: evict.simps)
next
  case (snoc x xs)
  show ?case
  proof (cases "bytes \<le> room")
    case True
    then have "kept room (items c) = items c" using snoc.prems by (simp add: kept_all)
    then show ?thesis using True snoc.prems by (simp add: evict.simps)
  next
    case False
    obtain k v b where x: "x = (k, v, b)" by (cases x)
    have items: "items c = xs @ [(k, v, b)]" using snoc.hyps(2) x by simp
    obtain r c1 where p: "lo_pop ops c = (r, c1)" by (cases "lo_pop ops c")
    then have p1: "r = Some (v, b)" "items c1 = xs" using assms(1) items by (auto simp: lru_laws_def split: if_splits dest: spec [of _ c])
    have w: "bytes = weight xs + b" using snoc.prems items by simp
    then have k: "kept room (items c) = kept room (items c1)" using False items p1(2) by (simp add: kept_snoc)
    have "evict ops room c bytes retired = evict ops room c1 (weight (items c1)) (retired @ [v])"
      using False p p1 w by (subst evict.simps) simp
    moreover have "drop (length (kept room (items c1))) (items c) = drop (length (kept room (items c1))) (items c1) @ [(k, v, b)]"
      using kept_length [of room "items c1"] items p1(2) by simp
    ultimately show ?thesis
      using snoc.hyps(1) [of c1 "weight (items c1)" "retired @ [v]"] p1(2) unfolding k by simp
  qed
qed

text \<open>
  C30: inserting always returns, never panics and keeps the accounted bytes equal to what the entries
  hold and within the limit. Of concurrent values of a key the first stays and the new one is
  retired; a fitting value enters after exactly the least recent entries that must go, which are
  retired in that order, and one too large changes nothing.
\<close>

theorem lru_insert_refines:
  assumes "lru_laws ops items" "lru_ok items l"
  shows "\<exists>result retired l'. lru_insert ops k v cost l = Some (Inr ((result, retired), l')) \<and> lru_ok items l' \<and>
    lr_limit l' = lr_limit l \<and>
    items (lr_entries l') = insert_spec (lr_limit l) k v (saturating_add cost entry_bytes) (items (lr_entries l)) \<and>
    (case map_of (items (lr_entries l)) k of
       Some (old, _) \<Rightarrow> result = old \<and> retired = [v]
     | None \<Rightarrow> result = v \<and>
         retired = (if lr_limit l < saturating_add cost entry_bytes then []
           else rev (map (fst \<circ> snd) (drop (length (kept (lr_limit l - saturating_add cost entry_bytes) (items (lr_entries l))))
             (items (lr_entries l))))))"
proof -
  let ?c = "lr_entries l" and ?cost = "saturating_add cost entry_bytes"
  obtain r c where g: "lo_get ops k ?c = (r, c)" by (cases "lo_get ops k ?c")
  then have c: "r = map_of (items ?c) k" "items c = promote k (items ?c)"
    using lru_laws_get [OF assms(1), of k ?c] by simp_all
  show ?thesis
  proof (cases r)
    case (Some o_b)
    obtain old b where "o_b = (old, b)" by (cases o_b)
    then show ?thesis
      using Some g c assms(2) promote_same [of "items ?c" k]
      by (auto simp: lru_insert_def lru_ok_def insert_spec_def split: prod.splits)
  next
    case None
    then have same: "items c = items ?c" "map_of (items ?c) k = None" using c by (simp_all add: promote_def)
    show ?thesis
    proof (cases "lr_limit l < ?cost")
      case True
      then show ?thesis using None g same assms(2) by (auto simp: lru_insert_def lru_ok_def insert_spec_def Let_def)
    next
      case False
      let ?room = "lr_limit l - ?cost"
      let ?kept = "kept ?room (items ?c)"
      have "lr_bytes l = weight (items c)" using assms(2) same by (simp add: lru_ok_def)
      from evict_keeps [OF assms(1) this, of ?room "[]"] same obtain c' where
          e: "evict ops ?room c (lr_bytes l) [] = Some (Inr (c', weight ?kept, rev (map (fst \<circ> snd) (drop (length ?kept) (items ?c)))))"
        and c': "items c' = ?kept" by auto
      have sub: "set ?kept \<subseteq> set (items ?c)" using kept_prefix [of ?room "items ?c"] set_take_subset by metis
      have "k \<notin> fst ` set (items ?c)" using same(2) by (simp add: map_of_eq_None_iff)
      then have "filter (\<lambda>x. fst x \<noteq> k) ?kept = ?kept" using sub by (auto simp: filter_id_conv)
      then have new: "items (lo_put ops k (v, ?cost) c') = (k, v, ?cost) # ?kept"
        using assms(1) c' by (simp add: lru_laws_def)
      have "distinct (map fst ?kept)"
        using kept_prefix [of ?room "items ?c"] assms(2) by (metis distinct_take lru_ok_def take_map)
      then have "distinct (map fst ((k, v, ?cost) # ?kept))" using sub \<open>k \<notin> fst ` set (items ?c)\<close> by auto
      moreover have "weight ?kept + ?cost \<le> lr_limit l" using kept_weight [of ?room "items ?c"] False by simp
      ultimately show ?thesis
        using None g same False e new by (auto simp: lru_insert_def lru_ok_def insert_spec_def Let_def)
    qed
  qed
qed

text \<open>The map as its list of items.\<close>

definition listed :: "(('k \<times> 'v) list, 'k, 'v) lru_ops" where
  "listed = \<lparr>lo_get = \<lambda>k c. (map_of c k, promote k c), lo_put = \<lambda>k v c. (k, v) # filter (\<lambda>x. fst x \<noteq> k) c,
     lo_pop = \<lambda>c. if c = [] then (None, c) else (Some (snd (last c)), butlast c)\<rparr>"

lemma listed_laws: "lru_laws listed (\<lambda>c. c)"
  by (simp add: lru_laws_def listed_def)

definition sample_lru :: "(nat \<times> nat \<times> nat) list lru" where
  "sample_lru = \<lparr>lr_entries = [(1, 10, 400), (2, 20, 500)], lr_bytes = 900, lr_limit = 1000, lr_hits = 0, lr_misses = 0\<rparr>"

theorem lru_insert_refines_witness:
  "\<exists>l'. lru_insert listed 3 30 300 sample_lru = Some (Inr ((30, [20]), l')) \<and> lr_entries l' = [(3, 30, 428), (1, 10, 400)] \<and>
    lr_bytes l' = 828"
proof -
  have ok: "lru_ok (\<lambda>c. c) sample_lru" by (simp add: lru_ok_def sample_lru_def)
  have cost: "saturating_add 300 entry_bytes = 428" by (simp add: saturating_add_def entry_bytes_def u64_max_def)
  from lru_insert_refines [OF listed_laws ok, of 3 30 300] show ?thesis
    unfolding cost by (auto simp: sample_lru_def insert_spec_def lru_ok_def)
qed

end
