(* ===== verification/Packs.thy ===== *)
theory Packs
  imports Text "HOL-Library.List_Lexorder" "HOL-Library.Product_Lexorder"
begin

text \<open>
  Transport packs of the metadata archive: the grouping of \<^verbatim>\<open>src/src/metadata_archive/packing.rs\<close>, which
  keeps complete packs and merges related packages greedily, and the catalog check of
  \<^verbatim>\<open>src/src/metadata_archive/client.rs\<close>. A \<^verbatim>\<open>BTreeMap\<close> of dependencies is its list of pairs in key order.
  Building and reading archives is not modelled; sizes are of files, and their sums are taken not to
  reach \<open>2 ^ 64\<close>.
\<close>

section \<open>The catalog\<close>

record package =
  pk_name :: str
  pk_dependencies :: "(str \<times> str) list"

record artifact =
  ar_name :: str
  ar_release :: str
  ar_size :: nat
  ar_kind :: str
  ar_origin :: str
  ar_version :: str
  ar_entries :: nat
  ar_packages :: "package list"

record pack =
  pa_name :: str
  pa_release :: str
  pa_size :: nat
  pa_members :: "str list"

record catalog =
  ca_artifacts :: "artifact list"
  ca_packs :: "pack list"

definition max_pack :: nat where "max_pack = 8 * 1024 * 1024"
definition max_extra :: nat where "max_extra = 512 * 1024"

datatype catalog_error = InvalidPath str | InvalidAsset str | HasInventory str | InvalidPack str | InvalidMember str

text \<open>A relative path of ordinary parts. On Unix its components are those parts, so they add no condition.\<close>

definition validate_path :: "str \<Rightarrow> bool" where
  "validate_path p \<longleftrightarrow> p \<noteq> [] \<and> 92 \<notin> set p \<and> \<not> list_ex is_control p \<and>
     \<not> list_ex (\<lambda>c. c = [] \<or> c = lit ''.'' \<or> c = lit ''..'' \<or> map ascii_lower c = lit ''.git'') (split_on 47 p)"

definition safe :: "str \<Rightarrow> catalog_error + unit" where
  "safe p = ensureE (validate_path p) (InvalidPath p) (ensureE (92 \<notin> set p \<and> p \<noteq> []) (InvalidPath p) (Inr ()))"

fun validate_artifacts :: "artifact list \<Rightarrow> str set \<Rightarrow> catalog_error + str set" where
  "validate_artifacts [] names = Inr names"
| "validate_artifacts (a # as) names =
     bindE (safe (ar_name a)) (\<lambda>_. bindE (safe (ar_release a)) (\<lambda>_.
       ensureE (47 \<notin> set (ar_name a) \<and> 47 \<notin> set (ar_release a) \<and> ar_name a \<notin> names) (InvalidAsset (ar_name a))
         (ensureE (ar_entries a = 0) (HasInventory (ar_name a))
           (validate_artifacts as (insert (ar_name a) names)))))"

fun validate_members :: "artifact list \<Rightarrow> str list \<Rightarrow> str set \<Rightarrow> catalog_error + str set" where
  "validate_members as [] packed = Inr packed"
| "validate_members as (m # ms) packed =
     ensureE (m \<notin> packed \<and> list_ex (\<lambda>a. ar_name a = m \<and> ar_kind a = lit ''package'') as) (InvalidMember m)
       (validate_members as ms (insert m packed))"

fun validate_packs :: "artifact list \<Rightarrow> pack list \<Rightarrow> str set \<Rightarrow> str set \<Rightarrow> catalog_error + unit" where
  "validate_packs as [] names packed = Inr ()"
| "validate_packs as (p # ps) names packed =
     bindE (safe (pa_name p)) (\<lambda>_. bindE (safe (pa_release p)) (\<lambda>_.
       ensureE (47 \<notin> set (pa_name p) \<and> 47 \<notin> set (pa_release p) \<and> pa_name p \<notin> names \<and> 2 \<le> length (pa_members p) \<and>
           pa_size p \<le> max_pack) (InvalidPack (pa_name p))
         (bindE (validate_members as (pa_members p) packed) (\<lambda>packed.
           validate_packs as ps (insert (pa_name p) names) packed))))"

definition validate_catalog :: "catalog \<Rightarrow> catalog_error + unit" where
  "validate_catalog c = bindE (validate_artifacts (ca_artifacts c) {}) (\<lambda>names. validate_packs (ca_artifacts c) (ca_packs c) names {})"

section \<open>Complete packs\<close>

text \<open>The last artifact of a name.\<close>

definition by_name :: "artifact list \<Rightarrow> str \<Rightarrow> nat option" where
  "by_name as n = map_of (rev (zip (map ar_name as) [0..<length as])) n"

fun all_some :: "'a option list \<Rightarrow> 'a list option" where
  "all_some [] = Some []"
| "all_some (x # xs) = (case x of None \<Rightarrow> None | Some a \<Rightarrow> map_option ((#) a) (all_some xs))"

definition complete_packs :: "artifact list \<Rightarrow> pack list \<Rightarrow> nat list list" where
  "complete_packs as previous = List.map_filter (\<lambda>p. all_some (map (by_name as) (pa_members p))) previous"

section \<open>Relations of packages\<close>

definition package_nodes :: "artifact list \<Rightarrow> nat list" where
  "package_nodes as = filter (\<lambda>i. ar_kind (as ! i) = lit ''package'') [0..<length as]"

definition node_key :: "artifact list \<Rightarrow> nat list \<Rightarrow> str \<times> str \<Rightarrow> nat option" where
  "node_key as nodes nv =
     map_of (rev (zip (map (\<lambda>i. (ar_origin (as ! i), ar_version (as ! i))) nodes) [0..<length nodes])) nv"

definition node_packages :: "artifact list \<Rightarrow> nat list \<Rightarrow> nat \<Rightarrow> package list" where
  "node_packages as nodes a = ar_packages (as ! (nodes ! a))"

definition dependencies :: "artifact list \<Rightarrow> nat list \<Rightarrow> nat \<Rightarrow> nat set" where
  "dependencies as nodes a =
     set (List.map_filter (node_key as nodes) (concat (map pk_dependencies (node_packages as nodes a))))"

text \<open>What a node reaches; the guard says that a node has an entry, which keeps the search finite.\<close>

function closure_loop :: "(nat \<Rightarrow> nat set) \<Rightarrow> nat \<Rightarrow> nat list \<Rightarrow> nat set \<Rightarrow> nat set" where
  "closure_loop deps n pending seen = (case pending of
     [] \<Rightarrow> seen
   | i # pending \<Rightarrow> if i \<in> seen \<or> n \<le> i then closure_loop deps n pending seen
       else closure_loop deps n (rev (sorted_list_of_set (deps i)) @ pending) (insert i seen))"
  by pat_completeness auto
termination
proof (relation "measures [\<lambda>(deps, n, pending, seen). card ({..<n} - seen), \<lambda>(deps, n, pending, seen). length pending]", goal_cases)
  case (3 deps n pending seen i rest)
  then have "i \<in> {..<n} - seen" by simp
  then have "{..<n} - insert i seen \<subset> {..<n} - seen" by blast
  then show ?case by (simp add: psubset_card_mono)
qed simp_all

declare closure_loop.simps [simp del]

definition closure :: "artifact list \<Rightarrow> nat list \<Rightarrow> nat \<Rightarrow> nat set" where
  "closure as nodes root = closure_loop (dependencies as nodes) (length nodes) [root] {}"

definition users :: "artifact list \<Rightarrow> nat list \<Rightarrow> str \<Rightarrow> str set" where
  "users as nodes name = set (map pk_name (filter (\<lambda>p. name \<in> fst ` set (pk_dependencies p))
     (concat (map (node_packages as nodes) [0..<length nodes]))))"

definition useful :: "artifact list \<Rightarrow> nat list \<Rightarrow> str \<Rightarrow> bool" where
  "useful as nodes name \<longleftrightarrow> \<not> starts_with name (lit ''com.unity.modules.'') \<and> card (users as nodes name) < 10"

definition family :: "str \<Rightarrow> str" where
  "family name =
     (let name = (case strip_prefix name (lit ''com.unity.'') of None \<Rightarrow> name | Some rest \<Rightarrow> rest);
          first = hd (split_on 46 name)
      in if first \<in> {lit ''sdk'', lit ''sysroot'', lit ''toolchain''} then lit ''toolchain'' else first)"

definition node_origin :: "artifact list \<Rightarrow> nat list \<Rightarrow> nat \<Rightarrow> str" where
  "node_origin as nodes a = ar_origin (as ! (nodes ! a))"

definition node_size :: "artifact list \<Rightarrow> nat list \<Rightarrow> nat \<Rightarrow> nat" where
  "node_size as nodes a = ar_size (as ! (nodes ! a))"

definition shared_dependencies :: "artifact list \<Rightarrow> nat list \<Rightarrow> nat \<Rightarrow> nat \<Rightarrow> nat" where
  "shared_dependencies as nodes a b =
     (if family (node_origin as nodes a) = family (node_origin as nodes b)
      then length (filter (\<lambda>(n, v). useful as nodes n \<and>
          list_ex (\<lambda>p. map_of (pk_dependencies p) n = Some v) (node_packages as nodes b))
        (concat (map pk_dependencies (node_packages as nodes a))))
      else 0)"

definition pair_score :: "artifact list \<Rightarrow> nat list \<Rightarrow> nat \<Rightarrow> nat \<Rightarrow> nat" where
  "pair_score as nodes a b =
     ((if b \<in> dependencies as nodes a \<and> useful as nodes (node_origin as nodes b) then 1 else 0) +
      (if a \<in> dependencies as nodes b \<and> useful as nodes (node_origin as nodes a) then 1 else 0)) * 4 +
     shared_dependencies as nodes a b"

text \<open>The edges by descending score, then size and position; the reversed score is the negative one.\<close>

type_synonym pack_edge = "int \<times> nat \<times> nat \<times> nat"

definition pack_edges :: "artifact list \<Rightarrow> nat list \<Rightarrow> nat set \<Rightarrow> pack_edge list" where
  "pack_edges as nodes used = sort
     (concat (map (\<lambda>a. if nodes ! a \<in> used then [] else
        concat (map (\<lambda>b. if nodes ! b \<in> used \<or> node_origin as nodes a = node_origin as nodes b \<or> pair_score as nodes a b = 0 then []
            else [(- int (pair_score as nodes a b), node_size as nodes a + node_size as nodes b, a, b)])
          [a + 1..<length nodes])) [0..<length nodes]))"

section \<open>Merging\<close>

definition framed_size :: "nat \<Rightarrow> nat" where
  "framed_size n = 512 + (n + 511) div 512 * 512"

definition pack_fits :: "artifact list \<Rightarrow> nat list \<Rightarrow> nat list \<Rightarrow> bool" where
  "pack_fits as nodes merged \<longleftrightarrow>
     1024 + sum_list (map (\<lambda>i. framed_size (node_size as nodes i)) merged) \<le> max_pack \<and>
     card (set (map (node_origin as nodes) merged)) = length merged \<and>
     list_all (\<lambda>i. sum_list (map (node_size as nodes) (filter (\<lambda>j. j \<notin> closure as nodes i) merged)) \<le> max_extra) merged"

type_synonym merging = "nat list \<times> nat list list"

definition merge_edge :: "artifact list \<Rightarrow> nat list \<Rightarrow> pack_edge \<Rightarrow> merging \<Rightarrow> merging" where
  "merge_edge as nodes e st = (case (e, st) of ((_, _, a, b), owners, groups) \<Rightarrow>
     let a = owners ! a; b = owners ! b
     in if a = b then (owners, groups)
        else (let merged = groups ! a @ groups ! b
              in if \<not> pack_fits as nodes merged then (owners, groups)
                 else (fold (\<lambda>i owners. owners[i := a]) merged owners, (groups[a := merged])[b := []])))"

definition merged_groups :: "artifact list \<Rightarrow> nat list \<Rightarrow> nat set \<Rightarrow> nat list list" where
  "merged_groups as nodes used = snd (fold (merge_edge as nodes) (pack_edges as nodes used)
     ([0..<length nodes], map (\<lambda>i. if nodes ! i \<in> used then [] else [i]) [0..<length nodes]))"

text \<open>An empty group has no first member to compare by, which panics.\<close>

definition groups :: "artifact list \<Rightarrow> pack list \<Rightarrow> nat list list option" where
  "groups as previous =
     (let complete = complete_packs as previous;
          used = \<Union> (set ` set complete);
          nodes = package_nodes as;
          result = complete @
            map (map ((!) nodes)) (filter (\<lambda>g. g \<noteq> []) (merged_groups as nodes used)) @
            map (\<lambda>i. [i]) (filter (\<lambda>i. i \<notin> used \<and> ar_kind (as ! i) \<noteq> lit ''package'') [0..<length as]);
          result = map (sort_key (\<lambda>i. ar_name (as ! i))) result
      in if [] \<in> set result \<and> 2 \<le> length result then None else Some (sort_key (\<lambda>g. ar_name (as ! hd g)) result))"

end
