(* ===== verification/Packs_Correct.thy ===== *)
theory Packs_Correct
  imports Packs "HOL-Library.Multiset"
begin

text \<open>
  Grouping partitions the artifacts: on a catalog that passes its check every artifact lies in
  exactly one group, complete packs are kept, and merged groups stay within their bounds.
\<close>

section \<open>Checked catalogs\<close>

lemma validate_members_distinct:
  "validate_members as ms packed = Inr packed' \<Longrightarrow> distinct ms \<and> set ms \<inter> packed = {} \<and> packed' = packed \<union> set ms"
  by (induction ms arbitrary: packed) fastforce+

lemma validate_packs_distinct:
  "validate_packs as ps names packed = Inr () \<Longrightarrow>
    distinct (concat (map pa_members ps)) \<and> set (concat (map pa_members ps)) \<inter> packed = {} \<and>
    (\<forall>p \<in> set ps. 2 \<le> length (pa_members p))"
proof (induction ps arbitrary: names packed)
  case (Cons p ps)
  then obtain packed' where m: "validate_members as (pa_members p) packed = Inr packed'" "2 \<le> length (pa_members p)"
    and r: "validate_packs as ps (insert (pa_name p) names) packed' = Inr ()" by auto
  from Cons.IH [OF r] m(2) validate_members_distinct [OF m(1)] show ?case by auto
qed simp

section \<open>Names and complete packs\<close>

lemma by_name_iff:
  assumes "distinct (map ar_name as)"
  shows "by_name as n = Some i \<longleftrightarrow> i < length as \<and> ar_name (as ! i) = n"
proof -
  have d: "distinct (map fst (rev (zip (map ar_name as) [0..<length as])))" using assms by (simp flip: rev_map)
  show ?thesis unfolding by_name_def map_of_eq_Some_iff [OF d] by (auto simp: in_set_zip intro!: exI [of _ i])
qed

lemma all_some_iff: "all_some xs = Some ys \<longleftrightarrow> xs = map Some ys"
  by (induction xs arbitrary: ys) (auto split: option.split)

lemma all_some_map [simp]: "all_some (map Some ys) = Some ys"
  by (simp add: all_some_iff)

lemma complete_pack:
  assumes "distinct (map ar_name as)" "all_some (map (by_name as) ms) = Some js"
  shows "map (\<lambda>i. ar_name (as ! i)) js = ms" "set js \<subseteq> {..<length as}"
proof -
  have e: "map (by_name as) ms = map Some js" using assms(2) by (simp add: all_some_iff)
  then have l: "length ms = length js" by (metis length_map)
  have at: "js ! k < length as \<and> ar_name (as ! (js ! k)) = ms ! k" if "k < length js" for k
    using arg_cong [OF e, of "\<lambda>xs. xs ! k"] that l by (simp add: by_name_iff [OF assms(1)])
  show "map (\<lambda>i. ar_name (as ! i)) js = ms" by (rule nth_equalityI) (use l at in auto)
  show "set js \<subseteq> {..<length as}" using at by (auto simp: in_set_conv_nth)
qed

lemma complete_packs_distinct:
  assumes "distinct (map ar_name as)" "distinct (concat (map pa_members ps))"
  shows "distinct (concat (complete_packs as ps)) \<and> set (concat (complete_packs as ps)) \<subseteq> {..<length as} \<and>
    (\<lambda>i. ar_name (as ! i)) ` set (concat (complete_packs as ps)) \<subseteq> set (concat (map pa_members ps))"
  using assms(2)
proof (induction ps)
  case (Cons p ps)
  have IH: "distinct (concat (complete_packs as ps))" "set (concat (complete_packs as ps)) \<subseteq> {..<length as}"
    "(\<lambda>i. ar_name (as ! i)) ` set (concat (complete_packs as ps)) \<subseteq> set (concat (map pa_members ps))"
    using Cons by auto
  show ?case
  proof (cases "all_some (map (by_name as) (pa_members p))")
    case None
    then have "complete_packs as (p # ps) = complete_packs as ps" by (simp add: complete_packs_def map_filter_simps)
    then show ?thesis using IH by auto
  next
    case (Some js)
    then have e: "complete_packs as (p # ps) = js # complete_packs as ps" by (simp add: complete_packs_def map_filter_simps)
    note js = complete_pack [OF assms(1) Some]
    have "distinct (map (\<lambda>i. ar_name (as ! i)) js)" using js(1) Cons.prems by simp
    then have "distinct js" by (simp add: distinct_map)
    moreover have "set js \<inter> set (concat (complete_packs as ps)) = {}"
    proof -
      have "(\<lambda>i. ar_name (as ! i)) ` set js \<inter> set (concat (map pa_members ps)) = {}"
        using Cons.prems js(1) by (metis concat.simps(2) distinct_append list.set_map list.simps(9))
      then show ?thesis using IH(3) by blast
    qed
    moreover have "(\<lambda>i. ar_name (as ! i)) ` set js = set (pa_members p)" using js(1) by (metis list.set_map)
    ultimately have all: "distinct (concat (js # complete_packs as ps))" "set (concat (js # complete_packs as ps)) \<subseteq> {..<length as}"
      "(\<lambda>i. ar_name (as ! i)) ` set (concat (js # complete_packs as ps)) \<subseteq> set (concat (map pa_members (p # ps)))"
    proof -
      assume d: "distinct js" "set js \<inter> set (concat (complete_packs as ps)) = {}"
        "(\<lambda>i. ar_name (as ! i)) ` set js = set (pa_members p)"
      show "distinct (concat (js # complete_packs as ps))" using d IH(1) by (simp only: concat.simps distinct_append)
      show "set (concat (js # complete_packs as ps)) \<subseteq> {..<length as}" using IH(2) js(2) by (simp only: concat.simps set_append) blast
      show "(\<lambda>i. ar_name (as ! i)) ` set (concat (js # complete_packs as ps)) \<subseteq> set (concat (map pa_members (p # ps)))"
        using IH(3) d(3) by (simp only: concat.simps list.map set_append image_Un) blast
    qed
    then show ?thesis unfolding e by blast
  qed
qed (simp add: complete_packs_def map_filter_simps)

section \<open>Merging\<close>

lemma mset_concat_update: "a < length gs \<Longrightarrow> mset (concat (gs[a := g])) + mset (gs ! a) = mset (concat gs) + mset g"
proof (induction gs arbitrary: a)
  case (Cons x gs)
  then show ?case by (cases a) (auto simp: ac_simps)
qed simp

definition merging_ok :: "artifact list \<Rightarrow> nat list \<Rightarrow> nat multiset \<Rightarrow> merging \<Rightarrow> bool" where
  "merging_ok as nodes all st \<longleftrightarrow> (case st of (owners, gs) \<Rightarrow>
     length owners = length nodes \<and> length gs = length nodes \<and> set owners \<subseteq> {..<length nodes} \<and>
     mset (concat gs) = all \<and> (\<forall>g \<in> set gs. length g \<le> 1 \<or> pack_fits as nodes g))"

lemma fold_owners:
  "length (fold (\<lambda>i owners. owners[i := a]) xs owners) = length owners \<and>
   (a < n \<longrightarrow> set owners \<subseteq> {..<n} \<longrightarrow> set (fold (\<lambda>i owners. owners[i := a]) xs owners) \<subseteq> {..<n})"
proof (induction xs arbitrary: owners)
  case (Cons i xs)
  have "a < n \<longrightarrow> set owners \<subseteq> {..<n} \<longrightarrow> set (owners[i := a]) \<subseteq> {..<n}" using set_update_subset_insert [of owners i a] by auto
  then show ?case using Cons.IH [of "owners[i := a]"] by simp
qed simp

lemma merge_edge_ok:
  assumes "merging_ok as nodes all st" "e = (k, m, a, b)" "a < length nodes" "b < length nodes"
  shows "merging_ok as nodes all (merge_edge as nodes e st)"
proof -
  obtain owners gs where st: "st = (owners, gs)" by (cases st)
  note v = assms(1) [unfolded merging_ok_def st, simplified]
  let ?a = "owners ! a" and ?b = "owners ! b"
  have ab: "?a < length nodes" "?b < length nodes" using v assms(3,4) nth_mem by (metis lessThan_iff subsetD)+
  let ?m = "gs ! ?a @ gs ! ?b"
  show ?thesis
  proof (cases "?a = ?b \<or> \<not> pack_fits as nodes ?m")
    case True
    then show ?thesis using assms(1) by (auto simp: merge_edge_def st assms(2) Let_def)
  next
    case False
    let ?owners = "fold (\<lambda>i owners. owners[i := ?a]) ?m owners" and ?groups = "(gs[?a := ?m])[?b := []]"
    have "mset (concat ?groups) + mset (gs ! ?b) + mset (gs ! ?a) = mset (concat gs) + mset ?m"
      using mset_concat_update [of ?b "gs[?a := ?m]" "[]"] mset_concat_update [of ?a gs ?m] ab v False
      by (simp add: ac_simps)
    then have "mset (concat ?groups) = all" using v by (simp add: ac_simps)
    moreover have "set ?groups \<subseteq> insert [] (insert ?m (set gs))"
      using set_update_subset_insert [of "gs[?a := ?m]" ?b "[]"] set_update_subset_insert [of gs ?a ?m] by blast
    then have "\<forall>g \<in> set ?groups. length g \<le> 1 \<or> pack_fits as nodes g" using v False by auto
    moreover have "merge_edge as nodes e st = (?owners, ?groups)" using False by (simp add: merge_edge_def st assms(2) Let_def)
    ultimately show ?thesis using v ab fold_owners [where a = ?a and n = "length nodes" and owners = owners and xs = ?m]
      by (simp add: merging_ok_def)
  qed
qed

lemma pack_edges_range: "(k, m, a, b) \<in> set (pack_edges as nodes used) \<Longrightarrow> a < length nodes \<and> b < length nodes"
  by (auto simp: pack_edges_def split: if_splits)

lemma merged_groups_ok:
  "mset (concat (merged_groups as nodes used)) = mset (filter (\<lambda>i. nodes ! i \<notin> used) [0..<length nodes]) \<and>
   (\<forall>g \<in> set (merged_groups as nodes used). length g \<le> 1 \<or> pack_fits as nodes g)"
proof -
  let ?start = "([0..<length nodes], map (\<lambda>i. if nodes ! i \<in> used then [] else [i]) [0..<length nodes])"
  let ?all = "mset (filter (\<lambda>i. nodes ! i \<notin> used) [0..<length nodes])"
  have c: "concat (map (\<lambda>i. if nodes ! i \<in> used then [] else [i]) xs) = filter (\<lambda>i. nodes ! i \<notin> used) xs" for xs
    by (induction xs) auto
  have start: "merging_ok as nodes ?all ?start" by (auto simp: merging_ok_def c)
  have "merging_ok as nodes ?all (fold (merge_edge as nodes) es st)"
    if "set es \<subseteq> set (pack_edges as nodes used)" "merging_ok as nodes ?all st" for es st
    using that
  proof (induction es arbitrary: st)
    case (Cons e es)
    obtain k m a b where e: "e = (k, m, a, b)" by (cases e)
    have "a < length nodes" "b < length nodes" using pack_edges_range Cons.prems(1) e by auto
    from merge_edge_ok [OF Cons.prems(2) e this] Cons show ?case by simp
  qed simp
  from this [OF order_refl start] show ?thesis
    by (auto simp: merging_ok_def merged_groups_def split: prod.splits)
qed

section \<open>The partition\<close>

lemma mset_concat_sorted: "mset (concat (map (sort_key f) gs)) = mset (concat gs)"
  by (induction gs) auto

lemma mset_concat_cong: "mset xs = mset ys \<Longrightarrow> mset (concat xs) = mset (concat ys)"
  by (simp add: mset_concat flip: sum_mset_sum_list)

lemma concat_nonempty: "concat (filter (\<lambda>g. g \<noteq> []) gs) = concat gs"
  by (induction gs) auto

lemma complete_packs_nonempty: "\<forall>p \<in> set ps. 2 \<le> length (pa_members p) \<Longrightarrow> g \<in> set (complete_packs as ps) \<Longrightarrow> g \<noteq> []"
  by (auto simp: complete_packs_def map_filter_def all_some_iff all_some_map)

text \<open>The three kinds of groups, before they are sorted.\<close>

definition raw_groups :: "artifact list \<Rightarrow> pack list \<Rightarrow> nat list list" where
  "raw_groups as previous =
     (let complete = complete_packs as previous;
          used = \<Union> (set ` set complete);
          nodes = package_nodes as
      in complete @ map (map ((!) nodes)) (filter (\<lambda>g. g \<noteq> []) (merged_groups as nodes used)) @
         map (\<lambda>i. [i]) (filter (\<lambda>i. i \<notin> used \<and> ar_kind (as ! i) \<noteq> lit ''package'') [0..<length as]))"

lemma groups_raw:
  "groups as previous =
     (let result = map (sort_key (\<lambda>i. ar_name (as ! i))) (raw_groups as previous)
      in if [] \<in> set result \<and> 2 \<le> length result then None else Some (sort_key (\<lambda>g. ar_name (as ! hd g)) result))"
  unfolding groups_def raw_groups_def Let_def by (rule refl)

lemma raw_groups_partition:
  assumes "distinct (map ar_name as)" "distinct (concat (map pa_members previous))"
  shows "mset (concat (raw_groups as previous)) = mset [0..<length as]"
proof -
  let ?complete = "complete_packs as previous"
  let ?used = "\<Union> (set ` set ?complete)"
  let ?nodes = "package_nodes as"
  let ?free = "filter (\<lambda>i. ?nodes ! i \<notin> ?used) [0..<length ?nodes]"
  let ?rest = "filter (\<lambda>i. i \<notin> ?used \<and> ar_kind (as ! i) \<noteq> lit ''package'') [0..<length as]"
  have complete: "distinct (concat ?complete)" "set (concat ?complete) \<subseteq> {..<length as}"
    using complete_packs_distinct [OF assms] by blast+
  have nodes: "distinct ?nodes" "set ?nodes = {i. i < length as \<and> ar_kind (as ! i) = lit ''package''}"
    by (auto simp: package_nodes_def)
  have "concat (map (map ((!) ?nodes)) gs) = map ((!) ?nodes) (concat gs)" for gs by (induction gs) auto
  then have "mset (concat (raw_groups as previous)) = mset (concat ?complete) +
      image_mset ((!) ?nodes) (mset (concat (merged_groups as ?nodes ?used))) + mset ?rest"
    by (simp add: raw_groups_def Let_def concat_nonempty)
  also have "image_mset ((!) ?nodes) (mset (concat (merged_groups as ?nodes ?used))) = mset (map ((!) ?nodes) ?free)"
    using merged_groups_ok [of as ?nodes ?used] by simp
  also have "map ((!) ?nodes) ?free = filter (\<lambda>i. i \<notin> ?used) ?nodes"
  proof -
    have "map f (filter (\<lambda>i. P (f i)) xs) = filter P (map f xs)" for f :: "nat \<Rightarrow> nat" and P xs by (induction xs) auto
    from this [of "(!) ?nodes" "\<lambda>i. i \<notin> ?used" "[0..<length ?nodes]"] show ?thesis unfolding map_nth .
  qed
  also have "mset (concat ?complete) + mset (filter (\<lambda>i. i \<notin> ?used) ?nodes) + mset ?rest = mset [0..<length as]"
  proof -
    have "distinct (concat ?complete @ filter (\<lambda>i. i \<notin> ?used) ?nodes @ ?rest)"
      using complete(1) nodes by auto
    moreover have "set (concat ?complete @ filter (\<lambda>i. i \<notin> ?used) ?nodes @ ?rest) = set [0..<length as]"
      using complete(2) nodes(2) by auto
    ultimately have "mset (concat ?complete @ filter (\<lambda>i. i \<notin> ?used) ?nodes @ ?rest) = mset [0..<length as]"
      by (simp only: set_eq_iff_mset_eq_distinct [OF _ distinct_upt])
    then show ?thesis by (simp add: ac_simps)
  qed
  finally show ?thesis .
qed

text \<open>
  C26: grouping artifacts of different names after a catalog that passes its check never panics and
  puts every artifact into exactly one group. Every earlier pack whose members are all still there is
  a group again; any other group of several packages fits the size of a pack, has one version of
  each package and brings no member more than 512 KiB of what it does not depend on.
\<close>

theorem groups_partition:
  assumes "validate_catalog previous = Inr ()" "distinct (map ar_name as)"
  shows "\<exists>gs. groups as (ca_packs previous) = Some gs \<and> mset (concat gs) = mset [0..<length as] \<and>
    (\<forall>p \<in> set (ca_packs previous). set (pa_members p) \<subseteq> ar_name ` set as \<longrightarrow>
       (\<exists>g \<in> set gs. mset (map (\<lambda>i. ar_name (as ! i)) g) = mset (pa_members p))) \<and>
    (\<forall>g \<in> set gs. length g = 1 \<or>
       (\<exists>p \<in> set (ca_packs previous). mset (map (\<lambda>i. ar_name (as ! i)) g) = mset (pa_members p)) \<or>
       (\<exists>m. mset g = mset (map ((!) (package_nodes as)) m) \<and> pack_fits as (package_nodes as) m))"
proof -
  let ?ps = "ca_packs previous"
  let ?raw = "raw_groups as ?ps"
  let ?sorted = "map (sort_key (\<lambda>i. ar_name (as ! i))) ?raw"
  let ?gs = "sort_key (\<lambda>g. ar_name (as ! hd g)) ?sorted"
  from assms(1) obtain names where "validate_packs (ca_artifacts previous) ?ps names {} = Inr ()"
    by (auto simp: validate_catalog_def)
  from validate_packs_distinct [OF this] have d: "distinct (concat (map pa_members ?ps))"
    and two: "\<forall>p \<in> set ?ps. 2 \<le> length (pa_members p)" by blast+
  have "[] \<notin> set ?raw" using complete_packs_nonempty [OF two] by (auto simp: raw_groups_def Let_def)
  then have "[] \<notin> set ?sorted" by (auto simp: image_iff) (metis length_0_conv length_sort)
  then have gs: "groups as ?ps = Some ?gs" by (simp add: groups_raw Let_def del: set_map)
  have "mset (concat ?gs) = mset (concat ?sorted)" by (rule mset_concat_cong) simp
  then have "mset (concat ?gs) = mset [0..<length as]"
    using raw_groups_partition [OF assms(2) d] by (simp add: mset_concat_sorted)
  moreover have in_gs: "\<exists>g \<in> set ?gs. mset g = mset r" if "r \<in> set ?raw" for r
    by (rule bexI [of _ "sort_key (\<lambda>i. ar_name (as ! i)) r"]) (use that in \<open>simp_all\<close>)
  have "\<exists>g \<in> set ?gs. mset (map (\<lambda>i. ar_name (as ! i)) g) = mset (pa_members p)"
    if p: "p \<in> set ?ps" "set (pa_members p) \<subseteq> ar_name ` set as" for p
  proof -
    have "by_name as n \<noteq> None" if "n \<in> set (pa_members p)" for n
    proof -
      have "n \<in> set (map ar_name as)" using that p(2) by auto
      then obtain i where "i < length as" "ar_name (as ! i) = n" by (auto simp: in_set_conv_nth)
      then show ?thesis using by_name_iff [OF assms(2), of n i] by auto
    qed
    then have "map (by_name as) (pa_members p) = map Some (map (\<lambda>n. the (by_name as n)) (pa_members p))" by auto
    then obtain js where js: "all_some (map (by_name as) (pa_members p)) = Some js" by (simp only: all_some_iff)
    then have "js \<in> set ?raw" using p(1)
      by (auto simp: raw_groups_def Let_def complete_packs_def map_filter_def intro!: rev_image_eqI [of p])
    from in_gs [OF this] obtain g where "g \<in> set ?gs" "mset g = mset js" by blast
    then show ?thesis using complete_pack(1) [OF assms(2) js] by (metis mset_map)
  qed
  moreover have "length g = 1 \<or>
       (\<exists>p \<in> set ?ps. mset (map (\<lambda>i. ar_name (as ! i)) g) = mset (pa_members p)) \<or>
       (\<exists>m. mset g = mset (map ((!) (package_nodes as)) m) \<and> pack_fits as (package_nodes as) m)" if g: "g \<in> set ?gs" for g
  proof -
    obtain r where r: "r \<in> set ?raw" "mset g = mset r" using g by auto
    then have len: "length g = length r" by (metis size_mset)
    let ?used = "\<Union> (set ` set (complete_packs as ?ps))"
    from r(1) consider "r \<in> set (complete_packs as ?ps)"
      | m where "r = map ((!) (package_nodes as)) m" "m \<in> set (merged_groups as (package_nodes as) ?used)" "m \<noteq> []"
      | i where "r = [i]" by (auto simp: raw_groups_def Let_def)
    then show ?thesis
    proof cases
      case 1
      then obtain p where p: "p \<in> set ?ps" "all_some (map (by_name as) (pa_members p)) = Some r"
        by (auto simp: complete_packs_def map_filter_def)
      then show ?thesis using complete_pack(1) [OF assms(2) p(2)] r(2) by (metis mset_map)
    next
      case 2
      then show ?thesis using merged_groups_ok [of as "package_nodes as" ?used] r(2) len by (cases m) fastforce+
    next
      case 3
      then show ?thesis using len by simp
    qed
  qed
  ultimately show ?thesis using gs by blast
qed

text \<open>Two packed packages, two new ones of which the first needs the second, and an editor.\<close>

definition sample_artifact :: "nat \<Rightarrow> (str \<times> str) list \<Rightarrow> artifact" where
  "sample_artifact k deps = \<lparr>ar_name = [k], ar_release = [114], ar_size = 1000, ar_kind = lit ''package'', ar_origin = [k], ar_version = [49],
     ar_entries = 0, ar_packages = [\<lparr>pk_name = [k], pk_dependencies = deps\<rparr>]\<rparr>"

definition sample_catalog :: catalog where
  "sample_catalog = \<lparr>ca_artifacts = [sample_artifact 97 [], sample_artifact 98 []],
     ca_packs = [\<lparr>pa_name = [112], pa_release = [114], pa_size = 4096, pa_members = [[97], [98]]\<rparr>]\<rparr>"

definition sample_artifacts :: "artifact list" where
  "sample_artifacts = [sample_artifact 97 [], sample_artifact 98 [], sample_artifact 99 [([100], [49])], sample_artifact 100 [],
     (sample_artifact 101 [])\<lparr>ar_kind := lit ''editor''\<rparr>]"

theorem groups_partition_witness:
  "\<exists>gs. groups sample_artifacts (ca_packs sample_catalog) = Some gs \<and> mset (concat gs) = {#0, 1, 2, 3, 4#} \<and>
    (\<exists>g \<in> set gs. mset (map (\<lambda>i. ar_name (sample_artifacts ! i)) g) = {#[97], [98]#})"
proof -
  have ok: "validate_catalog sample_catalog = Inr ()"
    by (simp add: validate_catalog_def sample_catalog_def sample_artifact_def safe_def validate_path_def is_control_def lit_def
      max_pack_def ascii_lower_def is_ascii_upper_def)
  have names: "map ar_name sample_artifacts = [[97], [98], [99], [100], [101]]"
    by (simp add: sample_artifacts_def sample_artifact_def)
  then have d: "distinct (map ar_name sample_artifacts)" by simp
  have n: "length sample_artifacts = 5" by (simp add: sample_artifacts_def)
  have set: "ar_name ` set sample_artifacts = {[97], [98], [99], [100], [101]}" using names by (metis list.set(1,2) list.set_map)
  have pack: "set (ca_packs sample_catalog) = {\<lparr>pa_name = [112], pa_release = [114], pa_size = 4096, pa_members = [[97], [98]]\<rparr>}"
    by (simp add: sample_catalog_def)
  have range: "mset [0..<5] = {#0, 1, 2, 3, 4#}" by (simp add: upt_rec numeral_eq_Suc)
  let ?p = "\<lparr>pa_name = [112], pa_release = [114], pa_size = 4096, pa_members = [[97], [98]]\<rparr>"
  obtain gs where gs: "groups sample_artifacts (ca_packs sample_catalog) = Some gs" "mset (concat gs) = {#0, 1, 2, 3, 4#}"
      "\<forall>p \<in> {?p}. set (pa_members p) \<subseteq> {[97], [98], [99], [100], [101]} \<longrightarrow>
         (\<exists>g \<in> set gs. mset (map (\<lambda>i. ar_name (sample_artifacts ! i)) g) = mset (pa_members p))"
    using groups_partition [OF ok d, unfolded n range set] pack by metis
  from gs(3) have "\<exists>g \<in> set gs. mset (map (\<lambda>i. ar_name (sample_artifacts ! i)) g) = {#[97], [98]#}" by simp
  with gs(1,2) show ?thesis by blast
qed

end
