(* ===== verification/Stream_Reader.thy ===== *)
theory Stream_Reader
  imports Prelude
begin

text \<open>
  The buffered reader of \<^verbatim>\<open>src/src/binary/stream.rs\<close>, which decodes records from a stream without
  holding it. What the stream returns to each call of \<^verbatim>\<open>read\<close> is a list of results: some bytes, no
  bytes at its end, an interruption or a failure. Cancellation and failed allocations are not
  modelled, nor is the \<^verbatim>\<open>postcard\<close> decoder that asks for the fields.
\<close>

section \<open>The reader\<close>

datatype 'e io = Chunk "nat list" | Interrupted | Failed 'e

datatype 'e read_error = Truncated | SizeLimit | Trailing | IoError 'e | ReaderPanic

record 'e reader =
  rd_input :: "'e io list"
  rd_buffer :: "nat list"
  rd_start :: nat
  rd_end :: nat
  rd_limit :: nat
  rd_read :: nat

definition buffer_size :: nat where "buffer_size = 8192"

definition new_reader :: "'e io list \<Rightarrow> nat \<Rightarrow> 'e reader" where
  "new_reader input limit =
     \<lparr>rd_input = input, rd_buffer = replicate buffer_size 0, rd_start = 0, rd_end = 0, rd_limit = limit, rd_read = 0\<rparr>"

text \<open>One read, with interruptions retried; the end of the list is the end of the stream.\<close>

fun read_once :: "'e io list \<Rightarrow> 'e read_error + nat list \<times> 'e io list" where
  "read_once [] = Inr ([], [])"
| "read_once (Chunk bs # io) = Inr (bs, io)"
| "read_once (Interrupted # io) = read_once io"
| "read_once (Failed e # io) = Inl (IoError e)"

lemma read_once_length: "read_once io = Inr (bs, io') \<Longrightarrow> bs \<noteq> [] \<Longrightarrow> length io' < length io"
  by (induction io rule: read_once.induct) auto

definition fill :: "'e reader \<Rightarrow> 'e read_error + 'e reader" where
  "fill r = bindE (read_once (rd_input r)) (\<lambda>(bs, io).
     ensureE (bs \<noteq> []) Truncated
       (case checked_add (rd_end r) (length bs) of
          None \<Rightarrow> Inl SizeLimit
        | Some e \<Rightarrow> Inr (r\<lparr>rd_input := io, rd_buffer := bs @ drop (length bs) (rd_buffer r), rd_start := rd_end r, rd_end := e\<rparr>)))"

definition pop :: "'e reader \<Rightarrow> 'e read_error + nat \<times> 'e reader" where
  "pop r = (if rd_read r = rd_limit r then Inl SizeLimit
     else bindE (if rd_read r = rd_end r then fill r else Inr r) (\<lambda>r.
       ensureE (rd_start r \<le> rd_read r \<and> rd_read r - rd_start r < length (rd_buffer r)) ReaderPanic
         (Inr (rd_buffer r ! (rd_read r - rd_start r), r\<lparr>rd_read := rd_read r + 1\<rparr>))))"

text \<open>The loop that gathers a field over several reads.\<close>

definition take_available :: "nat \<Rightarrow> nat list \<Rightarrow> 'e reader \<Rightarrow> nat list \<times> 'e reader" where
  "take_available n field r =
     (let count = min (rd_end r - rd_read r) (n - length field);
          first = rd_read r - rd_start r
      in (field @ slice (rd_buffer r) (first, first + count), r\<lparr>rd_read := rd_read r + count\<rparr>))"

lemma fill_input: "fill r = Inr r' \<Longrightarrow> length (rd_input r') < length (rd_input r)"
  by (auto simp: fill_def split: option.splits) (erule (1) read_once_length)

text \<open>The guard says that available bytes are in the buffer, so that the field grows.\<close>

function gather :: "nat \<Rightarrow> nat list \<Rightarrow> 'e reader \<Rightarrow> 'e read_error + nat list \<times> 'e reader" where
  "gather n field r =
     (if n \<le> length field then Inr (field, r)
      else if rd_read r = rd_end r then bindE (fill r) (gather n field)
      else (case take_available n field r of (field', r') \<Rightarrow>
        ensureE (length field < length field' \<and> rd_input r' = rd_input r) ReaderPanic (gather n field' r')))"
  by pat_completeness auto
termination
proof (relation "measures [\<lambda>(n, field, r). length (rd_input r), \<lambda>(n, field, r). n - length field]", goal_cases)
  case (3 n field r field' r')
  then show ?case by (cases "take_available n field r") auto
qed (auto dest: fill_input)

declare gather.simps [simp del]

definition read_field :: "nat \<Rightarrow> 'e reader \<Rightarrow> 'e read_error + nat list \<times> 'e reader" where
  "read_field n r =
     ensureE (rd_read r \<le> rd_limit r \<and> rd_read r \<le> rd_end r \<and> rd_start r \<le> rd_read r) ReaderPanic
      (ensureE (n \<le> rd_limit r - rd_read r) SizeLimit
        (if n \<le> rd_end r - rd_read r
         then (let first = rd_read r - rd_start r
           in ensureE (first + n \<le> length (rd_buffer r)) ReaderPanic
             (Inr (slice (rd_buffer r) (first, first + n), r\<lparr>rd_read := rd_read r + n\<rparr>)))
         else gather n [] r))"

definition finish_reader :: "'e reader \<Rightarrow> 'e read_error + unit" where
  "finish_reader r = ensureE (rd_read r = rd_end r) Trailing
     (bindE (read_once (rd_input r)) (\<lambda>(bs, _). ensureE (bs = []) Trailing (Inr ())))"

section \<open>Requests\<close>

text \<open>What a decoder asks for: a byte or a field of a length.\<close>

datatype request = Pop | Field nat

fun serve :: "request list \<Rightarrow> 'e reader \<Rightarrow> 'e read_error + nat list list" where
  "serve [] r = bindE (finish_reader r) (\<lambda>_. Inr [])"
| "serve (Pop # qs) r = bindE (pop r) (\<lambda>(b, r). bindE (serve qs r) (\<lambda>out. Inr ([b] # out)))"
| "serve (Field n # qs) r = bindE (read_field n r) (\<lambda>(bs, r). bindE (serve qs r) (\<lambda>out. Inr (bs # out)))"

text \<open>The same requests served from the bytes themselves, \<open>limit\<close> being what is left of it.\<close>

fun serve_bytes :: "request list \<Rightarrow> nat list \<Rightarrow> nat \<Rightarrow> 'e read_error + nat list list" where
  "serve_bytes [] bs limit = ensureE (bs = []) Trailing (Inr [])"
| "serve_bytes (Pop # qs) bs limit =
     ensureE (0 < limit) SizeLimit (ensureE (bs \<noteq> []) Truncated
       (bindE (serve_bytes qs (tl bs) (limit - 1)) (\<lambda>out. Inr ([hd bs] # out))))"
| "serve_bytes (Field n # qs) bs limit =
     ensureE (n \<le> limit) SizeLimit (ensureE (n \<le> length bs) Truncated
       (bindE (serve_bytes qs (drop n bs) (limit - n)) (\<lambda>out. Inr (take n bs # out))))"

section \<open>Streams without failures\<close>

fun stream_bytes :: "'e io list \<Rightarrow> nat list" where
  "stream_bytes [] = []"
| "stream_bytes (Chunk bs # io) = bs @ stream_bytes io"
| "stream_bytes (_ # io) = stream_bytes io"

definition smooth :: "'e io list \<Rightarrow> bool" where
  "smooth io \<longleftrightarrow> list_all (\<lambda>x. case x of Chunk bs \<Rightarrow> bs \<noteq> [] \<and> length bs \<le> buffer_size | Interrupted \<Rightarrow> True | Failed _ \<Rightarrow> False) io"

definition unread :: "'e reader \<Rightarrow> nat list" where
  "unread r = slice (rd_buffer r) (rd_read r - rd_start r, rd_end r - rd_start r) @ stream_bytes (rd_input r)"

definition reader_ok :: "'e reader \<Rightarrow> bool" where
  "reader_ok r \<longleftrightarrow> rd_start r \<le> rd_read r \<and> rd_read r \<le> rd_end r \<and> rd_end r - rd_start r \<le> length (rd_buffer r) \<and>
     length (rd_buffer r) = buffer_size \<and> rd_read r \<le> rd_limit r \<and> smooth (rd_input r) \<and>
     rd_end r + length (stream_bytes (rd_input r)) \<le> u64_max"

lemma read_once_smooth:
  assumes "smooth io"
  shows "\<exists>bs io'. read_once io = Inr (bs, io') \<and> smooth io' \<and> stream_bytes io = bs @ stream_bytes io' \<and> length bs \<le> buffer_size \<and>
    (bs = [] \<longrightarrow> stream_bytes io = [])"
  using assms by (induction io rule: read_once.induct) (auto simp: smooth_def)

lemma fill_unread:
  assumes "reader_ok r" "rd_read r = rd_end r"
  shows "case fill r of
      Inl e \<Rightarrow> e = Truncated \<and> unread r = []
    | Inr r' \<Rightarrow> reader_ok r' \<and> unread r' = unread r \<and> unread r \<noteq> [] \<and> rd_read r' = rd_read r \<and> rd_limit r' = rd_limit r \<and> rd_read r' < rd_end r'"
proof -
  note v = assms(1) [unfolded reader_ok_def]
  obtain bs io where b: "read_once (rd_input r) = Inr (bs, io)" "smooth io" "stream_bytes (rd_input r) = bs @ stream_bytes io"
      "length bs \<le> buffer_size" "bs = [] \<longrightarrow> stream_bytes (rd_input r) = []"
    using read_once_smooth v by blast
  have u: "unread r = bs @ stream_bytes io" using assms(2) b(3) by (simp add: unread_def slice_def)
  show ?thesis
  proof (cases "bs = []")
    case True
    then show ?thesis using b u by (simp add: fill_def)
  next
    case False
    have "rd_end r + length bs \<le> u64_max" using v b(3) by simp
    then have f: "fill r = Inr (r\<lparr>rd_input := io, rd_buffer := bs @ drop (length bs) (rd_buffer r), rd_start := rd_end r,
        rd_end := rd_end r + length bs\<rparr>)"
      using b(1) False by (simp add: fill_def checked_add_def)
    show ?thesis unfolding f using v b(2-4) False assms(2) u
      by (simp add: reader_ok_def unread_def slice_def)
  qed
qed

lemma byte_unread:
  assumes "reader_ok r" "rd_read r < rd_end r" "rd_read r \<noteq> rd_limit r"
  shows "rd_start r \<le> rd_read r \<and> rd_read r - rd_start r < length (rd_buffer r) \<and>
    reader_ok (r\<lparr>rd_read := rd_read r + 1\<rparr>) \<and>
    unread r = rd_buffer r ! (rd_read r - rd_start r) # unread (r\<lparr>rd_read := rd_read r + 1\<rparr>)"
proof -
  note v = assms(1) [unfolded reader_ok_def]
  have k: "rd_read r - rd_start r < rd_end r - rd_start r" "rd_read r - rd_start r < length (rd_buffer r)"
    using v assms(2) by linarith+
  then have "slice (rd_buffer r) (rd_read r - rd_start r, rd_end r - rd_start r) =
      rd_buffer r ! (rd_read r - rd_start r) # slice (rd_buffer r) (rd_read r + 1 - rd_start r, rd_end r - rd_start r)"
    using v by (simp add: slice_def Cons_nth_drop_Suc [symmetric] take_Cons' Suc_diff_le)
  then show ?thesis using v k assms by (simp add: reader_ok_def unread_def)
qed

lemma pop_unread:
  assumes "reader_ok r"
  shows "case pop r of
      Inl e \<Rightarrow> e = (if rd_read r = rd_limit r then SizeLimit else Truncated) \<and> (rd_read r = rd_limit r \<or> unread r = [])
    | Inr (b, r') \<Rightarrow> rd_read r < rd_limit r \<and> reader_ok r' \<and> unread r = b # unread r' \<and> rd_read r' = rd_read r + 1 \<and> rd_limit r' = rd_limit r"
proof (cases "rd_read r = rd_limit r")
  case False
  have lim: "rd_read r < rd_limit r" using False assms by (simp add: reader_ok_def)
  show ?thesis
  proof (cases "rd_read r = rd_end r")
    case True
    note f = fill_unread [OF assms True]
    show ?thesis
    proof (cases "fill r")
      case (Inl e)
      then show ?thesis using f True False by (simp add: pop_def)
    next
      case (Inr r')
      with f have r': "reader_ok r'" "unread r' = unread r" "rd_read r' = rd_read r" "rd_limit r' = rd_limit r" "rd_read r' < rd_end r'"
        by simp_all
      then show ?thesis using byte_unread [OF r'(1,5)] False True Inr lim by (simp add: pop_def)
    qed
  next
    case neq: False
    then have more: "rd_read r < rd_end r" using assms by (simp add: reader_ok_def)
    show ?thesis using byte_unread [OF assms more False] neq False lim by (simp add: pop_def)
  qed
qed (simp add: pop_def)

lemma take_available_unread:
  assumes "reader_ok r" "rd_read r < rd_end r" "length field < n" "n - length field \<le> rd_limit r - rd_read r"
  shows "\<exists>bs r'. take_available n field r = (field @ bs, r') \<and> bs \<noteq> [] \<and> reader_ok r' \<and> unread r = bs @ unread r' \<and>
    rd_input r' = rd_input r \<and> rd_limit r' = rd_limit r \<and> rd_read r' = rd_read r + length bs \<and> length (field @ bs) \<le> n"
proof -
  note v = assms(1) [unfolded reader_ok_def]
  let ?count = "min (rd_end r - rd_read r) (n - length field)" and ?first = "rd_read r - rd_start r"
  let ?bs = "slice (rd_buffer r) (?first, ?first + ?count)"
  have le: "?first + ?count \<le> rd_end r - rd_start r" using v assms(2) by linarith
  have "?first + ?count \<le> length (rd_buffer r)" using le v by linarith
  then have len: "length ?bs = ?count" by (simp only: slice_def fst_conv snd_conv length_take length_drop) linarith
  have split: "slice (rd_buffer r) (?first, rd_end r - rd_start r) = ?bs @ slice (rd_buffer r) (?first + ?count, rd_end r - rd_start r)"
    by (rule slice_append_slice [symmetric]) (use le v in linarith)+
  have pos: "rd_read r + ?count - rd_start r = ?first + ?count" using v by linarith
  have "0 < ?count" using assms(2,3) by simp
  then have "?bs \<noteq> []" using len by auto
  moreover have "reader_ok (r\<lparr>rd_read := rd_read r + ?count\<rparr>)" using v assms(2,4) by (simp add: reader_ok_def) linarith
  moreover have "unread r = ?bs @ unread (r\<lparr>rd_read := rd_read r + ?count\<rparr>)" using split pos by (simp add: unread_def)
  moreover have "length field + ?count \<le> n" using assms(3) by simp
  ultimately show ?thesis using len by (simp add: take_available_def Let_def)
qed

lemma gather_unread:
  "reader_ok r \<Longrightarrow> length field \<le> n \<Longrightarrow> n - length field \<le> rd_limit r - rd_read r \<Longrightarrow>
   (case gather n field r of
      Inl e \<Rightarrow> e = Truncated \<and> length (unread r) < n - length field
    | Inr (bs, r') \<Rightarrow> reader_ok r' \<and> field @ unread r = bs @ unread r' \<and> length bs = n \<and>
        rd_read r' = rd_read r + (n - length field) \<and> rd_limit r' = rd_limit r)"
proof (induction n field r rule: gather.induct)
  case (1 n field r)
  show ?case
  proof (cases "n \<le> length field")
    case True
    then show ?thesis using 1(3-5) by (subst gather.simps) simp
  next
    case False
    note long = this
    show ?thesis
    proof (cases "rd_read r = rd_end r")
      case True
      note f = fill_unread [OF 1(3) True]
      show ?thesis
      proof (cases "fill r")
        case (Inl e)
        then show ?thesis using f long True by (subst gather.simps) simp
      next
        case (Inr r')
        with f have r': "reader_ok r'" "unread r' = unread r" "rd_read r' = rd_read r" "rd_limit r' = rd_limit r" by simp_all
        then show ?thesis using 1(1) [OF long True Inr r'(1) 1(4)] 1(5) long True Inr
          by (subst gather.simps) (auto split: sum.splits)
      qed
    next
      case False
      then have "rd_read r < rd_end r" using 1(3) by (simp add: reader_ok_def)
      with take_available_unread [OF 1(3) this, of field n] long 1(5) obtain bs r' where
          t: "take_available n field r = (field @ bs, r')" "bs \<noteq> []" "reader_ok r'" "unread r = bs @ unread r'"
            "rd_input r' = rd_input r" "rd_limit r' = rd_limit r" "rd_read r' = rd_read r + length bs" "length (field @ bs) \<le> n"
        by auto
      have "length field < length (field @ bs) \<and> rd_input r' = rd_input r" using t by simp
      moreover have "n - length (field @ bs) \<le> rd_limit r' - rd_read r'" using t(6-8) 1(5) by simp
      ultimately show ?thesis
        using 1(2) [OF long False t(1) [symmetric] _ t(3,8)] long False t 1(5) by (subst gather.simps) (auto split: sum.splits)
    qed
  qed
qed

lemma field_unread:
  assumes "reader_ok r"
  shows "case read_field n r of
      Inl e \<Rightarrow> e = (if rd_limit r - rd_read r < n then SizeLimit else Truncated) \<and> (rd_limit r - rd_read r < n \<or> length (unread r) < n)
    | Inr (bs, r') \<Rightarrow> n \<le> rd_limit r - rd_read r \<and> reader_ok r' \<and> unread r = bs @ unread r' \<and> length bs = n \<and>
        rd_read r' = rd_read r + n \<and> rd_limit r' = rd_limit r"
proof (cases "n \<le> rd_limit r - rd_read r")
  case True
  note v = assms [unfolded reader_ok_def]
  show ?thesis
  proof (cases "n \<le> rd_end r - rd_read r")
    case inside: True
    let ?first = "rd_read r - rd_start r"
    have le: "?first + n \<le> rd_end r - rd_start r" using v inside by linarith
    have split: "slice (rd_buffer r) (?first, rd_end r - rd_start r) =
        slice (rd_buffer r) (?first, ?first + n) @ slice (rd_buffer r) (?first + n, rd_end r - rd_start r)"
      by (rule slice_append_slice [symmetric]) (use le v in linarith)+
    have pos: "rd_read r + n - rd_start r = ?first + n" using v by linarith
    have "reader_ok (r\<lparr>rd_read := rd_read r + n\<rparr>)" using v inside True by (simp add: reader_ok_def) linarith
    moreover have "unread r = slice (rd_buffer r) (?first, ?first + n) @ unread (r\<lparr>rd_read := rd_read r + n\<rparr>)"
      using split pos by (simp add: unread_def)
    moreover have "length (slice (rd_buffer r) (?first, ?first + n)) = n" "?first + n \<le> length (rd_buffer r)"
      using le v by (simp_all only: slice_def fst_conv snd_conv length_take length_drop) linarith+
    ultimately show ?thesis using True inside v by (simp add: read_field_def Let_def)
  next
    case False
    then show ?thesis using gather_unread [OF assms, of "[]" n] True v by (auto simp: read_field_def split: sum.splits)
  qed
qed (use assms in \<open>simp add: read_field_def reader_ok_def\<close>)

lemma finish_unread: "reader_ok r \<Longrightarrow> finish_reader r = ensureE (unread r = []) Trailing (Inr ())"
proof -
  assume ok: "reader_ok r"
  note v = ok [unfolded reader_ok_def]
  obtain bs io where b: "read_once (rd_input r) = Inr (bs, io)" "stream_bytes (rd_input r) = bs @ stream_bytes io"
      "bs = [] \<longrightarrow> stream_bytes (rd_input r) = []"
    using read_once_smooth v by blast
  have "slice (rd_buffer r) (rd_read r - rd_start r, rd_end r - rd_start r) = [] \<longleftrightarrow> rd_read r = rd_end r"
  proof -
    have "length (slice (rd_buffer r) (rd_read r - rd_start r, rd_end r - rd_start r)) = rd_end r - rd_read r"
      using v by (simp only: slice_def fst_conv snd_conv length_take length_drop) linarith
    then show ?thesis using v by (metis diff_is_0_eq le_antisym length_0_conv)
  qed
  then show ?thesis using b by (auto simp: finish_reader_def unread_def ensureE_def)
qed

lemma serve_unread: "reader_ok r \<Longrightarrow> serve qs r = serve_bytes qs (unread r) (rd_limit r - rd_read r)"
proof (induction qs arbitrary: r)
  case Nil
  then show ?case by (simp add: finish_unread ensureE_def)
next
  case (Cons q qs)
  show ?case
  proof (cases q)
    case Pop
    note p = pop_unread [OF Cons.prems]
    show ?thesis
    proof (cases "pop r")
      case (Inl e)
      then show ?thesis using p Pop Cons.prems by (auto simp: ensureE_def reader_ok_def)
    next
      case (Inr br)
      obtain b r' where "br = (b, r')" by (cases br)
      with p Inr have r': "rd_read r < rd_limit r" "reader_ok r'" "unread r = b # unread r'" "rd_read r' = rd_read r + 1" "rd_limit r' = rd_limit r"
        by simp_all
      then show ?thesis using Cons.IH [OF r'(2)] Pop Inr \<open>br = (b, r')\<close> by simp
    qed
  next
    case (Field n)
    note p = field_unread [OF Cons.prems, of n]
    show ?thesis
    proof (cases "read_field n r")
      case (Inl e)
      then show ?thesis using p Field by (auto simp: ensureE_def)
    next
      case (Inr br)
      obtain bs r' where "br = (bs, r')" by (cases br)
      with p Inr have r': "n \<le> rd_limit r - rd_read r" "reader_ok r'" "unread r = bs @ unread r'" "length bs = n"
          "rd_read r' = rd_read r + n" "rd_limit r' = rd_limit r"
        by simp_all
      then show ?thesis using Cons.IH [OF r'(2)] Field Inr \<open>br = (bs, r')\<close> by simp
    qed
  qed
qed

text \<open>
  C27: however a stream cuts its bytes into reads, and however often it is interrupted, a decoder gets
  from the reader what it would get from the bytes at once: the same fields, the same error when they
  end early, pass the limit or go on after the record; the reader never reads out of its buffer.
\<close>

theorem streamed_as_bytes:
  assumes "smooth io" "length (stream_bytes io) \<le> u64_max"
  shows "serve qs (new_reader io limit) = serve_bytes qs (stream_bytes io) limit"
proof -
  have ok: "reader_ok (new_reader io limit)" using assms by (simp add: new_reader_def reader_ok_def)
  have "unread (new_reader io limit) = stream_bytes io" by (simp add: new_reader_def unread_def slice_def)
  then show ?thesis using serve_unread [OF ok, of qs] by (simp add: new_reader_def)
qed

theorem streamed_as_bytes_witness:
  "serve [Pop, Field 3] (new_reader [Chunk [3, 97], Interrupted, Chunk [98], Chunk [99]] 4) = Inr [[3], [97, 98, 99]]"
  using streamed_as_bytes [of "[Chunk [3, 97], Interrupted, Chunk [98], Chunk [99]]" "[Pop, Field 3]" 4]
  by (simp add: smooth_def buffer_size_def u64_max_def)

end
