(* ===== verification/Yaml.thy ===== *)
theory Yaml
  imports Encodings "HOL-Library.List_Lexorder"
begin

text \<open>
  The reader of serialized Unity text, \<^verbatim>\<open>src/src/unity/assets/yaml.rs\<close>: events of libyaml become a tree
  of the nodes later stages look at, with the byte ranges of values too long to keep. libyaml is a
  parameter: the list of events it produces with their marks, ending where it reports an error.
  The source is a list of characters, positions count its UTF-8 bytes.
\<close>

section \<open>Lossy decoding\<close>

text \<open>\<^verbatim>\<open>String::from_utf8_lossy\<close>: a longest start of a character that breaks off becomes one replacement character.\<close>

definition second_byte_ok :: "nat \<Rightarrow> nat \<Rightarrow> bool" where
  "second_byte_ok a b \<longleftrightarrow>
     (if a = 0xe0 then 0xa0 \<le> b \<and> b < 0xc0 else if a = 0xed then 0x80 \<le> b \<and> b < 0xa0
      else if a = 0xf0 then 0x90 \<le> b \<and> b < 0xc0 else if a = 0xf4 then 0x80 \<le> b \<and> b < 0x90 else continuation b)"

definition broken_length :: "nat list \<Rightarrow> nat" where
  "broken_length bs = (case bs of
     a # b # rest \<Rightarrow>
       if 0xe0 \<le> a \<and> a < 0xf0 \<and> second_byte_ok a b then 2
       else if 0xf0 \<le> a \<and> a < 0xf5 \<and> second_byte_ok a b
         then (case rest of c # _ \<Rightarrow> if continuation c then 3 else 2 | [] \<Rightarrow> 2)
       else 1
   | _ \<Rightarrow> 1)"

lemma broken_length_pos: "0 < broken_length bs"
  by (auto simp: broken_length_def split: list.splits)

function from_utf8_lossy :: "nat list \<Rightarrow> str" where
  "from_utf8_lossy [] = []"
| "from_utf8_lossy (b # bs) = (case utf8_first (b # bs) (utf8_width b) of
     Some c \<Rightarrow> c # from_utf8_lossy (drop (utf8_width b) (b # bs))
   | None \<Rightarrow> 0xfffd # from_utf8_lossy (drop (broken_length (b # bs)) (b # bs)))"
  by pat_completeness auto
termination
  by (relation "measure length") (use broken_length_pos in \<open>auto simp: utf8_width_def\<close>)

section \<open>Nodes\<close>

datatype ynode = YNode (yn_value: yvalue) (yn_span: range) (yn_reference: bool)
and yvalue = YScalar str | YMap "(str \<times> ynode) list" | YList "(nat \<times> ynode) list"

definition value_limit :: nat where "value_limit = 4096"

definition node_get :: "ynode \<Rightarrow> str \<Rightarrow> ynode option" where
  "node_get n name = (case yn_value n of YMap m \<Rightarrow> bt_get m name | _ \<Rightarrow> None)"

definition node_text :: "ynode \<Rightarrow> str" where
  "node_text n = (case yn_value n of YScalar s \<Rightarrow> s | _ \<Rightarrow> [])"

definition node_list :: "ynode \<Rightarrow> (nat \<times> ynode) list" where
  "node_list n = (case yn_value n of YList v \<Rightarrow> v | _ \<Rightarrow> [])"

definition structural :: "ynode \<Rightarrow> bool" where
  "structural n \<longleftrightarrow> (case yn_value n of YMap m \<Rightarrow> m \<noteq> [] | YList v \<Rightarrow> v \<noteq> [] | YScalar _ \<Rightarrow> False)"

section \<open>Positions\<close>

record mark =
  mk_line :: nat
  mk_column :: nat

definition ascii :: "str \<Rightarrow> bool" where
  "ascii s \<longleftrightarrow> list_all (\<lambda>c. c < 128) s"

text \<open>\<open>None\<close> is a slice of the source off a character boundary.\<close>

definition mark_offset :: "str \<Rightarrow> mark \<Rightarrow> nat option" where
  "mark_offset source m =
     (let starts = 0 # line_starts 0 source;
          start = (if mk_line m < length starts then starts ! mk_line m else byte_len source)
      in if ascii source then Some (min (start + mk_column m) (byte_len source))
         else (case char_prefix source start of
             None \<Rightarrow> None
           | Some p \<Rightarrow> (let rest = drop (length p) source
               in Some (start + (if mk_column m < length rest then byte_len (take (mk_column m) rest) else byte_len source - start)))))"

section \<open>Events\<close>

datatype yaml_kind = ScalarEvent "nat list" | MapStart | SequenceStart | MapEnd | SequenceEnd | StreamEnd | AliasEvent | OtherEvent

record raw_event =
  re_kind :: yaml_kind
  re_start :: mark
  re_end :: mark

datatype event = EScalar str range | EMap nat | EList nat | EEnd nat | ESkip | EDone

datatype yaml_error = InvalidYaml | AliasYaml | YamlLimits | EmptyKey | DuplicateKey | UnexpectedStructure | MultipleRoots
  | YamlPanic | YamlStuck

record yparser =
  yp_raw :: "raw_event list"
  yp_nodes :: nat
  yp_omissions :: "range list"

text \<open>A scalar that ends before it starts, which libyaml does not report, is the panic of a debug build.\<close>

definition read_event :: "raw_event \<Rightarrow> nat \<Rightarrow> nat \<Rightarrow> yparser \<Rightarrow> yaml_error + event \<times> yparser" where
  "read_event e a b p = (case re_kind e of
     ScalarEvent bytes \<Rightarrow> ensureE (a \<le> b) YamlPanic
       (if value_limit < b - a \<or> value_limit < length bytes
        then Inr (EScalar [] (a, b), p\<lparr>yp_omissions := yp_omissions p @ [(a, b)]\<rparr>)
        else Inr (EScalar (from_utf8_lossy bytes) (a, b), p))
   | MapStart \<Rightarrow> Inr (EMap a, p)
   | SequenceStart \<Rightarrow> Inr (EList a, p)
   | MapEnd \<Rightarrow> Inr (EEnd b, p)
   | SequenceEnd \<Rightarrow> Inr (EEnd b, p)
   | StreamEnd \<Rightarrow> Inr (EDone, p)
   | AliasEvent \<Rightarrow> Inl AliasYaml
   | OtherEvent \<Rightarrow> Inr (ESkip, p))"

definition next_event :: "str \<Rightarrow> yparser \<Rightarrow> yaml_error + event \<times> yparser" where
  "next_event source p = (case yp_raw p of
     [] \<Rightarrow> Inl InvalidYaml
   | e # raw \<Rightarrow> (case (mark_offset source (re_start e), mark_offset source (re_end e)) of
       (Some a, Some b) \<Rightarrow> read_event e a b (p\<lparr>yp_raw := raw\<rparr>)
     | _ \<Rightarrow> Inl YamlPanic))"

section \<open>Trees\<close>

definition reference_key :: "str \<Rightarrow> bool" where
  "reference_key k \<longleftrightarrow> k \<in> {lit ''fileID'', lit ''guid'', lit ''type''}"

definition kept_key :: "str \<Rightarrow> bool" where
  "kept_key k \<longleftrightarrow> k \<in> {lit ''fileID'', lit ''guid'', lit ''type'', lit ''m_Name'', lit ''propertyPath'', lit ''value''}"

type_synonym node_reader = "event \<Rightarrow> yparser \<Rightarrow> yaml_error + ynode \<times> yparser"

lemma next_event_raw: "next_event source p = Inr (e, p') \<Longrightarrow> yp_raw p = hd (yp_raw p) # yp_raw p' \<and> yp_nodes p' = yp_nodes p"
  by (auto simp: next_event_def read_event_def split: list.splits option.splits yaml_kind.splits if_splits)

lemma next_event_less: "next_event source p = Inr (e, p') \<Longrightarrow> length (yp_raw p') < length (yp_raw p)"
  using next_event_raw by (metis length_Cons lessI)

text \<open>
  The loops over the entries of a map and of a list, given the reader of a node one level down. The
  guards say that a reader does not put events back.
\<close>

definition shrinks :: "yparser \<Rightarrow> yparser \<Rightarrow> bool" where
  "shrinks p p' \<longleftrightarrow> length (yp_raw p') \<le> length (yp_raw p)"

function map_loop :: "str \<Rightarrow> node_reader \<Rightarrow> bool \<Rightarrow> nat \<Rightarrow> (str \<times> ynode) list \<Rightarrow> str set \<Rightarrow> bool \<Rightarrow> yparser \<Rightarrow> yaml_error + ynode \<times> yparser" where
  "map_loop source node root start m keys shape p =
     bindE (next_event source p) (\<lambda>(e, p1). case e of
       EEnd stop \<Rightarrow> Inr (YNode (YMap m) (start, stop) shape, p1)
     | _ \<Rightarrow>
       bindE (node e p1) (\<lambda>(key, p2).
       ensureE (node_text key \<noteq> []) EmptyKey
       (ensureE (node_text key \<notin> keys) DuplicateKey
       (bindE (next_event source p2) (\<lambda>(e, p3).
       bindE (node e p3) (\<lambda>(v, p4).
       ensureE (shrinks p1 p2 \<and> shrinks p3 p4) YamlStuck
         (map_loop source node root start
           (if root \<or> structural v \<or> kept_key (node_text key) then bt_insert (node_text key) v m else m)
           (insert (node_text key) keys) (shape \<and> reference_key (node_text key)) p4)))))))"
  by pat_completeness auto
termination
  by (relation "measure (\<lambda>(source, node, root, start, m, keys, shape, p). length (yp_raw p))")
    (auto simp: shrinks_def dest!: next_event_less)

function list_loop :: "str \<Rightarrow> node_reader \<Rightarrow> nat \<Rightarrow> (nat \<times> ynode) list \<Rightarrow> nat \<Rightarrow> yparser \<Rightarrow> yaml_error + ynode \<times> yparser" where
  "list_loop source node start xs index p =
     bindE (next_event source p) (\<lambda>(e, p1). case e of
       EEnd stop \<Rightarrow> Inr (YNode (YList xs) (start, stop) False, p1)
     | _ \<Rightarrow> bindE (node e p1) (\<lambda>(n, p2).
         ensureE (shrinks p1 p2) YamlStuck
           (list_loop source node start (if structural n then xs @ [(index, n)] else xs) (index + 1) p2)))"
  by pat_completeness auto
termination
  by (relation "measure (\<lambda>(source, node, start, xs, index, p). length (yp_raw p))") (auto simp: shrinks_def dest!: next_event_less)

declare map_loop.simps [simp del] list_loop.simps [simp del]

text \<open>\<open>room\<close> counts the levels that are left: the root, at depth 0, has \<open>max_room\<close> of them.\<close>

definition max_room :: nat where "max_room = 129"
definition max_nodes :: nat where "max_nodes = 2000000"

fun read_node :: "str \<Rightarrow> nat \<Rightarrow> node_reader" where
  "read_node source 0 e p = Inl YamlLimits"
| "read_node source (Suc room) e p =
     (let p = p\<lparr>yp_nodes := yp_nodes p + 1\<rparr>
      in ensureE (yp_nodes p \<le> max_nodes) YamlLimits
        (case e of
           EScalar s span \<Rightarrow> Inr (YNode (YScalar s) span False, p)
         | EMap start \<Rightarrow> map_loop source (read_node source room) (Suc room = max_room) start [] {} True p
         | EList start \<Rightarrow> list_loop source (read_node source room) start [] 0 p
         | _ \<Rightarrow> Inl UnexpectedStructure))"

function skip_to_root :: "str \<Rightarrow> yparser \<Rightarrow> yaml_error + ynode \<times> yparser" where
  "skip_to_root source p = bindE (next_event source p) (\<lambda>(e, p). case e of
     ESkip \<Rightarrow> skip_to_root source p | _ \<Rightarrow> read_node source max_room e p)"
  by pat_completeness auto
termination by (relation "measure (\<lambda>(source, p). length (yp_raw p))") (auto dest: next_event_less)

function skip_to_end :: "str \<Rightarrow> yparser \<Rightarrow> yaml_error + yparser" where
  "skip_to_end source p = bindE (next_event source p) (\<lambda>(e, p). case e of
     EDone \<Rightarrow> Inr p | ESkip \<Rightarrow> skip_to_end source p | _ \<Rightarrow> Inl MultipleRoots)"
  by pat_completeness auto
termination by (relation "measure (\<lambda>(source, p). length (yp_raw p))") (auto dest: next_event_less)

declare skip_to_root.simps [simp del] skip_to_end.simps [simp del]

definition parse_yaml :: "raw_event list \<Rightarrow> str \<Rightarrow> yaml_error + ynode \<times> range list" where
  "parse_yaml raw source =
     bindE (skip_to_root source \<lparr>yp_raw = raw, yp_nodes = 0, yp_omissions = []\<rparr>) (\<lambda>(root, p).
     bindE (skip_to_end source p) (\<lambda>p. Inr (root, yp_omissions p)))"

end
