(* ===== verification/Yaml_Correct.thy ===== *)
theory Yaml_Correct
  imports Yaml
begin

text \<open>
  The YAML reader against the trees that libyaml's events spell. Lossy decoding returns the text of
  well-formed bytes; the positions of an ASCII source agree with those of the general case; and
  reading succeeds on exactly the streams of one tree within the limits, with the tree's pruned node.
\<close>

section \<open>Decoding and positions\<close>

lemma lossy_utf8: "list_all scalar s \<Longrightarrow> from_utf8_lossy (utf8 s) = s"
proof (induction s)
  case (Cons c s)
  obtain b bs where e: "utf8_char c @ utf8 s = b # bs" by (cases "utf8_char c @ utf8 s") auto
  have hd: "hd (utf8_char c) = b" using e by (metis hd_append2 list.sel(1) utf8_char_not_Nil)
  have "hd (utf8_char c) < 0xf8" using Cons.prems by (auto simp: scalar_def utf8_char_def)
  then have w: "utf8_width b = length (utf8_char c)" using utf8_char_width hd by blast
  have "utf8_first (b # bs) (utf8_width b) = Some c"
    unfolding e [symmetric] w using Cons.prems by (simp add: utf8_first_def utf8_value_char)
  moreover have "drop (utf8_width b) (b # bs) = utf8 s" unfolding e [symmetric] w by simp
  ultimately show ?case using Cons e by simp
qed simp

lemma ascii_byte_len: "ascii s \<Longrightarrow> byte_len s = length s"
  by (induction s) (auto simp: ascii_def utf8_char_def)

lemma line_starts_prefix: "n \<in> set (line_starts 0 s) \<Longrightarrow> \<exists>p r. s = p @ r \<and> n = byte_len p"
proof (induction s arbitrary: n)
  case (Cons c s)
  from Cons.prems consider "n = length (utf8_char c)" | m where "m \<in> set (line_starts 0 s)" "n = length (utf8_char c) + m"
    using line_starts_shift [of "length (utf8_char c)" s] by (auto simp: Let_def split: if_splits)
  then show ?case
  proof cases
    case 1
    then have "c # s = [c] @ s \<and> n = byte_len [c]" by simp
    then show ?thesis by blast
  next
    case 2
    from Cons.IH [OF 2(1)] obtain p r where "s = p @ r" "m = byte_len p" by blast
    with 2(2) have "c # s = (c # p) @ r \<and> n = byte_len (c # p)" by simp
    then show ?thesis by blast
  qed
qed simp

lemma mark_start_prefix:
  "\<exists>p r. source = p @ r \<and>
    (if mk_line m < length (0 # line_starts 0 source) then (0 # line_starts 0 source) ! mk_line m else byte_len source) = byte_len p"
proof (cases "mk_line m < length (0 # line_starts 0 source)")
  case True
  then have "(0 # line_starts 0 source) ! mk_line m \<in> insert 0 (set (line_starts 0 source))"
    by (metis list.set(2) nth_mem)
  then show ?thesis
  proof
    assume "(0 # line_starts 0 source) ! mk_line m = 0"
    with True show ?thesis by (intro exI [of _ "[]"] exI [of _ source]) simp
  qed (use True line_starts_prefix in auto)
qed auto

text \<open>The general computation, which the shortcut for ASCII sources abbreviates.\<close>

lemma mark_offset_general:
  "\<exists>p r. source = p @ r \<and> mark_offset source m = Some (byte_len p + byte_len (take (mk_column m) r))"
proof -
  obtain p r where s: "source = p @ r" and
    b: "(if mk_line m < length (0 # line_starts 0 source) then (0 # line_starts 0 source) ! mk_line m else byte_len source) = byte_len p"
    using mark_start_prefix by blast
  have "mark_offset source m = Some (byte_len p + byte_len (take (mk_column m) r))"
  proof (cases "ascii source")
    case True
    then have "ascii (take (mk_column m) r)" "ascii p" "ascii r" "ascii (p @ r)" using s
      by (auto simp: ascii_def list_all_iff dest: in_set_takeD)
    then show ?thesis using True b unfolding mark_offset_def by (simp only: Let_def if_True) (simp add: s ascii_byte_len)
  next
    case False
    have "char_prefix source (byte_len p) = Some p" unfolding s by (rule char_prefix_self)
    then show ?thesis using False b unfolding mark_offset_def by (simp only: Let_def if_False) (simp add: s)
  qed
  with s show ?thesis by blast
qed

lemma mark_offset_Some: "\<exists>n. mark_offset source m = Some n \<and> n \<le> byte_len source"
proof -
  obtain p r where s: "source = p @ r" and m: "mark_offset source m = Some (byte_len p + byte_len (take (mk_column m) r))"
    using mark_offset_general by blast
  have "byte_len r = byte_len (take (mk_column m) r) + byte_len (drop (mk_column m) r)"
    by (metis append_take_drop_id byte_len_append)
  with s m show ?thesis by simp
qed

section \<open>Trees of events\<close>

datatype ytree = TScalar raw_event | TMap raw_event "(ytree \<times> ytree) list" raw_event | TList raw_event "ytree list" raw_event

definition place :: "str \<Rightarrow> mark \<Rightarrow> nat" where
  "place source m = the (mark_offset source m)"

definition event_span :: "str \<Rightarrow> raw_event \<Rightarrow> range" where
  "event_span source e = (place source (re_start e), place source (re_end e))"

definition event_bytes :: "raw_event \<Rightarrow> nat list" where
  "event_bytes e = (case re_kind e of ScalarEvent bs \<Rightarrow> bs | _ \<Rightarrow> [])"

definition too_long :: "str \<Rightarrow> raw_event \<Rightarrow> bool" where
  "too_long source e \<longleftrightarrow> value_limit < range_len (event_span source e) \<or> value_limit < length (event_bytes e)"

definition event_text :: "str \<Rightarrow> raw_event \<Rightarrow> str" where
  "event_text source e = (if too_long source e then [] else from_utf8_lossy (event_bytes e))"

definition key_text :: "str \<Rightarrow> ytree \<Rightarrow> str" where
  "key_text source k = (case k of TScalar e \<Rightarrow> event_text source e | _ \<Rightarrow> [])"

text \<open>The events of a tree, the number of its nodes and the depth of its nesting.\<close>

fun flat :: "ytree \<Rightarrow> raw_event list" where
  "flat (TScalar e) = [e]"
| "flat (TMap s kvs e) = s # concat (map (\<lambda>(k, v). flat k @ flat v) kvs) @ [e]"
| "flat (TList s ts e) = s # concat (map flat ts) @ [e]"

fun count_nodes :: "ytree \<Rightarrow> nat" where
  "count_nodes (TScalar e) = 1"
| "count_nodes (TMap s kvs e) = Suc (sum_list (map (\<lambda>(k, v). count_nodes k + count_nodes v) kvs))"
| "count_nodes (TList s ts e) = Suc (sum_list (map count_nodes ts))"

fun nested :: "nat \<Rightarrow> ytree \<Rightarrow> bool" where
  "nested 0 t = False"
| "nested (Suc n) t = (case t of
     TScalar e \<Rightarrow> True
   | TMap s kvs e \<Rightarrow> list_all (\<lambda>(k, v). nested n k \<and> nested n v) kvs
   | TList s ts e \<Rightarrow> list_all (nested n) ts)"

definition ending :: "raw_event \<Rightarrow> bool" where
  "ending e \<longleftrightarrow> re_kind e = MapEnd \<or> re_kind e = SequenceEnd"

fun tree_ok :: "str \<Rightarrow> ytree \<Rightarrow> bool" where
  "tree_ok source (TScalar e) \<longleftrightarrow>
     (\<exists>bs. re_kind e = ScalarEvent bs) \<and> fst (event_span source e) \<le> snd (event_span source e)"
| "tree_ok source (TMap s kvs e) \<longleftrightarrow> re_kind s = MapStart \<and> ending e \<and>
     list_all (\<lambda>(k, v). tree_ok source k \<and> tree_ok source v \<and> key_text source k \<noteq> []) kvs \<and>
     distinct (map (key_text source \<circ> fst) kvs)"
| "tree_ok source (TList s ts e) \<longleftrightarrow> re_kind s = SequenceStart \<and> ending e \<and> list_all (tree_ok source) ts"

text \<open>
  What is kept of a tree: every entry of the root, and of other maps those with structure below or a
  key of interest; of a list the items with structure, with their positions.
\<close>

definition kept_entries :: "str \<Rightarrow> bool \<Rightarrow> (ytree \<times> ynode) list \<Rightarrow> (str \<times> ynode) list \<Rightarrow> (str \<times> ynode) list" where
  "kept_entries source root kvs m = fold (\<lambda>(k, v). bt_insert (key_text source k) v)
     (filter (\<lambda>(k, v). root \<or> structural v \<or> kept_key (key_text source k)) kvs) m"

definition kept_items :: "nat \<Rightarrow> ynode list \<Rightarrow> (nat \<times> ynode) list" where
  "kept_items i ns = filter (\<lambda>(_, n). structural n) (zip [i..<i + length ns] ns)"

fun tree_node :: "str \<Rightarrow> bool \<Rightarrow> ytree \<Rightarrow> ynode" where
  "tree_node source root (TScalar e) = YNode (YScalar (event_text source e)) (event_span source e) False"
| "tree_node source root (TMap s kvs e) =
     YNode (YMap (kept_entries source root (map (\<lambda>(k, v). (k, tree_node source False v)) kvs) []))
       (place source (re_start s), place source (re_end e)) (list_all (\<lambda>(k, v). reference_key (key_text source k)) kvs)"
| "tree_node source root (TList s ts e) =
     YNode (YList (kept_items 0 (map (tree_node source False) ts))) (place source (re_start s), place source (re_end e)) False"

fun omitted :: "str \<Rightarrow> ytree \<Rightarrow> range list" where
  "omitted source (TScalar e) = (if too_long source e then [event_span source e] else [])"
| "omitted source (TMap s kvs e) = concat (map (\<lambda>(k, v). omitted source k @ omitted source v) kvs)"
| "omitted source (TList s ts e) = concat (map (omitted source) ts)"

section \<open>Reading a tree\<close>

definition first_read :: "str \<Rightarrow> nat \<Rightarrow> yparser \<Rightarrow> yaml_error + ynode \<times> yparser" where
  "first_read source room p = bindE (next_event source p) (\<lambda>(e, p). read_node source room e p)"

definition after_events :: "yparser \<Rightarrow> raw_event list \<Rightarrow> nat \<Rightarrow> range list \<Rightarrow> yparser" where
  "after_events p raw n om = p\<lparr>yp_raw := raw, yp_nodes := yp_nodes p + n, yp_omissions := yp_omissions p @ om\<rparr>"

lemma after_events_simps [simp]:
  "yp_raw (after_events p raw n om) = raw"
  "yp_nodes (after_events p raw n om) = yp_nodes p + n"
  "yp_omissions (after_events p raw n om) = yp_omissions p @ om"
  "after_events (after_events p raw n om) raw' n' om' = after_events p raw' (n + n') (om @ om')"
  by (simp_all add: after_events_def)

lemma next_event_read:
  "yp_raw p = e # raw \<Longrightarrow> next_event source p = read_event e (place source (re_start e)) (place source (re_end e)) (p\<lparr>yp_raw := raw\<rparr>)"
  using mark_offset_Some [of source "re_start e"] mark_offset_Some [of source "re_end e"]
  by (auto simp: next_event_def place_def)

lemma next_ending: "yp_raw p = e # raw \<Longrightarrow> ending e \<Longrightarrow> next_event source p = Inr (EEnd (place source (re_end e)), p\<lparr>yp_raw := raw\<rparr>)"
  by (auto simp: next_event_read read_event_def ending_def)

text \<open>The loops in terms of whole reads.\<close>

lemma map_loop_entry:
  assumes "first_read source room p = Inr (key, p2)" "first_read source room p2 = Inr (v, p4)"
    "node_text key \<noteq> []" "node_text key \<notin> keys" "length (yp_raw p2) < length (yp_raw p)" "length (yp_raw p4) < length (yp_raw p2)"
  shows "map_loop source (read_node source room) root start m keys shape p =
    map_loop source (read_node source room) root start
      (if root \<or> structural v \<or> kept_key (node_text key) then bt_insert (node_text key) v m else m)
      (insert (node_text key) keys) (shape \<and> reference_key (node_text key)) p4"
proof -
  obtain e p1 where e: "next_event source p = Inr (e, p1)" "read_node source room e p1 = Inr (key, p2)"
    using assms(1) by (auto simp: first_read_def)
  obtain e' p3 where e': "next_event source p2 = Inr (e', p3)" "read_node source room e' p3 = Inr (v, p4)"
    using assms(2) by (auto simp: first_read_def)
  have "\<not> (\<exists>n. e = EEnd n)" using e(2) by (cases room) (auto simp: Let_def)
  moreover have "shrinks p1 p2" "shrinks p3 p4"
    using next_event_raw [OF e(1)] next_event_raw [OF e'(1)] assms(5,6) by (metis length_Cons less_Suc_eq_le shrinks_def)+
  ultimately show ?thesis using e e' assms(3,4)
    by (subst map_loop.simps) (cases e; simp)
qed

lemma list_loop_item:
  assumes "first_read source room p = Inr (n, p2)" "length (yp_raw p2) < length (yp_raw p)"
  shows "list_loop source (read_node source room) start xs index p =
    list_loop source (read_node source room) start (if structural n then xs @ [(index, n)] else xs) (index + 1) p2"
proof -
  obtain e p1 where e: "next_event source p = Inr (e, p1)" "read_node source room e p1 = Inr (n, p2)"
    using assms(1) by (auto simp: first_read_def)
  have "\<not> (\<exists>n. e = EEnd n)" using e(2) by (cases room) (auto simp: Let_def)
  moreover have "shrinks p1 p2" using next_event_raw [OF e(1)] assms(2) by (metis length_Cons less_Suc_eq_le shrinks_def)
  ultimately show ?thesis using e by (subst list_loop.simps) (cases e; simp)
qed

lemma flat_not_Nil [simp]: "flat t \<noteq> []"
  by (cases t) auto

definition reads_trees :: "str \<Rightarrow> nat \<Rightarrow> bool" where
  "reads_trees source room \<longleftrightarrow> (\<forall>t p raw. tree_ok source t \<longrightarrow> nested room t \<longrightarrow> yp_raw p = flat t @ raw \<longrightarrow>
     yp_nodes p + count_nodes t \<le> max_nodes \<longrightarrow>
     first_read source room p = Inr (tree_node source (room = max_room) t, after_events p raw (count_nodes t) (omitted source t)))"

lemma reads_treesD:
  "reads_trees source room \<Longrightarrow> room < max_room \<Longrightarrow> tree_ok source t \<Longrightarrow> nested room t \<Longrightarrow> yp_raw p = flat t @ raw \<Longrightarrow>
   yp_nodes p + count_nodes t \<le> max_nodes \<Longrightarrow>
   first_read source room p = Inr (tree_node source False t, after_events p raw (count_nodes t) (omitted source t))"
  unfolding reads_trees_def by (metis less_irrefl)

lemma node_text_tree: "node_text (tree_node source root t) = key_text source t"
  by (cases t) (auto simp: node_text_def key_text_def)

lemma map_loop_trees:
  assumes "reads_trees source room" "room < max_room"
    "list_all (\<lambda>(k, v). tree_ok source k \<and> tree_ok source v \<and> key_text source k \<noteq> []) kvs"
    "list_all (\<lambda>(k, v). nested room k \<and> nested room v) kvs"
    "distinct (map (key_text source \<circ> fst) kvs)" "keys \<inter> set (map (key_text source \<circ> fst) kvs) = {}"
    "ending e" "yp_raw p = concat (map (\<lambda>(k, v). flat k @ flat v) kvs) @ e # raw"
    "yp_nodes p + sum_list (map (\<lambda>(k, v). count_nodes k + count_nodes v) kvs) \<le> max_nodes"
  shows "map_loop source (read_node source room) root start m keys shape p =
    Inr (YNode (YMap (kept_entries source root (map (\<lambda>(k, v). (k, tree_node source False v)) kvs) m)) (start, place source (re_end e))
        (shape \<and> list_all (\<lambda>(k, v). reference_key (key_text source k)) kvs),
      after_events p raw (sum_list (map (\<lambda>(k, v). count_nodes k + count_nodes v) kvs))
        (concat (map (\<lambda>(k, v). omitted source k @ omitted source v) kvs)))"
  using assms(3-6,8,9)
proof (induction kvs arbitrary: m keys shape p)
  case Nil
  then have "next_event source p = Inr (EEnd (place source (re_end e)), p\<lparr>yp_raw := raw\<rparr>)"
    by (intro next_ending [OF _ assms(7)]) simp
  then show ?case by (subst map_loop.simps) (simp add: kept_entries_def after_events_def)
next
  case (Cons kv kvs)
  obtain k v where kv: "kv = (k, v)" by fastforce
  let ?rest = "concat (map (\<lambda>(k, v). flat k @ flat v) kvs) @ e # raw"
  have raw: "yp_raw p = flat k @ flat v @ ?rest" using Cons.prems(5) by (simp add: kv)
  define p2 where "p2 = after_events p (flat v @ ?rest) (count_nodes k) (omitted source k)"
  define p4 where "p4 = after_events p2 ?rest (count_nodes v) (omitted source v)"
  have r: "first_read source room p = Inr (tree_node source False k, p2)"
    unfolding p2_def using Cons.prems(1,2,6) raw by (intro reads_treesD [OF assms(1,2)]) (simp_all add: kv)
  have r': "first_read source room p2 = Inr (tree_node source False v, p4)"
    unfolding p4_def using Cons.prems(1,2,6) by (intro reads_treesD [OF assms(1,2)]) (simp_all add: kv p2_def)
  have "map_loop source (read_node source room) root start m keys shape p =
    map_loop source (read_node source room) root start
      (if root \<or> structural (tree_node source False v) \<or> kept_key (key_text source k) then bt_insert (key_text source k) (tree_node source False v) m else m)
      (insert (key_text source k) keys) (shape \<and> reference_key (key_text source k)) p4"
    using Cons.prems(1,4)
    by (subst map_loop_entry [OF r r']) (simp_all add: node_text_tree kv raw p2_def p4_def)
  also have "\<dots> = Inr (YNode (YMap (kept_entries source root (map (\<lambda>(k, v). (k, tree_node source False v)) kvs)
        (if root \<or> structural (tree_node source False v) \<or> kept_key (key_text source k) then bt_insert (key_text source k) (tree_node source False v) m else m)))
        (start, place source (re_end e))
        ((shape \<and> reference_key (key_text source k)) \<and> list_all (\<lambda>(k, v). reference_key (key_text source k)) kvs),
      after_events p4 raw (sum_list (map (\<lambda>(k, v). count_nodes k + count_nodes v) kvs))
        (concat (map (\<lambda>(k, v). omitted source k @ omitted source v) kvs)))"
    using Cons.prems by (intro Cons.IH) (auto simp: kv p4_def p2_def)
  finally show ?case by (simp add: kv p4_def p2_def kept_entries_def add.assoc)
qed

lemma list_loop_trees:
  assumes "reads_trees source room" "room < max_room" "list_all (tree_ok source) ts" "list_all (nested room) ts"
    "ending e" "yp_raw p = concat (map flat ts) @ e # raw" "yp_nodes p + sum_list (map count_nodes ts) \<le> max_nodes"
  shows "list_loop source (read_node source room) start xs index p =
    Inr (YNode (YList (xs @ kept_items index (map (tree_node source False) ts))) (start, place source (re_end e)) False,
      after_events p raw (sum_list (map count_nodes ts)) (concat (map (omitted source) ts)))"
  using assms(3,4,6,7)
proof (induction ts arbitrary: xs index p)
  case Nil
  then have "next_event source p = Inr (EEnd (place source (re_end e)), p\<lparr>yp_raw := raw\<rparr>)"
    by (intro next_ending [OF _ assms(5)]) simp
  then show ?case by (subst list_loop.simps) (simp add: kept_items_def after_events_def)
next
  case (Cons t ts)
  let ?rest = "concat (map flat ts) @ e # raw" and ?n = "tree_node source False t"
  define p2 where "p2 = after_events p ?rest (count_nodes t) (omitted source t)"
  have r: "first_read source room p = Inr (?n, p2)"
    unfolding p2_def using Cons.prems by (intro reads_treesD [OF assms(1,2)]) simp_all
  have "list_loop source (read_node source room) start xs index p =
    list_loop source (read_node source room) start (if structural ?n then xs @ [(index, ?n)] else xs) (index + 1) p2"
    using Cons.prems(3) by (intro list_loop_item [OF r]) (simp add: p2_def)
  also have "\<dots> = Inr (YNode (YList ((if structural ?n then xs @ [(index, ?n)] else xs) @
        kept_items (index + 1) (map (tree_node source False) ts))) (start, place source (re_end e)) False,
      after_events p2 raw (sum_list (map count_nodes ts)) (concat (map (omitted source) ts)))"
    using Cons.prems by (intro Cons.IH) (auto simp: p2_def)
  finally show ?case by (simp add: p2_def kept_items_def upt_conv_Cons del: upt_Suc)
qed

lemma reads_trees_all: "room \<le> max_room \<Longrightarrow> reads_trees source room"
proof (induction room)
  case (Suc room)
  then have IH: "reads_trees source room" and less: "room < max_room" by simp_all
  show ?case unfolding reads_trees_def
  proof (intro allI impI)
    fix t raw and p :: yparser
    assume t: "tree_ok source t" "nested (Suc room) t" "yp_raw p = flat t @ raw" "yp_nodes p + count_nodes t \<le> max_nodes"
    show "first_read source (Suc room) p =
      Inr (tree_node source (Suc room = max_room) t, after_events p raw (count_nodes t) (omitted source t))"
    proof (cases t)
      case (TScalar e)
      then show ?thesis using t
        by (auto simp: first_read_def next_event_read read_event_def event_span_def too_long_def event_text_def event_bytes_def
            after_events_def Let_def)
    next
      case (TMap s kvs e)
      let ?p = "p\<lparr>yp_raw := concat (map (\<lambda>(k, v). flat k @ flat v) kvs) @ e # raw, yp_nodes := yp_nodes p + 1\<rparr>"
      have "first_read source (Suc room) p =
        map_loop source (read_node source room) (Suc room = max_room) (place source (re_start s)) [] {} True ?p"
        using t by (simp add: TMap first_read_def next_event_read read_event_def Let_def)
      also have "\<dots> = Inr (tree_node source (Suc room = max_room) t, after_events p raw (count_nodes t) (omitted source t))"
        using t by (subst map_loop_trees [OF IH less, where e = e and raw = raw]) (auto simp: TMap after_events_def)
      finally show ?thesis .
    next
      case (TList s ts e)
      let ?p = "p\<lparr>yp_raw := concat (map flat ts) @ e # raw, yp_nodes := yp_nodes p + 1\<rparr>"
      have "first_read source (Suc room) p = list_loop source (read_node source room) (place source (re_start s)) [] 0 ?p"
        using t by (simp add: TList first_read_def next_event_read read_event_def Let_def)
      also have "\<dots> = Inr (tree_node source (Suc room = max_room) t, after_events p raw (count_nodes t) (omitted source t))"
        using t by (subst list_loop_trees [OF IH less, where e = e and raw = raw]) (auto simp: TList after_events_def)
      finally show ?thesis .
    qed
  qed
qed (simp add: reads_trees_def)

section \<open>Every read is of a tree\<close>

definition only_trees :: "str \<Rightarrow> nat \<Rightarrow> bool" where
  "only_trees source room \<longleftrightarrow> (\<forall>p n p'. first_read source room p = Inr (n, p') \<longrightarrow>
     (\<exists>t. tree_ok source t \<and> nested room t \<and> yp_raw p = flat t @ yp_raw p' \<and>
        yp_nodes p' = yp_nodes p + count_nodes t \<and> yp_nodes p' \<le> max_nodes))"

lemma next_event_kind:
  assumes "next_event source p = Inr (ev, p1)"
  obtains e where "yp_raw p = e # yp_raw p1" "yp_nodes p1 = yp_nodes p"
    "read_event e (place source (re_start e)) (place source (re_end e)) (p\<lparr>yp_raw := yp_raw p1\<rparr>) = Inr (ev, p1)"
proof (cases "yp_raw p")
  case Nil
  with assms show ?thesis by (simp add: next_event_def)
next
  case (Cons e raw)
  with next_event_raw [OF assms] assms next_event_read [OF Cons] that [of e] show ?thesis by simp
qed

lemma read_event_end: "read_event e a b p = Inr (EEnd n, p') \<Longrightarrow> ending e"
  by (auto simp: read_event_def ending_def split: yaml_kind.splits if_splits)

lemma map_loop_only:
  assumes "only_trees source room" "reads_trees source room" "room < max_room"
    "map_loop source (read_node source room) root start m keys shape p = Inr (n, p')" "yp_nodes p \<le> max_nodes"
  shows "\<exists>kvs e. ending e \<and> yp_raw p = concat (map (\<lambda>(k, v). flat k @ flat v) kvs) @ e # yp_raw p' \<and>
    list_all (\<lambda>(k, v). tree_ok source k \<and> tree_ok source v \<and> key_text source k \<noteq> []) kvs \<and>
    list_all (\<lambda>(k, v). nested room k \<and> nested room v) kvs \<and>
    distinct (map (key_text source \<circ> fst) kvs) \<and> keys \<inter> set (map (key_text source \<circ> fst) kvs) = {} \<and>
    yp_nodes p' = yp_nodes p + sum_list (map (\<lambda>(k, v). count_nodes k + count_nodes v) kvs) \<and> yp_nodes p' \<le> max_nodes"
  using assms(4,5)
proof (induction "length (yp_raw p)" arbitrary: m keys shape p rule: less_induct)
  case less
  obtain ev p1 where ev: "next_event source p = Inr (ev, p1)" using less.prems(1) by (subst (asm) map_loop.simps) auto
  obtain e where e: "yp_raw p = e # yp_raw p1" "yp_nodes p1 = yp_nodes p"
    "read_event e (place source (re_start e)) (place source (re_end e)) (p\<lparr>yp_raw := yp_raw p1\<rparr>) = Inr (ev, p1)"
    using next_event_kind [OF ev] by metis
  show ?case
  proof (cases "\<exists>stop. ev = EEnd stop")
    case True
    then have "p' = p1" using less.prems(1) ev by (subst (asm) map_loop.simps) auto
    moreover have "ending e" using True e(3) read_event_end by blast
    ultimately show ?thesis using e less.prems(2) by (intro exI [of _ "[]"] exI [of _ e]) simp
  next
    case False
    from less.prems(1) False ev obtain key p2 ev' p3 v p4 where
      key: "read_node source room ev p1 = Inr (key, p2)" "node_text key \<noteq> []" "node_text key \<notin> keys" and
      v: "next_event source p2 = Inr (ev', p3)" "read_node source room ev' p3 = Inr (v, p4)" and
      rest: "map_loop source (read_node source room) root start
          (if root \<or> structural v \<or> kept_key (node_text key) then bt_insert (node_text key) v m else m)
          (insert (node_text key) keys) (shape \<and> reference_key (node_text key)) p4 = Inr (n, p')"
      by (subst (asm) map_loop.simps) (cases ev; auto)
    have k: "first_read source room p = Inr (key, p2)" using ev key(1) by (simp add: first_read_def)
    have v: "first_read source room p2 = Inr (v, p4)" using v by (simp add: first_read_def)
    obtain tk where tk: "tree_ok source tk" "nested room tk" "yp_raw p = flat tk @ yp_raw p2"
      "yp_nodes p2 = yp_nodes p + count_nodes tk" "yp_nodes p2 \<le> max_nodes"
      using assms(1) k unfolding only_trees_def by blast
    obtain tv where tv: "tree_ok source tv" "nested room tv" "yp_raw p2 = flat tv @ yp_raw p4"
      "yp_nodes p4 = yp_nodes p2 + count_nodes tv" "yp_nodes p4 \<le> max_nodes"
      using assms(1) v unfolding only_trees_def by blast
    have "key = tree_node source (room = max_room) tk"
      using assms(2) tk k unfolding reads_trees_def by (metis Inr_inject Pair_inject)
    then have kt: "node_text key = key_text source tk" by (simp add: node_text_tree)
    have "0 < length (flat tk)" by simp
    then have "length (yp_raw p4) < length (yp_raw p)" using tk(3) tv(3) by simp
    from less.hyps [OF this rest tv(5)] obtain kvs e where ind: "ending e"
      "yp_raw p4 = concat (map (\<lambda>(k, v). flat k @ flat v) kvs) @ e # yp_raw p'"
      "list_all (\<lambda>(k, v). tree_ok source k \<and> tree_ok source v \<and> key_text source k \<noteq> []) kvs"
      "list_all (\<lambda>(k, v). nested room k \<and> nested room v) kvs"
      "distinct (map (key_text source \<circ> fst) kvs)" "insert (node_text key) keys \<inter> set (map (key_text source \<circ> fst) kvs) = {}"
      "yp_nodes p' = yp_nodes p4 + sum_list (map (\<lambda>(k, v). count_nodes k + count_nodes v) kvs)" "yp_nodes p' \<le> max_nodes"
      by blast
    show ?thesis
      using ind tk tv key kt by (intro exI [of _ "(tk, tv) # kvs"] exI [of _ e]) auto
  qed
qed

lemma list_loop_only:
  assumes "only_trees source room"
    "list_loop source (read_node source room) start xs index p = Inr (n, p')" "yp_nodes p \<le> max_nodes"
  shows "\<exists>ts e. ending e \<and> yp_raw p = concat (map flat ts) @ e # yp_raw p' \<and> list_all (tree_ok source) ts \<and>
    list_all (nested room) ts \<and> yp_nodes p' = yp_nodes p + sum_list (map count_nodes ts) \<and> yp_nodes p' \<le> max_nodes"
  using assms(2,3)
proof (induction "length (yp_raw p)" arbitrary: xs index p rule: less_induct)
  case less
  obtain ev p1 where ev: "next_event source p = Inr (ev, p1)" using less.prems(1) by (subst (asm) list_loop.simps) auto
  obtain e where e: "yp_raw p = e # yp_raw p1" "yp_nodes p1 = yp_nodes p"
    "read_event e (place source (re_start e)) (place source (re_end e)) (p\<lparr>yp_raw := yp_raw p1\<rparr>) = Inr (ev, p1)"
    using next_event_kind [OF ev] by metis
  show ?case
  proof (cases "\<exists>stop. ev = EEnd stop")
    case True
    then have "p' = p1" using less.prems(1) ev by (subst (asm) list_loop.simps) auto
    moreover have "ending e" using True e(3) read_event_end by blast
    ultimately show ?thesis using e less.prems(2) by (intro exI [of _ "[]"] exI [of _ e]) simp
  next
    case False
    from less.prems(1) False ev obtain m p2 xs' index' where
      m: "read_node source room ev p1 = Inr (m, p2)" and
      rest: "list_loop source (read_node source room) start xs' index' p2 = Inr (n, p')"
      by (subst (asm) list_loop.simps) (cases ev; auto)
    have "first_read source room p = Inr (m, p2)" using ev m by (simp add: first_read_def)
    then obtain t where t: "tree_ok source t" "nested room t" "yp_raw p = flat t @ yp_raw p2"
      "yp_nodes p2 = yp_nodes p + count_nodes t" "yp_nodes p2 \<le> max_nodes"
      using assms(1) unfolding only_trees_def by blast
    have "0 < length (flat t)" by simp
    then have "length (yp_raw p2) < length (yp_raw p)" using t(3) by simp
    from less.hyps [OF this rest t(5)] obtain ts e where "ending e" "yp_raw p2 = concat (map flat ts) @ e # yp_raw p'"
      "list_all (tree_ok source) ts" "list_all (nested room) ts"
      "yp_nodes p' = yp_nodes p2 + sum_list (map count_nodes ts)" "yp_nodes p' \<le> max_nodes" by blast
    then show ?thesis using t by (intro exI [of _ "t # ts"] exI [of _ e]) auto
  qed
qed

lemma only_trees_all: "room \<le> max_room \<Longrightarrow> only_trees source room"
proof (induction room)
  case (Suc room)
  then have IH: "only_trees source room" and less: "room < max_room" by simp_all
  have rt: "reads_trees source room" using Suc.prems by (intro reads_trees_all) simp
  show ?case unfolding only_trees_def
  proof (intro allI impI)
    fix p n p'
    assume "first_read source (Suc room) p = Inr (n, p')"
    then obtain ev p1 where ev: "next_event source p = Inr (ev, p1)" "read_node source (Suc room) ev p1 = Inr (n, p')"
      by (auto simp: first_read_def)
    obtain e where e: "yp_raw p = e # yp_raw p1" "yp_nodes p1 = yp_nodes p"
      "read_event e (place source (re_start e)) (place source (re_end e)) (p\<lparr>yp_raw := yp_raw p1\<rparr>) = Inr (ev, p1)"
      using next_event_kind [OF ev(1)] by metis
    let ?p = "p1\<lparr>yp_nodes := yp_nodes p1 + 1\<rparr>"
    have few: "yp_nodes ?p \<le> max_nodes" using ev(2) by (auto simp: Let_def)
    show "\<exists>t. tree_ok source t \<and> nested (Suc room) t \<and> yp_raw p = flat t @ yp_raw p' \<and>
        yp_nodes p' = yp_nodes p + count_nodes t \<and> yp_nodes p' \<le> max_nodes"
    proof (cases ev)
      case (EScalar s span)
      have "tree_ok source (TScalar e)"
        using e(3) EScalar by (auto simp: read_event_def event_span_def split: yaml_kind.splits if_splits)
      then show ?thesis using EScalar ev(2) e few by (intro exI [of _ "TScalar e"]) auto
    next
      case (EMap start)
      then have "map_loop source (read_node source room) (Suc room = max_room) start [] {} True ?p = Inr (n, p')"
        using ev(2) few by (simp add: Let_def)
      from map_loop_only [OF IH rt less this few] obtain kvs stop where kvs: "ending stop"
        "yp_raw p1 = concat (map (\<lambda>(k, v). flat k @ flat v) kvs) @ stop # yp_raw p'"
        "list_all (\<lambda>(k, v). tree_ok source k \<and> tree_ok source v \<and> key_text source k \<noteq> []) kvs"
        "list_all (\<lambda>(k, v). nested room k \<and> nested room v) kvs" "distinct (map (key_text source \<circ> fst) kvs)"
        "yp_nodes p' = yp_nodes p1 + 1 + sum_list (map (\<lambda>(k, v). count_nodes k + count_nodes v) kvs)" "yp_nodes p' \<le> max_nodes"
        by auto
      have "re_kind e = MapStart" using e(3) EMap by (auto simp: read_event_def split: yaml_kind.splits if_splits)
      then show ?thesis using kvs e by (intro exI [of _ "TMap e kvs stop"]) simp
    next
      case (EList start)
      then have "list_loop source (read_node source room) start [] 0 ?p = Inr (n, p')" using ev(2) few by (simp add: Let_def)
      from list_loop_only [OF IH this few] obtain ts stop where ts: "ending stop"
        "yp_raw p1 = concat (map flat ts) @ stop # yp_raw p'" "list_all (tree_ok source) ts" "list_all (nested room) ts"
        "yp_nodes p' = yp_nodes p1 + 1 + sum_list (map count_nodes ts)" "yp_nodes p' \<le> max_nodes" by auto
      have "re_kind e = SequenceStart" using e(3) EList by (auto simp: read_event_def split: yaml_kind.splits if_splits)
      then show ?thesis using ts e by (intro exI [of _ "TList e ts stop"]) simp
    qed (use ev(2) in \<open>auto simp: Let_def\<close>)
  qed
qed (auto simp: only_trees_def first_read_def)

section \<open>Whole documents\<close>

definition skipped :: "raw_event \<Rightarrow> bool" where
  "skipped e \<longleftrightarrow> re_kind e = OtherEvent"

lemma next_skipped: "yp_raw p = e # raw \<Longrightarrow> skipped e \<Longrightarrow> next_event source p = Inr (ESkip, p\<lparr>yp_raw := raw\<rparr>)"
  by (simp add: next_event_read read_event_def skipped_def)

lemma read_event_skip: "read_event e a b p = Inr (ESkip, p') \<Longrightarrow> skipped e \<and> p' = p"
  by (auto simp: read_event_def skipped_def split: yaml_kind.splits if_splits)

lemma read_event_done: "read_event e a b p = Inr (EDone, p') \<longleftrightarrow> re_kind e = StreamEnd \<and> p' = p"
  by (auto simp: read_event_def split: yaml_kind.splits)

lemma skip_to_root_over: "list_all skipped skips \<Longrightarrow> yp_raw p = skips @ raw \<Longrightarrow> skip_to_root source p = skip_to_root source (p\<lparr>yp_raw := raw\<rparr>)"
proof (induction skips arbitrary: p)
  case Nil
  then have "p\<lparr>yp_raw := raw\<rparr> = p" by simp
  then show ?case by simp
next
  case (Cons e skips)
  have "skip_to_root source p = skip_to_root source (p\<lparr>yp_raw := skips @ raw\<rparr>)"
    using Cons.prems by (subst skip_to_root.simps) (simp add: next_skipped)
  then show ?case using Cons by simp
qed

lemma skip_to_end_over: "list_all skipped skips \<Longrightarrow> yp_raw p = skips @ raw \<Longrightarrow> skip_to_end source p = skip_to_end source (p\<lparr>yp_raw := raw\<rparr>)"
proof (induction skips arbitrary: p)
  case Nil
  then have "p\<lparr>yp_raw := raw\<rparr> = p" by simp
  then show ?case by simp
next
  case (Cons e skips)
  have "skip_to_end source p = skip_to_end source (p\<lparr>yp_raw := skips @ raw\<rparr>)"
    using Cons.prems by (subst skip_to_end.simps) (simp add: next_skipped)
  then show ?case using Cons by simp
qed

lemma skip_to_root_skips:
  "skip_to_root source p = Inr (n, p') \<Longrightarrow>
   \<exists>skips raw. yp_raw p = skips @ raw \<and> list_all skipped skips \<and> first_read source max_room (p\<lparr>yp_raw := raw\<rparr>) = Inr (n, p')"
proof (induction source p rule: skip_to_root.induct)
  case (1 source p)
  obtain ev p1 where ev: "next_event source p = Inr (ev, p1)" using "1.prems" by (subst (asm) skip_to_root.simps) auto
  obtain e where e: "yp_raw p = e # yp_raw p1" "yp_nodes p1 = yp_nodes p"
    "read_event e (place source (re_start e)) (place source (re_end e)) (p\<lparr>yp_raw := yp_raw p1\<rparr>) = Inr (ev, p1)"
    using next_event_kind [OF ev] by metis
  show ?case
  proof (cases "ev = ESkip")
    case True
    then have sk: "skipped e" "p1 = p\<lparr>yp_raw := yp_raw p1\<rparr>" using e(3) read_event_skip by blast+
    have "skip_to_root source p1 = Inr (n, p')" using "1.prems" ev True by (subst (asm) skip_to_root.simps) simp
    from "1.IH" [OF ev refl True this] obtain skips raw where r: "yp_raw p1 = skips @ raw" "list_all skipped skips"
      "first_read source max_room (p1\<lparr>yp_raw := raw\<rparr>) = Inr (n, p')" by blast
    have "p1\<lparr>yp_raw := raw\<rparr> = p\<lparr>yp_raw := raw\<rparr>" by (subst sk(2)) simp
    with r sk e(1) show ?thesis by (intro exI [of _ "e # skips"] exI [of _ raw]) simp
  next
    case False
    then have "read_node source max_room ev p1 = Inr (n, p')" using "1.prems" ev by (subst (asm) skip_to_root.simps) (cases ev; simp)
    moreover have "p\<lparr>yp_raw := yp_raw p\<rparr> = p" by simp
    ultimately show ?thesis using ev by (intro exI [of _ "[]"] exI [of _ "yp_raw p"]) (simp add: first_read_def)
  qed
qed

lemma skip_to_end_skips:
  "skip_to_end source p = Inr p' \<Longrightarrow>
   \<exists>skips stop raw. yp_raw p = skips @ stop # raw \<and> list_all skipped skips \<and> re_kind stop = StreamEnd \<and> p' = p\<lparr>yp_raw := raw\<rparr>"
proof (induction source p rule: skip_to_end.induct)
  case (1 source p)
  obtain ev p1 where ev: "next_event source p = Inr (ev, p1)" using "1.prems" by (subst (asm) skip_to_end.simps) auto
  obtain e where e: "yp_raw p = e # yp_raw p1" "yp_nodes p1 = yp_nodes p"
    "read_event e (place source (re_start e)) (place source (re_end e)) (p\<lparr>yp_raw := yp_raw p1\<rparr>) = Inr (ev, p1)"
    using next_event_kind [OF ev] by metis
  consider "ev = ESkip" | "ev = EDone" "p' = p1" using "1.prems" ev by (subst (asm) skip_to_end.simps) (cases ev; simp)
  then show ?case
  proof cases
    case 1
    then have sk: "skipped e" "p1 = p\<lparr>yp_raw := yp_raw p1\<rparr>" using e(3) read_event_skip by blast+
    have "skip_to_end source p1 = Inr p'" using "1.prems" ev 1 by (subst (asm) skip_to_end.simps) simp
    from "1.IH" [OF ev refl 1 this] obtain skips stop raw where r: "yp_raw p1 = skips @ stop # raw" "list_all skipped skips"
      "re_kind stop = StreamEnd" "p' = p1\<lparr>yp_raw := raw\<rparr>" by blast
    have "p1\<lparr>yp_raw := raw\<rparr> = p\<lparr>yp_raw := raw\<rparr>" by (subst sk(2)) simp
    with r sk e(1) show ?thesis by (intro exI [of _ "e # skips"] exI [of _ stop] exI [of _ raw]) simp
  next
    case 2
    then have "re_kind e = StreamEnd" "p1 = p\<lparr>yp_raw := yp_raw p1\<rparr>" using e(3) read_event_done by blast+
    with 2 e(1) show ?thesis by (intro exI [of _ "[]"] exI [of _ e] exI [of _ "yp_raw p1"]) simp
  qed
qed

lemma parse_yaml_tree:
  "parse_yaml raw source = Inr (root, om) \<longleftrightarrow>
    (\<exists>skips t skips' stop rest. raw = skips @ flat t @ skips' @ stop # rest \<and> list_all skipped skips \<and> list_all skipped skips' \<and>
      re_kind stop = StreamEnd \<and> tree_ok source t \<and> nested max_room t \<and> count_nodes t \<le> max_nodes \<and>
      root = tree_node source True t \<and> om = omitted source t)" (is "?parse \<longleftrightarrow> ?tree")
proof
  let ?p = "\<lparr>yp_raw = raw, yp_nodes = 0, yp_omissions = []\<rparr>"
  assume ?parse
  then obtain p p' where p: "skip_to_root source ?p = Inr (root, p)" "skip_to_end source p = Inr p'" "om = yp_omissions p'"
    unfolding parse_yaml_def by auto
  from skip_to_root_skips [OF p(1)] obtain skips raw' where r: "raw = skips @ raw'" "list_all skipped skips"
    "first_read source max_room (?p\<lparr>yp_raw := raw'\<rparr>) = Inr (root, p)" by auto
  obtain t where t: "tree_ok source t" "nested max_room t" "raw' = flat t @ yp_raw p" "yp_nodes p = count_nodes t" "yp_nodes p \<le> max_nodes"
    using only_trees_all [of max_room source] r(3) unfolding only_trees_def by fastforce
  have "first_read source max_room (?p\<lparr>yp_raw := raw'\<rparr>) =
    Inr (tree_node source True t, after_events (?p\<lparr>yp_raw := raw'\<rparr>) (yp_raw p) (count_nodes t) (omitted source t))"
    using reads_trees_all [of max_room source] t unfolding reads_trees_def by simp
  then have n: "root = tree_node source True t" "yp_omissions p = omitted source t" 
    using r(3) arg_cong [of _ _ yp_omissions] by (auto dest!: arg_cong [of _ _ yp_omissions])
  from skip_to_end_skips [OF p(2)] obtain skips' stop rest where "yp_raw p = skips' @ stop # rest" "list_all skipped skips'"
    "re_kind stop = StreamEnd" "p' = p\<lparr>yp_raw := rest\<rparr>" by blast
  with r t n p(3) show ?tree by (intro exI [of _ skips] exI [of _ t] exI [of _ skips'] exI [of _ stop] exI [of _ rest]) simp
next
  assume ?tree
  then obtain skips t skips' stop rest where r: "raw = skips @ flat t @ skips' @ stop # rest" "list_all skipped skips"
    "list_all skipped skips'" "re_kind stop = StreamEnd" and t: "tree_ok source t" "nested max_room t" "count_nodes t \<le> max_nodes" and
    n: "root = tree_node source True t" "om = omitted source t" by blast
  let ?p = "\<lparr>yp_raw = raw, yp_nodes = 0, yp_omissions = []\<rparr>" and ?rest = "skips' @ stop # rest"
  define p where "p = after_events (?p\<lparr>yp_raw := flat t @ ?rest\<rparr>) ?rest (count_nodes t) (omitted source t)"
  have f: "first_read source max_room (?p\<lparr>yp_raw := flat t @ ?rest\<rparr>) = Inr (tree_node source True t, p)"
    using reads_trees_all [of max_room source] t unfolding reads_trees_def p_def by simp
  then obtain ev p1 where ev: "next_event source (?p\<lparr>yp_raw := flat t @ ?rest\<rparr>) = Inr (ev, p1)"
    "read_node source max_room ev p1 = Inr (tree_node source True t, p)" by (auto simp: first_read_def)
  then have "ev \<noteq> ESkip" by (auto simp: max_room_def numeral_eq_Suc Let_def)
  with ev have "skip_to_root source (?p\<lparr>yp_raw := flat t @ ?rest\<rparr>) = Inr (tree_node source True t, p)"
    by (subst skip_to_root.simps) (cases ev; simp)
  then have root: "skip_to_root source ?p = Inr (tree_node source True t, p)"
    using skip_to_root_over [OF r(2), of ?p "flat t @ ?rest"] r(1) by simp
  have "skip_to_end source (p\<lparr>yp_raw := stop # rest\<rparr>) = Inr (p\<lparr>yp_raw := rest\<rparr>)"
    using r(4) by (subst skip_to_end.simps) (simp add: next_event_read read_event_def)
  then have "skip_to_end source p = Inr (p\<lparr>yp_raw := rest\<rparr>)" using skip_to_end_over [OF r(3), of p "stop # rest"] by (simp add: p_def)
  with root n show ?parse by (simp add: parse_yaml_def) (simp add: p_def)
qed

lemma omitted_range: "tree_ok source t \<Longrightarrow> r \<in> set (omitted source t) \<Longrightarrow> fst r \<le> snd r"
proof (induction t)
  case (TMap s kvs e)
  then obtain k v where kv: "(k, v) \<in> set kvs" "r \<in> set (omitted source k) \<or> r \<in> set (omitted source v)" by auto
  moreover have "tree_ok source k" "tree_ok source v" using TMap.prems(1) kv(1) by (auto simp: list_all_iff)
  ultimately show ?case using TMap.IH by (metis fst_eqD fsts.intros snd_eqD snds.intros)
qed (auto simp: list_all_iff split: if_splits)

lemma parse_yaml_omissions: "parse_yaml raw source = Inr (root, om) \<Longrightarrow> r \<in> set om \<Longrightarrow> fst r \<le> snd r"
  unfolding parse_yaml_tree using omitted_range by blast

text \<open>
  C20: reading YAML succeeds on exactly the event streams of one tree that has only scalar keys, none of
  them empty, too long or repeated in its map, at most 129 levels and two million nodes; the result
  is the pruned node of that tree and the ranges of its values too long to keep.
\<close>

theorem parse_yaml_exact:
  "parse_yaml raw source = Inr (root, om) \<longleftrightarrow>
    (\<exists>skips t skips' stop rest. raw = skips @ flat t @ skips' @ stop # rest \<and> list_all skipped skips \<and> list_all skipped skips' \<and>
      re_kind stop = StreamEnd \<and> tree_ok source t \<and> nested max_room t \<and> count_nodes t \<le> max_nodes \<and>
      root = tree_node source True t \<and> om = omitted source t)"
  by (rule parse_yaml_tree)

end
