(* ===== verification/Asset_Parse.thy ===== *)
theory Asset_Parse
  imports Yaml Unity_Version
begin

text \<open>
  Serialized Unity assets, \<^verbatim>\<open>src/src/unity/assets/parse.rs\<close>: the documents of a file become objects with
  their names, references and prefab data, and the source becomes fragments between the values left
  out. libyaml and the JSON stream reader are parameters: the events of a text, and the byte index
  after every JSON value or the error of the reader.
\<close>

section \<open>Data\<close>

record pointer =
  pt_guid :: str
  pt_id :: int

definition null_pointer :: pointer where
  "null_pointer = \<lparr>pt_guid = [], pt_id = 0\<rparr>"

definition pointer_null :: "pointer \<Rightarrow> bool" where
  "pointer_null p \<longleftrightarrow> pt_id p = 0"

record asset_reference =
  ae_target :: pointer
  ae_span :: range

record modification =
  md_target :: pointer
  md_property :: str
  md_reference :: pointer
  md_value :: str

record prefab =
  pf_source :: pointer
  pf_parent :: pointer
  pf_modifications :: "modification list"
  pf_removed :: "pointer list"
  pf_added :: "(pointer \<times> int) list"

record asset_object =
  ob_id :: int
  ob_class :: int
  ob_stripped :: bool
  ob_name :: str
  ob_span :: range
  ob_line :: nat
  ob_references :: "(str \<times> asset_reference) list"
  ob_prefab :: "prefab option"

definition object_pointer :: "asset_object \<Rightarrow> str \<Rightarrow> pointer" where
  "object_pointer ob field = (case bt_get (ob_references ob) field of Some r \<Rightarrow> ae_target r | None \<Rightarrow> null_pointer)"

record fragment =
  fg_start :: nat
  fg_line :: nat
  fg_text :: str

record parsed =
  ps_objects :: "asset_object list"
  ps_fragments :: "fragment list"
  ps_omissions :: "range list"
  ps_bytes :: nat

datatype asset_error = AssetYaml yaml_error | InvalidHeader | MissingId | BadNumber | DuplicateObject | NoMapping | MultipleObjectRoots
  | InvalidRange | JsonError | AssetPanic

section \<open>Numbers and words\<close>

text \<open>\<^verbatim>\<open>parse::<i64>\<close> and \<^verbatim>\<open>parse::<i32>\<close>: an optional sign, at least one digit, no overflow.\<close>

definition parse_signed :: "int \<Rightarrow> str \<Rightarrow> int option" where
  "parse_signed bound s =
     (let neg = (s \<noteq> [] \<and> hd s = 45);
          ds = (if s \<noteq> [] \<and> (hd s = 45 \<or> hd s = 43) then tl s else s);
          n = (if neg then - int (digits_value ds) else int (digits_value ds))
      in if ds \<noteq> [] \<and> list_all is_digit ds \<and> - bound \<le> n \<and> n < bound then Some n else None)"

definition parse_i64 :: "str \<Rightarrow> int option" where
  "parse_i64 = parse_signed (2 ^ 63)"

definition parse_i32 :: "str \<Rightarrow> int option" where
  "parse_i32 = parse_signed (2 ^ 31)"

definition display_int :: "int \<Rightarrow> str" where
  "display_int i = (if i < 0 then 45 # display_nat (nat (- i)) else display_nat (nat i))"

definition split_whitespace :: "str \<Rightarrow> str list" where
  "split_whitespace s = filter (\<lambda>w. w \<noteq> []) (foldr (\<lambda>c ws. if is_whitespace c then [] # ws else (c # hd ws) # tl ws) s [[]])"

section \<open>Nodes\<close>

definition node_pointer :: "ynode \<Rightarrow> pointer option" where
  "node_pointer n =
     (if \<not> yn_reference n then None
      else (case yn_value n of
          YMap m \<Rightarrow> if list_ex (\<lambda>(k, _). \<not> reference_key k) m then None
            else (case Option.bind (bt_get m (lit ''fileID'')) (\<lambda>f. parse_i64 (node_text f)) of
                None \<Rightarrow> None
              | Some i \<Rightarrow> Some \<lparr>pt_guid = (case bt_get m (lit ''guid'') of None \<Rightarrow> [] | Some g \<Rightarrow> map ascii_lower (node_text g)), pt_id = i\<rparr>)
        | _ \<Rightarrow> None))"

definition field_pointer :: "ynode \<Rightarrow> str \<Rightarrow> pointer" where
  "field_pointer n field = (case Option.bind (node_get n field) node_pointer of Some p \<Rightarrow> p | None \<Rightarrow> null_pointer)"

definition field_text :: "ynode \<Rightarrow> str \<Rightarrow> str" where
  "field_text n field = (case node_get n field of Some f \<Rightarrow> node_text f | None \<Rightarrow> [])"

definition child_path :: "str \<Rightarrow> str \<Rightarrow> str" where
  "child_path path name = (if path = [] then name else path @ lit ''.'' @ name)"

definition item_path :: "str \<Rightarrow> nat \<Rightarrow> str" where
  "item_path path i = path @ lit ''.Array.data['' @ display_nat i @ lit '']''"

fun references :: "ynode \<Rightarrow> str \<Rightarrow> nat \<Rightarrow> (str \<times> asset_reference) list \<Rightarrow> (str \<times> asset_reference) list" where
  "references (YNode v span r) path base refs = (case node_pointer (YNode v span r) of
     Some target \<Rightarrow> bt_insert path \<lparr>ae_target = target, ae_span = (fst span + base, snd span + base)\<rparr> refs
   | None \<Rightarrow> (case v of
       YMap m \<Rightarrow> fold (\<lambda>(name, n) refs. references n (child_path path name) base refs) m refs
     | YList xs \<Rightarrow> fold (\<lambda>(i, n) refs. references n (item_path path i) base refs) xs refs
     | YScalar _ \<Rightarrow> refs))"

section \<open>Prefabs\<close>

definition read_modification :: "ynode \<Rightarrow> modification" where
  "read_modification n = \<lparr>md_target = field_pointer n (lit ''target''), md_property = field_text n (lit ''propertyPath''),
     md_reference = field_pointer n (lit ''objectReference''), md_value = field_text n (lit ''value'')\<rparr>"

definition items_of :: "ynode \<Rightarrow> str \<Rightarrow> ynode list" where
  "items_of n key = (case node_get n key of Some l \<Rightarrow> map snd (node_list l) | None \<Rightarrow> [])"

definition read_prefab :: "ynode \<Rightarrow> prefab" where
  "read_prefab n =
     (let source = field_pointer n (if node_get n (lit ''m_SourcePrefab'') \<noteq> None then lit ''m_SourcePrefab'' else lit ''m_ParentPrefab'')
      in case node_get n (lit ''m_Modification'') of
          None \<Rightarrow> \<lparr>pf_source = source, pf_parent = null_pointer, pf_modifications = [], pf_removed = [], pf_added = []\<rparr>
        | Some mods \<Rightarrow> \<lparr>pf_source = source, pf_parent = field_pointer mods (lit ''m_TransformParent''),
            pf_modifications = map read_modification (items_of mods (lit ''m_Modifications'')),
            pf_removed = List.map_filter node_pointer (items_of mods (lit ''m_RemovedComponents'')) @
              List.map_filter node_pointer (items_of mods (lit ''m_RemovedGameObjects'')),
            pf_added = map (\<lambda>item. (field_pointer item (lit ''targetCorrespondingSourceObject''), pt_id (field_pointer item (lit ''addedObject''))))
              (items_of mods (lit ''m_AddedComponents'') @ items_of mods (lit ''m_AddedGameObjects''))\<rparr>)"

section \<open>Documents\<close>

record header =
  hd_start :: nat
  hd_body :: nat
  hd_line :: nat
  hd_class :: int
  hd_id :: int
  hd_stripped :: bool

text \<open>\<^verbatim>\<open>--- !u!<class> &<id> [stripped]\<close>.\<close>

definition read_header :: "str \<Rightarrow> nat \<Rightarrow> nat \<Rightarrow> asset_error + header option" where
  "read_header row start line = (case strip_prefix row (lit ''--- !u!'') of
     None \<Rightarrow> Inr None
   | Some rest \<Rightarrow> (case split_once_text (lit '' &'') rest of
       None \<Rightarrow> Inl InvalidHeader
     | Some (cls, rest) \<Rightarrow> (case split_whitespace rest of
         [] \<Rightarrow> Inl MissingId
       | w # ws \<Rightarrow> (case parse_i64 w of
           None \<Rightarrow> Inl BadNumber
         | Some i \<Rightarrow> (case parse_i32 cls of
             None \<Rightarrow> Inl BadNumber
           | Some c \<Rightarrow> Inr (Some \<lparr>hd_start = start, hd_body = start + byte_len row, hd_line = line, hd_class = c, hd_id = i,
               hd_stripped = (ws \<noteq> [] \<and> hd ws = lit ''stripped'')\<rparr>))))))"

fun read_headers :: "str list \<Rightarrow> nat \<Rightarrow> nat \<Rightarrow> asset_error + header list" where
  "read_headers [] start line = Inr []"
| "read_headers (row # rows) start line =
     bindE (read_header row start line) (\<lambda>h.
     bindE (read_headers rows (start + byte_len row) (line + 1)) (\<lambda>hs.
       Inr (case h of None \<Rightarrow> hs | Some h \<Rightarrow> h # hs)))"

record readers =
  rs_yaml :: "str \<Rightarrow> raw_event list"
  rs_json :: "str \<Rightarrow> nat option list"

definition shift_ranges :: "nat \<Rightarrow> range list \<Rightarrow> range list" where
  "shift_ranges n rs = map (\<lambda>r. (fst r + n, snd r + n)) rs"

text \<open>The tree of a part of the source, and its omissions in the whole.\<close>

definition parse_part :: "readers \<Rightarrow> str \<Rightarrow> range \<Rightarrow> asset_error + ynode \<times> range list" where
  "parse_part rs source r = (case text_slice source r of
     None \<Rightarrow> Inl AssetPanic
   | Some part \<Rightarrow> (case parse_yaml (rs_yaml rs part) part of
       Inl e \<Rightarrow> Inl (AssetYaml e)
     | Inr (n, om) \<Rightarrow> Inr (n, shift_ranges (fst r) om)))"

fun json_parts :: "readers \<Rightarrow> str \<Rightarrow> nat \<Rightarrow> nat option list \<Rightarrow> asset_error + range list" where
  "json_parts rs source start [] = Inr []"
| "json_parts rs source start (None # vs) = Inl JsonError"
| "json_parts rs source start (Some stop # vs) =
     bindE (parse_part rs source (start, stop)) (\<lambda>(_, om).
     bindE (json_parts rs source stop vs) (\<lambda>om'. Inr (om @ om')))"

definition parse_plain :: "readers \<Rightarrow> str \<Rightarrow> asset_error + range list" where
  "parse_plain rs source =
     (if starts_with (trim_start source) (lit ''{'') then json_parts rs source 0 (rs_json rs source)
      else map_sum id snd (parse_part rs source (0, byte_len source)))"

definition make_object :: "header \<Rightarrow> nat \<Rightarrow> ynode \<Rightarrow> asset_object" where
  "make_object h stop n = \<lparr>ob_id = hd_id h, ob_class = hd_class h, ob_stripped = hd_stripped h, ob_name = field_text n (lit ''m_Name''),
     ob_span = (hd_start h, stop), ob_line = hd_line h, ob_references = references n [] (hd_body h) [],
     ob_prefab = (if hd_class h = 1001 then Some (read_prefab n) else None)\<rparr>"

fun read_objects :: "readers \<Rightarrow> str \<Rightarrow> header list \<Rightarrow> int set \<Rightarrow> asset_error + asset_object list \<times> range list" where
  "read_objects rs source [] ids = Inr ([], [])"
| "read_objects rs source (h # hs) ids =
     ensureE (hd_id h \<notin> ids) DuplicateObject
      (let stop = (case hs of [] \<Rightarrow> byte_len source | h' # _ \<Rightarrow> hd_start h')
       in bindE (parse_part rs source (hd_body h, stop)) (\<lambda>(root, om).
          case yn_value root of
            YMap [(_, n)] \<Rightarrow> bindE (read_objects rs source hs (insert (hd_id h) ids)) (\<lambda>(obs, om').
              Inr (make_object h stop n # obs, om @ om'))
          | YMap _ \<Rightarrow> Inl MultipleObjectRoots
          | _ \<Rightarrow> Inl NoMapping))"

section \<open>Fragments\<close>

fun cut_fragments :: "str \<Rightarrow> range list \<Rightarrow> nat \<Rightarrow> nat \<Rightarrow> asset_error + fragment list" where
  "cut_fragments source [] start line = (case text_slice source (start, byte_len source) of
     None \<Rightarrow> Inl AssetPanic
   | Some t \<Rightarrow> Inr [\<lparr>fg_start = start, fg_line = line, fg_text = t\<rparr>])"
| "cut_fragments source (r # rs) start line =
     ensureE (start \<le> fst r \<and> char_prefix source (fst r) \<noteq> None \<and> char_prefix source (snd r) \<noteq> None) InvalidRange
      (case (text_slice source (start, fst r), text_slice source (start, snd r)) of
         (Some t, Some u) \<Rightarrow> bindE (cut_fragments source rs (snd r) (line + length (filter (\<lambda>b. b = 10) (utf8 u)))) (\<lambda>fs.
           Inr (\<lparr>fg_start = start, fg_line = line, fg_text = t\<rparr> # fs))
       | _ \<Rightarrow> Inl AssetPanic)"

definition parse_asset :: "readers \<Rightarrow> str \<Rightarrow> asset_error + parsed" where
  "parse_asset rs source =
     bindE (read_headers (split_inclusive source) 0 1) (\<lambda>hs.
     bindE (if hs = [] then parse_plain rs source else Inr []) (\<lambda>plain.
     bindE (read_objects rs source hs {}) (\<lambda>(obs, om).
     let om = sort_key fst (plain @ om)
     in bindE (cut_fragments source om 0 1) (\<lambda>fs.
        Inr \<lparr>ps_objects = obs, ps_fragments = fs, ps_omissions = om, ps_bytes = byte_len source\<rparr>))))"

end
