(* ===== verification/Asset_Parse_Correct.thy ===== *)
theory Asset_Parse_Correct
  imports Asset_Parse Yaml_Correct
begin

text \<open>
  What the reader of serialized assets returns covers the file: objects are its documents, one after the
  other from the first header to the end, and fragments and omitted values alternate to give the
  whole text again, each at its byte and line.
\<close>

section \<open>Fragments\<close>

definition placed_at :: "str \<Rightarrow> fragment \<Rightarrow> bool" where
  "placed_at p f \<longleftrightarrow> fg_start f = byte_len p \<and> fg_line f = newlines p + 1"

text \<open>The fragments stand between the omitted pieces, after the text \<open>p\<close>.\<close>

fun alternate :: "str \<Rightarrow> fragment list \<Rightarrow> str list \<Rightarrow> bool" where
  "alternate p [f] [] \<longleftrightarrow> placed_at p f"
| "alternate p (f # fs) (t # ts) \<longleftrightarrow> placed_at p f \<and> alternate (p @ fg_text f @ t) fs ts"
| "alternate p _ _ \<longleftrightarrow> False"

fun weave :: "str list \<Rightarrow> str list \<Rightarrow> str" where
  "weave (f # fs) (t # ts) = f @ t @ weave fs ts"
| "weave fs ts = concat fs @ concat ts"

lemma newlines_filter: "length (filter (\<lambda>b. b = 10) (utf8 t)) = newlines t"
  by (simp add: newlines_utf8 newlines_def)

lemma newlines_append [simp]: "newlines (a @ b) = newlines a + newlines b"
  by (simp add: newlines_def)

lemma cut_fragments_weave:
  assumes "cut_fragments source om (byte_len p) (newlines p + 1) = Inr fs" "source = p @ s" "\<forall>r \<in> set om. fst r \<le> snd r"
  shows "\<exists>ts. list_all2 (\<lambda>r t. text_slice source r = Some t) om ts \<and> alternate p fs ts \<and> weave (map fg_text fs) ts = s"
  using assms
proof (induction om arbitrary: p s fs)
  case Nil
  have "text_slice source (byte_len p, byte_len source) = Some s" unfolding text_slice_Some Nil.prems(2) by (intro exI [of _ p] exI [of _ "[]"]) simp
  then have "fs = [\<lparr>fg_start = byte_len p, fg_line = newlines p + 1, fg_text = s\<rparr>]" using Nil.prems(1) by simp
  then show ?case by (intro exI [of _ "[]"]) (simp add: placed_at_def)
next
  case (Cons r om)
  obtain a b where r: "r = (a, b)" by fastforce
  from Cons.prems(1) obtain t u fs' where t: "text_slice source (byte_len p, a) = Some t"
    and u: "text_slice source (byte_len p, b) = Some u" and ab: "char_prefix source a \<noteq> None" "char_prefix source b \<noteq> None"
    and fs': "cut_fragments source om b (newlines p + 1 + newlines u) = Inr fs'"
    and fs: "fs = \<lparr>fg_start = byte_len p, fg_line = newlines p + 1, fg_text = t\<rparr> # fs'"
    by (auto simp: r newlines_filter split: option.splits)
  obtain r1 where r1: "source = p @ t @ r1" "a = byte_len (p @ t)"
    using t prefix_unique [of _ _ p s] Cons.prems(2) unfolding text_slice_Some by metis
  obtain r2 where r2: "source = p @ u @ r2" "b = byte_len (p @ u)"
    using u prefix_unique [of _ _ p s] Cons.prems(2) unfolding text_slice_Some by metis
  have s: "s = u @ r2" using r2(1) Cons.prems(2) by simp
  from Cons.IH [of "p @ u" fs' r2] fs' r2 Cons.prems(3) obtain ts where ts: "list_all2 (\<lambda>r t. text_slice source r = Some t) om ts"
    "alternate (p @ u) fs' ts" "weave (map fg_text fs') ts = r2" by (auto simp: add.commute add.left_commute)
  show ?case
  proof -
    have "byte_len t \<le> byte_len u" using Cons.prems(3) r1(2) r2(2) by (simp add: r byte_len_def)
    moreover have "t @ r1 = u @ r2" using r1(1) r2(1) by simp
    ultimately obtain w where w: "u = t @ w" using prefix_within by blast
    have "text_slice source (a, b) = Some w" unfolding text_slice_Some
      by (intro exI [of _ "p @ t"] exI [of _ r2]) (use r1 r2 w in simp)
    then show ?thesis using ts w s fs by (intro exI [of _ "w # ts"]) (simp add: r placed_at_def)
  qed
qed

section \<open>Documents\<close>

definition marked :: "str \<Rightarrow> bool" where
  "marked row \<longleftrightarrow> starts_with row (lit ''--- !u!'')"

text \<open>The lines of the documents after the text \<open>p\<close>: each begins with its header and has no other.\<close>

fun documents :: "str \<Rightarrow> str list list \<Rightarrow> asset_object list \<Rightarrow> bool" where
  "documents p [] [] \<longleftrightarrow> True"
| "documents p ((row # rows) # ds) (ob # obs) \<longleftrightarrow> marked row \<and> list_all (\<lambda>row. \<not> marked row) rows \<and>
     ob_span ob = (byte_len p, byte_len (p @ row @ concat rows)) \<and> ob_line ob = newlines p + 1 \<and>
     documents (p @ row @ concat rows) ds obs"
| "documents p _ _ \<longleftrightarrow> False"

fun header_documents :: "str \<Rightarrow> str list list \<Rightarrow> header list \<Rightarrow> bool" where
  "header_documents p [] [] \<longleftrightarrow> True"
| "header_documents p ((row # rows) # ds) (h # hs) \<longleftrightarrow> marked row \<and> list_all (\<lambda>row. \<not> marked row) rows \<and>
     hd_start h = byte_len p \<and> hd_body h = byte_len (p @ row) \<and> hd_line h = newlines p + 1 \<and>
     header_documents (p @ row @ concat rows) ds hs"
| "header_documents p _ _ \<longleftrightarrow> False"

text \<open>Every line but the last has one line feed.\<close>

fun rows_ok :: "str list \<Rightarrow> bool" where
  "rows_ok (r # s # rs) \<longleftrightarrow> newlines r = 1 \<and> rows_ok (s # rs)"
| "rows_ok _ \<longleftrightarrow> True"

lemma rows_ok_split: "rows_ok (split_inclusive s)"
proof (induction s)
  case (Cons c s)
  show ?case
  proof (cases "split_inclusive s")
    case (Cons l ls)
    with Cons.IH show ?thesis by (cases ls) auto
  qed auto
qed simp

lemma read_header_cases:
  assumes "read_header row start line = Inr h"
  shows "case h of None \<Rightarrow> \<not> marked row | Some h \<Rightarrow> marked row \<and> hd_start h = start \<and> hd_body h = start + byte_len row \<and> hd_line h = line"
  using assms by (auto simp: read_header_def marked_def strip_prefix_def split: option.splits if_splits prod.splits list.splits)

lemma read_headers_documents:
  assumes "read_headers rows (byte_len p) (newlines p + 1) = Inr hs" "rows_ok rows"
  shows "\<exists>pre ds. rows = pre @ concat ds \<and> list_all (\<lambda>row. \<not> marked row) pre \<and> header_documents (p @ concat pre) ds hs"
  using assms
proof (induction rows arbitrary: p hs)
  case (Cons row rows)
  from Cons.prems(1) obtain h hs' where h: "read_header row (byte_len p) (newlines p + 1) = Inr h"
    and hs': "read_headers rows (byte_len p + byte_len row) (newlines p + 1 + 1) = Inr hs'"
    and hs: "hs = (case h of None \<Rightarrow> hs' | Some h \<Rightarrow> h # hs')" by auto
  have "\<exists>pre ds. rows = pre @ concat ds \<and> list_all (\<lambda>row. \<not> marked row) pre \<and> header_documents ((p @ row) @ concat pre) ds hs'"
  proof (cases rows)
    case Nil
    then have "hs' = []" using hs' by simp
    with Nil show ?thesis by (intro exI [of _ "[]"]) simp
  next
    case (Cons r rs)
    then have "newlines row = 1" "rows_ok rows" using \<open>rows_ok (row # rows)\<close> by simp_all
    then show ?thesis using hs' by (intro Cons.IH) simp_all
  qed
  then obtain pre ds where pre: "rows = pre @ concat ds" "list_all (\<lambda>row. \<not> marked row) pre"
    "header_documents ((p @ row) @ concat pre) ds hs'" by blast
  show ?case
  proof (cases h)
    case None
    then show ?thesis using pre hs read_header_cases [OF h]
      by (intro exI [of _ "row # pre"] exI [of _ ds]) simp
  next
    case (Some h')
    then show ?thesis using pre hs read_header_cases [OF h]
      by (intro exI [of _ "[]"] exI [of _ "(row # pre) # ds"]) simp
  qed
qed (auto intro: exI [of _ "[]"])

lemma header_documents_first:
  "header_documents p ds hs \<Longrightarrow> (case hs of [] \<Rightarrow> byte_len (p @ concat (concat ds)) | h # _ \<Rightarrow> hd_start h) = byte_len p"
  by (induction p ds hs rule: header_documents.induct) auto

lemma parse_part_range: "parse_part rs source r = Inr (n, om) \<Longrightarrow> q \<in> set om \<Longrightarrow> fst q \<le> snd q"
  using parse_yaml_omissions by (fastforce simp: parse_part_def shift_ranges_def split: option.splits sum.splits)

lemma read_objects_documents:
  assumes "read_objects rs source hs ids = Inr (obs, om)" "header_documents p ds hs" "source = p @ concat (concat ds)"
  shows "documents p ds obs \<and> distinct (map ob_id obs) \<and> ids \<inter> set (map ob_id obs) = {} \<and> (\<forall>r \<in> set om. fst r \<le> snd r)"
  using assms
proof (induction hs arbitrary: ids obs om p ds)
  case Nil
  then show ?case by (cases ds) (auto elim: header_documents.elims)
next
  case (Cons h hs)
  from Cons.prems(2) obtain row rows ds' where ds: "ds = (row # rows) # ds'" and d: "marked row" "list_all (\<lambda>row. \<not> marked row) rows"
    "hd_start h = byte_len p" "hd_line h = newlines p + 1" "header_documents (p @ row @ concat rows) ds' hs"
    by (auto elim: header_documents.elims)
  let ?p = "p @ row @ concat rows"
  have source: "source = ?p @ concat (concat ds')" using Cons.prems(3) ds by simp
  have stop: "(case hs of [] \<Rightarrow> byte_len source | h' # _ \<Rightarrow> hd_start h') = byte_len ?p"
    using header_documents_first [OF d(5)] unfolding source by (simp add: list.case_eq_if split: if_splits)
  from Cons.prems(1) obtain root om1 k n obs' om2 where fresh: "hd_id h \<notin> ids"
    and part: "parse_part rs source (hd_body h, byte_len ?p) = Inr (root, om1)"
    and rest: "read_objects rs source hs (insert (hd_id h) ids) = Inr (obs', om2)"
    and obs: "obs = make_object h (byte_len ?p) n # obs'" "om = om1 @ om2"
    by (auto simp: Let_def stop simp del: byte_len_append split: yvalue.splits list.splits)
  from Cons.IH [OF rest d(5) source]
  have IH: "documents ?p ds' obs'" "distinct (map ob_id obs')" "insert (hd_id h) ids \<inter> set (map ob_id obs') = {}"
    "\<forall>r \<in> set om2. fst r \<le> snd r" by blast+
  show ?case using IH fresh d(1-4) part
    by (auto simp: obs ds make_object_def dest: parse_part_range)
qed

lemma json_parts_range: "json_parts rs source start vs = Inr om \<Longrightarrow> r \<in> set om \<Longrightarrow> fst r \<le> snd r"
  by (induction rs source start vs arbitrary: om rule: json_parts.induct) (auto dest: parse_part_range)

lemma parse_plain_range: "parse_plain rs source = Inr om \<Longrightarrow> r \<in> set om \<Longrightarrow> fst r \<le> snd r"
  by (cases "parse_part rs source (0, byte_len source)") (auto simp: parse_plain_def split: if_splits dest: json_parts_range parse_part_range)

text \<open>
  C21: of a serialized file that is read, the objects are its documents in order, each with the line and
  the bytes from its header to the next one or the end, no two with one identifier; and fragments and
  omitted values alternate to give the whole text, every fragment at its byte and line.
\<close>

theorem parse_asset_layout:
  assumes "parse_asset rs source = Inr r"
  shows "(\<exists>pre ds. split_inclusive source = pre @ concat ds \<and> list_all (\<lambda>row. \<not> marked row) pre \<and>
      documents (concat pre) ds (ps_objects r)) \<and> distinct (map ob_id (ps_objects r)) \<and>
    (\<exists>ts. list_all2 (\<lambda>r t. text_slice source r = Some t) (ps_omissions r) ts \<and> alternate [] (ps_fragments r) ts \<and>
      weave (map fg_text (ps_fragments r)) ts = source)"
proof -
  from assms obtain hs plain obs om fs where hs: "read_headers (split_inclusive source) 0 1 = Inr hs"
    and plain: "(if hs = [] then parse_plain rs source else Inr []) = Inr plain"
    and obs: "read_objects rs source hs {} = Inr (obs, om)"
    and fs: "cut_fragments source (sort_key fst (plain @ om)) 0 1 = Inr fs"
    and r: "r = \<lparr>ps_objects = obs, ps_fragments = fs, ps_omissions = sort_key fst (plain @ om), ps_bytes = byte_len source\<rparr>"
    by (auto simp: parse_asset_def Let_def)
  from read_headers_documents [of "split_inclusive source" "[]" hs] hs rows_ok_split
  obtain pre ds where d: "split_inclusive source = pre @ concat ds" "list_all (\<lambda>row. \<not> marked row) pre"
    "header_documents (concat pre) ds hs" by auto
  have source: "source = concat pre @ concat (concat ds)" using d(1) by (metis concat_append concat_split_inclusive)
  note o = read_objects_documents [OF obs d(3) source]
  have "\<forall>r \<in> set (sort_key fst (plain @ om)). fst r \<le> snd r"
    using o plain by (auto split: if_splits dest: parse_plain_range)
  with cut_fragments_weave [of source "sort_key fst (plain @ om)" "[]" fs source] fs
  obtain ts where "list_all2 (\<lambda>r t. text_slice source r = Some t) (sort_key fst (plain @ om)) ts" "alternate [] fs ts"
    "weave (map fg_text fs) ts = source" by auto
  with o d r show ?thesis by auto
qed

section \<open>An example\<close>

definition sample_event :: "yaml_kind \<Rightarrow> nat \<Rightarrow> nat \<Rightarrow> raw_event" where
  "sample_event k a b = \<lparr>re_kind = k, re_start = \<lparr>mk_line = 0, mk_column = a\<rparr>, re_end = \<lparr>mk_line = 0, mk_column = b\<rparr>\<rparr>"

definition sample_tree :: ytree where
  "sample_tree = TMap (sample_event MapStart 0 0) [(TScalar (sample_event (ScalarEvent [65]) 0 1),
     TMap (sample_event MapStart 3 4) [] (sample_event MapEnd 4 5))] (sample_event MapEnd 5 5)"

definition sample_readers :: readers where
  "sample_readers = \<lparr>rs_yaml = \<lambda>_. flat sample_tree @ [sample_event StreamEnd 5 5], rs_json = \<lambda>_. []\<rparr>"

definition sample_body :: str where "sample_body = lit ''A: {}''"
definition sample_row :: str where "sample_row = lit ''--- !u!1 &7'' @ [10]"

lemma sample_place: "place sample_body \<lparr>mk_line = 0, mk_column = n\<rparr> = min n 5"
  by (simp add: place_def mark_offset_def sample_body_def lit_def byte_len_def utf8_char_def ascii_def)

lemma sample_event_simps [simp]:
  "re_kind (sample_event k a b) = k" "event_span sample_body (sample_event k a b) = (min a 5, min b 5)"
  "place sample_body (re_start (sample_event k a b)) = min a 5" "place sample_body (re_end (sample_event k a b)) = min b 5"
  by (simp_all add: sample_event_def event_span_def sample_place)

lemma sample_key: "event_text sample_body (sample_event (ScalarEvent [65]) 0 (Suc 0)) = lit ''A''"
  "\<not> too_long sample_body (sample_event (ScalarEvent [65]) 0 (Suc 0))"
  by (simp_all add: event_text_def too_long_def event_bytes_def value_limit_def
      utf8_width_def utf8_first_def utf8_value_def scalar_def utf8_char_def lit_def)

lemma sample_parse: "\<exists>n. parse_yaml (rs_yaml sample_readers sample_body) sample_body = Inr (YNode (YMap [(lit ''A'', n)]) (0, 5) False, [])"
proof -
  have room: "max_room = Suc (Suc (Suc 126))" by (simp add: max_room_def)
  have "tree_ok sample_body sample_tree" by (simp add: sample_tree_def ending_def key_text_def sample_key)
  moreover have "nested max_room sample_tree" unfolding room sample_tree_def
    by (simp only: nested.simps ytree.case list.pred_inject prod.case simp_thms)
  moreover have "count_nodes sample_tree \<le> max_nodes" by (simp add: sample_tree_def max_nodes_def)
  ultimately have "parse_yaml (rs_yaml sample_readers sample_body) sample_body =
      Inr (tree_node sample_body True sample_tree, omitted sample_body sample_tree)"
    unfolding parse_yaml_tree sample_readers_def
    by (intro exI [of _ "[]"] exI [of _ sample_tree] exI [of _ "sample_event StreamEnd 5 5"]) simp
  then show ?thesis by (simp add: sample_tree_def kept_entries_def key_text_def sample_key reference_key_def)
qed

definition sample_source :: str where "sample_source = sample_row @ sample_body"

lemma sample_rows: "split_inclusive sample_source = [sample_row, sample_body]"
  by (simp add: sample_source_def sample_row_def sample_body_def lit_def)

lemma sample_headers: "read_headers [sample_row, sample_body] 0 (Suc 0) =
  Inr [\<lparr>hd_start = 0, hd_body = byte_len sample_row, hd_line = 1, hd_class = 1, hd_id = 7, hd_stripped = False\<rparr>]"
  by (simp add: sample_row_def sample_body_def lit_def read_header_def strip_prefix_def split_whitespace_def is_whitespace_def
      parse_i64_def parse_i32_def parse_signed_def is_digit_def digits_value_def)

theorem parse_asset_layout_witness:
  "\<exists>r ob. parse_asset sample_readers sample_source = Inr r \<and> ps_objects r = [ob] \<and> ob_line ob = 1 \<and>
    ob_span ob = (0, byte_len sample_source)"
proof -
  let ?r = "(byte_len sample_row, byte_len sample_source)"
  have "text_slice sample_source ?r = Some sample_body" unfolding text_slice_Some sample_source_def
    by (intro exI [of _ sample_row] exI [of _ "[]"]) simp
  then obtain n where part: "parse_part sample_readers sample_source ?r = Inr (YNode (YMap [(lit ''A'', n)]) (0, 5) False, [])"
    using sample_parse by (auto simp: parse_part_def shift_ranges_def)
  have "text_slice sample_source (0, byte_len sample_source) = Some sample_source" unfolding text_slice_Some
    by (intro exI [of _ "[]"]) simp
  then obtain r where r: "parse_asset sample_readers sample_source = Inr r" "length (ps_objects r) = 1"
    by (simp add: parse_asset_def sample_rows sample_headers part del: read_headers.simps)
  from parse_asset_layout [OF r(1)] obtain pre ds where l: "[sample_row, sample_body] = pre @ concat ds"
    "list_all (\<lambda>row. \<not> marked row) pre" "documents (concat pre) ds (ps_objects r)" unfolding sample_rows by blast
  have m: "marked sample_row" "\<not> marked sample_body" by (simp_all add: marked_def sample_row_def sample_body_def lit_def)
  have "pre = []" using l(1,2) m(1) by (cases pre) auto
  obtain ob where ob: "ps_objects r = [ob]" using r(2) by (auto simp: length_Suc_conv)
  obtain row rows where "ds = [row # rows]" using l(3) ob
    by (cases "(concat pre, ds, [ob])" rule: documents.cases) (auto simp: neq_Nil_conv elim: documents.elims)
  then show ?thesis using l ob r(1) \<open>pre = []\<close> by (auto simp: sample_source_def)
qed

end
