(* ===== verification/Navigation.thy ===== *)
theory Navigation
  imports Lexing Sources "HOL-Library.List_Lexorder" "HOL-Library.Product_Lexorder"
begin

text \<open>
  Paths of a repository, \<^verbatim>\<open>src/src/navigation.rs\<close>: normalizing a requested path, the indexed paths that
  match it best, the bytes of a range of lines, and the directory tree that \<^verbatim>\<open>browse\<close> shows within a
  budget. The JSON printer, lower case and the indexed paths are parameters; a path is a Unix path
  in UTF-8. The regular expression of \<^verbatim>\<open>location\<close> (the regex package) is not modelled.
\<close>

section \<open>Normalizing\<close>

datatype component = RootDir | CurDir | ParentDir | Normal str

text \<open>\<^verbatim>\<open>Path::components\<close>: empty parts and inner dots disappear.\<close>

definition path_components :: "str \<Rightarrow> component list" where
  "path_components p =
     (let parts = split_on 47 p
      in (if starts_with p [47] then [RootDir] else if hd parts = lit ''.'' then [CurDir] else []) @
         map (\<lambda>s. if s = lit ''..'' then ParentDir else Normal s) (filter (\<lambda>s. s \<noteq> [] \<and> s \<noteq> lit ''.'') parts))"

datatype path_error = AbsolutePath | OutsideRepository | Escapes | TooManyLines | LinesPanic

fun normal_parts :: "component list \<Rightarrow> path_error + str list" where
  "normal_parts [] = Inr []"
| "normal_parts (Normal s # cs) = bindE (normal_parts cs) (\<lambda>ps. Inr (s # ps))"
| "normal_parts (CurDir # cs) = normal_parts cs"
| "normal_parts (_ # cs) = Inl Escapes"

definition normalize_path :: "str \<Rightarrow> str \<Rightarrow> bool \<Rightarrow> path_error + str" where
  "normalize_path path root absolute =
     ensureE (absolute \<or> \<not> starts_with path [47]) AbsolutePath
      (bindE (if starts_with path [47]
          then (case strip_prefix (path_components path) (path_components root) of None \<Rightarrow> Inl OutsideRepository | Some cs \<Rightarrow> Inr cs)
          else Inr (path_components path)) (\<lambda>cs.
       bindE (normal_parts cs) (\<lambda>ps. Inr (join [47] ps))))"

definition normalize_indexed :: "str \<Rightarrow> str \<Rightarrow> bool \<Rightarrow> (str \<Rightarrow> bool) \<Rightarrow> path_error + str" where
  "normalize_indexed path root absolute exists =
     bindE (normalize_path path root absolute) (\<lambda>literal.
       if exists literal \<or> 92 \<notin> set path then Inr literal
       else bindE (normalize_path (map (\<lambda>c. if c = 92 then 47 else c) path) root absolute) (\<lambda>converted.
         Inr (if exists converted then converted else literal)))"

section \<open>Edit distance\<close>

text \<open>One cell of the row for \<open>i + 1\<close> characters; the diagonal is the cell this one overwrote before.\<close>

definition cell_step :: "'a list \<Rightarrow> 'a list \<Rightarrow> nat \<Rightarrow> nat list \<Rightarrow> nat \<Rightarrow> nat list \<times> nat \<Rightarrow> nat list \<times> nat" where
  "cell_step a b i older j st = (case st of (row, diagonal) \<Rightarrow>
     let old = row ! (j + 1);
         v = min (min (diagonal + (if a ! i = b ! j then 0 else 1)) (row ! j + 1)) (old + 1);
         v = (if 0 < i \<and> 0 < j \<and> a ! i = b ! (j - 1) \<and> a ! (i - 1) = b ! j then min v (older ! (j - 1) + 1) else v)
     in (row[j + 1 := v], old))"

definition row_step :: "'a list \<Rightarrow> 'a list \<Rightarrow> nat \<Rightarrow> nat list \<Rightarrow> nat list \<Rightarrow> nat list" where
  "row_step a b i older row = fst (fold (cell_step a b i older) [0..<length b] (row[0 := i + 1], row ! 0))"

fun distance_loop :: "'a list \<Rightarrow> 'a list \<Rightarrow> nat \<Rightarrow> nat list \<Rightarrow> nat list \<Rightarrow> nat list \<Rightarrow> nat list option" where
  "distance_loop a b cutoff [] older row = Some row"
| "distance_loop a b cutoff (i # is) older row =
     (let next_row = row_step a b i older row
      in if cutoff < Min (set next_row) then None else distance_loop a b cutoff is row next_row)"

definition edit_distance :: "'a list \<Rightarrow> 'a list \<Rightarrow> nat \<Rightarrow> nat option" where
  "edit_distance a b cutoff =
     (if cutoff < (length a - length b) + (length b - length a) then None
      else (case distance_loop a b cutoff [0..<length a] [0..<length b + 1] [0..<length b + 1] of
          None \<Rightarrow> None
        | Some row \<Rightarrow> if row ! length b \<le> cutoff then Some (row ! length b) else None))"

section \<open>Matching paths\<close>

text \<open>The last \<open>n + 1\<close> parts of a path.\<close>

definition last_parts :: "nat \<Rightarrow> str \<Rightarrow> str" where
  "last_parts n s = (let ps = split_on 47 s in join [47] (drop (length ps - Suc n) ps))"

definition path_rank :: "unicode \<Rightarrow> str \<Rightarrow> str \<Rightarrow> (nat \<times> nat) option" where
  "path_rank U query path =
     (let lower = u_to_lower U query; candidate = u_to_lower U path
      in if path = query then Some (0, 0)
         else if ends_with path (47 # query) then Some (1, 0)
         else if candidate = lower \<or> ends_with candidate (47 # lower) then Some (2, 0)
         else if contains_text candidate lower then Some (3, byte_len candidate - byte_len lower)
         else (let candidate = last_parts (length (filter (\<lambda>c. c = 47) query)) candidate;
                   cutoff = max 1 (min 3 (length lower div 5))
               in map_option (\<lambda>d. (4, d)) (edit_distance candidate lower cutoff)))"

definition match_step :: "unicode \<Rightarrow> str \<Rightarrow> str \<Rightarrow> nat \<times> (nat \<times> str) list \<Rightarrow> nat \<times> (nat \<times> str) list" where
  "match_step U query path st = (case st of (best, found) \<Rightarrow> (case path_rank U query path of
     None \<Rightarrow> (best, found)
   | Some (tier, d) \<Rightarrow>
       let (best, found) = (if tier < best then (tier, []) else (best, found))
       in if tier = best then (best, found @ [(d, path)]) else (best, found)))"

definition match_paths :: "unicode \<Rightarrow> str list \<Rightarrow> str \<Rightarrow> str list" where
  "match_paths U paths query =
     (if query = [] then [] else map snd (sort (snd (fold (match_step U query) paths (255, [])))))"

section \<open>Lines\<close>

definition lines_of :: "str \<Rightarrow> (nat \<times> nat) option \<Rightarrow> path_error + range \<times> nat \<times> nat" where
  "lines_of source requested =
     (let starts = 0 # filter (\<lambda>i. i < byte_len source) (line_starts 0 source);
          (from, upto) = (case requested of None \<Rightarrow> (1, length starts) | Some r \<Rightarrow> r)
      in ensureE (from \<le> length starts) TooManyLines
          (let upto = min upto (length starts)
           in ensureE (0 < from) LinesPanic
               (Inr ((starts ! (from - 1), if upto < length starts then starts ! upto else byte_len source), from, upto))))"

section \<open>Directories\<close>

datatype directory = Directory (dr_files: "str list") (dr_dirs: "(str \<times> directory) list") (dr_count: nat) (dr_cost: nat)

definition empty_directory :: directory where
  "empty_directory = Directory [] [] 0 0"

fun add_path :: "str list \<Rightarrow> directory \<Rightarrow> directory" where
  "add_path [] d = d"
| "add_path [name] (Directory fs ds n c) = Directory (fs @ [name]) ds (n + 1) c"
| "add_path (part # next # parts) (Directory fs ds n c) =
     Directory fs (bt_insert part (add_path (next # parts) (case bt_get ds part of Some d \<Rightarrow> d | None \<Rightarrow> empty_directory)) ds) (n + 1) c"

fun measure_directory :: "(str \<Rightarrow> str) \<Rightarrow> directory \<Rightarrow> directory" where
  "measure_directory json (Directory fs ds n c) =
     (let ds = map (\<lambda>(name, d). (name, measure_directory json d)) ds
      in Directory fs ds n
          (sum_list (map (\<lambda>f. byte_len (quote json f) + 2) fs) +
           sum_list (map (\<lambda>(name, d). byte_len (quote json name) + 24 + dr_cost d + dr_count d * 2) ds)))"

definition new_directory :: "(str \<Rightarrow> str) \<Rightarrow> str list \<Rightarrow> directory" where
  "new_directory json paths = measure_directory json (fold (\<lambda>p. add_path (split_on 47 p)) paths empty_directory)"

fun directory_paths :: "str \<Rightarrow> directory \<Rightarrow> str list" where
  "directory_paths prefix (Directory fs ds n c) =
     concat (map (\<lambda>(name, d). (prefix @ name) # directory_paths (prefix @ name @ [47]) d) ds)"

text \<open>\<open>None\<close> is the panic of a missing key.\<close>

definition directory_at :: "directory \<Rightarrow> str \<Rightarrow> directory option" where
  "directory_at d path = fold (\<lambda>part d. Option.bind d (\<lambda>d. bt_get (dr_dirs d) part)) (filter (\<lambda>p. p \<noteq> []) (split_on 47 path)) (Some d)"

text \<open>The names of the files, about a hundred bytes to a line.\<close>

fun write_files :: "(str \<Rightarrow> str) \<Rightarrow> str \<Rightarrow> nat \<Rightarrow> str list \<Rightarrow> str" where
  "write_files json indent width [] = (if 0 < width then [10] else [])"
| "write_files json indent width (f # fs) =
     (let name = quote json f; n = byte_len name
      in if width = 0 then indent @ name @ write_files json indent (n + 1) fs
         else if 100 < width + n then [10] @ indent @ name @ write_files json indent (n + 1) fs
         else [32] @ name @ write_files json indent (width + n + 1) fs)"

text \<open>The shares of the cheapest first; what one leaves over goes to the others.\<close>

fun allocate :: "nat \<Rightarrow> (nat \<times> str) list \<Rightarrow> (str \<times> nat) list" where
  "allocate remaining [] = []"
| "allocate remaining ((cost, name) # costs) =
     (let allocation = min cost (remaining div (length costs + 1))
      in (name, allocation) # allocate (remaining - allocation) costs)"

text \<open>A chain of directories with one entry each is shown as one.\<close>

fun collapse :: "str \<Rightarrow> directory \<Rightarrow> str \<times> directory" where
  "collapse name (Directory [] [(next, d)] n c) = collapse (name @ [47] @ next) d"
| "collapse name d = (name, d)"

definition direct_cost :: "directory \<Rightarrow> nat" where
  "direct_cost d = sum_list (map (\<lambda>f. byte_len f + 1) (dr_files d)) + sum_list (map (\<lambda>(name, _). byte_len name + 24) (dr_dirs d))"

lemma collapse_size: "size (snd (collapse name d)) \<le> size d"
  by (induction name d rule: collapse.induct) auto

definition indent_of :: "nat \<Rightarrow> str" where
  "indent_of depth = replicate (2 * depth) 32"

function write_directory :: "(str \<Rightarrow> str) \<Rightarrow> nat \<Rightarrow> nat \<Rightarrow> directory \<Rightarrow> str" where
  "write_directory json depth budget (Directory fs ds n c) =
     (let remaining = budget - sum_list (map (\<lambda>f. byte_len f + 1) fs);
          allocations = allocate remaining (sort (map (\<lambda>(name, d). (dr_cost d, name)) ds))
      in write_files json (indent_of depth) 0 fs @
         concat (map (\<lambda>(name, d).
           let allocation = the (map_of allocations name)
           in (case collapse name d of (shown, d') \<Rightarrow>
             indent_of depth @ quote json (shown @ [47]) @
             (if direct_cost d' \<le> allocation then [10] @ write_directory json (depth + 1) allocation d'
              else lit '' '' @ [0x2026] @ display_nat (dr_count d') @ lit '' files'' @ [10]))) ds))"
  by pat_completeness auto
termination
proof (relation "measure (\<lambda>(json, depth, budget, d). size d)", goal_cases)
  case (2 json depth budget fs ds n c remaining allocations x name d allocation shown d')
  then have "size d' \<le> size d" using collapse_size [of name d] by (metis snd_conv)
  moreover have "(name, d) \<in> set ds" using 2 by simp
  then have "size d < size_list (size_prod (\<lambda>_. 0) size) ds" by (induction ds) auto
  ultimately show ?case by simp
qed simp

definition render_directory :: "(str \<Rightarrow> str) \<Rightarrow> directory \<Rightarrow> str \<Rightarrow> str" where
  "render_directory json d path =
     (if dr_count d = 0 then lit ''No indexed source files.''
      else trim_end ((if path = [] then [] else quote json (path @ [47]) @ [10]) @
        write_directory json (if path = [] then 0 else 1) 24000 d))"

end
