(* ===== verification/Edit_Distance.thy ===== *)
theory Edit_Distance
  imports Navigation
begin

text \<open>
  The edit distance of \<^verbatim>\<open>src/src/navigation.rs\<close> against scripts of insertions, deletions, changes and
  swaps of neighbours that edit no place twice: the row-by-row computation with its early exits
  returns the least cost of a script within the cutoff, and nothing when there is none.
\<close>

section \<open>Scripts\<close>

inductive script :: "nat \<Rightarrow> 'a list \<Rightarrow> 'a list \<Rightarrow> bool" where
  script_Nil: "script 0 [] []"
| script_keep: "script n xs ys \<Longrightarrow> script n (xs @ [c]) (ys @ [c])"
| script_change: "script n xs ys \<Longrightarrow> script (Suc n) (xs @ [c]) (ys @ [d])"
| script_delete: "script n xs ys \<Longrightarrow> script (Suc n) (xs @ [c]) ys"
| script_insert: "script n xs ys \<Longrightarrow> script (Suc n) xs (ys @ [d])"
| script_swap: "script n xs ys \<Longrightarrow> script (Suc n) (xs @ [c, d]) (ys @ [d, c])"

lemma script_lengths: "script n xs ys \<Longrightarrow> length xs \<le> length ys + n \<and> length ys \<le> length xs + n"
  by (induction rule: script.induct) auto

section \<open>The table\<close>

text \<open>The distance of the first \<open>i\<close> to the first \<open>j\<close> characters.\<close>

fun table :: "'a list \<Rightarrow> 'a list \<Rightarrow> nat \<Rightarrow> nat \<Rightarrow> nat" where
  "table a b 0 j = j"
| "table a b (Suc i) 0 = Suc i"
| "table a b (Suc i) (Suc j) =
     (let v = min (min (table a b i j + (if a ! i = b ! j then 0 else 1)) (table a b (Suc i) j + 1)) (table a b i (Suc j) + 1)
      in if 0 < i \<and> 0 < j \<and> a ! i = b ! (j - 1) \<and> a ! (i - 1) = b ! j then min v (table a b (i - 1) (j - 1) + 1) else v)"

lemma table_zero [simp]: "table a b i 0 = i"
  by (cases i) simp_all

lemma cell_le: "(x :: nat) \<le> m \<Longrightarrow> (if c then min x w else x) \<le> m"
  by (simp add: min.coboundedI1)

lemma table_change: "table a b (Suc i) (Suc j) \<le> table a b i j + (if a ! i = b ! j then 0 else 1)"
  unfolding table.simps(3) Let_def by (rule cell_le, rule min.coboundedI1, rule min.cobounded1)

lemma table_delete: "table a b (Suc i) j \<le> table a b i j + 1"
proof (cases j)
  case (Suc k)
  show ?thesis unfolding Suc table.simps(3) Let_def by (rule cell_le, rule min.cobounded2)
qed simp

lemma table_insert: "table a b i (Suc j) \<le> table a b i j + 1"
proof (cases i)
  case (Suc k)
  show ?thesis unfolding Suc table.simps(3) Let_def by (rule cell_le, rule min.coboundedI1, rule min.cobounded2)
qed simp

lemma table_swap:
  assumes "a ! Suc i = b ! j" "a ! i = b ! Suc j"
  shows "table a b (Suc (Suc i)) (Suc (Suc j)) \<le> table a b i j + 1"
  unfolding table.simps(3) [of a b "Suc i" "Suc j"] Let_def using assms
  by (subst if_P) (simp_all del: table.simps add: min.coboundedI2)

lemma snoc_take: "xs @ [c] = take i a \<Longrightarrow> i \<le> length a \<Longrightarrow> \<exists>k. i = Suc k \<and> xs = take k a \<and> a ! k = c"
  by (cases i) (auto simp: take_Suc_conv_app_nth)

lemma table_script: "i \<le> length a \<Longrightarrow> j \<le> length b \<Longrightarrow> script (table a b i j) (take i a) (take j b)"
proof (induction a b i j rule: table.induct)
  case (1 a b j)
  then show ?case by (induction j) (auto simp: take_Suc_conv_app_nth intro: script_Nil script_insert)
next
  case (2 a b i)
  have "script k (take k a) []" if "k \<le> length a" for k
    using that by (induction k) (auto simp: take_Suc_conv_app_nth intro: script_Nil script_delete)
  with 2 show ?case by simp
next
  case (3 a b i j)
  have s: "take (Suc i) a = take i a @ [a ! i]" "take (Suc j) b = take j b @ [b ! j]"
    using 3 by (simp_all add: take_Suc_conv_app_nth)
  have IH: "script (table a b i j) (take i a) (take j b)" "script (table a b (Suc i) j) (take (Suc i) a) (take j b)"
    "script (table a b i (Suc j)) (take i a) (take (Suc j) b)" using 3 by simp_all
  have one: "script (table a b i j + (if a ! i = b ! j then 0 else 1)) (take (Suc i) a) (take (Suc j) b)"
    using script_keep [OF IH(1), of "a ! i"] script_change [OF IH(1), of "a ! i" "b ! j"] by (cases "a ! i = b ! j") (simp_all add: s)
  have two: "script (table a b (Suc i) j + 1) (take (Suc i) a) (take (Suc j) b)" using script_insert [OF IH(2), of "b ! j"] by (simp add: s(2))
  have three: "script (table a b i (Suc j) + 1) (take (Suc i) a) (take (Suc j) b)" using script_delete [OF IH(3), of "a ! i"] by (simp add: s(1))
  have four: "script (table a b (i - 1) (j - 1) + 1) (take (Suc i) a) (take (Suc j) b)"
    if c: "0 < i" "0 < j" "a ! i = b ! (j - 1)" "a ! (i - 1) = b ! j"
  proof -
    obtain i' j' where ij: "i = Suc i'" "j = Suc j'" using c(1,2) by (auto simp: gr0_conv_Suc)
    have "script (table a b (i - 1) (j - 1)) (take (i - 1) a) (take (j - 1) b)" using 3 c by simp
    moreover have "take (Suc i) a = take (i - 1) a @ [a ! (i - 1), a ! i]" "take (Suc j) b = take (j - 1) b @ [b ! (j - 1), b ! j]"
      using \<open>Suc i \<le> length a\<close> \<open>Suc j \<le> length b\<close> by (simp_all add: ij take_Suc_conv_app_nth)
    ultimately show ?thesis using script_swap [of _ _ _ "a ! (i - 1)" "a ! i"] c by (simp only: Suc_eq_plus1)
  qed
  have least: "script (min m n) xs ys" if "script m xs ys" "script n xs ys" for m n and xs ys :: "'a list"
    using that by (simp add: min_def)
  show ?case unfolding table.simps(3) Let_def
  proof (split if_split, intro conjI impI)
    assume c: "0 < i \<and> 0 < j \<and> a ! i = b ! (j - 1) \<and> a ! (i - 1) = b ! j"
    show "script (min (min (min (table a b i j + (if a ! i = b ! j then 0 else 1)) (table a b (Suc i) j + 1)) (table a b i (Suc j) + 1))
        (table a b (i - 1) (j - 1) + 1)) (take (Suc i) a) (take (Suc j) b)"
      by (rule least [OF least [OF least [OF one two] three] four]) (use c in blast)+
  qed (rule least [OF least [OF one two] three])
qed

lemma script_table: "script n xs ys \<Longrightarrow> xs = take i a \<Longrightarrow> ys = take j b \<Longrightarrow> i \<le> length a \<Longrightarrow> j \<le> length b \<Longrightarrow> table a b i j \<le> n"
proof (induction arbitrary: i j rule: script.induct)
  case script_Nil
  then have "i = 0" "j = 0" by auto
  then show ?case by simp
next
  case (script_keep n xs ys c)
  from snoc_take [OF script_keep.prems(1,3)] snoc_take [OF script_keep.prems(2,4)] obtain i' j' where
    "i = Suc i'" "xs = take i' a" "a ! i' = c" "j = Suc j'" "ys = take j' b" "b ! j' = c" by blast
  then show ?case using script_keep.IH [of i' j'] script_keep.prems(3,4) table_change [of a b i' j'] by simp
next
  case (script_change n xs ys c d)
  from snoc_take [OF script_change.prems(1,3)] snoc_take [OF script_change.prems(2,4)] obtain i' j' where
    "i = Suc i'" "xs = take i' a" "j = Suc j'" "ys = take j' b" by blast
  then show ?case using script_change.IH [of i' j'] script_change.prems(3,4) table_change [of a b i' j']
    by (simp del: table.simps split: if_splits)
next
  case (script_delete n xs ys c)
  from snoc_take [OF script_delete.prems(1,3)] obtain i' where "i = Suc i'" "xs = take i' a" by blast
  then show ?case using script_delete.IH [of i' j] script_delete.prems table_delete [of a b i' j] by (simp del: table.simps)
next
  case (script_insert n xs ys d)
  from snoc_take [OF script_insert.prems(2,4)] obtain j' where "j = Suc j'" "ys = take j' b" by blast
  then show ?case using script_insert.IH [of i j'] script_insert.prems table_insert [of a b i j'] by (simp del: table.simps)
next
  case (script_swap n xs ys c d)
  have "(xs @ [c]) @ [d] = take i a" "(ys @ [d]) @ [c] = take j b" using script_swap.prems(1,2) by simp_all
  from snoc_take [OF this(1) script_swap.prems(3)] snoc_take [OF this(2) script_swap.prems(4)] obtain i' j' where
    ij: "i = Suc i'" "xs @ [c] = take i' a" "a ! i' = d" "j = Suc j'" "ys @ [d] = take j' b" "b ! j' = c" by blast
  have "i' \<le> length a" "j' \<le> length b" using ij script_swap.prems(3,4) by simp_all
  from snoc_take [OF ij(2) this(1)] snoc_take [OF ij(5) this(2)] obtain k l where
    "i' = Suc k" "xs = take k a" "a ! k = c" "j' = Suc l" "ys = take l b" "b ! l = d" by blast
  then show ?case using ij script_swap.IH [of k l] script_swap.prems(3,4) table_swap [of a k b l] by (simp del: table.simps)
qed

lemma table_least: "script n a b \<longleftrightarrow> script n a b \<and> table a b (length a) (length b) \<le> n"
  using script_table [of n a b "length a" a "length b" b] by auto

section \<open>Rows\<close>

definition table_row :: "'a list \<Rightarrow> 'a list \<Rightarrow> nat \<Rightarrow> nat list" where
  "table_row a b i = map (table a b i) [0..<length b + 1]"

lemma table_row_nth: "j \<le> length b \<Longrightarrow> table_row a b i ! j = table a b i j"
  unfolding table_row_def by (subst nth_map) (simp_all del: upt_Suc)

lemma row_cells:
  assumes "0 < i \<Longrightarrow> older = table_row a b (i - 1)" "k \<le> length b"
  shows "fold (cell_step a b i older) [0..<k] ((table_row a b i)[0 := i + 1], table_row a b i ! 0) =
    (map (\<lambda>j. if j \<le> k then table a b (Suc i) j else table a b i j) [0..<length b + 1], table a b i k)"
  using assms(2)
proof (induction k)
  case 0
  have "(table_row a b i)[0 := i + 1] = map (\<lambda>j. if j \<le> 0 then table a b (Suc i) j else table a b i j) [0..<length b + 1]"
    by (rule nth_equalityI) (auto simp: table_row_def nth_list_update simp del: upt_Suc)
  then show ?case by (simp add: table_row_nth del: upt_Suc)
next
  case (Suc k)
  let ?row = "map (\<lambda>j. if j \<le> k then table a b (Suc i) j else table a b i j) [0..<length b + 1]"
  have nth: "?row ! j = (if j \<le> k then table a b (Suc i) j else table a b i j)" if "j \<le> length b" for j
    using that by (subst nth_map) (simp_all del: upt_Suc)
  have "cell_step a b i older k (?row, table a b i k) = (?row[k + 1 := table a b (Suc i) (Suc k)], table a b i (Suc k))"
    using Suc.prems assms(1) unfolding cell_step_def
    by (auto simp: nth table_row_nth Let_def simp del: upt_Suc map_append)
  moreover have "?row[k + 1 := table a b (Suc i) (Suc k)] = map (\<lambda>j. if j \<le> Suc k then table a b (Suc i) j else table a b i j) [0..<length b + 1]"
    by (rule nth_equalityI) (auto simp: nth_list_update le_Suc_eq simp del: upt_Suc table.simps)
  ultimately show ?case using Suc by (simp del: table.simps upt_Suc add: upt_Suc_append)
qed

lemma row_step_table:
  assumes "0 < i \<Longrightarrow> older = table_row a b (i - 1)"
  shows "row_step a b i older (table_row a b i) = table_row a b (Suc i)"
proof -
  have "row_step a b i older (table_row a b i) =
      map (\<lambda>j. if j \<le> length b then table a b (Suc i) j else table a b i j) [0..<length b + 1]"
    using row_cells [OF assms le_refl] by (simp add: row_step_def del: table.simps upt_Suc)
  then show ?thesis by (simp add: table_row_def del: table.simps)
qed

section \<open>The early exit\<close>

definition above :: "'a list \<Rightarrow> 'a list \<Rightarrow> nat \<Rightarrow> nat \<Rightarrow> bool" where
  "above a b c i \<longleftrightarrow> (\<forall>j \<le> length b. c \<le> table a b i j)"

lemma above_row: "above a b c i \<longleftrightarrow> c \<le> Min (set (table_row a b i))"
  by (auto simp: above_def table_row_def less_Suc_eq_le simp del: upt_Suc)

lemma above_before: "above a b (Suc c) (Suc i) \<Longrightarrow> above a b c i"
  using table_delete [of a b i] unfolding above_def by (metis Suc_eq_plus1 Suc_le_mono le_trans)

lemma above_next:
  assumes "above a b (Suc c) (Suc i)" "above a b c i"
  shows "above a b (Suc c) (Suc (Suc i))"
proof -
  have "j \<le> length b \<longrightarrow> Suc c \<le> table a b (Suc (Suc i)) j" for j
  proof (induction j)
    case 0
    then show ?case using assms(1) by (fastforce simp: above_def)
  next
    case (Suc j)
    show ?case
    proof
      assume j: "Suc j \<le> length b"
      have "Suc c \<le> table a b (Suc i) j" "Suc c \<le> table a b (Suc i) (Suc j)" "Suc c \<le> table a b (Suc (Suc i)) j"
        "c \<le> table a b i (j - 1)"
        using assms j Suc by (auto simp: above_def simp del: table.simps)
      then show "Suc c \<le> table a b (Suc (Suc i)) (Suc j)" by (subst table.simps) (auto simp: Let_def simp del: table.simps)
    qed
  qed
  then show ?thesis by (simp add: above_def)
qed

lemma above_all: "above a b (Suc c) (Suc i) \<Longrightarrow> above a b (Suc c) (Suc i + n) \<and> above a b c (i + n)"
  by (induction n) (auto intro: above_next above_before)

lemma distance_loop_rows:
  assumes "i \<le> n" "0 < i \<Longrightarrow> older = table_row a b (i - 1)"
  shows "distance_loop a b c [i..<n] older (table_row a b i) =
    (if \<exists>k. i < k \<and> k \<le> n \<and> above a b (Suc c) k then None else Some (table_row a b n))"
  using assms
proof (induction "n - i" arbitrary: i older)
  case 0
  then show ?case by auto
next
  case (Suc m)
  then have up: "[i..<n] = i # [Suc i..<n]" by (simp add: upt_conv_Cons)
  have row: "row_step a b i older (table_row a b i) = table_row a b (Suc i)" by (rule row_step_table) (use Suc.prems(2) in blast)
  have stop: "c < Min (set (table_row a b (Suc i))) \<longleftrightarrow> above a b (Suc c) (Suc i)" by (simp add: above_row Suc_le_eq)
  have IH: "distance_loop a b c [Suc i..<n] (table_row a b i) (table_row a b (Suc i)) =
      (if \<exists>k. Suc i < k \<and> k \<le> n \<and> above a b (Suc c) k then None else Some (table_row a b n))"
    using Suc by (intro Suc.hyps(1)) auto
  show ?case unfolding up distance_loop.simps Let_def row stop IH
    using Suc.hyps(2) by (auto simp: Suc_le_eq) (metis Suc_lessI less_irrefl)+
qed

text \<open>
  C22: the edit distance within a cutoff is the least cost of a script of insertions, deletions, changes
  and swaps of neighbours from the one path to the other, and there is none exactly when every
  script costs more than the cutoff: giving up early never loses a match.
\<close>

theorem edit_distance_least:
  "edit_distance a b cutoff =
    (if \<exists>n \<le> cutoff. script n a b then Some (LEAST n. script n a b) else None)"
proof -
  let ?d = "table a b (length a) (length b)"
  have sc: "script ?d a b" using table_script [of "length a" a "length b" b] by simp
  have least: "(LEAST n. script n a b) = ?d" by (rule Least_equality [of "\<lambda>n. script n a b", OF sc]) (use table_least in blast)
  have exists_iff: "(\<exists>n \<le> cutoff. script n a b) \<longleftrightarrow> ?d \<le> cutoff" using sc table_least order_trans by blast
  have far: "\<not> ?d \<le> cutoff" if "cutoff < (length a - length b) + (length b - length a)" using script_lengths [OF sc] that by linarith
  have start: "[0..<length b + 1] = table_row a b 0" by (simp add: table_row_def map_idI del: upt_Suc)
  have late: "\<not> ?d \<le> cutoff" if "0 < k" "k \<le> length a" "above a b (Suc cutoff) k" for k
  proof -
    obtain i where "k = Suc i" using \<open>0 < k\<close> by (cases k) auto
    then have "above a b (Suc cutoff) (length a)" using above_all [of a b cutoff i "length a - k"] that
      by (metis le_add_diff_inverse)
    then have "Suc cutoff \<le> ?d" unfolding above_def by blast
    then show ?thesis by simp
  qed
  have loop: "distance_loop a b cutoff [0..<length a] [0..<length b + 1] [0..<length b + 1] =
      (if \<exists>k. 0 < k \<and> k \<le> length a \<and> above a b (Suc cutoff) k then None else Some (table_row a b (length a)))"
    unfolding start by (rule distance_loop_rows) simp_all
  show ?thesis unfolding edit_distance_def loop least exists_iff
    using far late by (auto simp: table_row_nth simp del: upt_Suc)
qed

end
