(* ===== verification/Navigation_Correct.thy ===== *)
theory Navigation_Correct
  imports Navigation
begin

text \<open>
  Paths and lines of a repository: normalizing never leaves the root and changes nothing the second
  time, matching returns all paths of the best tier, a range of lines is exactly those lines, and
  the directory tree holds every path once and shows all of them when they fit the budget.
\<close>

section \<open>Normal paths\<close>

definition normal_part :: "str \<Rightarrow> bool" where
  "normal_part s \<longleftrightarrow> s \<noteq> [] \<and> s \<noteq> lit ''.'' \<and> s \<noteq> lit ''..'' \<and> 47 \<notin> set s"

lemma normal_parts_components:
  "normal_parts cs = Inr ps \<Longrightarrow> ps = List.map_filter (\<lambda>c. case c of Normal s \<Rightarrow> Some s | _ \<Rightarrow> None) cs"
  by (induction cs arbitrary: ps rule: normal_parts.induct) (auto simp: map_filter_simps)

lemma components_normal: "Normal s \<in> set (path_components p) \<Longrightarrow> normal_part s"
  by (auto simp: path_components_def normal_part_def Let_def dest: split_on_free split: if_splits)

lemma normal_parts_normal:
  assumes "normal_parts cs = Inr ps" "set cs \<subseteq> set (path_components p)" "s \<in> set ps"
  shows "normal_part s"
proof -
  obtain c where "c \<in> set cs" "(case c of Normal s \<Rightarrow> Some s | _ \<Rightarrow> None) = Some s"
    using normal_parts_components [OF assms(1)] assms(3) by (auto simp: map_filter_iff)
  then have "Normal s \<in> set cs" by (auto split: component.splits)
  with assms(2) components_normal show ?thesis by blast
qed

lemma components_join:
  assumes "list_all normal_part ps"
  shows "path_components (join [47] ps) = map Normal ps \<and> \<not> starts_with (join [47] ps) [47]"
proof (cases ps)
  case Nil
  then show ?thesis by (simp add: path_components_def lit_Cons)
next
  case (Cons q qs)
  have parts: "split_on 47 (join [47] ps) = ps" using assms Cons by (intro split_on_join) (auto simp: normal_part_def list_all_iff)
  have "\<not> starts_with (join [47] ps) [47]" using assms Cons
    by (cases q; cases qs) (auto simp: normal_part_def)
  moreover have "filter (\<lambda>s. s \<noteq> [] \<and> s \<noteq> lit ''.'') ps = ps" "hd ps \<noteq> lit ''.''"
    "map (\<lambda>s. if s = lit ''..'' then ParentDir else Normal s) ps = map Normal ps"
    using assms Cons by (auto simp: normal_part_def list_all_iff filter_id_conv)
  ultimately show ?thesis unfolding path_components_def parts Let_def by simp
qed

lemma normal_parts_Normal: "normal_parts (map Normal ps) = Inr ps"
  by (induction ps) auto

text \<open>
  C25: a normalized path stays inside the repository: it is relative, none of its parts is empty, a dot
  or a parent, and normalizing it again, against any root, changes nothing.
\<close>

theorem normalize_path_inside:
  assumes "normalize_path path root absolute = Inr q"
  shows "\<exists>ps. q = join [47] ps \<and> list_all normal_part ps \<and> normalize_path q root' absolute' = Inr q"
proof -
  obtain cs ps where cs: "set cs \<subseteq> set (path_components path)" "normal_parts cs = Inr ps" "q = join [47] ps"
    using assms by (auto simp: normalize_path_def strip_prefix_def split: if_splits option.splits dest: in_set_dropD)
  have ps: "list_all normal_part ps" using normal_parts_normal [OF cs(2,1)] by (simp add: list_all_iff)
  then have "normalize_path q root' absolute' = Inr q"
    using components_join [OF ps] by (simp add: normalize_path_def cs(3) normal_parts_Normal)
  with cs(3) ps show ?thesis by blast
qed

theorem normalize_path_inside_witness:
  "\<exists>ps. lit ''src/a'' = join [47] ps \<and> list_all normal_part ps \<and> normalize_path (lit ''src/a'') [] False = Inr (lit ''src/a'')"
  by (rule normalize_path_inside [of "lit ''/repo/src/./a/''" "lit ''/repo''" True])
    (simp add: normalize_path_def path_components_def strip_prefix_def lit_def)

section \<open>Best matches\<close>

definition ranked_paths :: "unicode \<Rightarrow> str \<Rightarrow> str list \<Rightarrow> (nat \<times> nat \<times> str) list" where
  "ranked_paths U query paths = List.map_filter (\<lambda>p. map_option (\<lambda>(tier, d). (tier, d, p)) (path_rank U query p)) paths"

definition at_tier :: "nat \<Rightarrow> (nat \<times> nat \<times> str) list \<Rightarrow> (nat \<times> str) list" where
  "at_tier tier xs = map snd (filter (\<lambda>x. fst x = tier) xs)"

lemma path_rank_tier: "path_rank U query p = Some (tier, d) \<Longrightarrow> tier \<le> 4"
  by (auto simp: path_rank_def Let_def split: if_splits)

lemma at_tier_none: "(\<And>x. x \<in> set xs \<Longrightarrow> tier < fst x) \<Longrightarrow> at_tier tier xs = []"
  by (auto simp: at_tier_def filter_empty_conv)

lemma match_fold:
  "fold (match_step U query) paths (255, []) =
     (let xs = ranked_paths U query paths; best = (if xs = [] then 255 else Min (fst ` set xs)) in (best, at_tier best xs))"
proof (induction paths rule: rev_induct)
  case Nil
  then show ?case by (simp add: ranked_paths_def at_tier_def map_filter_simps)
next
  case (snoc p paths)
  let ?xs = "ranked_paths U query paths"
  have tiers: "fst x \<le> 4" if "x \<in> set ?xs" for x
    using that path_rank_tier by (auto simp: ranked_paths_def map_filter_iff)
  have app: "ranked_paths U query (paths @ [p]) =
      ?xs @ (case path_rank U query p of None \<Rightarrow> [] | Some (tier, d) \<Rightarrow> [(tier, d, p)])"
    by (auto simp: ranked_paths_def map_filter_def split: option.splits)
  show ?case
  proof (cases "path_rank U query p")
    case None
    then show ?thesis using snoc by (simp add: app match_step_def Let_def)
  next
    case (Some r)
    obtain tier d where r: "path_rank U query p = Some (tier, d)" using Some by (cases r) auto
    have le: "tier \<le> 4" using path_rank_tier [OF r] .
    show ?thesis
    proof (cases "?xs = []")
      case True
      then show ?thesis using snoc r le by (simp add: app match_step_def Let_def at_tier_def)
    next
      case False
      let ?best = "Min (fst ` set ?xs)"
      have min: "Min (insert tier (fst ` set ?xs)) = min tier ?best" using False by simp
      have none: "at_tier tier ?xs = []" if "tier < ?best"
      proof (rule at_tier_none)
        fix x
        assume "x \<in> set ?xs"
        then have "?best \<le> fst x" by (intro Min_le) auto
        with that show "tier < fst x" by simp
      qed
      have step: "fold (match_step U query) (paths @ [p]) (255, []) = match_step U query p (?best, at_tier ?best ?xs)"
        using snoc False by (simp add: Let_def)
      consider "tier < ?best" | "tier = ?best" | "?best < tier" by linarith
      then have "match_step U query p (?best, at_tier ?best ?xs) = (min tier ?best, at_tier (min tier ?best) (?xs @ [(tier, d, p)]))"
      proof cases
        case 1
        then show ?thesis using none by (simp add: match_step_def r) (simp add: at_tier_def)
      next
        case 2
        then show ?thesis unfolding match_step_def by (simp add: r at_tier_def)
      next
        case 3
        then show ?thesis unfolding match_step_def by (simp add: r at_tier_def)
      qed
      then show ?thesis unfolding step by (simp add: app r min)
    qed
  qed
qed

text \<open>
  C24: matching a path returns every indexed path of the best tier that any of them reaches, and no
  other, nearest first and in order of their names.
\<close>

theorem match_paths_best:
  "match_paths U paths query =
    (let xs = ranked_paths U query paths
     in if query = [] \<or> xs = [] then [] else map snd (sort (at_tier (Min (fst ` set xs)) xs)))"
  unfolding match_paths_def match_fold Let_def by (simp add: at_tier_def)

section \<open>Lines\<close>

text \<open>The byte at which each row begins.\<close>

fun row_starts :: "nat \<Rightarrow> str list \<Rightarrow> nat list" where
  "row_starts n [] = []"
| "row_starts n (row # rows) = n # row_starts (n + byte_len row) rows"

lemma row_starts_shift: "row_starts n rows = map ((+) n) (row_starts 0 rows)"
proof (induction rows arbitrary: n)
  case (Cons row rows)
  have "row_starts (n + k) rows = map ((+) n) (row_starts k rows)" for k
    using Cons.IH [of "n + k"] Cons.IH [of k] by (simp add: comp_def add.assoc)
  then show ?case by simp
qed simp

lemma row_starts_length [simp]: "length (row_starts n rows) = length rows"
  by (induction rows arbitrary: n) auto

lemma row_starts_nth: "i < length rows \<Longrightarrow> row_starts n rows ! i = n + byte_len (concat (take i rows))"
  by (induction rows arbitrary: n i) (auto simp: nth_Cons split: nat.splits)

lemma byte_len_pos: "s \<noteq> [] \<Longrightarrow> 0 < byte_len s"
  by (cases s) (auto simp: byte_len_def)

lemma kept_starts:
  "s \<noteq> [] \<Longrightarrow> 0 # filter (\<lambda>i. i < byte_len s) (line_starts 0 s) = row_starts 0 (split_inclusive s)"
proof (induction s)
  case (Cons c s)
  let ?k = "length (utf8_char c)"
  have shift: "filter (\<lambda>i. i < ?k + byte_len s) (line_starts ?k s) = map ((+) ?k) (filter (\<lambda>i. i < byte_len s) (line_starts 0 s))"
    unfolding line_starts_shift [of ?k] by (simp add: filter_map comp_def)
  show ?case
  proof (cases "s = []")
    case True
    then show ?thesis by simp
  next
    case False
    then have IH: "0 # filter (\<lambda>i. i < byte_len s) (line_starts 0 s) = row_starts 0 (split_inclusive s)" by (rule Cons.IH)
    obtain l ls where l: "split_inclusive s = l # ls" using False by (cases "split_inclusive s") auto
    have rest: "filter (\<lambda>i. i < byte_len s) (line_starts 0 s) = row_starts (byte_len l) ls" using IH by (simp add: l)
    have pos: "0 < byte_len s" using False byte_len_pos by blast
    show ?thesis
    proof (cases "c = 10")
      case True
      then show ?thesis using IH pos row_starts_shift [of ?k "l # ls"] shift by (simp add: l rest Let_def)
    next
      case False
      then show ?thesis using shift row_starts_shift [of "?k + byte_len l" ls] row_starts_shift [of "byte_len l" ls]
        by (simp add: l rest Let_def comp_def add.assoc)
    qed
  qed
qed simp

lemma starts_rows:
  "0 # filter (\<lambda>i. i < byte_len s) (line_starts 0 s) = row_starts 0 (if s = [] then [[]] else split_inclusive s)"
  using kept_starts [of s] by simp

lemma lines_of_starts:
  assumes "rows = (if source = [] then [[]] else split_inclusive source)"
  shows "lines_of source (Some (first, final)) =
    (if length rows < first then Inl TooManyLines else if first = 0 then Inl LinesPanic
     else Inr ((row_starts 0 rows ! (first - 1),
       if min final (length rows) < length rows then row_starts 0 rows ! min final (length rows) else byte_len source),
       first, min final (length rows)))"
  unfolding lines_of_def starts_rows assms [symmetric] Let_def by (simp add: ensureE_def)

lemma rows_concat: "concat (if source = [] then [[]] else split_inclusive source) = source"
  by (simp add: concat_split_inclusive)

text \<open>
  A request for lines gives exactly those lines: the bytes from the start of the first to the end of
  the last, or of the file, and an empty file has one empty line; only a first line past the end is
  refused.
\<close>

lemma lines_of_rows:
  assumes "rows = (if source = [] then [[]] else split_inclusive source)" "0 < first" "first \<le> final"
  shows "if first \<le> length rows
    then \<exists>r. lines_of source (Some (first, final)) = Inr (r, first, min final (length rows)) \<and>
      text_slice source r = Some (concat (slice rows (first - 1, min final (length rows))))
    else lines_of source (Some (first, final)) = Inl TooManyLines"
proof (cases "first \<le> length rows")
  case True
  let ?to = "min final (length rows)"
  have le: "first - 1 \<le> ?to" "?to \<le> length rows" using True assms(2,3) by auto
  have pre: "take ?to rows = take (first - 1) rows @ slice rows (first - 1, ?to)"
    using slice_append_slice [of 0 "first - 1" ?to rows] le by (simp add: slice_def)
  have "source = concat (take ?to rows @ drop ?to rows)"
    using rows_concat [of source] unfolding assms(1) [symmetric] by simp
  then have source: "source = concat (take (first - 1) rows) @ concat (slice rows (first - 1, ?to)) @ concat (drop ?to rows)"
    unfolding pre by simp
  have first: "row_starts 0 rows ! (first - 1) = byte_len (concat (take (first - 1) rows))"
    using True assms(2) by (simp add: row_starts_nth)
  have taken: "concat (take ?to rows) = concat (take (first - 1) rows) @ concat (slice rows (first - 1, ?to))"
    unfolding pre by simp
  have stop: "(if ?to < length rows then row_starts 0 rows ! ?to else byte_len source) = byte_len (concat (take ?to rows))"
    using rows_concat [of source] unfolding assms(1) [symmetric] by (simp add: row_starts_nth)
  have "text_slice source (row_starts 0 rows ! (first - 1), if ?to < length rows then row_starts 0 rows ! ?to else byte_len source) =
      Some (concat (slice rows (first - 1, ?to)))"
    unfolding stop unfolding first text_slice_Some taken using source by blast
  then show ?thesis using True assms(2) lines_of_starts [OF assms(1)] by simp
next
  case False
  then show ?thesis using lines_of_starts [OF assms(1)] by simp
qed

theorem lines_of_rows_witness:
  "\<exists>r. lines_of (lit ''a\<newline>b\<newline>c'') (Some (2, 5)) = Inr (r, 2, 3) \<and> text_slice (lit ''a\<newline>b\<newline>c'') r = Some (lit ''b\<newline>c'')"
  using lines_of_rows [of "[lit ''a\<newline>'', lit ''b\<newline>'', lit ''c'']" "lit ''a\<newline>b\<newline>c''" 2 5]
  by (simp add: lit_def slice_def) (simp add: numeral_3_eq_3)

end
