(* ===== verification/Directory_Correct.thy ===== *)
theory Directory_Correct
  imports Navigation "HOL-Library.Multiset"
begin

text \<open>
  The directory tree of \<^verbatim>\<open>src/src/navigation.rs\<close>: it holds every path it was built from exactly once and
  counts them at every node, and a tree whose cost is within the budget is shown in full.
\<close>

section \<open>What a tree holds\<close>

fun files_of :: "str \<Rightarrow> directory \<Rightarrow> str list" where
  "files_of prefix (Directory fs ds n c) =
     map ((@) prefix) fs @ concat (map (\<lambda>(name, d). files_of (prefix @ name @ [47]) d) ds)"

fun counted :: "directory \<Rightarrow> bool" where
  "counted (Directory fs ds n c) \<longleftrightarrow> bt_ok ds \<and> n = length fs + sum_list (map (\<lambda>(_, d). dr_count d) ds) \<and>
     list_all (\<lambda>(_, d). counted d) ds"

lemma bt_insert_replaces:
  assumes "bt_ok m"
  shows "mset (concat (map G (bt_insert k v m))) + (case bt_get m k of None \<Rightarrow> {#} | Some u \<Rightarrow> mset (G (k, u))) =
    mset (concat (map G m)) + mset (G (k, v))"
  using assms
proof (induction m)
  case (Cons kv m)
  obtain k' v' where kv: "kv = (k', v')" by fastforce
  have ok: "bt_ok m" "\<And>x. x \<in> set m \<Longrightarrow> k' < fst x" using Cons.prems by (auto simp: bt_ok_def kv)
  have "bt_get m k = None" if "k < k' \<or> k = k'"
  proof -
    have "k \<noteq> fst x" if "x \<in> set m" for x using ok(2) [OF that] \<open>k < k' \<or> k = k'\<close> by auto
    then show ?thesis unfolding bt_get_def map_of_eq_None_iff by (metis imageE)
  qed
  then show ?case using Cons.IH [OF ok(1)] by (auto simp: kv bt_get_def)
qed simp

lemma bt_insert_mem: "x \<in> set (bt_insert k v m) \<Longrightarrow> x = (k, v) \<or> x \<in> set m"
  by (induction k v m rule: bt_insert.induct) (auto split: if_splits)

lemma bt_insert_counts:
  assumes "bt_ok m"
  shows "sum_list (map G (bt_insert k v m)) + (case bt_get m k of None \<Rightarrow> 0 | Some u \<Rightarrow> G (k, u)) = sum_list (map G m) + (G (k, v) :: nat)"
proof -
  have l: "length (concat (map (\<lambda>x. replicate (G x) ()) xs)) = sum_list (map G xs)" for xs
    by (induction xs) auto
  show ?thesis
    using arg_cong [OF bt_insert_replaces [OF assms, of "\<lambda>x. replicate (G x) ()" k v], of size]
    by (cases "bt_get m k") (simp_all add: l)
qed

lemma empty_counted: "counted empty_directory" "files_of prefix empty_directory = []" "dr_count empty_directory = 0"
  by (simp_all add: empty_directory_def)

lemma add_path_holds:
  "counted d \<Longrightarrow> parts \<noteq> [] \<Longrightarrow> counted (add_path parts d) \<and> dr_count (add_path parts d) = dr_count d + 1 \<and>
    mset (files_of prefix (add_path parts d)) = mset (files_of prefix d) + {#prefix @ join [47] parts#}"
proof (induction parts d arbitrary: prefix rule: add_path.induct)
  case (3 part part2 parts fs ds n c)
  let ?old = "case bt_get ds part of Some d \<Rightarrow> d | None \<Rightarrow> empty_directory"
  let ?new = "add_path (part2 # parts) ?old"
  have ok: "bt_ok ds" "n = length fs + sum_list (map (\<lambda>(_, d). dr_count d) ds)" "\<And>x. x \<in> set ds \<Longrightarrow> counted (snd x)"
    using "3.prems"(1) by (auto simp: list_all_iff)
  have "counted ?old" using ok(1,3) empty_counted(1) by (auto simp: bt_get_Some_mem split: option.splits)
  note IH = "3.IH" [OF this list.distinct(2)]
  have new: "counted ?new" "dr_count ?new = dr_count ?old + 1" using IH by blast+
  have files: "mset (files_of (prefix @ part @ [47]) ?new) =
      mset (files_of (prefix @ part @ [47]) ?old) + {#prefix @ part @ [47] @ join [47] (part2 # parts)#}"
    using IH [of "prefix @ part @ [47]"] by simp
  have "counted (add_path (part # part2 # parts) (Directory fs ds n c))"
  proof -
    have "sum_list (map (\<lambda>(_, d). dr_count d) (bt_insert part ?new ds)) = sum_list (map (\<lambda>(_, d). dr_count d) ds) + 1"
      using bt_insert_counts [OF ok(1), of "\<lambda>(_, d). dr_count d" part ?new] new(2) empty_counted(3)
      by (auto split: option.splits)
    then show ?thesis using ok new(1) by (auto simp: list_all_iff dest: bt_insert_mem)
  qed
  moreover have "mset (files_of prefix (add_path (part # part2 # parts) (Directory fs ds n c))) =
      mset (files_of prefix (Directory fs ds n c)) + {#prefix @ join [47] (part # part2 # parts)#}"
  proof -
    have "mset (concat (map (\<lambda>(name, d). files_of (prefix @ name @ [47]) d) (bt_insert part ?new ds))) +
        mset (files_of (prefix @ part @ [47]) ?old) =
      mset (concat (map (\<lambda>(name, d). files_of (prefix @ name @ [47]) d) ds)) + mset (files_of (prefix @ part @ [47]) ?new)"
      using bt_insert_replaces [OF ok(1), of "\<lambda>(name, d). files_of (prefix @ name @ [47]) d" part ?new] empty_counted(2)
      by (auto split: option.splits)
    then show ?thesis unfolding files by simp
  qed
  ultimately show ?case by simp
qed auto

lemma fold_add_path:
  "counted d \<Longrightarrow> counted (fold (\<lambda>p. add_path (split_on 47 p)) paths d) \<and>
    mset (files_of [] (fold (\<lambda>p. add_path (split_on 47 p)) paths d)) = mset (files_of [] d) + mset paths"
proof (induction paths arbitrary: d)
  case (Cons p paths)
  from add_path_holds [OF Cons.prems, of "split_on 47 p" "[]"]
  have "counted (add_path (split_on 47 p) d)" "mset (files_of [] (add_path (split_on 47 p) d)) = mset (files_of [] d) + {#p#}"
    by (simp_all add: join_split_on)
  with Cons.IH [of "add_path (split_on 47 p) d"] show ?case by simp
qed simp

section \<open>Measuring\<close>

fun measured :: "(str \<Rightarrow> str) \<Rightarrow> directory \<Rightarrow> bool" where
  "measured json (Directory fs ds n c) \<longleftrightarrow>
     c = sum_list (map (\<lambda>f. byte_len (quote json f) + 2) fs) +
       sum_list (map (\<lambda>(name, d). byte_len (quote json name) + 24 + dr_cost d + dr_count d * 2) ds) \<and>
     list_all (\<lambda>(_, d). measured json d) ds"

lemma measure_keeps:
  "measured json (measure_directory json d) \<and> dr_count (measure_directory json d) = dr_count d \<and>
   files_of prefix (measure_directory json d) = files_of prefix d \<and> (counted d \<longrightarrow> counted (measure_directory json d))"
proof (induction d arbitrary: prefix)
  case (Directory fs ds n c)
  have ds: "measured json (measure_directory json d)" "dr_count (measure_directory json d) = dr_count d"
    "files_of p (measure_directory json d) = files_of p d" "counted d \<longrightarrow> counted (measure_directory json d)"
    if "(name, d) \<in> set ds" for name d p
    using Directory.IH [OF that snds.intros] by auto
  have keys: "map fst (map (\<lambda>(name, d). (name, measure_directory json d)) ds) = map fst ds" by auto
  have counts: "map (\<lambda>(_, d). dr_count d) (map (\<lambda>(name, d). (name, measure_directory json d)) ds) = map (\<lambda>(_, d). dr_count d) ds"
    using ds(2) by auto
  have files: "map (\<lambda>(name, d). files_of (prefix @ name @ [47]) d) (map (\<lambda>(name, d). (name, measure_directory json d)) ds) =
      map (\<lambda>(name, d). files_of (prefix @ name @ [47]) d) ds"
    using ds(3) by auto
  show ?case unfolding measure_directory.simps Let_def
    using ds(1,4) by (auto simp: list_all_iff bt_ok_def keys counts files simp del: map_map)
qed

text \<open>
  C23: a directory tree holds exactly the paths it was built from, each as often as it was given, and the
  count of every node is the number of files below it.
\<close>

theorem directory_holds_paths:
  "mset (files_of [] (new_directory json paths)) = mset paths \<and> counted (new_directory json paths)"
  using fold_add_path [OF empty_counted(1), of paths]
    measure_keeps [of json "fold (\<lambda>p. add_path (split_on 47 p)) paths empty_directory" "[]"]
  by (simp add: new_directory_def empty_counted(2))

section \<open>Showing everything\<close>

text \<open>The tree without a budget: every directory with all its files.\<close>

function write_all :: "(str \<Rightarrow> str) \<Rightarrow> nat \<Rightarrow> directory \<Rightarrow> str" where
  "write_all json depth (Directory fs ds n c) =
     write_files json (indent_of depth) 0 fs @
     concat (map (\<lambda>(name, d). (case collapse name d of (shown, d') \<Rightarrow>
       indent_of depth @ quote json (shown @ [47]) @ [10] @ write_all json (depth + 1) d')) ds)"
  by pat_completeness auto
termination
proof (relation "measure (\<lambda>(json, depth, d). size d)", goal_cases)
  case (2 json depth fs ds n c x name d shown d')
  then have "size d' \<le> size d" using collapse_size [of name d] by (metis snd_conv)
  moreover have "(name, d) \<in> set ds" using 2 by simp
  then have "size d < size_list (size_prod (\<lambda>_. 0) size) ds" by (induction ds) auto
  ultimately show ?case by simp
qed simp

lemma sum_member: "x \<in> set xs \<Longrightarrow> f x \<le> sum_list (map f xs)" for f :: "'a \<Rightarrow> nat"
  by (induction xs) auto

lemma sum_mono: "(\<And>x. x \<in> set xs \<Longrightarrow> f x \<le> g x) \<Longrightarrow> sum_list (map f xs) \<le> sum_list (map g xs)" for f :: "'a \<Rightarrow> nat"
  by (rule sum_list_mono)

text \<open>With enough for all, every directory gets its cost.\<close>

lemma allocate_enough:
  "sorted (map fst costs) \<Longrightarrow> sum_list (map fst costs) \<le> remaining \<Longrightarrow> allocate remaining costs = map (\<lambda>(cost, name). (name, cost)) costs"
proof (induction costs arbitrary: remaining)
  case (Cons x costs)
  obtain cost name where x: "x = (cost, name)" by fastforce
  have "cost * length costs \<le> sum_list (map fst costs)"
    using Cons.prems(1) sum_list_mono [of costs "\<lambda>_. cost" fst] by (simp add: x sum_list_triv mult.commute)
  then have "cost * (length costs + 1) \<le> remaining" using Cons.prems(2) by (simp add: x)
  then have "cost \<le> remaining div (length costs + 1)" by (simp add: less_eq_div_iff_mult_less_eq)
  then show ?case using Cons by (simp add: x)
qed simp

lemma fst_le: "x \<le> y \<Longrightarrow> fst x \<le> fst y" for x y :: "nat \<times> str"
  by (auto simp: less_eq_prod_def)

lemma sort_fst: "sorted (map fst (sort xs))" for xs :: "(nat \<times> str) list"
  unfolding sorted_map by (rule sorted_wrt_mono_rel [OF _ sorted_sort]) (rule fst_le)

lemma map_of_costs:
  assumes "distinct (map fst ds)" "(name, d) \<in> set ds"
  shows "map_of (map (\<lambda>(cost, name). (name, cost)) (sort (map (\<lambda>(name, d). (dr_cost d, name)) ds))) name = Some (dr_cost d)"
proof (rule map_of_is_SomeI)
  let ?xs = "map (\<lambda>(cost, name). (name, cost)) (sort (map (\<lambda>(name, d). (dr_cost d, name)) ds))"
  have m: "mset (map fst ?xs) = mset (map fst ds)"
    by (simp add: multiset.map_comp comp_def case_prod_unfold)
  then show "distinct (map fst ?xs)" using assms(1) mset_eq_imp_distinct_iff by blast
  show "(name, dr_cost d) \<in> set ?xs" using assms(2) by (force simp: image_iff)
qed

lemma quote_longer: "(\<And>s. byte_len s \<le> byte_len (json s)) \<Longrightarrow> byte_len s \<le> byte_len (quote json s)"
  by (simp add: quote_def)

lemma collapse_within:
  assumes "measured json d" "counted d"
  shows "measured json (snd (collapse name d)) \<and> counted (snd (collapse name d)) \<and> dr_cost (snd (collapse name d)) \<le> dr_cost d"
  using assms by (induction name d rule: collapse.induct) (force simp: Let_def)+

lemma direct_within:
  assumes "\<And>s. byte_len s \<le> byte_len (json s)" "measured json d"
  shows "direct_cost d \<le> dr_cost d"
proof (cases d)
  case (Directory fs ds n c)
  have "sum_list (map (\<lambda>f. byte_len f + 1) fs) \<le> sum_list (map (\<lambda>f. byte_len (quote json f) + 2) fs)"
    using quote_longer [of json, OF assms(1)] by (intro sum_mono) (simp add: le_SucI)
  moreover have "sum_list (map (\<lambda>(name, _). byte_len name + 24) ds) \<le>
      sum_list (map (\<lambda>(name, d). byte_len (quote json name) + 24 + dr_cost d + dr_count d * 2) ds)"
    using quote_longer [of json, OF assms(1)] by (intro sum_mono) (auto simp: trans_le_add1)
  ultimately show ?thesis using assms(2) by (simp add: Directory direct_cost_def)
qed

lemma write_complete:
  assumes "\<And>s. byte_len s \<le> byte_len (json s)"
  shows "measured json d \<Longrightarrow> counted d \<Longrightarrow> dr_cost d \<le> budget \<Longrightarrow> write_directory json depth budget d = write_all json depth d"
proof (induction "size d" arbitrary: depth budget d rule: less_induct)
  case less
  obtain fs ds n c where d: "d = Directory fs ds n c" by (cases d)
  let ?costs = "sort (map (\<lambda>(name, d). (dr_cost d, name)) ds)"
  define remaining where "remaining = budget - sum_list (map (\<lambda>f. byte_len f + 1) fs)"
  have distinct: "distinct (map fst ds)" using less.prems(2) bt_ok_keys_sorted [of ds] by (simp add: d bt_keys_def)
  have files: "sum_list (map (\<lambda>f. byte_len f + 1) fs) \<le> sum_list (map (\<lambda>f. byte_len (quote json f) + 2) fs)"
    using quote_longer [of json, OF assms] by (intro sum_mono) (simp add: le_SucI)
  have "sum_list (map (\<lambda>(name, d). dr_cost d) ds) \<le>
      sum_list (map (\<lambda>(name, d). byte_len (quote json name) + 24 + dr_cost d + dr_count d * 2) ds)"
    by (intro sum_mono) auto
  then have "sum_list (map (\<lambda>(name, d). dr_cost d) ds) \<le> remaining" using files less.prems(1,3) by (simp add: d remaining_def)
  moreover have "sum_list (map fst ?costs) = sum_list (map (\<lambda>(name, d). dr_cost d) ds)"
  proof -
    have "mset (map fst ?costs) = mset (map (\<lambda>(name, d). dr_cost d) ds)" by (simp add: multiset.map_comp comp_def case_prod_unfold)
    then show ?thesis by (metis sum_mset_sum_list)
  qed
  ultimately have alloc: "allocate remaining ?costs = map (\<lambda>(cost, name). (name, cost)) ?costs"
    by (intro allocate_enough sort_fst) simp
  define shares where "shares = allocate remaining ?costs"
  have one: "(case collapse name e of (shown, d') \<Rightarrow> indent_of depth @ quote json (shown @ [47]) @
      (if direct_cost d' \<le> the (map_of shares name) then [10] @ write_directory json (depth + 1) (the (map_of shares name)) d'
       else lit '' '' @ [0x2026] @ display_nat (dr_count d') @ lit '' files'' @ [10])) =
      (case collapse name e of (shown, d') \<Rightarrow> indent_of depth @ quote json (shown @ [47]) @ [10] @ write_all json (depth + 1) d')"
    if m: "(name, e) \<in> set ds" for name e
  proof -
    obtain shown d' where col: "collapse name e = (shown, d')" by (cases "collapse name e")
    have e: "measured json e" "counted e" using less.prems(1,2) m by (auto simp: d list_all_iff)
    have d': "measured json d'" "counted d'" "dr_cost d' \<le> dr_cost e" using collapse_within [OF e, of name] col by simp_all
    have "size e < size_list (size_prod (\<lambda>_. 0) size) ds" using m by (induction ds) auto
    then have "size d' < size d" using collapse_size [of name e] col by (simp add: d)
    then have "write_directory json (depth + 1) (dr_cost e) d' = write_all json (depth + 1) d'" using less.hyps d' by blast
    moreover have "direct_cost d' \<le> dr_cost e" using direct_within [OF assms d'(1)] d'(3) by simp
    moreover have "map_of shares name = Some (dr_cost e)" unfolding shares_def alloc by (rule map_of_costs [OF distinct m])
    ultimately show ?thesis by (simp add: col)
  qed
  have "map (\<lambda>(name, d). case collapse name d of (shown, d') \<Rightarrow> indent_of depth @ quote json (shown @ [47]) @
      (if direct_cost d' \<le> the (map_of shares name) then [10] @ write_directory json (depth + 1) (the (map_of shares name)) d'
       else lit '' '' @ [0x2026] @ display_nat (dr_count d') @ lit '' files'' @ [10])) ds =
    map (\<lambda>(name, d). case collapse name d of (shown, d') \<Rightarrow> indent_of depth @ quote json (shown @ [47]) @ [10] @ write_all json (depth + 1) d') ds"
    by (rule map_cong [OF refl]) (use one in \<open>simp only: split_paired_all prod.case\<close>)
  then show ?case unfolding d write_directory.simps write_all.simps Let_def remaining_def [symmetric] shares_def [symmetric]
    by (simp only:)
qed

text \<open>
  A tree whose cost is within the budget is shown in full, no directory shortened to its number of
  files, as long as quoting a name never makes it shorter.
\<close>

lemma small_directory_complete:
  assumes "\<And>s. byte_len s \<le> byte_len (json s)" "dr_cost (new_directory json paths) \<le> 24000" "paths \<noteq> []"
  shows "render_directory json (new_directory json paths) [] = trim_end (write_all json 0 (new_directory json paths))"
proof -
  let ?d = "new_directory json paths"
  have c: "counted ?d" "measured json ?d" "mset (files_of [] ?d) = mset paths"
    using fold_add_path [OF empty_counted(1), of paths]
      measure_keeps [of json "fold (\<lambda>p. add_path (split_on 47 p)) paths empty_directory" "[]"]
    by (simp_all add: new_directory_def empty_counted(2))
  have "dr_count ?d \<noteq> 0"
  proof (cases ?d)
    case (Directory fs ds n c')
    have "counted e \<Longrightarrow> dr_count e = length (files_of p e)" for e p
    proof (induction e arbitrary: p)
      case (Directory fs ds n c)
      have "sum_list (map (\<lambda>(_, d). dr_count d) ds) = sum_list (map (length \<circ> (\<lambda>(name, d). files_of (p @ name @ [47]) d)) ds)"
        using Directory by (intro arg_cong [of _ _ sum_list] map_cong) (auto simp: list_all_iff intro: snds.intros)
      then show ?case using Directory.prems by (simp add: length_concat)
    qed
    then have "dr_count ?d = length (files_of [] ?d)" using c(1) by blast
    also have "\<dots> = length paths" using c(3) mset_eq_length by blast
    finally show ?thesis using assms(3) by simp
  qed
  then show ?thesis using write_complete [OF assms(1) c(2,1) assms(2)] by (simp add: render_directory_def)
qed

definition sample_json :: "str \<Rightarrow> str" where
  "sample_json s = [34] @ s @ [34]"

theorem small_directory_complete_witness:
  "render_directory sample_json (new_directory sample_json [lit ''a/b'']) [] =
    trim_end (write_all sample_json 0 (new_directory sample_json [lit ''a/b'']))"
proof (rule small_directory_complete)
  show "byte_len s \<le> byte_len (sample_json s)" for s by (simp add: sample_json_def byte_len_def)
  show "dr_cost (new_directory sample_json [lit ''a/b'']) \<le> 24000"
    by (simp add: new_directory_def lit_def empty_directory_def quote_def needs_quotes_def ascii_classes byte_len_def utf8_char_def)
qed simp

end
