(* ===== verification/Compose.thy ===== *)
theory Compose
  imports Asset_Parse "HOL-Library.Product_Lexorder"
begin

text \<open>
  Composition of Unity assets, \<^verbatim>\<open>src/src/unity/assets/compose.rs\<close> with the lookups of
  \<^verbatim>\<open>src/src/unity/assets/mod.rs\<close>: the objects of an asset with those of the prefabs it places, their
  overrides, removals and additions, and the reuse of compositions of an earlier index. Shared
  pointers are the values they point to; a missing asset, which panics, is an error value.
\<close>

section \<open>Data\<close>

record script_type =
  sy_name :: str
  sy_assembly :: str
  sy_ancestry :: "str list"

record native_type =
  nt_type :: "script_type option"
  nt_issue :: "str option"

record asset =
  as_project :: str
  as_path :: str
  as_guid :: str
  as_objects :: "asset_object list"
  as_content :: "str option"
  as_unavailable :: "str option"

record target =
  ta_asset :: str
  ta_object :: "str option"
  ta_raw :: pointer

record placed_object =
  in_id :: str
  in_definition :: str
  in_object :: asset_object
  in_name :: str
  in_type :: "script_type option"
  in_issue :: "str option"
  in_references :: "(str \<times> target) list"
  in_evidence :: "(str \<times> int) list"
  in_alive :: bool

record composed =
  co_objects :: "placed_object list"
  co_aliases :: "(int \<times> str) list"
  co_incomplete :: "str list"

record asset_index =
  ix_assets :: "(str \<times> asset) list"
  ix_guids :: "((str \<times> str) \<times> str list) list"
  ix_scripts :: "(str \<times> script_type) list"
  ix_instances :: "(str \<times> composed) list"
  ix_native :: "(str \<times> (int \<times> native_type) list) list"

datatype compose_error = ObjectLimit | MissingAsset str

definition empty_composed :: composed where
  "empty_composed = \<lparr>co_objects = [], co_aliases = [], co_incomplete = []\<rparr>"

section \<open>Lookups\<close>

definition resolve_guid :: "asset_index \<Rightarrow> str \<Rightarrow> str \<Rightarrow> str option" where
  "resolve_guid ix project guid = (case bt_get (ix_guids ix) (project, guid) of Some [path] \<Rightarrow> Some path | _ \<Rightarrow> None)"

definition find_asset :: "asset_index \<Rightarrow> str \<Rightarrow> compose_error + asset" where
  "find_asset ix key = (case bt_get (ix_assets ix) key of None \<Rightarrow> Inl (MissingAsset key) | Some a \<Rightarrow> Inr a)"

definition script_of :: "asset_index \<Rightarrow> asset \<Rightarrow> asset_object \<Rightarrow> compose_error + script_type option" where
  "script_of ix a ob =
     (let script = object_pointer ob (lit ''m_Script'')
      in if pointer_null script then Inr None
         else (case resolve_guid ix (as_project a) (pt_guid script) of
             None \<Rightarrow> Inr None
           | Some target \<Rightarrow> bindE (find_asset ix target) (\<lambda>t.
               Inr (if ends_with (as_path t) (lit ''.cs'') then bt_get (ix_scripts ix) target else None))))"

definition resolve_target :: "asset_index \<Rightarrow> str \<Rightarrow> str \<Rightarrow> (int \<times> str) list \<Rightarrow> pointer \<Rightarrow> target" where
  "resolve_target ix project key aliases p =
     (let destination = (if pointer_null p then None else if pt_guid p = [] then Some key else resolve_guid ix project (pt_guid p))
      in \<lparr>ta_asset = (case destination of Some d \<Rightarrow> d | None \<Rightarrow> []),
          ta_object = (if pointer_null p then None
            else if destination = Some key then bt_get aliases (pt_id p)
            else map_option (\<lambda>_. display_int (pt_id p)) destination),
          ta_raw = p\<rparr>)"

definition child_id :: "str \<Rightarrow> str \<Rightarrow> str" where
  "child_id prefix oid = prefix @ [47] @ oid"

definition lift_target :: "str \<Rightarrow> str \<Rightarrow> str \<Rightarrow> target \<Rightarrow> target" where
  "lift_target source destination prefix t =
     (if ta_asset t = source then t\<lparr>ta_asset := destination, ta_object := map_option (child_id prefix) (ta_object t)\<rparr> else t)"

text \<open>The object of a composition that a pointer of another asset names, unless it is ambiguous.\<close>

definition mapped_target :: "asset_index \<Rightarrow> str \<Rightarrow> composed \<Rightarrow> pointer \<Rightarrow> compose_error + str option" where
  "mapped_target ix source c p =
     bindE (find_asset ix source) (\<lambda>a.
       Inr (if pt_guid p = [] \<or> pt_guid p = as_guid a then bt_get (co_aliases c) (pt_id p)
         else (case resolve_guid ix (as_project a) (pt_guid p) of
             None \<Rightarrow> None
           | Some d \<Rightarrow> (case filter (\<lambda>ob. in_definition ob = d \<and> ob_id (in_object ob) = pt_id p) (co_objects c) of
               [ob] \<Rightarrow> Some (in_id ob)
             | _ \<Rightarrow> None))))"

section \<open>Own objects and placements\<close>

definition own_instance :: "asset_index \<Rightarrow> str \<Rightarrow> asset \<Rightarrow> asset_object \<Rightarrow> compose_error + placed_object" where
  "own_instance ix key a ob =
     (let native = Option.bind (bt_get (ix_native ix) (as_project a)) (\<lambda>types. bt_get types (ob_class ob))
      in bindE (if ob_class ob = 114 then script_of ix a ob else Inr (Option.bind native nt_type)) (\<lambda>ty.
        Inr \<lparr>in_id = display_int (ob_id ob), in_definition = key, in_object = ob, in_name = ob_name ob, in_type = ty,
          in_issue = Option.bind native nt_issue, in_references = [], in_evidence = [], in_alive = True\<rparr>))"

definition add_own :: "asset_index \<Rightarrow> str \<Rightarrow> asset \<Rightarrow> asset_object \<Rightarrow> composed \<Rightarrow> compose_error + composed" where
  "add_own ix key a ob c =
     (if ob_stripped ob \<or> ob_prefab ob \<noteq> None then Inr c
      else bindE (own_instance ix key a ob) (\<lambda>i.
        Inr (c\<lparr>co_aliases := bt_insert (ob_id ob) (in_id i) (co_aliases c), co_objects := co_objects c @ [i]\<rparr>)))"

definition place_instance :: "str \<Rightarrow> str \<Rightarrow> int \<Rightarrow> placed_object \<Rightarrow> placed_object" where
  "place_instance source key control i =
     (let prefix = display_int control
      in i\<lparr>in_id := child_id prefix (in_id i),
           in_references := map (\<lambda>(f, t). (f, lift_target source key prefix t)) (in_references i),
           in_evidence := in_evidence i @ [(key, control)]\<rparr>)"

definition add_stripped :: "asset_index \<Rightarrow> asset \<Rightarrow> str \<Rightarrow> composed \<Rightarrow> str \<Rightarrow> asset_object \<Rightarrow> composed \<Rightarrow> compose_error + composed" where
  "add_stripped ix a source child prefix ob c =
     bindE (mapped_target ix source child (object_pointer ob (lit ''m_CorrespondingSourceObject''))) (\<lambda>oid. case oid of
       Some oid \<Rightarrow> Inr (c\<lparr>co_aliases := bt_insert (ob_id ob) (child_id prefix oid) (co_aliases c)\<rparr>)
     | None \<Rightarrow> Inr (c\<lparr>co_incomplete := co_incomplete c @
         [lit ''Unresolved stripped object '' @ display_int (ob_id ob) @ lit '' in '' @ as_path a]\<rparr>))"

definition max_objects :: nat where "max_objects = 1000000"

type_synonym memo = "(str \<times> composed) list"
type_synonym composer = "str \<Rightarrow> memo \<Rightarrow> compose_error + composed \<times> memo"
type_synonym placement = "asset_object \<times> prefab \<times> str \<times> composed"

definition place_prefab :: "asset_index \<Rightarrow> composer \<Rightarrow> str \<Rightarrow> asset \<Rightarrow> asset_object \<times> prefab \<Rightarrow>
    composed \<times> placement list \<times> memo \<Rightarrow> compose_error + composed \<times> placement list \<times> memo" where
  "place_prefab ix rec key a cp st = (case (cp, st) of ((control, pf), (c, groups, memo)) \<Rightarrow>
     (case resolve_guid ix (as_project a) (pt_guid (pf_source pf)) of
       None \<Rightarrow> Inr (c\<lparr>co_incomplete := co_incomplete c @
           [as_path a @ lit '': unresolved source prefab '' @ pt_guid (pf_source pf)]\<rparr>, groups, memo)
     | Some source \<Rightarrow> bindE (rec source memo) (\<lambda>(child, memo).
         ensureE (length (co_objects c) + length (co_objects child) \<le> max_objects) ObjectLimit
          (let prefix = display_int (ob_id control);
               c = c\<lparr>co_incomplete := co_incomplete c @ co_incomplete child,
                 co_objects := co_objects c @ map (place_instance source key (ob_id control)) (filter in_alive (co_objects child))\<rparr>
           in bindE (foldE (add_stripped ix a source child prefix)
               (filter (\<lambda>ob. ob_stripped ob \<and> pt_id (object_pointer ob (lit ''m_PrefabInstance'')) = ob_id control) (as_objects a)) c) (\<lambda>c.
             Inr (c, groups @ [(control, pf, source, child)], memo))))))"

text \<open>References of the asset's own objects, once all aliases are known.\<close>

definition resolve_own :: "asset_index \<Rightarrow> str \<Rightarrow> asset \<Rightarrow> composed \<Rightarrow> composed" where
  "resolve_own ix key a c = c\<lparr>co_objects := map (\<lambda>i.
     if in_definition i = key \<and> in_evidence i = []
     then i\<lparr>in_references := fold (\<lambda>(f, r) refs. bt_insert f (resolve_target ix (as_project a) key (co_aliases c) (ae_target r)) refs)
         (ob_references (in_object i)) (in_references i)\<rparr>
     else i) (co_objects c)\<rparr>"

section \<open>Overrides\<close>

definition positions_of :: "placed_object list \<Rightarrow> str \<Rightarrow> nat option" where
  "positions_of obs oid = map_of (rev (zip (map in_id obs) [0..<length obs])) oid"

definition upd_instance :: "nat \<Rightarrow> (placed_object \<Rightarrow> placed_object) \<Rightarrow> composed \<Rightarrow> composed" where
  "upd_instance n f c = c\<lparr>co_objects := (co_objects c)[n := f (co_objects c ! n)]\<rparr>"

definition placed_target :: "asset_index \<Rightarrow> placement \<Rightarrow> pointer \<Rightarrow> compose_error + str option" where
  "placed_target ix g p = (case g of (control, pf, source, child) \<Rightarrow>
     bindE (mapped_target ix source child p) (\<lambda>oid. Inr (map_option (child_id (display_int (ob_id control))) oid)))"

definition transform_class :: "int \<Rightarrow> bool" where
  "transform_class n \<longleftrightarrow> n = 4 \<or> n = 224"

definition set_parent :: "asset_index \<Rightarrow> str \<Rightarrow> asset \<Rightarrow> placement \<Rightarrow> composed \<Rightarrow> composed" where
  "set_parent ix key a g c = (case g of (control, pf, source, child) \<Rightarrow>
     if pointer_null (pf_parent pf) then c
     else c\<lparr>co_objects := map (\<lambda>i.
       if starts_with (in_id i) (display_int (ob_id control) @ [47]) \<and> transform_class (ob_class (in_object i)) \<and>
          (case bt_get (in_references i) (lit ''m_Father'') of None \<Rightarrow> False | Some t \<Rightarrow> pointer_null (ta_raw t))
       then i\<lparr>in_references := bt_insert (lit ''m_Father'')
           (resolve_target ix (as_project a) key (co_aliases c) (pf_parent pf)) (in_references i)\<rparr>
       else i) (co_objects c)\<rparr>)"

definition remove_object :: "asset_index \<Rightarrow> asset \<Rightarrow> (str \<Rightarrow> nat option) \<Rightarrow> placement \<Rightarrow> pointer \<Rightarrow> composed \<Rightarrow> compose_error + composed" where
  "remove_object ix a positions g p c =
     bindE (placed_target ix g p) (\<lambda>oid. case oid of
       None \<Rightarrow> Inr (c\<lparr>co_incomplete := co_incomplete c @ [lit ''Unresolved removal in '' @ as_path a]\<rparr>)
     | Some oid \<Rightarrow> Inr (case positions oid of None \<Rightarrow> c | Some n \<Rightarrow> upd_instance n (\<lambda>i. i\<lparr>in_alive := False\<rparr>) c))"

definition array_index :: "str \<Rightarrow> str \<Rightarrow> nat option" where
  "array_index prefix field = (case strip_prefix field prefix of
     None \<Rightarrow> None
   | Some s \<Rightarrow> (case split_once (\<lambda>c. c = 93) s of None \<Rightarrow> None | Some (i, _) \<Rightarrow> parse_usize i))"

definition modify_instance :: "asset_index \<Rightarrow> str \<Rightarrow> asset \<Rightarrow> (int \<times> str) list \<Rightarrow> modification \<Rightarrow> placed_object \<Rightarrow> placed_object" where
  "modify_instance ix key a aliases m i =
     (let i = (if md_property m = lit ''m_Name'' then i\<lparr>in_name := md_value m\<rparr> else i)
      in case strip_suffix (md_property m) (lit ''.Array.size'') of
          Some prefix \<Rightarrow> (case parse_usize (md_value m) of
              None \<Rightarrow> i
            | Some len \<Rightarrow> i\<lparr>in_references := filter (\<lambda>(f, _).
                case array_index (prefix @ lit ''.Array.data['') f of None \<Rightarrow> True | Some n \<Rightarrow> n < len) (in_references i)\<rparr>)
        | None \<Rightarrow>
            if bt_contains (in_references i) (md_property m) \<or> \<not> pointer_null (md_reference m)
            then (let i = i\<lparr>in_references := bt_insert (md_property m)
                    (resolve_target ix (as_project a) key aliases (md_reference m)) (in_references i)\<rparr>
                  in if md_property m = lit ''m_Script'' \<and> ob_class (in_object i) = 114
                     then i\<lparr>in_type := Option.bind (resolve_guid ix (as_project a) (pt_guid (md_reference m))) (bt_get (ix_scripts ix))\<rparr>
                     else i)
            else i)"

definition apply_modification :: "asset_index \<Rightarrow> str \<Rightarrow> asset \<Rightarrow> (str \<Rightarrow> nat option) \<Rightarrow> placement \<Rightarrow> modification \<Rightarrow> composed \<Rightarrow>
    compose_error + composed" where
  "apply_modification ix key a positions g m c =
     bindE (placed_target ix g (md_target m)) (\<lambda>oid. case oid of
       None \<Rightarrow> Inr (c\<lparr>co_incomplete := co_incomplete c @ [lit ''Unresolved override target in '' @ as_path a]\<rparr>)
     | Some oid \<Rightarrow> Inr (case positions oid of None \<Rightarrow> c | Some n \<Rightarrow> upd_instance n (modify_instance ix key a (co_aliases c) m) c))"

definition attach_added :: "asset_index \<Rightarrow> str \<Rightarrow> (str \<Rightarrow> nat option) \<Rightarrow> placement \<Rightarrow> pointer \<times> int \<Rightarrow> composed \<Rightarrow> compose_error + composed" where
  "attach_added ix key positions g ta c = (case ta of (p, added) \<Rightarrow>
     bindE (placed_target ix g p) (\<lambda>owner.
       Inr (case (owner, Option.bind (bt_get (co_aliases c) added) positions) of
           (Some owner, Some n) \<Rightarrow>
             if ob_class (in_object (co_objects c ! n)) = 1 then c
             else upd_instance n (\<lambda>i. i\<lparr>in_references := bt_insert (lit ''m_GameObject'')
               \<lparr>ta_asset = key, ta_object = Some owner, ta_raw = p\<rparr> (in_references i)\<rparr>) c
         | _ \<Rightarrow> c)))"

definition apply_group :: "asset_index \<Rightarrow> str \<Rightarrow> asset \<Rightarrow> (str \<Rightarrow> nat option) \<Rightarrow> placement \<Rightarrow> composed \<Rightarrow> compose_error + composed" where
  "apply_group ix key a positions g c = (case g of (control, pf, source, child) \<Rightarrow>
     bindE (foldE (remove_object ix a positions g) (pf_removed pf) (set_parent ix key a g c)) (\<lambda>c.
     bindE (foldE (apply_modification ix key a positions g) (pf_modifications pf) c) (\<lambda>c.
       foldE (attach_added ix key positions g) (pf_added pf) c)))"

section \<open>Removals\<close>

text \<open>What goes with an object: its components and descendants, and a game object with its transform.\<close>

definition add_child :: "str \<Rightarrow> str \<Rightarrow> (str \<Rightarrow> str list) \<Rightarrow> str \<Rightarrow> str list" where
  "add_child oid child m = m(oid := m oid @ [child])"

definition link_field :: "str \<Rightarrow> placed_object \<Rightarrow> str \<Rightarrow> (str \<Rightarrow> str list) \<Rightarrow> str \<Rightarrow> str list" where
  "link_field key i field m = (case bt_get (in_references i) field of
     None \<Rightarrow> m
   | Some t \<Rightarrow> if ta_asset t \<noteq> key then m
       else (case ta_object t of
           None \<Rightarrow> m
         | Some oid \<Rightarrow> (let m = add_child oid (in_id i) m
             in if field = lit ''m_GameObject'' \<and> transform_class (ob_class (in_object i)) then add_child (in_id i) oid m else m)))"

definition children_of :: "str \<Rightarrow> placed_object list \<Rightarrow> str \<Rightarrow> str list" where
  "children_of key obs = fold (\<lambda>i m. link_field key i (lit ''m_Father'') (link_field key i (lit ''m_GameObject'') m)) obs (\<lambda>_. [])"

text \<open>The worklist; the guard says that ids come from the objects and their links, which keeps it finite.\<close>

function remove_loop :: "str set \<Rightarrow> (str \<Rightarrow> str list) \<Rightarrow> (str \<Rightarrow> nat option) \<Rightarrow> str list \<Rightarrow> str set \<Rightarrow> placed_object list \<Rightarrow> placed_object list" where
  "remove_loop ids children positions pending removed obs = (case pending of
     [] \<Rightarrow> obs
   | oid # pending \<Rightarrow>
       if oid \<in> removed \<or> \<not> (finite ids \<and> oid \<in> ids) then remove_loop ids children positions pending removed obs
       else remove_loop ids children positions (rev (children oid) @ pending) (insert oid removed)
         (case positions oid of None \<Rightarrow> obs | Some n \<Rightarrow> obs[n := (obs ! n)\<lparr>in_alive := False\<rparr>]))"
  by pat_completeness auto
termination
proof (relation "measures [\<lambda>(ids, children, positions, pending, removed, obs). card (ids - removed),
    \<lambda>(ids, children, positions, pending, removed, obs). length pending]", goal_cases)
  case (3 ids children positions pending removed obs oid rest)
  then have "finite ids" "oid \<in> ids - removed" by auto
  then have "card (ids - insert oid removed) < card (ids - removed)" by (metis Diff_insert card_Diff1_less finite_Diff)
  then show ?case by simp
qed simp_all

declare remove_loop.simps [simp del]

definition link_ids :: "str \<Rightarrow> placed_object list \<Rightarrow> str set" where
  "link_ids key obs = set (map in_id obs) \<union> \<Union> (set (map (\<lambda>i. set (map (the \<circ> ta_object \<circ> snd) (in_references i))) obs))"

definition remove_dead :: "str \<Rightarrow> (str \<Rightarrow> nat option) \<Rightarrow> placed_object list \<Rightarrow> placed_object list" where
  "remove_dead key positions obs =
     remove_loop (link_ids key obs) (children_of key obs) positions (rev (map in_id (filter (\<lambda>i. \<not> in_alive i) obs))) {} obs"

section \<open>Composition\<close>

definition controls_of :: "asset \<Rightarrow> (asset_object \<times> prefab) list" where
  "controls_of a = List.map_filter (\<lambda>ob. map_option (\<lambda>pf. (ob, pf)) (ob_prefab ob)) (as_objects a)"

definition compose_body :: "asset_index \<Rightarrow> composer \<Rightarrow> composer" where
  "compose_body ix rec key memo =
     bindE (find_asset ix key) (\<lambda>a.
     let start = empty_composed\<lparr>co_incomplete := (case as_unavailable a of None \<Rightarrow> [] | Some r \<Rightarrow> [as_path a @ lit '': '' @ r])\<rparr>
     in bindE (foldE (add_own ix key a) (as_objects a) start) (\<lambda>c.
     bindE (foldE (place_prefab ix rec key a) (controls_of a) (c, [], memo)) (\<lambda>(c, groups, memo).
     let c = resolve_own ix key a c; positions = positions_of (co_objects c)
     in bindE (foldE (apply_group ix key a positions) groups c) (\<lambda>c.
     let c = c\<lparr>co_objects := remove_dead key positions (co_objects c)\<rparr>
     in Inr (c, bt_insert key c memo)))))"

definition cycle_composed :: "asset_index \<Rightarrow> str \<Rightarrow> compose_error + composed" where
  "cycle_composed ix key = bindE (find_asset ix key) (\<lambda>a.
     Inr (empty_composed\<lparr>co_incomplete := [lit ''Prefab cycle or depth limit at '' @ as_path a]\<rparr>))"

text \<open>\<open>room\<close> is 64 less the depth of the stack.\<close>

fun compose :: "asset_index \<Rightarrow> nat \<Rightarrow> str set \<Rightarrow> composer" where
  "compose ix room stack key memo = (case (bt_get memo key, bt_get (ix_instances ix) key) of
     (Some c, _) \<Rightarrow> Inr (c, memo)
   | (None, Some c) \<Rightarrow> Inr (c, memo)
   | (None, None) \<Rightarrow> (case room of
       0 \<Rightarrow> bindE (cycle_composed ix key) (\<lambda>c. Inr (c, memo))
     | Suc room \<Rightarrow> if key \<in> stack then bindE (cycle_composed ix key) (\<lambda>c. Inr (c, memo))
         else compose_body ix (compose ix room (insert key stack)) key memo))"

declare compose.simps [simp del]

definition max_depth :: nat where "max_depth = 64"

text \<open>\<open>composed\<close> of an asset, and \<open>build\<close> of all prefabs of the index.\<close>

definition composed_asset :: "asset_index \<Rightarrow> str \<Rightarrow> compose_error + composed" where
  "composed_asset ix key = bindE (compose ix max_depth {} key []) (\<lambda>(c, _). Inr c)"

definition build_step :: "asset_index \<Rightarrow> str \<times> asset \<Rightarrow> memo \<Rightarrow> compose_error + memo" where
  "build_step ix entry memo =
     (if ends_with (as_path (snd entry)) (lit ''.prefab'') then bindE (compose ix max_depth {} (fst entry) memo) (\<lambda>(_, memo). Inr memo)
      else Inr memo)"

definition build_index :: "asset_index \<Rightarrow> compose_error + asset_index" where
  "build_index ix =
     (let memo = ix_instances ix; ix = ix\<lparr>ix_instances := []\<rparr>
      in bindE (foldE (build_step ix) (ix_assets ix) memo) (\<lambda>memo. Inr (ix\<lparr>ix_instances := memo\<rparr>)))"

section \<open>Reuse\<close>

definition share_objects :: "asset_index \<Rightarrow> str \<times> asset \<Rightarrow> str \<times> asset" where
  "share_objects previous entry = (case (entry, bt_get (ix_assets previous) (fst entry)) of
     ((key, a), Some old) \<Rightarrow>
       if as_content a \<noteq> None \<and> as_content old = as_content a \<and> as_unavailable old = as_unavailable a
       then (key, a\<lparr>as_objects := as_objects old\<rparr>) else (key, a)
   | (entry, None) \<Rightarrow> entry)"

definition changed_assets :: "asset_index \<Rightarrow> asset_index \<Rightarrow> str set" where
  "changed_assets ix previous =
     set (map fst (filter (\<lambda>(key, a). case bt_get (ix_assets previous) key of
         None \<Rightarrow> True | Some old \<Rightarrow> as_content old \<noteq> as_content a \<or> as_unavailable old \<noteq> as_unavailable a) (ix_assets ix))) \<union>
     set (filter (\<lambda>key. \<not> bt_contains (ix_assets ix) key) (bt_keys (ix_assets previous)))"

definition asset_dependencies :: "asset_index \<Rightarrow> asset \<Rightarrow> str set" where
  "asset_dependencies ix a = set (List.map_filter (\<lambda>p. resolve_guid ix (as_project a) (pt_guid p))
     (concat (map (\<lambda>ob. map (ae_target \<circ> snd) (ob_references ob) @
       (case ob_prefab ob of None \<Rightarrow> [] | Some pf \<Rightarrow> [pf_source pf])) (as_objects a))))"

definition next_changed :: "(str \<times> str set) list \<Rightarrow> str set \<Rightarrow> str set" where
  "next_changed deps changed = set (map fst (filter (\<lambda>(key, ds). key \<notin> changed \<and> ds \<inter> changed \<noteq> {}) deps))"

function spread_changes :: "(str \<times> str set) list \<Rightarrow> str set \<Rightarrow> str set" where
  "spread_changes deps changed =
     (let new = next_changed deps changed in if new = {} then changed else spread_changes deps (changed \<union> new))"
  by pat_completeness auto
termination
proof (relation "measure (\<lambda>(deps, changed). card (fst ` set deps - changed))", goal_cases)
  case (2 deps changed new)
  then obtain k where k: "k \<in> new" by blast
  then have "k \<in> fst ` set deps - changed" unfolding 2(1) next_changed_def by force
  with k have "fst ` set deps - (changed \<union> new) \<subset> fst ` set deps - changed" by blast
  then show ?case by (simp add: psubset_card_mono)
qed simp

declare spread_changes.simps [simp del]

definition reuse_instances :: "asset_index \<Rightarrow> asset_index \<Rightarrow> asset_index" where
  "reuse_instances ix previous =
     (let ix = ix\<lparr>ix_assets := map (share_objects previous) (ix_assets ix)\<rparr>
      in if ix_guids ix \<noteq> ix_guids previous \<or> ix_scripts ix \<noteq> ix_scripts previous \<or> ix_native ix \<noteq> ix_native previous then ix
         else (let changed = spread_changes (map (\<lambda>(key, a). (key, asset_dependencies ix a)) (ix_assets ix)) (changed_assets ix previous)
               in ix\<lparr>ix_instances := fold (\<lambda>(key, c). bt_insert key c) (filter (\<lambda>(key, _). key \<notin> changed) (ix_instances previous))
                   (ix_instances ix)\<rparr>))"

end
