(* ===== verification/Compose_Removal.thy ===== *)
theory Compose_Removal
  imports Compose
begin

text \<open>
  Removals in a composition: what is left after the worklist is what no removed object owns, directly or
  through others, and the ids of the objects of a composition are distinct.
\<close>

section \<open>Positions\<close>

lemma positions_of_Some: "positions_of obs oid = Some n \<Longrightarrow> n < length obs \<and> in_id (obs ! n) = oid"
  unfolding positions_of_def by (drule map_of_SomeD) (auto simp: set_zip)

lemma positions_of_None: "positions_of obs oid = None \<longleftrightarrow> oid \<notin> in_id ` set obs"
  unfolding positions_of_def by (simp add: map_of_eq_None_iff set_map [symmetric] del: set_map)

section \<open>What goes with what\<close>

text \<open>The owner of a part: the game object of a component, the parent of a transform, the transform of a game object.\<close>

definition goes_with :: "str \<Rightarrow> placed_object list \<Rightarrow> (str \<times> str) set" where
  "goes_with key obs = {(owner, part). \<exists>i \<in> set obs. \<exists>field t.
     field \<in> {lit ''m_GameObject'', lit ''m_Father''} \<and> bt_get (in_references i) field = Some t \<and> ta_asset t = key \<and>
     (ta_object t = Some owner \<and> part = in_id i \<or>
      field = lit ''m_GameObject'' \<and> transform_class (ob_class (in_object i)) \<and> owner = in_id i \<and> ta_object t = Some part)}"

definition owned_by :: "str \<Rightarrow> placed_object \<Rightarrow> str \<Rightarrow> (str \<times> str) set" where
  "owned_by key i field = {(owner, part). \<exists>t. bt_get (in_references i) field = Some t \<and> ta_asset t = key \<and>
     (ta_object t = Some owner \<and> part = in_id i \<or>
      field = lit ''m_GameObject'' \<and> transform_class (ob_class (in_object i)) \<and> owner = in_id i \<and> ta_object t = Some part)}"

lemma goes_with_owned:
  "goes_with key obs = (\<Union>i \<in> set obs. owned_by key i (lit ''m_GameObject'') \<union> owned_by key i (lit ''m_Father''))"
  unfolding goes_with_def owned_by_def by blast

lemma in_link_field: "part \<in> set (link_field key i field m owner) \<longleftrightarrow> part \<in> set (m owner) \<or> (owner, part) \<in> owned_by key i field"
  unfolding link_field_def owned_by_def add_child_def Let_def by (auto split: option.split)

lemma in_children_of: "part \<in> set (children_of key obs owner) \<longleftrightarrow> (owner, part) \<in> goes_with key obs"
proof -
  have "part \<in> set (fold (\<lambda>i m. link_field key i (lit ''m_Father'') (link_field key i (lit ''m_GameObject'') m)) obs m owner) \<longleftrightarrow>
      part \<in> set (m owner) \<or> (owner, part) \<in> goes_with key obs" for m
    by (induction obs arbitrary: m) (auto simp: in_link_field goes_with_owned)
  from this [of "\<lambda>_. []"] show ?thesis by (simp add: children_of_def)
qed

lemma goes_with_ids: "(owner, part) \<in> goes_with key obs \<Longrightarrow> part \<in> link_ids key obs"
  unfolding goes_with_def link_ids_def bt_get_def by (force dest!: map_of_SomeD)

section \<open>The worklist\<close>

definition kill :: "str set \<Rightarrow> placed_object list \<Rightarrow> placed_object list" where
  "kill dead = map (\<lambda>i. i\<lparr>in_alive := in_alive i \<and> in_id i \<notin> dead\<rparr>)"

lemma kill_empty [simp]: "kill {} obs = obs"
  by (simp add: kill_def map_idI)

lemma kill_insert:
  assumes "distinct (map in_id obs)"
  shows "(case positions_of obs oid of None \<Rightarrow> kill dead obs
     | Some n \<Rightarrow> (kill dead obs)[n := (kill dead obs ! n)\<lparr>in_alive := False\<rparr>]) = kill (insert oid dead) obs"
proof (cases "positions_of obs oid")
  case None
  then have "\<forall>i \<in> set obs. in_id i \<noteq> oid" by (auto simp: positions_of_None)
  with None show ?thesis by (simp add: kill_def)
next
  case (Some n)
  from positions_of_Some [OF this] have n: "n < length obs" "in_id (obs ! n) = oid" by auto
  have "in_id (obs ! m) = oid \<longleftrightarrow> m = n" if "m < length obs" for m
    using assms n that nth_eq_iff_index_eq [OF assms, of m n] by auto
  then show ?thesis using n Some by (auto simp: kill_def nth_list_update intro!: nth_equalityI)
qed

lemma remove_loop_kill:
  assumes "distinct (map in_id obs)" "finite ids"
    "\<And>owner part. part \<in> set (children owner) \<longleftrightarrow> (owner, part) \<in> r" "snd ` r \<subseteq> ids"
  shows "p = positions_of obs \<Longrightarrow> obs' = kill dead obs \<Longrightarrow> set pending \<subseteq> ids \<Longrightarrow> r `` dead \<subseteq> dead \<union> set pending \<Longrightarrow>
    remove_loop ids children p pending dead obs' = kill (r\<^sup>* `` (dead \<union> set pending)) obs"
  using assms(2,3,4)
proof (induction ids children p pending dead obs' rule: remove_loop.induct)
  case (1 ids children p pending dead obs')
  show ?case
  proof (cases pending)
    case Nil
    with 1(6) have "r\<^sup>* `` dead = dead" by (intro Image_closed_trancl) simp
    with Nil 1(4) show ?thesis by (subst remove_loop.simps) simp
  next
    case (Cons oid rest)
    have ids: "oid \<in> ids" "set rest \<subseteq> ids" using 1 Cons by auto
    show ?thesis
    proof (cases "oid \<in> dead")
      case True
      with 1(6) Cons have "r `` dead \<subseteq> dead \<union> set rest" by auto
      with True have "remove_loop ids children p rest dead obs' = kill (r\<^sup>* `` (dead \<union> set rest)) obs"
        by (intro 1(1) [OF Cons _ 1(3) 1(4) ids(2) _ 1(7) 1(8) 1(9)]) simp_all
      moreover have "dead \<union> set rest = dead \<union> set pending" using True Cons by auto
      moreover have "remove_loop ids children p pending dead obs' = remove_loop ids children p rest dead obs'"
        using True Cons by (subst remove_loop.simps) simp
      ultimately show ?thesis by metis
    next
      case False
      let ?obs = "case p oid of None \<Rightarrow> obs' | Some n \<Rightarrow> obs'[n := (obs' ! n)\<lparr>in_alive := False\<rparr>]"
      let ?pending = "rev (children oid) @ rest"
      have kids: "set (children oid) = r `` {oid}" using 1(8) by auto
      then have sub: "set ?pending \<subseteq> ids" using 1(9) ids by auto
      have obs: "?obs = kill (insert oid dead) obs" unfolding 1(3,4) by (rule kill_insert [OF assms(1)])
      have closed: "r `` insert oid dead \<subseteq> insert oid dead \<union> set ?pending" using 1(6) kids Cons by auto
      have "remove_loop ids children p ?pending (insert oid dead) ?obs = kill (r\<^sup>* `` (insert oid dead \<union> set ?pending)) obs"
        by (rule 1(2) [OF Cons _ 1(3) obs sub closed 1(7) 1(8) 1(9)]) (use False ids 1(7) in simp)
      moreover have "r\<^sup>* `` (insert oid dead \<union> set ?pending) = r\<^sup>* `` (dead \<union> set pending)"
        using kids Cons by (auto intro: converse_rtrancl_into_rtrancl)
      moreover have "remove_loop ids children p pending dead obs' = remove_loop ids children p ?pending (insert oid dead) ?obs"
        using False Cons ids 1(7) by (subst remove_loop.simps) simp
      ultimately show ?thesis by metis
    qed
  qed
qed

lemma remove_dead_kill:
  assumes "distinct (map in_id obs)"
  shows "remove_dead key (positions_of obs) obs = kill ((goes_with key obs)\<^sup>* `` (in_id ` {i \<in> set obs. \<not> in_alive i})) obs"
proof -
  let ?dead = "rev (map in_id (filter (\<lambda>i. \<not> in_alive i) obs))"
  have fin: "finite (link_ids key obs)" by (simp add: link_ids_def)
  have ids: "snd ` goes_with key obs \<subseteq> link_ids key obs" using goes_with_ids by auto
  have sub: "set ?dead \<subseteq> link_ids key obs" by (auto simp: link_ids_def)
  have dead: "set ?dead = in_id ` {i \<in> set obs. \<not> in_alive i}" by auto
  have "remove_dead key (positions_of obs) obs = kill ((goes_with key obs)\<^sup>* `` ({} \<union> set ?dead)) obs"
    unfolding remove_dead_def
    by (rule remove_loop_kill [OF assms fin in_children_of ids refl _ sub]) simp_all
  then show ?thesis unfolding dead by simp
qed

section \<open>Identifiers\<close>

lemma display_int_value: "(if display_int i \<noteq> [] \<and> hd (display_int i) = 45 then - int (digits_value (tl (display_int i)))
    else int (digits_value (display_int i))) = i"
  using display_nat_hd [of "nat i"] by (auto simp: display_int_def display_nat_value is_digit_def)

lemma display_int_eq [simp]: "display_int i = display_int j \<longleftrightarrow> i = j"
  by (metis display_int_value)

lemma display_int_free: "47 \<notin> set (display_int i)"
proof -
  have "47 \<notin> set (display_nat n)" for n using display_nat_digits [of n] by (auto simp: list_all_iff is_digit_def)
  then show ?thesis by (simp add: display_int_def)
qed

lemma child_id_split: "takeWhile (\<lambda>c. c \<noteq> 47) (child_id (display_int i) a) = display_int i"
proof -
  have "takeWhile (\<lambda>c. c \<noteq> 47) (display_int i @ 47 # a) = display_int i @ takeWhile (\<lambda>c. c \<noteq> 47) (47 # a)"
    by (rule takeWhile_append2) (use display_int_free [of i] in auto)
  then show ?thesis by (simp add: child_id_def)
qed

lemma child_id_eq [simp]: "child_id (display_int i) a = child_id (display_int j) b \<longleftrightarrow> i = j \<and> a = b"
proof
  assume eq: "child_id (display_int i) a = child_id (display_int j) b"
  then have "display_int i = display_int j" by (metis child_id_split)
  with eq show "i = j \<and> a = b" by (simp add: child_id_def)
qed simp

lemma child_id_slash: "47 \<in> set (child_id p a)"
  by (simp add: child_id_def)

section \<open>Identifiers of a composition\<close>

lemma add_own_ids:
  "foldE (add_own ix key a) obs c = Inr c' \<Longrightarrow> map in_id (co_objects c') =
     map in_id (co_objects c) @ map (display_int \<circ> ob_id) (filter (\<lambda>ob. \<not> (ob_stripped ob \<or> ob_prefab ob \<noteq> None)) obs)"
proof (induction obs arbitrary: c)
  case (Cons ob obs)
  then obtain c1 where c1: "add_own ix key a ob c = Inr c1" "foldE (add_own ix key a) obs c1 = Inr c'" by auto
  from Cons.IH [OF c1(2)] c1(1) show ?case
    by (auto simp: add_own_def own_instance_def Let_def split: if_splits)
qed simp

lemma add_stripped_objects: "foldE (add_stripped ix a source child prefix) obs c = Inr c' \<Longrightarrow> co_objects c' = co_objects c"
  by (erule foldE_invariant [where P = "\<lambda>d. co_objects d = co_objects c"]) (auto simp: add_stripped_def split: option.splits)

text \<open>Identifiers so far: own objects and those placed by the controls \<open>cs\<close>.\<close>

definition placed_ids :: "int set \<Rightarrow> placed_object list \<Rightarrow> bool" where
  "placed_ids cs obs \<longleftrightarrow> distinct (map in_id obs) \<and>
     (\<forall>i \<in> set obs. 47 \<notin> set (in_id i) \<or> (\<exists>n \<in> cs. \<exists>x. in_id i = child_id (display_int n) x))"

lemma in_id_place [simp]: "in_id (place_instance source key n i) = child_id (display_int n) (in_id i)"
  by (simp add: place_instance_def Let_def)

lemma placed_ids_append:
  assumes "placed_ids cs obs" "n \<notin> cs" "distinct (map in_id more_obs)"
  shows "placed_ids (insert n cs) (obs @ map (place_instance source key n) (filter in_alive more_obs))"
proof -
  have "distinct (map in_id (filter in_alive more_obs))" using assms(3) by (auto simp: distinct_map inj_on_def)
  then have "distinct (map (child_id (display_int n) \<circ> in_id) (filter in_alive more_obs))"
    by (auto simp: distinct_map inj_on_def)
  then show ?thesis using assms(1,2) child_id_slash
    by (fastforce simp: placed_ids_def comp_def)
qed

lemma place_prefabs_ids:
  assumes "\<And>k m c m'. ok m \<Longrightarrow> rec k m = Inr (c, m') \<Longrightarrow> ok m' \<and> distinct (map in_id (co_objects c))"
  shows "foldE (place_prefab ix rec key a) cps (c, groups, m) = Inr (c', groups', m') \<Longrightarrow> ok m \<Longrightarrow>
    placed_ids cs (co_objects c) \<Longrightarrow> distinct (map (ob_id \<circ> fst) cps) \<Longrightarrow> cs \<inter> set (map (ob_id \<circ> fst) cps) = {} \<Longrightarrow>
    ok m' \<and> distinct (map in_id (co_objects c'))"
proof (induction cps arbitrary: c groups m cs)
  case Nil
  then show ?case by (simp add: placed_ids_def)
next
  case (Cons cp cps)
  obtain control pf where cp: "cp = (control, pf)" by force
  from Cons.prems(1) obtain c1 g1 m1 where st: "place_prefab ix rec key a cp (c, groups, m) = Inr (c1, g1, m1)"
    "foldE (place_prefab ix rec key a) cps (c1, g1, m1) = Inr (c', groups', m')" by auto
  have "ok m1 \<and> placed_ids (insert (ob_id control) cs) (co_objects c1)"
  proof (cases "resolve_guid ix (as_project a) (pt_guid (pf_source pf))")
    case None
    with st(1) cp Cons.prems(2,3) show ?thesis by (auto simp: place_prefab_def placed_ids_def)
  next
    case (Some source)
    with st(1) cp obtain child where child: "rec source m = Inr (child, m1)" and
      objects: "co_objects c1 = co_objects c @ map (place_instance source key (ob_id control)) (filter in_alive (co_objects child))"
      by (auto simp: place_prefab_def Let_def dest!: add_stripped_objects)
    from assms [OF Cons.prems(2) child] have "ok m1" "distinct (map in_id (co_objects child))" by auto
    with placed_ids_append [OF Cons.prems(3)] objects Cons.prems(5) cp show ?thesis by auto
  qed
  with Cons.IH [OF st(2), of "insert (ob_id control) cs"] Cons.prems cp show ?case by auto
qed

lemma positions_same: "map in_id obs = map in_id obs' \<Longrightarrow> positions_of obs = positions_of obs'"
  by (rule ext) (simp add: positions_of_def map_eq_imp_length_eq [of in_id obs in_id obs'])

lemma resolve_own_ids: "map in_id (co_objects (resolve_own ix key a c)) = map in_id (co_objects c)"
  by (auto simp: resolve_own_def)

lemma upd_ids: "(\<And>i. in_id (f i) = in_id i) \<Longrightarrow> map in_id (co_objects (upd_instance n f c)) = map in_id (co_objects c)"
  by (simp add: upd_instance_def map_update) (metis length_map list_update_beyond list_update_id not_le_imp_less nth_map)

lemma modify_id [simp]: "in_id (modify_instance ix key a al m i) = in_id i"
  by (simp add: modify_instance_def Let_def split: option.split)

lemma apply_group_ids:
  assumes "apply_group ix key a positions g c = Inr c'"
  shows "map in_id (co_objects c') = map in_id (co_objects c)"
proof -
  obtain control pf source child where g: "g = (control, pf, source, child)" by (cases g)
  let ?P = "\<lambda>d. map in_id (co_objects d) = map in_id (co_objects c)"
  from assms g obtain c1 c2 where
    r: "foldE (remove_object ix a positions g) (pf_removed pf) (set_parent ix key a g c) = Inr c1" and
    m: "foldE (apply_modification ix key a positions g) (pf_modifications pf) c1 = Inr c2" and
    t: "foldE (attach_added ix key positions g) (pf_added pf) c2 = Inr c'" by (auto simp: apply_group_def)
  have "?P (set_parent ix key a g c)" by (auto simp: set_parent_def g)
  then have "?P c1" by (rule foldE_invariant [OF r]) (auto simp: remove_object_def upd_ids split: option.splits)
  then have "?P c2" by (rule foldE_invariant [OF m]) (auto simp: apply_modification_def upd_ids split: option.splits)
  then show "?P c'" by (rule foldE_invariant [OF t]) (auto simp: attach_added_def upd_ids split: option.splits)
qed

section \<open>Every composition\<close>

text \<open>Assets list no object twice (\<open>parse_asset_layout\<close>).\<close>

definition unique_objects :: "asset_index \<Rightarrow> bool" where
  "unique_objects ix \<longleftrightarrow> (\<forall>entry \<in> set (ix_assets ix). distinct (map ob_id (as_objects (snd entry))))"

text \<open>No two objects of one id, and nothing is left of what a removed object owns.\<close>

definition settled :: "str \<Rightarrow> composed \<Rightarrow> bool" where
  "settled key c \<longleftrightarrow> distinct (map in_id (co_objects c)) \<and>
     (\<forall>i \<in> set (co_objects c). \<forall>j \<in> set (co_objects c).
        (in_id i, in_id j) \<in> (goes_with key (co_objects c))\<^sup>* \<longrightarrow> in_alive j \<longrightarrow> in_alive i)"

definition settled_all :: "memo \<Rightarrow> bool" where
  "settled_all m \<longleftrightarrow> (\<forall>k c. bt_get m k = Some c \<longrightarrow> settled k c)"

lemma goes_with_kill: "goes_with key (kill dead obs) = goes_with key obs"
  by (simp add: goes_with_def kill_def)

lemma settled_kill:
  assumes "distinct (map in_id obs)"
  shows "settled key (c\<lparr>co_objects := remove_dead key (positions_of obs) obs\<rparr>)"
proof -
  define r where "r = (goes_with key obs)\<^sup>*"
  define dead where "dead = r `` (in_id ` {i \<in> set obs. \<not> in_alive i})"
  have "i \<in> set obs \<Longrightarrow> \<not> in_alive i \<Longrightarrow> in_id i \<in> dead" for i unfolding dead_def r_def by blast
  then have alive: "\<forall>x \<in> set (kill dead obs). in_alive x \<longleftrightarrow> in_id x \<notin> dead" by (auto simp: kill_def)
  have closed: "x \<in> dead \<Longrightarrow> (x, y) \<in> r \<Longrightarrow> y \<in> dead" for x y unfolding dead_def r_def by (blast intro: rtrancl_trans)
  have "map in_id (kill dead obs) = map in_id obs" by (simp add: kill_def)
  then have "settled key (c\<lparr>co_objects := kill dead obs\<rparr>)"
    unfolding settled_def goes_with_kill r_def [symmetric] using assms alive closed by (auto simp: goes_with_kill r_def)
  then show ?thesis unfolding remove_dead_kill [OF assms] dead_def r_def .
qed

lemma controls_distinct: "distinct (map ob_id (as_objects a)) \<Longrightarrow> distinct (map (ob_id \<circ> fst) (controls_of a))"
proof -
  have "map (ob_id \<circ> fst) (List.map_filter (\<lambda>ob. map_option (\<lambda>pf. (ob, pf)) (ob_prefab ob)) obs) =
      map ob_id (filter (\<lambda>ob. ob_prefab ob \<noteq> None) obs)" for obs :: "asset_object list"
    by (induction obs) (auto simp: List.map_filter_simps split: option.split)
  then show "distinct (map ob_id (as_objects a)) \<Longrightarrow> ?thesis" by (simp add: controls_of_def distinct_map inj_on_def)
qed

lemma compose_body_settled:
  assumes "\<And>k m c m'. settled_all m \<Longrightarrow> rec k m = Inr (c, m') \<Longrightarrow> settled_all m' \<and> distinct (map in_id (co_objects c))"
    and "unique_objects ix" "settled_all m" "compose_body ix rec key m = Inr (c, m')"
  shows "settled_all m' \<and> settled key c"
proof -
  from assms(4) obtain a c0 c1 groups m1 c2 where a: "find_asset ix key = Inr a"
    and own: "foldE (add_own ix key a) (as_objects a)
      (empty_composed\<lparr>co_incomplete := (case as_unavailable a of None \<Rightarrow> [] | Some r \<Rightarrow> [as_path a @ lit '': '' @ r])\<rparr>) = Inr c0"
    and place: "foldE (place_prefab ix rec key a) (controls_of a) (c0, [], m) = Inr (c1, groups, m1)"
    and over: "foldE (apply_group ix key a (positions_of (co_objects (resolve_own ix key a c1)))) groups (resolve_own ix key a c1) = Inr c2"
    and c: "c = c2\<lparr>co_objects := remove_dead key (positions_of (co_objects (resolve_own ix key a c1))) (co_objects c2)\<rparr>"
      "m' = bt_insert key c m1"
    by (auto simp: compose_body_def Let_def)
  have unique: "distinct (map ob_id (as_objects a))" using a assms(2)
    by (auto simp: find_asset_def unique_objects_def bt_get_def split: option.splits dest!: map_of_SomeD)
  then have "distinct (map (display_int \<circ> ob_id) (filter (\<lambda>ob. \<not> (ob_stripped ob \<or> ob_prefab ob \<noteq> None)) (as_objects a)))"
    by (auto simp: distinct_map inj_on_def)
  moreover have own_ids: "map in_id (co_objects c0) =
      map (display_int \<circ> ob_id) (filter (\<lambda>ob. \<not> (ob_stripped ob \<or> ob_prefab ob \<noteq> None)) (as_objects a))"
    using add_own_ids [OF own] by (simp add: empty_composed_def)
  moreover have "in_id i \<in> range display_int" if "i \<in> set (co_objects c0)" for i
    using that arg_cong [OF own_ids, of set] by auto
  ultimately have "placed_ids {} (co_objects c0)" by (fastforce simp: placed_ids_def display_int_free)
  with place_prefabs_ids [where ok = settled_all, OF assms(1) place assms(3)] controls_distinct [OF unique]
  have placed: "settled_all m1" "distinct (map in_id (co_objects c1))" by auto
  have same: "map in_id (co_objects c2) = map in_id (co_objects (resolve_own ix key a c1))"
    by (rule foldE_invariant [OF over]) (auto dest: apply_group_ids)
  with placed(2) have "distinct (map in_id (co_objects c2))" by (simp add: resolve_own_ids)
  with c(1) have "settled key c" by (simp add: settled_kill positions_same [OF same [symmetric]])
  with c(2) placed(1) show ?thesis by (auto simp: settled_all_def)
qed

lemma compose_settled:
  assumes "unique_objects ix" "settled_all (ix_instances ix)"
  shows "settled_all m \<Longrightarrow> compose ix room stack key m = Inr (c, m') \<Longrightarrow> settled_all m' \<and> settled key c"
proof (induction room arbitrary: stack key m c m')
  case 0
  then show ?case using assms(2)
    by (auto simp: compose.simps settled_all_def cycle_composed_def settled_def empty_composed_def split: option.splits)
next
  case (Suc room)
  have body: "settled_all m' \<and> settled key c" if "compose_body ix (compose ix room (insert key stack)) key m = Inr (c, m')"
    by (rule compose_body_settled [OF _ assms(1) Suc.prems(1) that]) (use Suc.IH in \<open>auto simp: settled_def\<close>)
  show ?case
  proof (cases "bt_get m key = None \<and> bt_get (ix_instances ix) key = None")
    case True
    then show ?thesis using Suc.prems body
      by (auto simp: compose.simps cycle_composed_def settled_def empty_composed_def split: if_splits)
  next
    case False
    then show ?thesis using Suc.prems assms(2) by (auto simp: compose.simps settled_all_def split: option.splits)
  qed
qed

section \<open>Removals and their witnesses\<close>

text \<open>
  C28: the removal worklist leaves alive exactly the objects that were alive and that no removed object owns,
  directly or through others: components of a game object, descendants of a transform, the transform with its
  game object; everything else about the objects stays.
\<close>

theorem removal_exact:
  assumes "distinct (map in_id obs)"
  shows "remove_dead key (positions_of obs) obs = map (\<lambda>i. i\<lparr>in_alive := in_alive i \<and>
    \<not> (\<exists>d \<in> set obs. \<not> in_alive d \<and> (in_id d, in_id i) \<in> (goes_with key obs)\<^sup>*)\<rparr>) obs"
proof -
  have "in_id i \<in> (goes_with key obs)\<^sup>* `` (in_id ` {i \<in> set obs. \<not> in_alive i}) \<longleftrightarrow>
      (\<exists>d \<in> set obs. \<not> in_alive d \<and> (in_id d, in_id i) \<in> (goes_with key obs)\<^sup>*)" for i :: placed_object by blast
  then show ?thesis unfolding remove_dead_kill [OF assms] kill_def by presburger
qed

definition sample_part :: "str \<Rightarrow> int \<Rightarrow> (str \<times> target) list \<Rightarrow> bool \<Rightarrow> placed_object" where
  "sample_part oid class refs alive = \<lparr>in_id = oid, in_definition = [9],
     in_object = \<lparr>ob_id = 3, ob_class = class, ob_stripped = False, ob_name = [], ob_span = (0, 0), ob_line = 1, ob_references = [], ob_prefab = None\<rparr>,
     in_name = [], in_type = None, in_issue = None, in_references = refs, in_evidence = [], in_alive = alive\<rparr>"

theorem removal_exact_witness:
  "\<exists>obs. map in_alive obs = [False, True, True] \<and> map in_alive (remove_dead [9] (positions_of obs) obs) = [False, False, True]"
proof -
  define owner where "owner = sample_part [3] 1 [] False"
  define part where "part = sample_part [4] 114 [(lit ''m_GameObject'', \<lparr>ta_asset = [9], ta_object = Some [3], ta_raw = null_pointer\<rparr>)] True"
  define other where "other = sample_part [5] 1 [] True"
  let ?obs = "[owner, part, other]"
  note defs = owner_def part_def other_def sample_part_def
  have d: "distinct (map in_id ?obs)" by (simp add: defs)
  have goes: "goes_with [9] ?obs = {([3], [4])}"
    unfolding goes_with_def by (auto simp: defs bt_get_def transform_class_def lit_def)
  have ids: "in_id owner = [3]" "in_id part = [4]" "in_id other = [5]" "\<not> in_alive owner" "in_alive part" "in_alive other"
    by (simp_all add: defs)
  have "([3], [4]) \<in> (goes_with [9] ?obs)\<^sup>*" "([3], [5]) \<notin> (goes_with [9] ?obs)\<^sup>*"
    unfolding goes by (auto elim: rtranclE)
  with removal_exact [OF d, of "[9]"] ids
  have "map in_alive (remove_dead [9] (positions_of ?obs) ?obs) = [False, False, True]" by simp
  with ids show ?thesis by (intro exI [of _ ?obs]) simp
qed

end
