(* ===== verification/Compose_Reuse.thy ===== *)
theory Compose_Reuse
  imports Compose_Removal
begin

text \<open>
  Incremental composition equals composition from scratch: the memo of a build and the compositions kept
  from an earlier index only ever hold what composing an asset anew gives.
\<close>

section \<open>The sources of an asset\<close>

definition sources_of :: "asset_index \<Rightarrow> asset \<Rightarrow> str set" where
  "sources_of ix a = {s. \<exists>(ob, pf) \<in> set (controls_of a). resolve_guid ix (as_project a) (pt_guid (pf_source pf)) = Some s}"

text \<open>No prefab contains itself, and none nests more than 64 levels.\<close>

definition layered :: "asset_index \<Rightarrow> (str \<Rightarrow> nat) \<Rightarrow> bool" where
  "layered ix rank \<longleftrightarrow> (\<forall>key. rank key < max_depth) \<and>
     (\<forall>key a s. bt_get (ix_assets ix) key = Some a \<longrightarrow> s \<in> sources_of ix a \<longrightarrow> rank s < rank key)"

section \<open>Composition without a memo\<close>

definition without_memo :: "(str \<Rightarrow> compose_error + composed) \<Rightarrow> composer" where
  "without_memo F key m = bindE (F key) (\<lambda>c. Inr (c, m))"

fun fresh :: "asset_index \<Rightarrow> nat \<Rightarrow> str \<Rightarrow> compose_error + composed" where
  "fresh ix 0 key = cycle_composed ix key"
| "fresh ix (Suc n) key = bindE (compose_body ix (without_memo (fresh ix n)) key []) (\<lambda>(c, _). Inr c)"

text \<open>\<open>rec\<close> computes \<open>F\<close> and keeps \<open>ok\<close> of the memo.\<close>

definition computes :: "(memo \<Rightarrow> bool) \<Rightarrow> (str \<Rightarrow> compose_error + composed) \<Rightarrow> composer \<Rightarrow> str \<Rightarrow> bool" where
  "computes ok F rec key \<longleftrightarrow> (\<forall>m. ok m \<longrightarrow>
     (case F key of Inl e \<Rightarrow> rec key m = Inl e | Inr c \<Rightarrow> \<exists>m'. ok m' \<and> rec key m = Inr (c, m')))"

lemma computes_without: "computes ok F (without_memo F) key"
  by (auto simp: computes_def without_memo_def split: sum.split)








definition coherent_memo :: "asset_index \<Rightarrow> memo \<Rightarrow> bool" where
  "coherent_memo ix m \<longleftrightarrow> (\<forall>(k, c) \<in> set m. fresh ix max_depth k = Inr c)"





section \<open>What a composition depends on\<close>

definition same_tables :: "asset_index \<Rightarrow> asset_index \<Rightarrow> bool" where
  "same_tables ix ix' \<longleftrightarrow> ix_guids ix = ix_guids ix' \<and> ix_scripts ix = ix_scripts ix' \<and> ix_native ix = ix_native ix'"

lemma same_resolve: "same_tables ix ix' \<Longrightarrow> resolve_guid ix = resolve_guid ix'"
  by (intro ext) (simp add: same_tables_def resolve_guid_def)

lemma same_target:
  assumes "same_tables ix ix'"
  shows "resolve_target ix = resolve_target ix'"
  by (intro ext) (simp add: resolve_target_def same_resolve [OF assms])

lemma same_modify:
  assumes "same_tables ix ix'"
  shows "modify_instance ix = modify_instance ix'"
proof -
  have "ix_scripts ix = ix_scripts ix'" using assms by (simp add: same_tables_def)
  then show ?thesis
    unfolding modify_instance_def same_resolve [OF assms] same_target [OF assms] by (simp only:)
qed

lemma same_mapped:
  assumes "same_tables ix ix'" "find_asset ix s = find_asset ix' s"
  shows "mapped_target ix s = mapped_target ix' s"
  unfolding mapped_target_def same_resolve [OF assms(1)] assms(2) by (rule refl)

lemma in_dependencies:
  "s \<in> asset_dependencies ix a \<longleftrightarrow> (\<exists>ob \<in> set (as_objects a).
     (\<exists>r \<in> snd ` set (ob_references ob). resolve_guid ix (as_project a) (pt_guid (ae_target r)) = Some s) \<or>
     (\<exists>pf. ob_prefab ob = Some pf \<and> resolve_guid ix (as_project a) (pt_guid (pf_source pf)) = Some s))"
proof -
  have pointers: "set (map (ae_target \<circ> snd) (ob_references ob) @ (case ob_prefab ob of None \<Rightarrow> [] | Some pf \<Rightarrow> [pf_source pf])) =
      (ae_target \<circ> snd) ` set (ob_references ob) \<union> {pf_source pf |pf. ob_prefab ob = Some pf}" for ob :: asset_object
    by (auto split: option.split)
  show ?thesis unfolding asset_dependencies_def map_filter_iff set_concat set_map image_image pointers by auto
qed

lemma reference_dependency:
  assumes "ob \<in> set (as_objects a)" "\<not> pointer_null (object_pointer ob field)"
    "resolve_guid ix (as_project a) (pt_guid (object_pointer ob field)) = Some s"
  shows "s \<in> asset_dependencies ix a"
proof -
  from assms(2) obtain r where r: "bt_get (ob_references ob) field = Some r" "object_pointer ob field = ae_target r"
    by (auto simp: object_pointer_def pointer_null_def null_pointer_def split: option.splits)
  from r(1) have "r \<in> snd ` set (ob_references ob)" by (force simp: bt_get_def dest: map_of_SomeD)
  with assms(1,3) r(2) show ?thesis unfolding in_dependencies by auto
qed

lemma source_dependency: "s \<in> sources_of ix a \<Longrightarrow> s \<in> asset_dependencies ix a"
  unfolding sources_of_def controls_of_def in_dependencies by (fastforce simp: map_filter_iff)

lemma same_own:
  assumes "same_tables ix ix'" "\<And>s. s \<in> asset_dependencies ix a \<Longrightarrow> find_asset ix s = find_asset ix' s" "ob \<in> set (as_objects a)"
  shows "add_own ix key a ob = add_own ix' key a ob"
proof -
  have "script_of ix a ob = script_of ix' a ob"
  proof (cases "pointer_null (object_pointer ob (lit ''m_Script''))")
    case False
    have tables: "ix_scripts ix = ix_scripts ix'" using assms(1) by (simp add: same_tables_def)
    have "find_asset ix s = find_asset ix' s"
      if "resolve_guid ix (as_project a) (pt_guid (object_pointer ob (lit ''m_Script''))) = Some s" for s
      using assms(2) [OF reference_dependency [OF assms(3) False that]] .
    then show ?thesis unfolding script_of_def Let_def tables same_resolve [OF assms(1)]
      by (cases "resolve_guid ix' (as_project a) (pt_guid (object_pointer ob (lit ''m_Script'')))") simp_all
  qed (simp add: script_of_def)
  then have "own_instance ix key a ob = own_instance ix' key a ob" using assms(1)
    by (simp add: own_instance_def same_tables_def)
  then show ?thesis by (intro ext) (simp add: add_own_def)
qed

lemma same_place:
  assumes "same_tables ix ix'" "\<And>s. s \<in> sources_of ix a \<Longrightarrow> find_asset ix s = find_asset ix' s \<and> F s = F' s" "cp \<in> set (controls_of a)"
  shows "place_prefab ix (without_memo F) key a cp st = place_prefab ix' (without_memo F') key a cp st"
proof -
  obtain control pf where cp: "cp = (control, pf)" by force
  obtain c groups m where st: "st = (c, groups, m)" by (cases st)
  show ?thesis
  proof (cases "resolve_guid ix (as_project a) (pt_guid (pf_source pf))")
    case None
    then show ?thesis using same_resolve [OF assms(1)] by (simp add: cp st place_prefab_def)
  next
    case (Some s)
    then have "s \<in> sources_of ix a" using assms(3) cp by (auto simp: sources_of_def)
    from assms(2) [OF this] have s: "find_asset ix s = find_asset ix' s" "F s = F' s" by auto
    then have "add_stripped ix a s = add_stripped ix' a s"
      by (intro ext) (simp add: add_stripped_def same_mapped [OF assms(1) s(1)])
    with Some s(2) same_resolve [OF assms(1)] show ?thesis by (simp add: cp st place_prefab_def without_memo_def)
  qed
qed

lemma same_group:
  assumes "same_tables ix ix'" "find_asset ix source = find_asset ix' source"
  shows "apply_group ix key a positions (control, pf, source, child) c = apply_group ix' key a positions (control, pf, source, child) c"
proof -
  have placed: "placed_target ix (control, pf, source, child) = placed_target ix' (control, pf, source, child)"
    by (rule ext) (simp add: placed_target_def same_mapped [OF assms])
  have "remove_object ix a positions (control, pf, source, child) = remove_object ix' a positions (control, pf, source, child)"
    "apply_modification ix key a positions (control, pf, source, child) = apply_modification ix' key a positions (control, pf, source, child)"
    "attach_added ix key positions (control, pf, source, child) = attach_added ix' key positions (control, pf, source, child)"
    "set_parent ix key a (control, pf, source, child) = set_parent ix' key a (control, pf, source, child)"
    unfolding remove_object_def apply_modification_def attach_added_def set_parent_def placed same_modify [OF assms(1)] same_target [OF assms(1)]
    by (rule refl)+
  then show ?thesis by (simp add: apply_group_def)
qed

lemma source_in:
  "(ob, pf) \<in> set (controls_of a) \<Longrightarrow> resolve_guid ix (as_project a) (pt_guid (pf_source pf)) = Some s \<Longrightarrow> s \<in> sources_of ix a"
  by (auto simp: sources_of_def)

lemma place_prefab_groups:
  "place_prefab ix rec key a (control, pf) (c, groups, m) = Inr (c', groups', m') \<Longrightarrow>
     groups' = groups \<or> (\<exists>s child. resolve_guid ix (as_project a) (pt_guid (pf_source pf)) = Some s \<and> groups' = groups @ [(control, pf, s, child)])"
  by (auto simp: place_prefab_def Let_def split: option.splits)

lemma placed_sources:
  assumes "foldE (place_prefab ix rec key a) (controls_of a) (c, [], m) = Inr (c', groups, m')"
    "(control, pf, source, child) \<in> set groups"
  shows "source \<in> sources_of ix a"
proof -
  let ?ok = "\<lambda>(c :: composed, groups :: placement list, m :: memo). \<forall>(control, pf, s, child) \<in> set groups. s \<in> sources_of ix a"
  have "?ok (c', groups, m')"
  proof (rule foldE_invariant [where P = ?ok, OF assms(1)])
    fix cp st st' assume cp: "cp \<in> set (controls_of a)" and ok: "?ok st" and step: "place_prefab ix rec key a cp st = Inr st'"
    obtain ob pf where "cp = (ob, pf)" by force
    with cp ok step show "?ok st'"
      by (cases st; cases st') (auto dest!: place_prefab_groups dest: source_in)
  qed simp
  with assms(2) show ?thesis by force
qed

lemma compose_body_depends:
  assumes "same_tables ix ix'" "find_asset ix key = find_asset ix' key"
    "\<And>a s. find_asset ix key = Inr a \<Longrightarrow> s \<in> asset_dependencies ix a \<Longrightarrow> find_asset ix s = find_asset ix' s \<and> F s = F' s"
  shows "compose_body ix (without_memo F) key m = compose_body ix' (without_memo F') key m"
proof (cases "find_asset ix key")
  case (Inl e)
  moreover have "find_asset ix' key = Inl e" using Inl assms(2) by simp
  ultimately show ?thesis by (simp add: compose_body_def)
next
  case (Inr a)
  note deps = assms(3) [OF Inr]
  have own: "foldE (add_own ix key a) (as_objects a) c = foldE (add_own ix' key a) (as_objects a) c" for c
    by (intro foldE_cong refl fun_cong [OF same_own] assms(1)) (use deps in auto)
  have place: "foldE (place_prefab ix (without_memo F) key a) (controls_of a) st = foldE (place_prefab ix' (without_memo F') key a) (controls_of a) st" for st
    by (intro foldE_cong refl same_place assms(1)) (use deps source_dependency in auto)
  have over: "foldE (apply_group ix key a positions) groups c = foldE (apply_group ix' key a positions) groups c"
    if "foldE (place_prefab ix (without_memo F) key a) (controls_of a) (c0, [], m0) = Inr (c', groups, m')" for positions groups c c0 m0 c' m'
  proof (intro foldE_cong refl)
    fix g d assume g: "g \<in> set groups"
    obtain control pf source child where g': "g = (control, pf, source, child)" by (cases g)
    have "find_asset ix source = find_asset ix' source"
      using placed_sources [OF that] g g' deps source_dependency by blast
    then show "apply_group ix key a positions g d = apply_group ix' key a positions g d"
      unfolding g' by (rule same_group [OF assms(1)])
  qed
  have final: "resolve_own ix = resolve_own ix'"
    unfolding resolve_own_def same_target [OF assms(1)] by (rule refl)
  have find: "find_asset ix' key = Inr a" using Inr assms(2) by simp
  let ?start = "empty_composed\<lparr>co_incomplete := (case as_unavailable a of None \<Rightarrow> [] | Some r \<Rightarrow> [as_path a @ lit '': '' @ r])\<rparr>"
  let ?rest = "\<lambda>ix (c, groups, memo). let c = resolve_own ix key a c; positions = positions_of (co_objects c)
     in bindE (foldE (apply_group ix key a positions) groups c) (\<lambda>c.
       let c = c\<lparr>co_objects := remove_dead key positions (co_objects c)\<rparr> in Inr (c, bt_insert key c memo))"
  have step: "bindE (foldE (place_prefab ix (without_memo F) key a) (controls_of a) (c, [], m)) (?rest ix) =
      bindE (foldE (place_prefab ix (without_memo F) key a) (controls_of a) (c, [], m)) (?rest ix')" for c
  proof (cases "foldE (place_prefab ix (without_memo F) key a) (controls_of a) (c, [], m)")
    case (Inr st)
    obtain c' groups m' where st: "st = (c', groups, m')" by (cases st)
    show ?thesis using over [OF Inr [unfolded st]] by (simp add: Inr st final Let_def)
  qed simp
  have "compose_body ix (without_memo F) key m = bindE (foldE (add_own ix key a) (as_objects a) ?start)
      (\<lambda>c. bindE (foldE (place_prefab ix (without_memo F) key a) (controls_of a) (c, [], m)) (?rest ix))"
    by (simp add: compose_body_def Inr Let_def)
  also have "\<dots> = bindE (foldE (add_own ix' key a) (as_objects a) ?start)
      (\<lambda>c. bindE (foldE (place_prefab ix' (without_memo F') key a) (controls_of a) (c, [], m)) (?rest ix'))"
    unfolding own place [symmetric] by (intro bindE_cong refl step)
  also have "\<dots> = compose_body ix' (without_memo F') key m"
    by (simp add: compose_body_def find Let_def)
  finally show ?thesis .
qed

lemma fresh_depends:
  assumes "same_tables ix ix'" "\<And>key. key \<notin> changed \<Longrightarrow> find_asset ix key = find_asset ix' key"
    "\<And>key a. key \<notin> changed \<Longrightarrow> find_asset ix key = Inr a \<Longrightarrow> asset_dependencies ix a \<inter> changed = {}"
  shows "key \<notin> changed \<Longrightarrow> fresh ix n key = fresh ix' n key"
proof (induction n arbitrary: key)
  case 0
  then show ?case by (simp add: cycle_composed_def assms(2))
next
  case (Suc n)
  have "compose_body ix (without_memo (fresh ix n)) key [] = compose_body ix' (without_memo (fresh ix' n)) key []"
  proof (rule compose_body_depends [OF assms(1) assms(2) [OF Suc.prems]])
    fix a s assume "find_asset ix key = Inr a" "s \<in> asset_dependencies ix a"
    with assms(3) [OF Suc.prems] have "s \<notin> changed" by auto
    then show "find_asset ix s = find_asset ix' s \<and> fresh ix n s = fresh ix' n s" by (simp add: assms(2) Suc.IH)
  qed
  then show ?case by simp
qed

lemma fresh_instances [simp]: "fresh (ix\<lparr>ix_instances := m\<rparr>) n key = fresh ix n key"
  by (rule fresh_depends [where changed = "{}"]) (simp_all add: same_tables_def find_asset_def)

lemma layered_instances [simp]: "layered (ix\<lparr>ix_instances := m\<rparr>) rank \<longleftrightarrow> layered ix rank"
  by (simp add: layered_def sources_of_def resolve_guid_def)

lemma coherent_instances [simp]: "coherent_memo (ix\<lparr>ix_instances := m\<rparr>) = coherent_memo ix"
  by (simp add: coherent_memo_def fun_eq_iff)


section \<open>Building\<close>









section \<open>Changes\<close>







section \<open>Incremental builds\<close>


definition sample_root :: asset_object where
  "sample_root = \<lparr>ob_id = 1, ob_class = 1, ob_stripped = False, ob_name = [82], ob_span = (0, 0), ob_line = 1,
     ob_references = [], ob_prefab = None\<rparr>"

definition sample_control :: asset_object where
  "sample_control = \<lparr>ob_id = 5, ob_class = 1001, ob_stripped = False, ob_name = [], ob_span = (0, 0), ob_line = 1,
     ob_references = [], ob_prefab = Some \<lparr>pf_source = \<lparr>pt_guid = [7], pt_id = 1\<rparr>, pf_parent = null_pointer,
       pf_modifications = [], pf_removed = [], pf_added = []\<rparr>\<rparr>"

definition sample_leaf :: asset where
  "sample_leaf = \<lparr>as_project = [], as_path = lit ''a.prefab'', as_guid = [7], as_objects = [sample_root],
     as_content = Some [3], as_unavailable = None\<rparr>"

definition sample_nest :: asset where
  "sample_nest = \<lparr>as_project = [], as_path = lit ''b.prefab'', as_guid = [8], as_objects = [sample_control],
     as_content = Some [4], as_unavailable = None\<rparr>"

definition sample_instance :: composed where
  "sample_instance = \<lparr>co_objects = [\<lparr>in_id = [49], in_definition = [3], in_object = sample_root, in_name = [82], in_type = None,
     in_issue = None, in_references = [], in_evidence = [], in_alive = True\<rparr>], co_aliases = [(1, [49])], co_incomplete = []\<rparr>"

definition sample_previous :: asset_index where
  "sample_previous = \<lparr>ix_assets = [([3], sample_leaf)], ix_guids = [(([], [7]), [[3]])], ix_scripts = [],
     ix_instances = [([3], sample_instance)], ix_native = []\<rparr>"

definition sample_index :: asset_index where
  "sample_index = \<lparr>ix_assets = [([3], sample_leaf), ([4], sample_nest)], ix_guids = [(([], [7]), [[3]])], ix_scripts = [],
     ix_instances = [], ix_native = []\<rparr>"

lemmas sample_defs = sample_root_def sample_control_def sample_leaf_def sample_nest_def sample_instance_def

lemmas compose_eval = compose_body_def find_asset_def own_instance_def add_own_def controls_of_def List.map_filter_simps
  resolve_own_def remove_dead_def empty_composed_def Let_def display_int_def display_nat.simps remove_loop.simps

lemma sample_leaf_body:
  assumes "bt_get (ix_assets ix) [3] = Some sample_leaf" "bt_get (ix_native ix) [] = None"
  shows "compose_body ix rec [3] m = Inr (sample_instance, bt_insert [3] sample_instance m)"
  using assms by (simp add: compose_eval sample_leaf_def sample_root_def sample_instance_def)

lemma sample_nest_body:
  assumes "bt_get (ix_assets ix) [4] = Some sample_nest" "rec [3] m = Inr (sample_instance, m')" "resolve_guid ix [] [7] = Some [3]"
  shows "\<exists>c. compose_body ix rec [4] m = Inr (c, bt_insert [4] c m')"
  using assms by (simp add: compose_eval sample_nest_def sample_control_def place_prefab_def sample_instance_def sample_root_def
    max_objects_def apply_group_def set_parent_def null_pointer_def pointer_null_def place_instance_def)

lemma max_depth_Suc: "max_depth = Suc (Suc 62)"
  by (simp add: max_depth_def)

lemma sample_gets:
  "bt_get (ix_assets sample_index) [3] = Some sample_leaf" "bt_get (ix_assets sample_index) [4] = Some sample_nest"
  "bt_get (ix_assets sample_previous) [3] = Some sample_leaf" "bt_get (ix_assets sample_previous) [4] = None"
  "bt_get (ix_native sample_index) [] = None" "bt_get (ix_native sample_previous) [] = None"
  "resolve_guid sample_index [] [7] = Some [3]"
  by (simp_all add: sample_index_def sample_previous_def bt_get_def resolve_guid_def)




lemma sample_instances: "ix_instances sample_index = []"
  by (simp add: sample_index_def)

lemma sample_compose:
  "compose sample_index max_depth {} [3] [] = Inr (sample_instance, [([3], sample_instance)])"
  "\<exists>c. compose sample_index max_depth {} [4] [([3], sample_instance)] = Inr (c, [([3], sample_instance), ([4], c)])"
  "composed_asset (sample_previous\<lparr>ix_instances := []\<rparr>) [3] = Inr sample_instance"
proof -
  show "compose sample_index max_depth {} [3] [] = Inr (sample_instance, [([3], sample_instance)])"
    using sample_instances by (simp add: max_depth_Suc compose.simps sample_leaf_body sample_gets)
  have "compose sample_index (Suc 62) {[4]} [3] [([3], sample_instance)] = Inr (sample_instance, [([3], sample_instance)])"
    by (simp add: compose.simps bt_get_def)
  from sample_nest_body [where rec = "compose sample_index (Suc 62) {[4]}", OF sample_gets(2) this sample_gets(7)]
  show "\<exists>c. compose sample_index max_depth {} [4] [([3], sample_instance)] = Inr (c, [([3], sample_instance), ([4], c)])"
    by (subst compose.simps) (simp add: max_depth_Suc bt_get_def sample_index_def)
  show "composed_asset (sample_previous\<lparr>ix_instances := []\<rparr>) [3] = Inr sample_instance"
    by (simp add: composed_asset_def max_depth_Suc compose.simps sample_leaf_body sample_gets)
qed

lemma sample_paths: "ends_with (as_path sample_leaf) (lit ''.prefab'')" "ends_with (as_path sample_nest) (lit ''.prefab'')"
  by (simp_all add: sample_leaf_def sample_nest_def ends_with_def lit_def)

lemma sample_builds: "\<exists>ix'. build_index sample_index = Inr ix'"
proof -
  obtain c where c: "compose sample_index max_depth {} [4] [([3], sample_instance)] = Inr (c, [([3], sample_instance), ([4], c)])"
    using sample_compose(2) by auto
  have same: "sample_index\<lparr>ix_instances := []\<rparr> = sample_index" "ix_assets sample_index = [([3], sample_leaf), ([4], sample_nest)]"
    by (simp_all add: sample_index_def)
  show ?thesis
    unfolding build_index_def Let_def sample_instances same by (simp add: build_step_def sample_paths sample_compose(1) c)
qed


section \<open>Built indexes are settled\<close>

text \<open>
  C29: from assets without repeated identifiers and compositions with this property, a build only stores
  compositions whose objects have distinct identifiers and in which nothing is alive that a removed object owns.
\<close>

theorem build_settles:
  assumes "unique_objects ix" "settled_all (ix_instances ix)" "build_index ix = Inr ix'"
  shows "settled_all (ix_instances ix')"
proof -
  let ?ix = "ix\<lparr>ix_instances := []\<rparr>"
  from assms(3) have run: "foldE (build_step ?ix) (ix_assets ix) (ix_instances ix) = Inr (ix_instances ix')"
    by (auto simp: build_index_def Let_def)
  have "unique_objects ?ix" "settled_all (ix_instances ?ix)" using assms(1) by (simp_all add: unique_objects_def settled_all_def)
  note step = compose_settled [OF this]
  show ?thesis
    by (rule foldE_invariant [where P = settled_all, OF run assms(2)]) (auto simp: build_step_def split: if_splits dest: step)
qed

theorem build_settles_witness:
  "\<exists>ix'. build_index sample_index = Inr ix' \<and> settled_all (ix_instances ix')"
proof -
  from sample_builds obtain ix' where ix': "build_index sample_index = Inr ix'" by blast
  have "unique_objects sample_index" "settled_all (ix_instances sample_index)"
    by (simp_all add: unique_objects_def settled_all_def sample_index_def sample_leaf_def sample_nest_def)
  from build_settles [OF this ix'] ix' show ?thesis by blast
qed

end
