(* ===== verification/Repositories.thy ===== *)
theory Repositories
  imports Encodings CSharp_Types
begin

text \<open>
  Repository names and authorization, \<^verbatim>\<open>src/src/repository.rs\<close>, with the revision selectors of
  \<^verbatim>\<open>src/src/repository/materialize.rs\<close> and the retention decision of \<^verbatim>\<open>src/src/repository/retention.rs\<close>. The
  parser of the url package is a parameter, like the existence of a local path.
\<close>

section \<open>Data\<close>

datatype endpoint = Github | Https str nat | Ssh str nat str bool

record identity =
  id_endpoint :: endpoint
  id_components :: "str list"

record repository =
  rp_identity :: identity
  rp_transport :: str
  rp_selector :: "str option"

datatype rule = Rule identity bool

text \<open>What the code asks of a \<^verbatim>\<open>Url\<close>.\<close>

record url =
  ur_scheme :: str
  ur_username :: str
  ur_password :: "str option"
  ur_host :: "str option"
  ur_port :: "nat option"
  ur_query :: "str option"
  ur_fragment :: "str option"

datatype repo_error = InvalidIdentifier | InvalidUrl | UnsupportedTransport | UrlExtras | MissingHost | HostNotLiteral
  | HttpsCredentials | InvalidUser | NotScp | AmbiguousTransport | MissingPath | BadComponent | WildcardPlace | BrowsingUrl
  | MissingName | PercentEncoding | NotUtf8 | InvalidSelector | UnsupportedRef | RuleSelectsBranch | NotAuthorized identity

datatype revision = DefaultBranch | Branch str | Tag str | Named str | Commit str

section \<open>Parts of a name\<close>

definition validate_host :: "str \<Rightarrow> repo_error + unit" where
  "validate_host host = ensureE (host \<noteq> [] \<and> \<not> starts_with host [45] \<and>
     list_all (\<lambda>c. is_ascii_alnum c \<or> c \<in> set (lit ''.-:[]'')) host) HostNotLiteral (Inr ())"

definition validate_user :: "str \<Rightarrow> repo_error + unit" where
  "validate_user user = ensureE (\<not> starts_with user [45] \<and>
     list_all (\<lambda>c. is_ascii_alnum c \<or> c \<in> set (lit ''._-'')) user) InvalidUser (Inr ())"

fun percent_bytes :: "nat list \<Rightarrow> repo_error + nat list" where
  "percent_bytes [] = Inr []"
| "percent_bytes (b # bs) =
     (if b = 37 then (case bs of
          x # y # rest \<Rightarrow> (case (digit_value x, digit_value y) of
              (Some i, Some j) \<Rightarrow> ensureE (i < 16 \<and> j < 16) PercentEncoding
                (bindE (percent_bytes rest) (\<lambda>ds. Inr ((i * 16 + j) # ds)))
            | _ \<Rightarrow> Inl PercentEncoding)
        | _ \<Rightarrow> Inl PercentEncoding)
      else bindE (percent_bytes bs) (\<lambda>ds. Inr (b # ds)))"

definition decode_name :: "str \<Rightarrow> repo_error + str" where
  "decode_name value = bindE (percent_bytes (utf8 value)) (\<lambda>bs. case from_utf8 bs of None \<Rightarrow> Inl NotUtf8 | Some s \<Rightarrow> Inr s)"

definition validate_branch :: "str \<Rightarrow> repo_error + unit" where
  "validate_branch branch = ensureE (branch \<noteq> [] \<and> branch \<noteq> lit ''@'' \<and> branch \<noteq> lit ''HEAD'' \<and>
     \<not> starts_with branch [45] \<and> \<not> ends_with branch [46] \<and> \<not> contains_text branch (lit ''..'') \<and> \<not> contains_text branch [64, 123] \<and>
     \<not> list_ex (\<lambda>c. is_control c \<or> is_whitespace c \<or> c \<in> {126, 94, 58, 63, 42, 91, 92}) branch \<and>
     list_all (\<lambda>part. part \<noteq> [] \<and> \<not> starts_with part [46] \<and> \<not> ends_with part (lit ''.lock'')) (split_on 47 branch))
   InvalidSelector (Inr ())"

definition revision_selector :: "str \<Rightarrow> repo_error + revision" where
  "revision_selector value = bindE (validate_branch value) (\<lambda>_.
     case strip_prefix value (lit ''refs/heads/'') of
       Some name \<Rightarrow> bindE (validate_branch name) (\<lambda>_. Inr (Branch name))
     | None \<Rightarrow> (case strip_prefix value (lit ''refs/tags/'') of
         Some name \<Rightarrow> bindE (validate_branch name) (\<lambda>_. Inr (Tag name))
       | None \<Rightarrow>
           if byte_len value \<in> {40, 64} \<and> list_all is_hex_digit value then Inr (Commit (map ascii_lower value))
           else ensureE (\<not> starts_with value (lit ''refs/'')) UnsupportedRef (Inr (Named value))))"

section \<open>Identities\<close>

definition looks_remote :: "str \<Rightarrow> bool" where
  "looks_remote input =
     (if starts_with input [47] \<or> starts_with input (lit ''./'') \<or> starts_with input (lit ''../'') then False
      else if contains_text input (lit ''://'') \<or> contains_text input (lit ''::'') then True
      else (case split_once (\<lambda>c. c = 58) input of None \<Rightarrow> False | Some (host, _) \<Rightarrow> 47 \<notin> set host))"

definition url_endpoint :: "url \<Rightarrow> repo_error + endpoint" where
  "url_endpoint u =
     ensureE (ur_scheme u \<in> {lit ''https'', lit ''ssh''}) UnsupportedTransport
     (ensureE (ur_password u = None \<and> ur_query u = None \<and> ur_fragment u = None) UrlExtras
     (case ur_host u of
        None \<Rightarrow> Inl MissingHost
      | Some h \<Rightarrow> ensureE (h \<noteq> []) MissingHost
          (let host = map ascii_lower h
           in bindE (validate_host host) (\<lambda>_.
             if ur_scheme u = lit ''https''
             then ensureE (ur_username u = []) HttpsCredentials (Inr (Https host (case ur_port u of None \<Rightarrow> 443 | Some p \<Rightarrow> p)))
             else bindE (validate_user (ur_username u)) (\<lambda>_.
               Inr (Ssh host (case ur_port u of None \<Rightarrow> 22 | Some p \<Rightarrow> p) (ur_username u) True))))))"

text \<open>The path of a URL is read from the text, as the parser normalizes dots.\<close>

definition url_parts :: "(str \<Rightarrow> url option) \<Rightarrow> str \<Rightarrow> repo_error + endpoint \<times> str" where
  "url_parts url_parse input = (case url_parse input of
     None \<Rightarrow> Inl InvalidUrl
   | Some u \<Rightarrow> bindE (url_endpoint u) (\<lambda>endpoint.
       let raw = (case split_once_text (lit ''://'') input of None \<Rightarrow> [] | Some (_, raw) \<Rightarrow> raw)
       in Inr (endpoint, (case split_once (\<lambda>c. c = 47) raw of None \<Rightarrow> [] | Some (_, path) \<Rightarrow> path))))"

definition scp_parts :: "str \<Rightarrow> repo_error + endpoint \<times> str" where
  "scp_parts input = (case split_once (\<lambda>c. c = 58) input of
     None \<Rightarrow> Inl NotScp
   | Some (authority, path) \<Rightarrow>
       ensureE (authority \<notin> {lit ''file'', lit ''http'', lit ''https'', lit ''ssh'', lit ''git'', lit ''ftp'', lit ''ext''} \<and> 37 \<notin> set path)
         AmbiguousTransport
       (ensureE (\<not> starts_with path [58] \<and> 47 \<notin> set authority) UnsupportedTransport
       (let (user, host) = (case split_once (\<lambda>c. c = 64) authority of None \<Rightarrow> ([], authority) | Some p \<Rightarrow> p)
        in bindE (validate_user user) (\<lambda>_. bindE (validate_host host) (\<lambda>_.
          Inr (Ssh (map ascii_lower host) 22 user (starts_with path [47]),
            (case strip_prefix path [47] of None \<Rightarrow> path | Some p \<Rightarrow> p)))))))"

definition separator_char :: "nat \<Rightarrow> bool" where
  "separator_char c \<longleftrightarrow> c \<in> {47, 92, 58, 63, 35, 91, 93, 64}"

fun check_parts :: "bool \<Rightarrow> str list \<Rightarrow> repo_error + unit" where
  "check_parts rule [] = Inr ()"
| "check_parts rule (part # parts) =
     ensureE (part \<noteq> [] \<and> part \<noteq> lit ''.'' \<and> part \<noteq> lit ''..'' \<and> \<not> starts_with part [45] \<and>
       \<not> list_ex (\<lambda>c. is_control c \<or> is_whitespace c \<or> separator_char c) part) BadComponent
     (ensureE (42 \<notin> set part \<or> rule \<and> (part = lit ''*'' \<or> part = lit ''**'' \<and> parts = [])) WildcardPlace
       (check_parts rule parts))"

definition is_github :: "endpoint \<Rightarrow> bool" where
  "is_github e = (case e of
     Https host port \<Rightarrow> host = lit ''github.com'' \<and> port = 443
   | Ssh host port user _ \<Rightarrow> host = lit ''github.com'' \<and> port = 22 \<and> user = lit ''git''
   | Github \<Rightarrow> False)"

definition github_components :: "bool \<Rightarrow> str list \<Rightarrow> repo_error + str list" where
  "github_components rule parts =
     ensureE (length parts = 2 \<or> rule \<and> parts \<noteq> [] \<and> last parts = lit ''**'' \<and> length parts \<le> 2) BrowsingUrl
     (let lower = map (map ascii_lower) parts;
          name = (case strip_suffix (last lower) (lit ''.git'') of None \<Rightarrow> last lower | Some s \<Rightarrow> s)
      in ensureE (name \<noteq> []) MissingName (Inr (butlast lower @ [name])))"

definition parse_identity :: "(str \<Rightarrow> url option) \<Rightarrow> str \<Rightarrow> bool \<Rightarrow> repo_error + identity" where
  "parse_identity url_parse input rule =
     ensureE (input \<noteq> [] \<and> \<not> list_ex (\<lambda>c. is_control c \<or> is_whitespace c \<or> c = 92) input) InvalidIdentifier
     (bindE (if contains_text input (lit ''://'') then url_parts url_parse input else scp_parts input) (\<lambda>(endpoint, path).
      bindE (mapE decode_name (split_on 47 path)) (\<lambda>parts.
      ensureE (parts \<noteq> []) MissingPath
      (bindE (check_parts rule parts) (\<lambda>_.
        if is_github endpoint
        then bindE (github_components rule parts) (\<lambda>parts. Inr \<lparr>id_endpoint = Github, id_components = parts\<rparr>)
        else Inr \<lparr>id_endpoint = endpoint, id_components = parts\<rparr>)))))"

definition trim_slashes :: "str \<Rightarrow> str" where
  "trim_slashes s = rev (dropWhile (\<lambda>c. c = 47) (rev s))"

definition parse_repository :: "(str \<Rightarrow> url option) \<Rightarrow> str \<Rightarrow> repo_error + repository option" where
  "parse_repository url_parse input =
     (let trimmed = trim input;
          input = (if starts_with (map ascii_lower trimmed) (lit ''github.com/'') then lit ''https://'' @ trimmed else trimmed)
      in if \<not> looks_remote input then Inr None
         else (let (transport, fragment) = (case split_once (\<lambda>c. c = 35) input of None \<Rightarrow> (input, None) | Some (a, b) \<Rightarrow> (a, Some b));
                   transport = trim_slashes transport
               in bindE (case fragment of None \<Rightarrow> Inr None | Some f \<Rightarrow> bindE (decode_name f) (\<lambda>s. Inr (Some s))) (\<lambda>selector.
                  bindE (case selector of None \<Rightarrow> Inr () | Some s \<Rightarrow> bindE (revision_selector s) (\<lambda>_. Inr ())) (\<lambda>_.
                  bindE (parse_identity url_parse transport False) (\<lambda>identity.
                    Inr (Some \<lparr>rp_identity = identity, rp_transport = transport, rp_selector = selector\<rparr>))))))"

text \<open>\<open>exists_path\<close>: the input names something on disk.\<close>

definition project_repository :: "(str \<Rightarrow> url option) \<Rightarrow> (str \<Rightarrow> bool) \<Rightarrow> str \<Rightarrow> bool \<Rightarrow> repo_error + repository option" where
  "project_repository url_parse exists_path input remote =
     bindE (parse_repository url_parse input) (\<lambda>r. case r of
       Some repo \<Rightarrow> Inr (Some repo)
     | None \<Rightarrow>
         (let input = trim input; path = (case split_once (\<lambda>c. c = 35) input of None \<Rightarrow> input | Some (p, _) \<Rightarrow> p)
          in if remote \<and> \<not> exists_path input \<and> \<not> starts_with path [46] \<and> length (split_on 47 path) = 2 \<and> \<not> starts_with path [47]
             then parse_repository url_parse (lit ''https://github.com/'' @ input) else Inr None))"

definition transports :: "repository \<Rightarrow> str option \<Rightarrow> str list" where
  "transports r preferred =
     (let path = join [47] (id_components (rp_identity r));
          ts = (if id_endpoint (rp_identity r) = Github
            then [lit ''https://github.com/'' @ path @ lit ''.git'', lit ''git@github.com:'' @ path @ lit ''.git''] else [rp_transport r])
      in case Option.bind preferred (\<lambda>p. find_first (\<lambda>t. t = p) ts) of
           None \<Rightarrow> ts | Some i \<Rightarrow> ts[0 := ts ! i, i := ts ! 0])"

definition display_identity :: "identity \<Rightarrow> str" where
  "display_identity i = (case id_endpoint i of
     Github \<Rightarrow> lit ''https://github.com/''
   | Https host port \<Rightarrow> lit ''https://'' @ host @ [58] @ display_nat port @ [47]
   | Ssh host port user absolute \<Rightarrow> lit ''ssh://'' @ (if user = [] then [] else user @ [64]) @ host @ [58] @ display_nat port @ [47] @
       (if absolute then [] else lit ''~/'')) @ join [47] (id_components i)"

section \<open>Rules\<close>

definition parse_rule :: "(str \<Rightarrow> url option) \<Rightarrow> str \<Rightarrow> repo_error + rule" where
  "parse_rule url_parse input = ensureE (35 \<notin> set input) RuleSelectsBranch
     (bindE (parse_identity url_parse input True) (\<lambda>i. Inr (Rule i False)))"

definition parse_private :: "(str \<Rightarrow> url option) \<Rightarrow> str \<Rightarrow> repo_error + rule" where
  "parse_private url_parse input = bindE (parse_rule url_parse input) (\<lambda>r. case r of Rule i _ \<Rightarrow> Inr (Rule i True))"

text \<open>The loop over the components of a rule.\<close>

fun components_match :: "str list \<Rightarrow> str list \<Rightarrow> bool" where
  "components_match [] names \<longleftrightarrow> names = []"
| "components_match (c # cs) [] \<longleftrightarrow> False"
| "components_match (c # cs) (n # ns) \<longleftrightarrow>
     (if c = lit ''**'' then True else if c \<noteq> lit ''*'' \<and> c \<noteq> n then False else components_match cs ns)"

definition rule_matches :: "rule \<Rightarrow> identity \<Rightarrow> bool" where
  "rule_matches r i = (case r of Rule pattern _ \<Rightarrow>
     if id_endpoint pattern \<noteq> id_endpoint i then False else components_match (id_components pattern) (id_components i))"

definition exact_match :: "rule \<Rightarrow> repository \<Rightarrow> bool" where
  "exact_match r repo = (case r of Rule pattern _ \<Rightarrow>
     \<not> list_ex (\<lambda>p. p = lit ''*'' \<or> p = lit ''**'') (id_components pattern) \<and> rule_matches r (rp_identity repo))"

definition authorize :: "rule list \<Rightarrow> repository \<Rightarrow> repo_error + bool" where
  "authorize rules repo =
     ensureE (list_ex (\<lambda>r. rule_matches r (rp_identity repo)) rules) (NotAuthorized (rp_identity repo))
       (Inr (list_ex (\<lambda>r. case r of Rule _ private \<Rightarrow> private \<and> rule_matches r (rp_identity repo)) rules))"

section \<open>Retention\<close>

text \<open>The parts of a cached \<^verbatim>\<open>State\<close>, of the options and of the default branch file that the decision reads.\<close>

record cached_state =
  sa_repository :: identity
  sa_transport :: str
  sa_branch :: str
  sa_target :: "revision option"
  sa_policy :: str
  sa_prepared :: "str option"

record retention =
  re_rules :: "rule list"
  re_repo_ttl :: nat
  re_branch_ttl :: nat
  re_selection :: str

record default_branch =
  db_branch :: str
  db_previous :: "str option"

definition cached_branch :: "cached_state \<Rightarrow> str option" where
  "cached_branch st = (case sa_prepared st of
     Some b \<Rightarrow> Some b
   | None \<Rightarrow> (case sa_target st of Some (Branch name) \<Rightarrow> Some name | None \<Rightarrow> Some (sa_branch st) | _ \<Rightarrow> None))"

datatype protection = AllowedDefault | DefaultUnknown | PreviousDefault

definition retention_decision :: "retention \<Rightarrow> default_branch option \<Rightarrow> (identity \<Rightarrow> str \<Rightarrow> 'e + bool) \<Rightarrow> cached_state \<Rightarrow>
    'e + protection option \<times> nat" where
  "retention_decision policy found ready st =
     (let branch = cached_branch st;
          is_default = (case found of None \<Rightarrow> False | Some d \<Rightarrow> branch = Some (db_branch d));
          exact = list_ex (\<lambda>r. exact_match r \<lparr>rp_identity = sa_repository st, rp_transport = sa_transport st, rp_selector = None\<rparr>) (re_rules policy);
          ttl = (if is_default then re_repo_ttl policy else re_branch_ttl policy)
      in bindE (if \<not> exact then Inr True
           else if is_default \<and> re_selection policy \<noteq> [] \<and> sa_policy st \<noteq> re_selection policy
             then (case found of None \<Rightarrow> Inr False | Some d \<Rightarrow> ready (sa_repository st) (db_branch d)) else Inr False) (\<lambda>free.
         if free then Inr (None, ttl)
         else if is_default then Inr (Some AllowedDefault, ttl)
         else (case found of
             None \<Rightarrow> Inr (Some DefaultUnknown, ttl)
           | Some d \<Rightarrow> if db_previous d = branch \<and> branch \<noteq> None
               then bindE (ready (sa_repository st) (db_branch d)) (\<lambda>done_already.
                 Inr (if done_already then None else Some PreviousDefault, ttl))
               else Inr (None, ttl))))"

end
