(* ===== verification/Repositories_Correct.thy ===== *)
theory Repositories_Correct
  imports Repositories
begin

text \<open>
  What a parsed repository name guarantees to the commands and requests it is put into, and what the rules
  of the configuration allow.
\<close>

section \<open>Components\<close>

definition plain_part :: "str \<Rightarrow> bool" where
  "plain_part part \<longleftrightarrow> part \<noteq> [] \<and> \<not> starts_with part [45] \<and>
     list_all (\<lambda>c. \<not> is_control c \<and> \<not> is_whitespace c \<and> \<not> separator_char c) part"

definition dots :: "str set" where
  "dots = {lit ''.'', lit ''..''}"

lemma check_parts_Inr:
  "check_parts rule parts = Inr () \<longleftrightarrow> (\<forall>i < length parts. plain_part (parts ! i) \<and> parts ! i \<notin> dots \<and>
     (42 \<in> set (parts ! i) \<longrightarrow> rule \<and> (parts ! i = lit ''*'' \<or> parts ! i = lit ''**'' \<and> Suc i = length parts)))"
proof (induction parts)
  case (Cons part parts)
  have plain: "part \<noteq> [] \<and> part \<noteq> lit ''.'' \<and> part \<noteq> lit ''..'' \<and> \<not> starts_with part [45] \<and>
      \<not> list_ex (\<lambda>c. is_control c \<or> is_whitespace c \<or> separator_char c) part \<longleftrightarrow> plain_part part \<and> part \<notin> dots"
    by (auto simp: plain_part_def dots_def list_ex_iff list_all_iff)
  show ?case unfolding check_parts.simps plain ensureE_Inr_iff Cons.IH
    by (simp add: All_less_Suc2)
qed simp

lemma lower_classes:
  "is_control (ascii_lower c) \<longleftrightarrow> is_control c" "is_whitespace (ascii_lower c) \<longleftrightarrow> is_whitespace c"
  "separator_char (ascii_lower c) \<longleftrightarrow> separator_char c" "ascii_lower c = 45 \<longleftrightarrow> c = 45" "ascii_lower c = 42 \<longleftrightarrow> c = 42"
proof -
  have "65 \<le> c \<and> c \<le> 90 \<and> ascii_lower c = c + 32 \<or> ascii_lower c = c" by (simp add: ascii_lower_def is_ascii_upper_def)
  then show "is_control (ascii_lower c) \<longleftrightarrow> is_control c" "is_whitespace (ascii_lower c) \<longleftrightarrow> is_whitespace c"
    "separator_char (ascii_lower c) \<longleftrightarrow> separator_char c" "ascii_lower c = 45 \<longleftrightarrow> c = 45" "ascii_lower c = 42 \<longleftrightarrow> c = 42"
    by (elim disjE conjE; simp add: is_control_def is_whitespace_def separator_char_def)+
qed






lemma lower_same [simp]: "ascii_lower (ascii_lower c) = ascii_lower c"
  by (simp add: ascii_lower_def is_ascii_upper_def)

text \<open>A name on GitHub: the components in lower case, the last without its suffix.\<close>

definition without_suffix :: "str \<Rightarrow> str" where
  "without_suffix name = (case strip_suffix name (lit ''.git'') of None \<Rightarrow> name | Some s \<Rightarrow> s)"


lemma github_components_Inr:
  assumes "github_components rule parts = Inr names"
  shows "names = butlast (map (map ascii_lower) parts) @ [without_suffix (last (map (map ascii_lower) parts))]"
    "without_suffix (last (map (map ascii_lower) parts)) \<noteq> []" "parts \<noteq> []" "length names = length parts"
    "length parts = 2 \<or> rule \<and> last parts = lit ''**'' \<and> length parts \<le> 2"
proof -
  show ne: "parts \<noteq> []" using assms by (auto simp: github_components_def)
  show n: "names = butlast (map (map ascii_lower) parts) @ [without_suffix (last (map (map ascii_lower) parts))]"
    and "without_suffix (last (map (map ascii_lower) parts)) \<noteq> []"
    using assms by (simp_all add: github_components_def without_suffix_def Let_def)
  show "length parts = 2 \<or> rule \<and> last parts = lit ''**'' \<and> length parts \<le> 2"
    using assms by (auto simp: github_components_def Let_def)
  show "length names = length parts" using ne by (simp add: n)
qed

section \<open>Safe names\<close>

definition literal_host :: "str \<Rightarrow> bool" where
  "literal_host host \<longleftrightarrow> host \<noteq> [] \<and> \<not> starts_with host [45] \<and> list_all (\<lambda>c. is_ascii_alnum c \<or> c \<in> set (lit ''.-:[]'')) host"

definition plain_user :: "str \<Rightarrow> bool" where
  "plain_user user \<longleftrightarrow> \<not> starts_with user [45] \<and> list_all (\<lambda>c. is_ascii_alnum c \<or> c \<in> set (lit ''._-'')) user"





lemma validate_host_Inr [simp]: "validate_host h = Inr u \<longleftrightarrow> literal_host h"
  by (cases u) (auto simp: validate_host_def literal_host_def)

lemma validate_user_Inr [simp]: "validate_user h = Inr u \<longleftrightarrow> plain_user h"
  by (cases u) (auto simp: validate_user_def plain_user_def)




lemma mapE_not_Nil: "mapE f xs = Inr ys \<Longrightarrow> xs \<noteq> [] \<Longrightarrow> ys \<noteq> []"
  by (cases xs) auto



definition built_identity :: "bool \<Rightarrow> endpoint \<times> str \<Rightarrow> str list \<Rightarrow> identity \<Rightarrow> bool" where
  "built_identity rule ep parts i \<longleftrightarrow>
     (if is_github (fst ep) then \<exists>names. github_components rule parts = Inr names \<and> i = \<lparr>id_endpoint = Github, id_components = names\<rparr>
      else i = \<lparr>id_endpoint = fst ep, id_components = parts\<rparr>)"

lemma parse_identity_parts:
  assumes "parse_identity url_parse s rule = Inr i"
  obtains ep parts where "(if contains_text s (lit ''://'') then url_parts url_parse s else scp_parts s) = Inr ep"
    "parts \<noteq> []" "check_parts rule parts = Inr ()" "built_identity rule ep parts i"
proof -
  from assms have "bindE (if contains_text s (lit ''://'') then url_parts url_parse s else scp_parts s)
      (\<lambda>ep. bindE (mapE decode_name (split_on 47 (snd ep))) (\<lambda>parts. ensureE (parts \<noteq> []) MissingPath
      (bindE (check_parts rule parts) (\<lambda>_. if is_github (fst ep)
        then bindE (github_components rule parts) (\<lambda>parts. Inr \<lparr>id_endpoint = Github, id_components = parts\<rparr>)
        else Inr \<lparr>id_endpoint = fst ep, id_components = parts\<rparr>)))) = Inr i"
    unfolding parse_identity_def split_beta ensureE_Inr_iff by (rule conjunct2)
  then obtain ep where ep: "(if contains_text s (lit ''://'') then url_parts url_parse s else scp_parts s) = Inr ep"
    and rest: "bindE (mapE decode_name (split_on 47 (snd ep))) (\<lambda>parts. ensureE (parts \<noteq> []) MissingPath
      (bindE (check_parts rule parts) (\<lambda>_. if is_github (fst ep)
        then bindE (github_components rule parts) (\<lambda>parts. Inr \<lparr>id_endpoint = Github, id_components = parts\<rparr>)
        else Inr \<lparr>id_endpoint = fst ep, id_components = parts\<rparr>))) = Inr i"
    by (rule bindE_Inr_elim)
  from rest obtain parts where "parts \<noteq> []" "check_parts rule parts = Inr ()" "built_identity rule ep parts i"
    by (auto simp: built_identity_def split: if_splits)
  with ep that show ?thesis by blast
qed


section \<open>Safe repositories\<close>









definition sample_url :: "str \<Rightarrow> url option" where
  "sample_url s = (if s = lit ''https://h/o/r'' then Some \<lparr>ur_scheme = lit ''https'', ur_username = [], ur_password = None,
     ur_host = Some (lit ''h''), ur_port = None, ur_query = None, ur_fragment = None\<rparr> else None)"


lemmas parse_eval_names = parse_repository_def parse_identity_def scp_parts_def looks_remote_def trim_def trim_start_def trim_end_def
  trim_slashes_def split_once_def decode_name_def validate_user_def validate_host_def is_github_def github_components_def
  strip_prefix_def strip_suffix_def separator_char_def is_whitespace_def is_control_def is_ascii_alnum_def is_ascii_alpha_def
  is_ascii_lower_def is_ascii_upper_def is_digit_def ascii_lower_def utf8_char_def Let_def lit_def from_utf8.simps utf8_first_def
  utf8_width_def utf8_value_def scalar_def



section \<open>Authorization\<close>

definition wild :: "str \<Rightarrow> str \<Rightarrow> bool" where
  "wild part name \<longleftrightarrow> part = lit ''*'' \<or> part = name"

text \<open>What a rule allows: its components one for one, or, after a final double star, anything longer.\<close>

definition allows :: "str list \<Rightarrow> str list \<Rightarrow> bool" where
  "allows pattern names \<longleftrightarrow>
     (if pattern \<noteq> [] \<and> last pattern = lit ''**''
      then length pattern \<le> length names \<and> list_all2 wild (butlast pattern) (take (length pattern - 1) names)
      else list_all2 wild pattern names)"

definition covers :: "rule \<Rightarrow> identity \<Rightarrow> bool" where
  "covers r i \<longleftrightarrow> (case r of Rule p _ \<Rightarrow> id_endpoint p = id_endpoint i \<and> allows (id_components p) (id_components i))"

lemma components_match_allows:
  "lit ''**'' \<notin> set (butlast pattern) \<Longrightarrow> components_match pattern names \<longleftrightarrow> allows pattern names"
proof (induction pattern names rule: components_match.induct)
  case (3 c cs n ns)
  show ?case
  proof (cases "cs = []")
    case True
    then show ?thesis by (cases ns) (auto simp: allows_def wild_def)
  next
    case False
    then have "allows (c # cs) (n # ns) \<longleftrightarrow> wild c n \<and> allows cs ns" by (cases cs) (auto simp: allows_def)
    moreover have "c \<noteq> lit ''**''" "lit ''**'' \<notin> set (butlast cs)" using 3(2) False by auto
    ultimately show ?thesis using 3(1) by (auto simp: wild_def)
  qed
qed (auto simp: allows_def)

lemma github_components_stars:
  assumes "github_components rule parts = Inr names" "lit ''**'' \<notin> set (butlast parts)"
  shows "lit ''**'' \<notin> set (butlast names)"
proof -
  have "ascii_lower c = 42 \<longleftrightarrow> c = 42" for c by (rule lower_classes(5))
  then have star: "map ascii_lower p = lit ''**'' \<longleftrightarrow> p = lit ''**''" for p by (simp add: lit_def map_eq_Cons_conv)
  have "butlast names = map (map ascii_lower) (butlast parts)"
    unfolding github_components_Inr(1) [OF assms(1)] by (simp add: map_butlast)
  then have names: "set (butlast names) = map ascii_lower ` set (butlast parts)" by simp
  show ?thesis
  proof
    assume "lit ''**'' \<in> set (butlast names)"
    then obtain p where p: "p \<in> set (butlast parts)" "map ascii_lower p = lit ''**''" unfolding names by (metis imageE)
    from p(2) have "p = lit ''**''" unfolding star .
    with p(1) assms(2) show False by simp
  qed
qed

lemma parse_rule_stars:
  assumes "parse_rule url_parse s = Inr r"
  shows "\<exists>i b. r = Rule i b \<and> lit ''**'' \<notin> set (butlast (id_components i))"
proof -
  obtain i where i: "parse_identity url_parse s True = Inr i" "r = Rule i False"
    using assms by (auto simp: parse_rule_def)
  from i(1) obtain ep parts where parts: "check_parts True parts = Inr ()" and e: "built_identity True ep parts i"
    by (rule parse_identity_parts)
  have "butlast parts ! k \<noteq> lit ''**''" if k: "k < length (butlast parts)" for k
  proof
    assume "butlast parts ! k = lit ''**''"
    with k have "parts ! k = lit ''**''" "42 \<in> set (parts ! k)" "k < length parts" "Suc k \<noteq> length parts"
      by (auto simp: nth_butlast lit_def)
    with parts show False by (auto simp: check_parts_Inr)
  qed
  then have stars: "lit ''**'' \<notin> set (butlast parts)" by (auto simp: in_set_conv_nth)
  show ?thesis
  proof (cases "is_github (fst ep)")
    case True
    with e i(2) github_components_stars [OF _ stars] show ?thesis by (auto simp: built_identity_def)
  next
    case False
    with e i(2) stars show ?thesis by (auto simp: built_identity_def)
  qed
qed

text \<open>
  C13: a repository is authorized exactly when some configured rule covers it, and private access exactly when
  some private rule does: same endpoint, and component for component the rule's name, a star, or what
  follows a final double star.
\<close>

theorem authorize_exact:
  assumes "\<forall>r \<in> set rules. \<exists>s. parse_rule url_parse s = Inr r \<or> parse_private url_parse s = Inr r"
  shows "authorize rules repo =
    (if \<exists>r \<in> set rules. covers r (rp_identity repo)
     then Inr (\<exists>i. Rule i True \<in> set rules \<and> covers (Rule i True) (rp_identity repo))
     else Inl (NotAuthorized (rp_identity repo)))"
proof -
  have match: "rule_matches r i \<longleftrightarrow> covers r i" if r: "r \<in> set rules" for r i
  proof -
    from assms r obtain s where "parse_rule url_parse s = Inr r \<or> parse_private url_parse s = Inr r" by blast
    then have "\<exists>j b. r = Rule j b \<and> lit ''**'' \<notin> set (butlast (id_components j))"
      using parse_rule_stars [of url_parse s] by (fastforce simp: parse_private_def split: rule.splits)
    then obtain j b where r: "r = Rule j b" "lit ''**'' \<notin> set (butlast (id_components j))" by blast
    from components_match_allows [OF r(2)] show ?thesis by (simp add: r(1) rule_matches_def covers_def)
  qed
  have "(\<exists>r \<in> set rules. case r of Rule _ private \<Rightarrow> private \<and> rule_matches r (rp_identity repo)) \<longleftrightarrow>
      (\<exists>i. Rule i True \<in> set rules \<and> covers (Rule i True) (rp_identity repo))"
    using match by (auto split: rule.splits) (metis (full_types) rule.exhaust)+
  then show ?thesis using match by (auto simp: authorize_def list_ex_iff ensureE_def)
qed

lemma sample_rules:
  "parse_rule sample_url (lit ''h:o/*'') = Inr (Rule \<lparr>id_endpoint = Ssh (lit ''h'') 22 [] False, id_components = [lit ''o'', lit ''*'']\<rparr> False)"
  "parse_private sample_url (lit ''h:p/**'') = Inr (Rule \<lparr>id_endpoint = Ssh (lit ''h'') 22 [] False, id_components = [lit ''p'', lit ''**'']\<rparr> True)"
  by (simp_all add: parse_private_def parse_rule_def parse_eval_names)

theorem authorize_exact_witness:
  "\<exists>rules. length rules = 2 \<and>
    authorize rules \<lparr>rp_identity = \<lparr>id_endpoint = Ssh (lit ''h'') 22 [] False, id_components = [lit ''o'', lit ''r'']\<rparr>, rp_transport = [], rp_selector = None\<rparr> = Inr False \<and>
    authorize rules \<lparr>rp_identity = \<lparr>id_endpoint = Ssh (lit ''h'') 22 [] False, id_components = [lit ''p'', lit ''q'', lit ''r'']\<rparr>, rp_transport = [], rp_selector = None\<rparr> = Inr True"
proof -
  let ?a = "Rule \<lparr>id_endpoint = Ssh (lit ''h'') 22 [] False, id_components = [lit ''o'', lit ''*'']\<rparr> False"
  let ?b = "Rule \<lparr>id_endpoint = Ssh (lit ''h'') 22 [] False, id_components = [lit ''p'', lit ''**'']\<rparr> True"
  have "\<forall>r \<in> set [?a, ?b]. \<exists>s. parse_rule sample_url s = Inr r \<or> parse_private sample_url s = Inr r"
    using sample_rules by auto
  from authorize_exact [OF this] show ?thesis
    by (intro exI [of _ "[?a, ?b]"]) (simp add: covers_def allows_def wild_def)
qed

text \<open>
  The suffix of a GitHub name is removed after its dots are checked, so that a parsed name can be a
  parent: requests for \<^verbatim>\<open>repos/o/..\<close> leave the owner that a rule covers.
\<close>

lemma github_parent_name:
  "parse_repository url_parse (lit ''git@github.com:o/...git'') = Inr (Some \<lparr>rp_identity = \<lparr>id_endpoint = Github, id_components = [lit ''o'', lit ''..'']\<rparr>,
     rp_transport = lit ''git@github.com:o/...git'', rp_selector = None\<rparr>)"
  by (simp add: parse_eval_names ends_with_def)

lemma retention_exact:
  "retention_decision policy found ready st = Inr (Some p, ttl) \<Longrightarrow>
    \<exists>r \<in> set (re_rules policy). exact_match r \<lparr>rp_identity = sa_repository st, rp_transport = sa_transport st, rp_selector = None\<rparr>"
proof (rule ccontr)
  let ?repo = "\<lparr>rp_identity = sa_repository st, rp_transport = sa_transport st, rp_selector = None\<rparr>"
  assume run: "retention_decision policy found ready st = Inr (Some p, ttl)"
    and "\<not> (\<exists>r \<in> set (re_rules policy). exact_match r ?repo)"
  then have "\<not> list_ex (\<lambda>r. exact_match r ?repo) (re_rules policy)" by (simp add: list_ex_iff)
  with run show False by (simp add: retention_decision_def Let_def)
qed

end
